(* ===== verification/Xv6_Prelude.thy ===== *)
theory Xv6_Prelude
  imports Main "HOL-Library.Word"
begin

text \<open>
  The prelude of the development.  It holds what every component shares: the ways kernel
  code can go wrong (\<open>kerr\<close>), the type of kernel code over a state (\<open>kmon\<close>: a state
  transformer that either fails or returns a value and the new state), the combinators the
  models are written with, a weakest-precondition transformer with its rules, and generic
  lemmas on integers of fixed width and on lists.
\<close>

section \<open>Failures and kernel code\<close>

text \<open>
  \<open>Panic\<close> carries the string the source passes to \<open>panic\<close>.  \<open>Null_Deref\<close> and
  \<open>Out_Of_Bounds\<close> are reads and writes the C program must not perform, \<open>Dangling\<close> is an
  access to a heap cell that is not allocated.  \<open>Spins\<close> is the outcome of \<open>acquire\<close> on a
  lock another hart holds: the caller makes no progress until that hart releases it.
  \<open>Diverges\<close> is a loop of the source that never ends.  \<open>Sleeps\<close> is the outcome of an
  operation that gives up the processor before it is done, where the model does not follow it
  further.
\<close>

datatype kerr = Panic string | Null_Deref | Out_Of_Bounds | Dangling | Spins | Diverges | Sleeps

type_synonym ('s, 'a) kmon = "'s \<Rightarrow> kerr + ('a \<times> 's)"

definition ret :: "'a \<Rightarrow> ('s, 'a) kmon" where
  "ret a = (\<lambda>s. Inr (a, s))"

definition failM :: "kerr \<Rightarrow> ('s, 'a) kmon" where
  "failM e = (\<lambda>s. Inl e)"

definition bindM :: "('s, 'a) kmon \<Rightarrow> ('a \<Rightarrow> ('s, 'b) kmon) \<Rightarrow> ('s, 'b) kmon" where
  "bindM m f = (\<lambda>s. case m s of Inl e \<Rightarrow> Inl e | Inr (a, t) \<Rightarrow> f a t)"

definition thenM :: "('s, 'a) kmon \<Rightarrow> ('s, 'b) kmon \<Rightarrow> ('s, 'b) kmon" where
  "thenM m n = bindM m (\<lambda>_. n)"

definition gets :: "('s \<Rightarrow> 'a) \<Rightarrow> ('s, 'a) kmon" where
  "gets f = (\<lambda>s. Inr (f s, s))"

definition modify :: "('s \<Rightarrow> 's) \<Rightarrow> ('s, unit) kmon" where
  "modify f = (\<lambda>s. Inr ((), f s))"

definition whenM :: "bool \<Rightarrow> ('s, unit) kmon \<Rightarrow> ('s, unit) kmon" where
  "whenM c m = (if c then m else ret ())"

text \<open>A pure computation that may fail, as kernel code.\<close>

definition liftM :: "kerr + 'a \<Rightarrow> ('s, 'a) kmon" where
  "liftM r = (\<lambda>s. case r of Inl e \<Rightarrow> Inl e | Inr a \<Rightarrow> Inr (a, s))"

text \<open>\<open>panic\<close> of kernel/printf.c never returns.\<close>

abbreviation panic :: "string \<Rightarrow> ('s, 'a) kmon" where
  "panic msg \<equiv> failM (Panic msg)"

text \<open>A \<open>for\<close> loop over the elements of a list, in order.\<close>

fun forM :: "'a list \<Rightarrow> ('a \<Rightarrow> ('s, unit) kmon) \<Rightarrow> ('s, unit) kmon" where
  "forM [] body = ret ()"
| "forM (x # xs) body = thenM (body x) (forM xs body)"

section \<open>Running kernel code\<close>

named_theorems monad_simps \<open>unfolding of the combinators at a given state\<close>

lemma ret_apply [monad_simps]: "ret a s = Inr (a, s)"
  by (simp add: ret_def)

lemma failM_apply [monad_simps]: "failM e s = Inl e"
  by (simp add: failM_def)

lemma gets_apply [monad_simps]: "gets f s = Inr (f s, s)"
  by (simp add: gets_def)

lemma modify_apply [monad_simps]: "modify f s = Inr ((), f s)"
  by (simp add: modify_def)

lemma liftM_apply [monad_simps]:
  "liftM r s = (case r of Inl e \<Rightarrow> Inl e | Inr a \<Rightarrow> Inr (a, s))"
  by (simp add: liftM_def)

lemma bindM_apply [monad_simps]:
  "bindM m f s = (case m s of Inl e \<Rightarrow> Inl e | Inr (a, t) \<Rightarrow> f a t)"
  by (simp add: bindM_def)

lemma thenM_apply [monad_simps]:
  "thenM m n s = (case m s of Inl e \<Rightarrow> Inl e | Inr (a, t) \<Rightarrow> n t)"
  by (simp add: thenM_def bindM_def)

lemma whenM_apply [monad_simps]: "whenM c m s = (if c then m s else Inr ((), s))"
  by (simp add: whenM_def ret_def)

lemma bindM_assoc: "bindM (bindM m f) g = bindM m (\<lambda>a. bindM (f a) g)"
  by (rule ext) (simp add: bindM_def split: sum.splits prod.splits)

lemma bindM_ret [simp]: "bindM m ret = m" and ret_bindM [simp]: "bindM (ret a) f = f a"
  by (rule ext, simp add: bindM_def ret_def split: sum.splits)+

lemma bindM_InrE:
  assumes "bindM m f s = Inr (b, u)"
  obtains a t where "m s = Inr (a, t)" and "f a t = Inr (b, u)"
  using assms by (auto simp: bindM_def split: sum.splits)

lemma thenM_InrE:
  assumes "thenM m n s = Inr (b, u)"
  obtains a t where "m s = Inr (a, t)" and "n t = Inr (b, u)"
  using assms by (auto simp: thenM_def elim: bindM_InrE)

text \<open>One step of a run at a time.\<close>

lemma bindM_run: "m s = Inr (a, t) \<Longrightarrow> f a t = r \<Longrightarrow> bindM m f s = r"
  by (simp add: bindM_apply)

lemma thenM_run: "m s = Inr (a, t) \<Longrightarrow> n t = r \<Longrightarrow> thenM m n s = r"
  by (simp add: thenM_apply)

lemma forM_append: "forM (xs @ ys) f s = thenM (forM xs f) (forM ys f) s"
proof (induction xs arbitrary: s)
  case Nil
  show ?case by (simp add: monad_simps)
next
  case (Cons x xs)
  then show ?case by (auto simp: thenM_apply split: sum.split)
qed

lemma gets_run: "f s = a \<Longrightarrow> gets f s = Inr (a, s)"
  by (simp add: gets_apply)

lemma modify_run: "f s = t \<Longrightarrow> modify f s = Inr ((), t)"
  by (simp add: modify_apply)

lemma ret_run: "ret a s = Inr (a, s)"
  by (simp add: ret_apply)

section \<open>Weakest preconditions\<close>

text \<open>
  \<open>wpM m Q s\<close>: from \<open>s\<close> the code \<open>m\<close> returns (it neither panics nor faults), and the
  result and the new state satisfy \<open>Q\<close>.
\<close>

definition wpM :: "('s, 'a) kmon \<Rightarrow> ('a \<Rightarrow> 's \<Rightarrow> bool) \<Rightarrow> 's \<Rightarrow> bool" where
  "wpM m Q s = (case m s of Inl e \<Rightarrow> False | Inr (a, t) \<Rightarrow> Q a t)"

named_theorems wp \<open>weakest preconditions of the combinators and the operations\<close>

lemma wp_ret [wp]: "wpM (ret a) Q s = Q a s"
  by (simp add: wpM_def ret_def)

lemma wp_fail [wp]: "wpM (failM e) Q s = False"
  by (simp add: wpM_def failM_def)

lemma wp_lift [wp]: "wpM (liftM (Inr a)) Q s = Q a s"
  by (simp add: wpM_def liftM_def)

lemma wp_gets [wp]: "wpM (gets f) Q s = Q (f s) s"
  by (simp add: wpM_def gets_def)

lemma wp_modify [wp]: "wpM (modify f) Q s = Q () (f s)"
  by (simp add: wpM_def modify_def)

lemma wp_bind [wp]: "wpM (bindM m f) Q s = wpM m (\<lambda>a. wpM (f a) Q) s"
  by (auto simp: wpM_def bindM_def split: sum.splits)

lemma wp_then [wp]: "wpM (thenM m n) Q s = wpM m (\<lambda>_. wpM n Q) s"
  by (simp add: thenM_def wp_bind)

lemma wp_when [wp]: "wpM (whenM c m) Q s = (if c then wpM m Q s else Q () s)"
  by (simp add: whenM_def wp_ret)

lemma wpM_mono: "wpM m Q s \<Longrightarrow> (\<And>a t. Q a t \<Longrightarrow> R a t) \<Longrightarrow> wpM m R s"
  by (auto simp: wpM_def split: sum.splits)

lemma wpM_conj: "wpM m Q s \<Longrightarrow> wpM m R s \<Longrightarrow> wpM m (\<lambda>a t. Q a t \<and> R a t) s"
  by (auto simp: wpM_def split: sum.splits)

lemma wpM_iff: "wpM m Q s \<longleftrightarrow> (\<exists>a t. m s = Inr (a, t) \<and> Q a t)"
  by (auto simp: wpM_def split: sum.splits)

lemma wpM_D: "m s = Inr (a, t) \<Longrightarrow> wpM m Q s \<Longrightarrow> Q a t"
  by (simp add: wpM_def)

lemma wpM_I: "m s = Inr (a, t) \<Longrightarrow> Q a t \<Longrightarrow> wpM m Q s"
  by (simp add: wpM_def)

text \<open>The rule for loops: an invariant indexed by what is left of the list.\<close>

lemma wp_forM:
  assumes "I xs s"
    and "\<And>x ys t. I (x # ys) t \<Longrightarrow> wpM (body x) (\<lambda>_. I ys) t"
  shows "wpM (forM xs body) (\<lambda>_. I []) s"
  using assms(1)
proof (induction xs arbitrary: s)
  case Nil
  then show ?case by (simp add: wp_ret)
next
  case (Cons x xs)
  have "wpM (body x) (\<lambda>_. I xs) s" by (rule assms(2)) (rule Cons.prems)
  then show ?case
    unfolding forM.simps wp_then by (rule wpM_mono) (rule Cons.IH)
qed

text \<open>A loop that counts from \<open>a\<close> up to \<open>b\<close>.\<close>

lemma wp_upto:
  assumes "a \<le> b" and "I a s"
    and step: "\<And>c t. a \<le> c \<Longrightarrow> c < b \<Longrightarrow> I c t \<Longrightarrow> wpM (body (int c)) (\<lambda>_. I (Suc c)) t"
  shows "wpM (forM [int a..int b - 1] body) (\<lambda>_. I b) s"
proof -
  let ?J = "\<lambda>xs t. \<exists>c. xs = [int c..int b - 1] \<and> a \<le> c \<and> c \<le> b \<and> I c t"
  have "wpM (forM [int a..int b - 1] body) (\<lambda>_. ?J []) s"
  proof (rule wp_forM)
    show "?J [int a..int b - 1] s" using assms(1,2) by blast
  next
    fix x ys t
    assume "?J (x # ys) t"
    then obtain c where c: "x # ys = [int c..int b - 1]" "a \<le> c" "I c t" by blast
    then have cb: "c < b" by (cases "int c \<le> int b - 1") auto
    then have x: "x = int c" "ys = [int (Suc c)..int b - 1]"
      using c(1) by (simp_all add: upto_rec1 [of "int c"] add.commute)
    show "wpM (body x) (\<lambda>_. ?J ys) t"
      unfolding x(1)
    proof (rule wpM_mono [OF step [OF c(2) cb c(3)]])
      show "?J ys u" if "I (Suc c) u" for u
        using that c(2) cb x(2) by (intro exI [of _ "Suc c"]) simp
    qed
  qed
  then show ?thesis
  proof (rule wpM_mono)
    fix u t assume "?J [] t"
    then obtain c where c: "[] = [int c..int b - 1]" "c \<le> b" "I c t" by blast
    then have "c = b" by (cases "int c \<le> int b - 1") simp_all
    then show "I b t" using c(3) by simp
  qed
qed

section \<open>Integers of fixed width\<close>

text \<open>
  Values of C type \<open>int\<close> are modelled as \<^typ>\<open>int\<close> with the reduction to 32-bit two's
  complement written out where the source converts or may overflow.
\<close>

definition c_int :: "int \<Rightarrow> int" where
  "c_int x = (x + 2147483648) mod 4294967296 - 2147483648"

lemma c_int_id [simp]: "- 2147483648 \<le> x \<Longrightarrow> x < 2147483648 \<Longrightarrow> c_int x = x"
  by (simp add: c_int_def)

lemma c_int_range: "- 2147483648 \<le> c_int x \<and> c_int x < 2147483648"
proof -
  have "0 \<le> (x + 2147483648) mod 4294967296" "(x + 2147483648) mod 4294967296 < 4294967296"
    by simp_all
  then show ?thesis unfolding c_int_def by linarith
qed

text \<open>The division of C rounds towards zero.\<close>

definition c_div :: "int \<Rightarrow> int \<Rightarrow> int" where
  "c_div a b = sgn a * sgn b * (\<bar>a\<bar> div \<bar>b\<bar>)"

lemma c_div_nonneg [simp]: "0 \<le> a \<Longrightarrow> 0 < b \<Longrightarrow> c_div a b = a div b"
  by (cases "a = 0") (simp_all add: c_div_def)

section \<open>Lists\<close>

lemma remove1_eq_if: "distinct xs \<Longrightarrow> remove1 x xs = filter (\<lambda>y. y \<noteq> x) xs"
  by (rule distinct_remove1_removeAll [THEN trans]) (simp_all add: removeAll_filter_not_eq eq_commute)

text \<open>An update that leaves a projection of the element alone leaves it alone everywhere.\<close>

lemma nth_update_proj: "f z = f (xs ! k) \<Longrightarrow> f (xs[k := z] ! l) = f (xs ! l)"
  by (cases "k < length xs"; cases "l = k") (auto simp: list_update_beyond not_less)

lemma list_update_same: "i < length xs \<Longrightarrow> xs ! i = x \<Longrightarrow> xs[i := x] = xs"
  by auto

section \<open>Transition systems\<close>

text \<open>The states a system reaches from its initial states, and the rule for invariants.\<close>

inductive reachable :: "('s \<Rightarrow> bool) \<Rightarrow> ('s \<Rightarrow> 's \<Rightarrow> bool) \<Rightarrow> 's \<Rightarrow> bool"
  for init :: "'s \<Rightarrow> bool" and step :: "'s \<Rightarrow> 's \<Rightarrow> bool" where
  reach_init: "init s \<Longrightarrow> reachable init step s"
| reach_step: "reachable init step s \<Longrightarrow> step s t \<Longrightarrow> reachable init step t"

locale invariant_of =
  fixes init :: "'s \<Rightarrow> bool" and step :: "'s \<Rightarrow> 's \<Rightarrow> bool" and inv :: "'s \<Rightarrow> bool"
  assumes init_inv: "init s \<Longrightarrow> inv s"
    and step_inv: "inv s \<Longrightarrow> step s t \<Longrightarrow> inv t"
begin

lemma reachable_inv: "reachable init step s \<Longrightarrow> inv s"
  by (induction rule: reachable.induct) (auto intro: init_inv step_inv)

end

end
