(* ===== verification/Spinlock.thy ===== *)
theory Spinlock
  imports Xv6_Prelude
begin

text \<open>
  Harts and spin locks: kernel/spinlock.c, the interrupt-enable accessors of
  kernel/riscv.h and \<open>cpuid\<close>/\<open>mycpu\<close> of kernel/proc.c.

  The state \<open>mach\<close> is the part of the kernel state these functions touch.  It is an
  extensible record: every later component extends it, so \<open>acquire\<close> and \<open>release\<close> apply to
  the state of each of them.  A lock is named by a value of \<open>lockid\<close> where the source passes
  its address.  The fields the header spinlock.h keeps for debugging (name, pc, pid and the
  counters n and nts) are left out, except \<open>cpu\<close>, which \<open>holding\<close> reads.
\<close>

section \<open>State\<close>

datatype lockid =
    BdLock | PrioLock | PidLock | ProcLock nat | TicksLock | WatchdogLock
  | BcacheLock | LogLock nat | IcacheLock | FtableLock | PipeLock int
  | ConsoleNumberLock | ConsLock int | BufInner nat | InodeInner nat | VdiskLock nat | PrLock | UartLock

record spinlock =
  locked :: bool
  lk_cpu :: "nat option"

record cpu =
  c_proc :: "nat option"
  noff :: int
  intena :: bool

record mach =
  hart :: nat
  cpus :: "nat \<Rightarrow> cpu"
  sie :: "nat \<Rightarrow> bool"
  lks :: "lockid \<Rightarrow> spinlock"
  lktab :: "lockid list"

definition NLOCK :: nat where
  "NLOCK = 1000"

section \<open>Operations\<close>

definition initlock :: "lockid \<Rightarrow> ('a mach_scheme, unit) kmon" where
  "initlock lk =
     thenM (modify (\<lambda>s. s\<lparr>lks := (lks s)(lk := \<lparr>locked = False, lk_cpu = None\<rparr>)\<rparr>))
    (bindM (gets (\<lambda>s. length (lktab s))) (\<lambda>nlock.
     if NLOCK \<le> nlock then panic ''initlock''
     else modify (\<lambda>s. s\<lparr>lktab := lktab s @ [lk]\<rparr>)))"

definition cpuid :: "('a mach_scheme, nat) kmon" where
  "cpuid = gets hart"

text \<open>\<open>mycpu\<close> returns the address of \<open>cpus[cpuid()]\<close>; here, its index and its value.\<close>

definition mycpu :: "('a mach_scheme, cpu) kmon" where
  "mycpu = bindM cpuid (\<lambda>i. gets (\<lambda>s. cpus s i))"

definition upd_mycpu :: "(cpu \<Rightarrow> cpu) \<Rightarrow> ('a mach_scheme, unit) kmon" where
  "upd_mycpu f = modify (\<lambda>s. s\<lparr>cpus := (cpus s)(hart s := f (cpus s (hart s)))\<rparr>)"

definition intr_on :: "('a mach_scheme, unit) kmon" where
  "intr_on = modify (\<lambda>s. s\<lparr>sie := (sie s)(hart s := True)\<rparr>)"

definition intr_off :: "('a mach_scheme, unit) kmon" where
  "intr_off = modify (\<lambda>s. s\<lparr>sie := (sie s)(hart s := False)\<rparr>)"

definition intr_get :: "('a mach_scheme, bool) kmon" where
  "intr_get = gets (\<lambda>s. sie s (hart s))"

definition push_off :: "('a mach_scheme, unit) kmon" where
  "push_off =
     bindM intr_get (\<lambda>old.
     thenM (whenM old intr_off)
    (thenM (bindM mycpu (\<lambda>c. whenM (noff c = 0) (upd_mycpu (\<lambda>c. c\<lparr>intena := old\<rparr>))))
    (upd_mycpu (\<lambda>c. c\<lparr>noff := noff c + 1\<rparr>))))"

definition pop_off :: "('a mach_scheme, unit) kmon" where
  "pop_off =
     bindM intr_get (\<lambda>on.
     if on then panic ''pop_off - interruptible''
     else bindM mycpu (\<lambda>c.
     if noff c < 1 then panic ''pop_off''
     else thenM (upd_mycpu (\<lambda>c. c\<lparr>noff := noff c - 1\<rparr>))
    (bindM mycpu (\<lambda>c. whenM (noff c = 0 \<and> intena c) intr_on))))"

definition holding :: "lockid \<Rightarrow> ('a mach_scheme, bool) kmon" where
  "holding lk = gets (\<lambda>s. locked (lks s lk) \<and> lk_cpu (lks s lk) = Some (hart s))"

text \<open>
  The atomic swap of \<open>acquire\<close>'s loop: it stores 1 and returns the old value.  The loop
  leaves as soon as the old value is 0; as long as it is 1 it stores 1 over 1, which is the
  outcome \<open>Spins\<close>.
\<close>

definition test_and_set :: "lockid \<Rightarrow> ('a mach_scheme, bool) kmon" where
  "test_and_set lk = (\<lambda>s. Inr (locked (lks s lk),
     s\<lparr>lks := (lks s)(lk := (lks s lk)\<lparr>locked := True\<rparr>)\<rparr>))"

definition acquire :: "lockid \<Rightarrow> ('a mach_scheme, unit) kmon" where
  "acquire lk =
     thenM push_off
    (bindM (holding lk) (\<lambda>h.
     if h then panic ''acquire''
     else bindM (test_and_set lk) (\<lambda>old.
     if old then failM Spins
     else modify (\<lambda>s. s\<lparr>lks := (lks s)(lk := (lks s lk)\<lparr>lk_cpu := Some (hart s)\<rparr>)\<rparr>))))"

definition release :: "lockid \<Rightarrow> ('a mach_scheme, unit) kmon" where
  "release lk =
     bindM (holding lk) (\<lambda>h.
     if \<not> h then panic ''release''
     else thenM (modify (\<lambda>s. s\<lparr>lks := (lks s)(lk := (lks s lk)\<lparr>lk_cpu := None\<rparr>)\<rparr>))
    (thenM (modify (\<lambda>s. s\<lparr>lks := (lks s)(lk := (lks s lk)\<lparr>locked := False\<rparr>)\<rparr>))
     pop_off))"

section \<open>What the operations do\<close>

text \<open>
  The states before and after: \<open>lock_st l s\<close> is \<open>s\<close> after the calling hart has taken \<open>l\<close>,
  \<open>unlock_st l s\<close> after it has released it.  \<open>hart_ok\<close> is what a hart keeps between calls:
  the nesting depth is not negative, and interrupts are off whenever it is positive.
\<close>

definition push_st :: "'a mach_scheme \<Rightarrow> 'a mach_scheme" where
  "push_st s = s\<lparr>sie := (sie s)(hart s := False),
     cpus := (cpus s)(hart s := (cpus s (hart s))
       \<lparr>intena := (if noff (cpus s (hart s)) = 0 then sie s (hart s)
                   else intena (cpus s (hart s))),
        noff := noff (cpus s (hart s)) + 1\<rparr>)\<rparr>"

definition pop_st :: "'a mach_scheme \<Rightarrow> 'a mach_scheme" where
  "pop_st s = s\<lparr>sie := (sie s)(hart s := noff (cpus s (hart s)) = 1 \<and> intena (cpus s (hart s))),
     cpus := (cpus s)(hart s := (cpus s (hart s))\<lparr>noff := noff (cpus s (hart s)) - 1\<rparr>)\<rparr>"

definition lock_st :: "lockid \<Rightarrow> 'a mach_scheme \<Rightarrow> 'a mach_scheme" where
  "lock_st l s = (push_st s)\<lparr>lks := (lks s)(l := \<lparr>locked = True, lk_cpu = Some (hart s)\<rparr>)\<rparr>"

definition unlock_st :: "lockid \<Rightarrow> 'a mach_scheme \<Rightarrow> 'a mach_scheme" where
  "unlock_st l s = (pop_st s)\<lparr>lks := (lks s)(l := \<lparr>locked = False, lk_cpu = None\<rparr>)\<rparr>"

definition hart_ok :: "'a mach_scheme \<Rightarrow> bool" where
  "hart_ok s \<longleftrightarrow> 0 \<le> noff (cpus s (hart s)) \<and>
     (0 < noff (cpus s (hart s)) \<longrightarrow> \<not> sie s (hart s))"

definition lock_free :: "lockid \<Rightarrow> 'a mach_scheme \<Rightarrow> bool" where
  "lock_free l s \<longleftrightarrow> lks s l = \<lparr>locked = False, lk_cpu = None\<rparr>"

definition holds_lock :: "lockid \<Rightarrow> 'a mach_scheme \<Rightarrow> bool" where
  "holds_lock l s \<longleftrightarrow> lks s l = \<lparr>locked = True, lk_cpu = Some (hart s)\<rparr>"

text \<open>What is left of a balanced pair of calls: the saved interrupt state is refreshed.\<close>

definition settle :: "'a mach_scheme \<Rightarrow> 'a mach_scheme" where
  "settle s = s\<lparr>cpus := (cpus s)(hart s := (cpus s (hart s))
     \<lparr>intena := (if noff (cpus s (hart s)) = 0 then sie s (hart s)
                 else intena (cpus s (hart s)))\<rparr>)\<rparr>"

lemmas lock_op_defs = push_off_def pop_off_def acquire_def release_def holding_def
  test_and_set_def mycpu_def cpuid_def upd_mycpu_def intr_on_def intr_off_def intr_get_def

lemma push_off_eq: "push_off s = Inr ((), push_st s)"
  by (cases "sie s (hart s)"; cases "noff (cpus s (hart s)) = 0")
     (simp_all add: lock_op_defs monad_simps push_st_def fun_upd_idem)

lemma pop_off_eq:
  "0 < noff (cpus s (hart s)) \<Longrightarrow> \<not> sie s (hart s) \<Longrightarrow> pop_off s = Inr ((), pop_st s)"
  by (cases "noff (cpus s (hart s)) = 1 \<and> intena (cpus s (hart s))")
     (auto simp: lock_op_defs monad_simps pop_st_def fun_upd_idem)

lemma acquire_eq: "lock_free l s \<Longrightarrow> acquire l s = Inr ((), lock_st l s)"
  by (simp add: acquire_def holding_def test_and_set_def monad_simps push_off_eq lock_free_def
      lock_st_def push_st_def)

lemma release_eq:
  "holds_lock l s \<Longrightarrow> 0 < noff (cpus s (hart s)) \<Longrightarrow> \<not> sie s (hart s) \<Longrightarrow>
   release l s = Inr ((), unlock_st l s)"
  by (simp add: release_def holding_def monad_simps holds_lock_def pop_off_eq unlock_st_def
      pop_st_def)


lemma acquire_held: "holds_lock l s \<Longrightarrow> acquire l s = Inl (Panic ''acquire'')"
  by (simp add: acquire_def holding_def monad_simps push_off_eq holds_lock_def push_st_def)

lemma acquire_busy:
  "locked (lks s l) \<Longrightarrow> lk_cpu (lks s l) \<noteq> Some (hart s) \<Longrightarrow> acquire l s = Inl Spins"
  by (simp add: acquire_def holding_def test_and_set_def monad_simps push_off_eq push_st_def)

lemma release_not_held:
  "\<not> (locked (lks s l) \<and> lk_cpu (lks s l) = Some (hart s)) \<Longrightarrow>
   release l s = Inl (Panic ''release'')"
  by (simp add: release_def holding_def monad_simps)

lemma hart_lock_st [simp]: "hart (lock_st l s) = hart s"
  and hart_unlock_st [simp]: "hart (unlock_st l s) = hart s"
  and hart_settle [simp]: "hart (settle s) = hart s"
  and hart_push_st [simp]: "hart (push_st s) = hart s"
  and hart_pop_st [simp]: "hart (pop_st s) = hart s"
  by (simp_all add: lock_st_def push_st_def unlock_st_def pop_st_def settle_def)

lemma lks_lock_st [simp]:
    "lks (lock_st l s) = (lks s)(l := \<lparr>locked = True, lk_cpu = Some (hart s)\<rparr>)"
  and lks_unlock_st [simp]:
    "lks (unlock_st l s) = (lks s)(l := \<lparr>locked = False, lk_cpu = None\<rparr>)"
  and lks_settle [simp]: "lks (settle s) = lks s"
  and lks_push_st [simp]: "lks (push_st s) = lks s"
  and lks_pop_st [simp]: "lks (pop_st s) = lks s"
  by (simp_all add: lock_st_def unlock_st_def settle_def push_st_def pop_st_def)

lemma lktab_lock_st [simp]: "lktab (lock_st l s) = lktab s"
  and lktab_unlock_st [simp]: "lktab (unlock_st l s) = lktab s"
  and lktab_settle [simp]: "lktab (settle s) = lktab s"
  by (simp_all add: lock_st_def push_st_def unlock_st_def pop_st_def settle_def)

lemma more_lock_st [simp]: "mach.more (lock_st l s) = mach.more s"
  and more_unlock_st [simp]: "mach.more (unlock_st l s) = mach.more s"
  and more_settle [simp]: "mach.more (settle s) = mach.more s"
  by (simp_all add: lock_st_def push_st_def unlock_st_def pop_st_def settle_def)

lemma holds_lock_lock_st [simp]: "holds_lock l (lock_st l s)"
  by (simp add: holds_lock_def)

lemma lock_free_unlock_st [simp]: "lock_free l (unlock_st l s)"
  by (simp add: lock_free_def)

lemma lock_free_other [simp]:
  "l \<noteq> k \<Longrightarrow> lock_free l (lock_st k s) = lock_free l s"
  "l \<noteq> k \<Longrightarrow> lock_free l (unlock_st k s) = lock_free l s"
  "lock_free l (settle s) = lock_free l s"
  by (simp_all add: lock_free_def)

lemma holds_lock_other [simp]:
  "l \<noteq> k \<Longrightarrow> holds_lock l (lock_st k s) = holds_lock l s"
  "l \<noteq> k \<Longrightarrow> holds_lock l (unlock_st k s) = holds_lock l s"
  "holds_lock l (settle s) = holds_lock l s"
  by (simp_all add: holds_lock_def)

lemma noff_lock_st [simp]:
  "noff (cpus (lock_st l s) (hart s)) = noff (cpus s (hart s)) + 1"
  "noff (cpus (unlock_st l s) (hart s)) = noff (cpus s (hart s)) - 1"
  "noff (cpus (settle s) (hart s)) = noff (cpus s (hart s))"
  by (simp_all add: lock_st_def push_st_def unlock_st_def pop_st_def settle_def)

lemma sie_lock_st [simp]:
  "sie (lock_st l s) = (sie s)(hart s := False)"
  "sie (settle s) = sie s"
  by (simp_all add: lock_st_def push_st_def settle_def)

lemma hart_ok_lock_st [simp]: "hart_ok s \<Longrightarrow> hart_ok (lock_st l s)"
  by (simp add: hart_ok_def)

lemma hart_ok_settle [simp]: "hart_ok (settle s) = hart_ok s"
  by (simp add: hart_ok_def)

lemma hart_ok_unlock_st:
  "hart_ok s \<Longrightarrow> 0 < noff (cpus s (hart s)) \<Longrightarrow> hart_ok (unlock_st l s)"
  by (auto simp: hart_ok_def unlock_st_def pop_st_def)

text \<open>\<open>release\<close> of a lock the hart holds, from a state a hart can be in.\<close>

lemma release_ok:
  "holds_lock l s \<Longrightarrow> hart_ok s \<Longrightarrow> 0 < noff (cpus s (hart s)) \<Longrightarrow>
   release l s = Inr ((), unlock_st l s)"
  by (rule release_eq) (simp_all add: hart_ok_def)

lemma unlock_lock_st:
  assumes "hart_ok s" and "lock_free l s"
  shows "unlock_st l (lock_st l s) = settle s"
proof -
  have l: "(lks s)(l := \<lparr>locked = False, lk_cpu = None\<rparr>) = lks s"
    using assms(2) by (simp add: lock_free_def fun_upd_idem)
  have e: "(sie s)(hart s := noff (cpus s (hart s)) = 0 \<and>
      (if noff (cpus s (hart s)) = 0 then sie s (hart s) else intena (cpus s (hart s)))) = sie s"
    using assms(1) by (auto simp: hart_ok_def fun_eq_iff)
  show ?thesis
    by (simp add: unlock_st_def lock_st_def push_st_def pop_st_def settle_def l e)
qed

end
