(* ===== verification/Spinlock_Steps.thy ===== *)
theory Spinlock_Steps
  imports Spinlock
begin

text \<open>
  Several harts running \<open>acquire\<close> and \<open>release\<close> at the same time.  Here the two functions
  are cut at their memory accesses: between the atomic swap that takes the lock word and the
  store to \<open>lk->cpu\<close>, and between the two stores of \<open>release\<close>, every other hart may move.
  Each step runs the very operations of the theory Spinlock.

  \<open>crit\<close> is a history variable: the locks whose word a hart has taken and not given back.
\<close>

section \<open>The steps\<close>

datatype lock_pc = Running | Spinning lockid | Got lockid | Releasing lockid

record lock_sys = mach +
  pcs :: "nat \<Rightarrow> lock_pc"
  crit :: "nat \<Rightarrow> lockid set"

abbreviation at_hart :: "nat \<Rightarrow> lock_sys \<Rightarrow> lock_sys" where
  "at_hart h s \<equiv> s\<lparr>hart := h\<rparr>"

inductive lock_step :: "lock_sys \<Rightarrow> lock_sys \<Rightarrow> bool" where
  call_acquire:
    "pcs s h = Running \<Longrightarrow> push_off (at_hart h s) = Inr ((), t) \<Longrightarrow>
     holding l t = Inr (False, u) \<Longrightarrow>
     lock_step s (u\<lparr>pcs := (pcs u)(h := Spinning l)\<rparr>)"
| swap_taken:
    "pcs s h = Spinning l \<Longrightarrow> test_and_set l (at_hart h s) = Inr (False, t) \<Longrightarrow>
     lock_step s (t\<lparr>pcs := (pcs t)(h := Got l), crit := (crit t)(h := insert l (crit t h))\<rparr>)"
| swap_busy:
    "pcs s h = Spinning l \<Longrightarrow> test_and_set l (at_hart h s) = Inr (True, t) \<Longrightarrow> lock_step s t"
| record_cpu:
    "pcs s h = Got l \<Longrightarrow>
     lock_step s (s\<lparr>hart := h, lks := (lks s)(l := (lks s l)\<lparr>lk_cpu := Some h\<rparr>),
       pcs := (pcs s)(h := Running)\<rparr>)"
| clear_cpu:
    "pcs s h = Running \<Longrightarrow> holding l (at_hart h s) = Inr (True, t) \<Longrightarrow>
     lock_step s (t\<lparr>lks := (lks t)(l := (lks t l)\<lparr>lk_cpu := None\<rparr>),
       pcs := (pcs t)(h := Releasing l)\<rparr>)"
| give_back:
    "pcs s h = Releasing l \<Longrightarrow>
     pop_off (s\<lparr>hart := h, lks := (lks s)(l := (lks s l)\<lparr>locked := False\<rparr>)\<rparr>) = Inr ((), t) \<Longrightarrow>
     lock_step s (t\<lparr>pcs := (pcs t)(h := Running), crit := (crit t)(h := crit t h - {l})\<rparr>)"
| set_interrupts:
    "pcs s h = Running \<Longrightarrow> noff (cpus s h) = 0 \<Longrightarrow>
     lock_step s (s\<lparr>hart := h, sie := (sie s)(h := b)\<rparr>)"

definition lock_boot :: "lock_sys \<Rightarrow> bool" where
  "lock_boot s \<longleftrightarrow> (\<forall>l. lks s l = \<lparr>locked = False, lk_cpu = None\<rparr>) \<and>
     (\<forall>h. noff (cpus s h) = 0 \<and> pcs s h = Running \<and> crit s h = {})"

section \<open>The invariant\<close>

definition pc_depth :: "lock_pc \<Rightarrow> int" where
  "pc_depth pc = (case pc of Spinning l \<Rightarrow> 1 | _ \<Rightarrow> 0)"

definition word_inv :: "lock_sys \<Rightarrow> bool" where
  "word_inv s \<longleftrightarrow> (\<forall>l. locked (lks s l) \<longleftrightarrow> (\<exists>h. l \<in> crit s h))"

definition cpu_inv :: "lock_sys \<Rightarrow> bool" where
  "cpu_inv s \<longleftrightarrow> (\<forall>l h. (lk_cpu (lks s l) = Some h) =
     (l \<in> crit s h \<and> pcs s h \<noteq> Got l \<and> pcs s h \<noteq> Releasing l))"

definition excl_inv :: "lock_sys \<Rightarrow> bool" where
  "excl_inv s \<longleftrightarrow> (\<forall>l h k. l \<in> crit s h \<longrightarrow> l \<in> crit s k \<longrightarrow> h = k)"

definition pc_inv :: "lock_sys \<Rightarrow> bool" where
  "pc_inv s \<longleftrightarrow> (\<forall>h l. (pcs s h = Spinning l \<longrightarrow> l \<notin> crit s h) \<and>
     (pcs s h = Got l \<longrightarrow> l \<in> crit s h) \<and> (pcs s h = Releasing l \<longrightarrow> l \<in> crit s h))"

definition depth_inv :: "lock_sys \<Rightarrow> bool" where
  "depth_inv s \<longleftrightarrow> (\<forall>h. finite (crit s h) \<and>
     noff (cpus s h) = int (card (crit s h)) + pc_depth (pcs s h) \<and>
     (0 < noff (cpus s h) \<longrightarrow> \<not> sie s h))"

definition lock_inv :: "lock_sys \<Rightarrow> bool" where
  "lock_inv s \<longleftrightarrow> word_inv s \<and> cpu_inv s \<and> excl_inv s \<and> pc_inv s \<and> depth_inv s"

lemma lock_boot_inv: "lock_boot s \<Longrightarrow> lock_inv s"
  by (simp add: lock_boot_def lock_inv_def pc_depth_def word_inv_def cpu_inv_def excl_inv_def
      pc_inv_def depth_inv_def)

lemma lock_inv_depth:
  assumes "depth_inv s" and "l \<in> crit s h"
  shows "0 < noff (cpus s h)"
proof -
  have "0 < card (crit s h)" using assms by (auto simp: depth_inv_def card_gt_0_iff)
  moreover have "noff (cpus s h) = int (card (crit s h)) + pc_depth (pcs s h)"
    using assms(1) by (simp add: depth_inv_def)
  moreover have "0 \<le> pc_depth (pcs s h)" by (simp add: pc_depth_def split: lock_pc.splits)
  ultimately show ?thesis by linarith
qed

lemma cpu_inv_idle:
  assumes "cpu_inv s" and "\<And>h. l \<notin> crit s h"
  shows "lk_cpu (lks s l) = None"
  using assms by (cases "lk_cpu (lks s l)") (auto simp: cpu_inv_def)

lemma call_acquire_inv:
  assumes inv: "lock_inv s" and pc: "pcs s h = Running"
    and nh: "\<not> (locked (lks s l) \<and> lk_cpu (lks s l) = Some h)"
  shows "lock_inv ((push_st (at_hart h s))\<lparr>pcs := (pcs s)(h := Spinning l)\<rparr>)" (is "lock_inv ?t")
proof -
  have l: "l \<notin> crit s h"
  proof
    assume c: "l \<in> crit s h"
    then have "locked (lks s l)" using inv by (auto simp: lock_inv_def word_inv_def)
    moreover have "lk_cpu (lks s l) = Some h" using inv c pc by (simp add: lock_inv_def cpu_inv_def)
    ultimately show False using nh by simp
  qed
  have "word_inv ?t" "excl_inv ?t"
    using inv by (simp_all add: lock_inv_def word_inv_def excl_inv_def push_st_def)
  moreover have "cpu_inv ?t" using inv pc by (simp add: lock_inv_def cpu_inv_def push_st_def)
  moreover have "pc_inv ?t" using inv l by (simp add: lock_inv_def pc_inv_def push_st_def)
  moreover have "depth_inv ?t"
    using inv pc by (simp add: lock_inv_def depth_inv_def push_st_def pc_depth_def)
  ultimately show ?thesis by (simp add: lock_inv_def)
qed

lemma swap_taken_inv:
  assumes inv: "lock_inv s" and pc: "pcs s h = Spinning l" and free: "\<not> locked (lks s l)"
  shows "lock_inv (s\<lparr>hart := h, lks := (lks s)(l := (lks s l)\<lparr>locked := True\<rparr>),
    pcs := (pcs s)(h := Got l), crit := (crit s)(h := insert l (crit s h))\<rparr>)" (is "lock_inv ?t")
proof -
  have no: "\<And>k. l \<notin> crit s k" using inv free by (auto simp: lock_inv_def word_inv_def)
  have idle: "lk_cpu (lks s l) = None" using inv no by (simp add: lock_inv_def cpu_inv_idle)
  have "word_inv ?t" using inv by (auto simp: lock_inv_def word_inv_def)
  moreover have "excl_inv ?t" using inv no by (auto simp: lock_inv_def excl_inv_def)
  moreover have "cpu_inv ?t" using inv pc no idle by (auto simp: lock_inv_def cpu_inv_def)
  moreover have "pc_inv ?t" using inv by (simp add: lock_inv_def pc_inv_def)
  moreover have "depth_inv ?t"
    using inv pc no by (simp add: lock_inv_def depth_inv_def pc_depth_def)
  ultimately show ?thesis by (simp add: lock_inv_def)
qed

lemma record_cpu_inv:
  assumes inv: "lock_inv s" and pc: "pcs s h = Got l"
  shows "lock_inv (s\<lparr>hart := h, lks := (lks s)(l := (lks s l)\<lparr>lk_cpu := Some h\<rparr>),
    pcs := (pcs s)(h := Running)\<rparr>)" (is "lock_inv ?t")
proof -
  have l: "l \<in> crit s h" using inv pc by (simp add: lock_inv_def pc_inv_def)
  have other: "\<And>k. l \<in> crit s k \<longleftrightarrow> k = h" using inv l by (auto simp: lock_inv_def excl_inv_def)
  have "word_inv ?t" "excl_inv ?t"
    using inv by (simp_all add: lock_inv_def word_inv_def excl_inv_def)
  moreover have "cpu_inv ?t" using inv pc other by (auto simp: lock_inv_def cpu_inv_def)
  moreover have "pc_inv ?t" using inv by (simp add: lock_inv_def pc_inv_def)
  moreover have "depth_inv ?t"
    using inv pc by (auto simp: lock_inv_def depth_inv_def pc_depth_def dest: spec [of _ h])
  ultimately show ?thesis by (simp add: lock_inv_def)
qed

lemma clear_cpu_inv:
  assumes inv: "lock_inv s" and pc: "pcs s h = Running" and own: "lk_cpu (lks s l) = Some h"
  shows "lock_inv (s\<lparr>hart := h, lks := (lks s)(l := (lks s l)\<lparr>lk_cpu := None\<rparr>),
    pcs := (pcs s)(h := Releasing l)\<rparr>)" (is "lock_inv ?t")
proof -
  have l: "l \<in> crit s h" using inv own by (simp add: lock_inv_def cpu_inv_def)
  have other: "\<And>k. l \<in> crit s k \<longleftrightarrow> k = h" using inv l by (auto simp: lock_inv_def excl_inv_def)
  have "word_inv ?t" "excl_inv ?t"
    using inv by (simp_all add: lock_inv_def word_inv_def excl_inv_def)
  moreover have "cpu_inv ?t" using inv pc other by (auto simp: lock_inv_def cpu_inv_def)
  moreover have "pc_inv ?t" using inv l by (simp add: lock_inv_def pc_inv_def)
  moreover have "depth_inv ?t"
    using inv pc by (auto simp: lock_inv_def depth_inv_def pc_depth_def dest: spec [of _ h])
  ultimately show ?thesis by (simp add: lock_inv_def)
qed

lemma give_back_inv:
  assumes inv: "lock_inv s" and pc: "pcs s h = Releasing l"
  shows "lock_inv ((pop_st (s\<lparr>hart := h, lks := (lks s)(l := (lks s l)\<lparr>locked := False\<rparr>)\<rparr>))
    \<lparr>pcs := (pcs s)(h := Running), crit := (crit s)(h := crit s h - {l})\<rparr>)" (is "lock_inv ?t")
proof -
  have l: "l \<in> crit s h" using inv pc by (simp add: lock_inv_def pc_inv_def)
  have fin: "finite (crit s h)" using inv by (simp add: lock_inv_def depth_inv_def)
  have other: "\<And>k. l \<in> crit s k \<longleftrightarrow> k = h" using inv l by (auto simp: lock_inv_def excl_inv_def)
  have none: "lk_cpu (lks s l) = None"
    using inv pc other by (cases "lk_cpu (lks s l)") (auto simp: lock_inv_def cpu_inv_def)
  have c: "Suc 0 \<le> card (crit s h)" using l fin by (auto simp: Suc_le_eq card_gt_0_iff)
  have n: "noff (cpus s h) = int (card (crit s h))"
    using inv pc by (simp add: lock_inv_def depth_inv_def pc_depth_def)
  have "word_inv ?t" using inv other
    by (simp add: lock_inv_def word_inv_def pop_st_def) (metis empty_iff insert_iff)
  moreover have "excl_inv ?t" using inv by (auto simp: lock_inv_def excl_inv_def pop_st_def)
  moreover have "cpu_inv ?t" using inv pc none other
    by (auto simp: lock_inv_def cpu_inv_def pop_st_def)
  moreover have "pc_inv ?t" using inv by (simp add: lock_inv_def pc_inv_def pop_st_def)
  moreover have "depth_inv ?t"
    using inv n fin l c by (auto simp: lock_inv_def depth_inv_def pop_st_def pc_depth_def of_nat_diff)
  ultimately show ?thesis by (simp add: lock_inv_def)
qed

lemma lock_inv_hart: "lock_inv (s\<lparr>hart := h\<rparr>) = lock_inv s"
  by (simp add: lock_inv_def word_inv_def cpu_inv_def excl_inv_def pc_inv_def depth_inv_def)

text \<open>The last call of \<open>release\<close> never panics: the depth counts the lock being released.\<close>

lemma give_back_runs:
  assumes "lock_inv s" and "pcs s h = Releasing l"
  shows "pop_off (s\<lparr>hart := h, lks := (lks s)(l := (lks s l)\<lparr>locked := False\<rparr>)\<rparr>) =
    Inr ((), pop_st (s\<lparr>hart := h, lks := (lks s)(l := (lks s l)\<lparr>locked := False\<rparr>)\<rparr>))"
proof -
  have "l \<in> crit s h" using assms by (simp add: lock_inv_def pc_inv_def)
  then have d: "0 < noff (cpus s h)" using assms(1) lock_inv_depth by (auto simp: lock_inv_def)
  then have "\<not> sie s h" using assms(1) by (simp add: lock_inv_def depth_inv_def)
  with d show ?thesis by (simp add: pop_off_eq)
qed

lemma lock_step_inv:
  assumes "lock_inv s" and "lock_step s t"
  shows "lock_inv t"
  using assms(2)
proof cases
  case (call_acquire h t l u)
  then have "\<not> (locked (lks s l) \<and> lk_cpu (lks s l) = Some h)"
    and "t = push_st (at_hart h s)" and "u = t"
    by (auto simp: push_off_eq holding_def monad_simps push_st_def)
  then show ?thesis using call_acquire call_acquire_inv [OF assms(1), of h l]
    by (simp add: push_st_def)
next
  case (swap_taken h l t)
  then have "\<not> locked (lks s l)" and "t = s\<lparr>hart := h, lks := (lks s)(l := (lks s l)\<lparr>locked := True\<rparr>)\<rparr>"
    by (simp_all add: test_and_set_def)
  then show ?thesis using swap_taken swap_taken_inv [OF assms(1), of h l] by simp
next
  case (swap_busy h l)
  then have "locked (lks s l)" and t: "t = s\<lparr>hart := h, lks := (lks s)(l := (lks s l)\<lparr>locked := True\<rparr>)\<rparr>"
    by (simp_all add: test_and_set_def)
  then have "t = s\<lparr>hart := h\<rparr>" by (simp add: fun_upd_idem)
  then show ?thesis using assms(1) by (simp add: lock_inv_hart)
next
  case (record_cpu h l)
  then show ?thesis using record_cpu_inv [OF assms(1), of h l] by simp
next
  case (clear_cpu h l t)
  then have "lk_cpu (lks s l) = Some h" and "t = at_hart h s"
    by (simp_all add: holding_def monad_simps)
  then show ?thesis using clear_cpu clear_cpu_inv [OF assms(1), of h l] by simp
next
  case (give_back h l v)
  then have "v = pop_st (s\<lparr>hart := h, lks := (lks s)(l := (lks s l)\<lparr>locked := False\<rparr>)\<rparr>)"
    using give_back_runs [OF assms(1), of h l] by simp
  then show ?thesis using give_back give_back_inv [OF assms(1), of h l]
    by (simp add: pop_st_def)
next
  case (set_interrupts h b)
  then show ?thesis using assms(1)
    by (simp add: lock_inv_def word_inv_def cpu_inv_def excl_inv_def pc_inv_def depth_inv_def)
qed

interpretation lock_system: invariant_of lock_boot lock_step lock_inv
  by unfold_locales (auto intro: lock_boot_inv lock_step_inv)


section \<open>The steps are the functions\<close>

text \<open>On a hart that is not interrupted, the steps are a call of \<open>acquire\<close> or of \<open>release\<close>.\<close>

lemma acquire_steps:
  assumes pc: "pcs s h = Running" and r: "acquire l (at_hart h s) = Inr ((), t)"
  shows "lock_step\<^sup>*\<^sup>* s (t\<lparr>crit := (crit s)(h := insert l (crit s h))\<rparr>)"
proof -
  let ?a = "(push_st (at_hart h s))\<lparr>pcs := (pcs s)(h := Spinning l)\<rparr>"
  let ?b = "?a\<lparr>lks := (lks s)(l := (lks s l)\<lparr>locked := True\<rparr>), pcs := (pcs s)(h := Got l),
    crit := (crit s)(h := insert l (crit s h))\<rparr>"
  have u: "\<not> locked (lks s l)"
    using r by (auto simp: acquire_def holding_def test_and_set_def monad_simps push_off_eq push_st_def split: if_splits)
  have "lock_step s ?a"
    using lock_step.call_acquire [OF pc, of "push_st (at_hart h s)" l "push_st (at_hart h s)"] u
    by (simp add: push_off_eq holding_def monad_simps push_st_def)
  moreover have "lock_step ?a ?b"
  proof -
    have "test_and_set l (at_hart h ?a) = Inr (False, ?a\<lparr>lks := (lks s)(l := (lks s l)\<lparr>locked := True\<rparr>)\<rparr>)"
      using u by (auto simp: test_and_set_def push_st_def intro: lock_sys.equality)
    from lock_step.swap_taken [OF _ this] show ?thesis by (simp add: push_st_def)
  qed
  moreover have "lock_step ?b (?b\<lparr>hart := h, lks := (lks s)(l := (lks s l)\<lparr>locked := True, lk_cpu := Some h\<rparr>),
      pcs := (pcs s)(h := Running)\<rparr>)"
    using lock_step.record_cpu [of ?b h l] by simp
  moreover have "?b\<lparr>hart := h, lks := (lks s)(l := (lks s l)\<lparr>locked := True, lk_cpu := Some h\<rparr>),
      pcs := (pcs s)(h := Running)\<rparr> = t\<lparr>crit := (crit s)(h := insert l (crit s h))\<rparr>"
  proof -
    have t: "t = (push_st (at_hart h s))\<lparr>lks := (lks s)(l := (lks s l)\<lparr>locked := True, lk_cpu := Some h\<rparr>)\<rparr>"
      using r u by (simp add: acquire_def holding_def test_and_set_def monad_simps push_off_eq)
    show ?thesis unfolding t by (rule lock_sys.equality) (use pc in \<open>simp_all add: push_st_def fun_upd_idem\<close>)
  qed
  ultimately show ?thesis by auto
qed

lemma release_steps:
  assumes pc: "pcs s h = Running" and r: "release l (at_hart h s) = Inr ((), t)"
  shows "lock_step\<^sup>*\<^sup>* s (t\<lparr>crit := (crit s)(h := crit s h - {l})\<rparr>)"
proof -
  let ?a = "s\<lparr>hart := h, lks := (lks s)(l := (lks s l)\<lparr>lk_cpu := None\<rparr>), pcs := (pcs s)(h := Releasing l)\<rparr>"
  let ?b = "s\<lparr>hart := h, lks := (lks s)(l := (lks s l)\<lparr>lk_cpu := None, locked := False\<rparr>)\<rparr>"
  have own: "locked (lks s l)" "lk_cpu (lks s l) = Some h"
    using r by (auto simp: release_def holding_def monad_simps split: if_splits)
  have p: "pop_off ?b = Inr ((), t)"
    using r own by (simp add: release_def holding_def monad_simps)
  then have t: "0 < noff (cpus s h)" "\<not> sie s h"
    by (auto simp: lock_op_defs monad_simps split: if_splits)
  then have tb: "t = pop_st ?b" using p by (simp add: pop_off_eq)
  have "lock_step s ?a"
    using lock_step.clear_cpu [OF pc, of l "at_hart h s"] own by (simp add: holding_def monad_simps)
  moreover have "lock_step ?a (t\<lparr>crit := (crit s)(h := crit s h - {l})\<rparr>)"
    using lock_step.give_back [of ?a h l] t pc
    by (simp add: pop_off_eq tb pop_st_def fun_upd_idem)
  ultimately show ?thesis by auto
qed

section \<open>Properties\<close>

text \<open>
  C12: Mutual exclusion.  In every state the harts can reach by running \<open>acquire\<close> and
  \<open>release\<close> step by step, two harts that have both taken the word of a lock and not yet
  given it back are the same hart; and a hart for which \<open>holding\<close> answers yes is one of them.
  The steps are those of the functions: a call of \<open>acquire\<close> or \<open>release\<close> that returns, on a hart
  nobody interferes with, is a sequence of steps that takes the word or gives it back.
\<close>

theorem mutual_exclusion:
  assumes "reachable lock_boot lock_step s" and "l \<in> crit s h"
  shows "(l \<in> crit s k \<longrightarrow> k = h) \<and>
    (holding l (at_hart k s) = Inr (True, at_hart k s) \<longrightarrow> k = h) \<and>
    (\<forall>m t. pcs s k = Running \<and> acquire m (at_hart k s) = Inr ((), t) \<longrightarrow>
       lock_step\<^sup>*\<^sup>* s (t\<lparr>crit := (crit s)(k := insert m (crit s k))\<rparr>)) \<and>
    (\<forall>m t. pcs s k = Running \<and> release m (at_hart k s) = Inr ((), t) \<longrightarrow>
       lock_step\<^sup>*\<^sup>* s (t\<lparr>crit := (crit s)(k := crit s k - {m})\<rparr>))"
proof -
  have inv: "lock_inv s" using assms(1) by (rule lock_system.reachable_inv)
  then have "\<And>k. l \<in> crit s k \<Longrightarrow> k = h" using assms(2) by (auto simp: lock_inv_def excl_inv_def)
  moreover have "holding l (at_hart k s) = Inr (True, at_hart k s) \<Longrightarrow> l \<in> crit s k"
    using inv by (simp add: holding_def monad_simps lock_inv_def cpu_inv_def)
  ultimately show ?thesis using acquire_steps release_steps by blast
qed

definition boot_sys :: lock_sys where
  "boot_sys = \<lparr>hart = 0, cpus = (\<lambda>_. \<lparr>c_proc = None, noff = 0, intena = False\<rparr>),
     sie = (\<lambda>_. True), lks = (\<lambda>_. \<lparr>locked = False, lk_cpu = None\<rparr>), lktab = [],
     pcs = (\<lambda>_. Running), crit = (\<lambda>_. {})\<rparr>"

definition one_taken :: lock_sys where
  "one_taken = (push_st boot_sys)\<lparr>
     lks := (lks boot_sys)(BdLock := \<lparr>locked = True, lk_cpu = None\<rparr>),
     pcs := (pcs boot_sys)(0 := Got BdLock), crit := (crit boot_sys)(0 := {BdLock})\<rparr>"

lemma one_taken_reachable: "reachable lock_boot lock_step one_taken"
proof -
  let ?a = "(push_st boot_sys)\<lparr>pcs := (pcs boot_sys)(0 := Spinning BdLock)\<rparr>"
  have "reachable lock_boot lock_step boot_sys"
    by (rule reach_init) (simp add: lock_boot_def boot_sys_def)
  moreover have "lock_step boot_sys ?a"
    using lock_step.call_acquire [of boot_sys 0 "push_st boot_sys" BdLock "push_st boot_sys"]
    by (simp add: boot_sys_def push_off_eq holding_def monad_simps push_st_def)
  ultimately have a: "reachable lock_boot lock_step ?a" by (rule reach_step)
  have "lock_step ?a one_taken"
    using lock_step.swap_taken [of ?a 0 BdLock]
    by (simp add: one_taken_def boot_sys_def push_st_def test_and_set_def)
  with a show ?thesis by (rule reach_step)
qed

theorem mutual_exclusion_witness:
  "BdLock \<in> crit one_taken 0 \<and> BdLock \<notin> crit one_taken 1"
proof -
  have c: "BdLock \<in> crit one_taken 0" by (simp add: one_taken_def)
  from mutual_exclusion [OF one_taken_reachable c, of 1] c show ?thesis by auto
qed

text \<open>
  C18: Interrupt nesting.  In every reachable state a hart's depth \<open>noff\<close> is the number of
  lock words it holds, plus one while it spins for another; interrupts are off on a hart that
  holds a lock; and the \<open>pop_off\<close> that ends \<open>release\<close> never panics.
\<close>

theorem interrupt_nesting:
  assumes "reachable lock_boot lock_step s"
  shows "noff (cpus s h) = int (card (crit s h)) + pc_depth (pcs s h) \<and>
    (crit s h \<noteq> {} \<longrightarrow> \<not> sie s h) \<and>
    (pcs s h = Releasing l \<longrightarrow>
      (\<exists>t. pop_off (s\<lparr>hart := h, lks := (lks s)(l := (lks s l)\<lparr>locked := False\<rparr>)\<rparr>) = Inr ((), t)))"
proof -
  have inv: "lock_inv s" using assms by (rule lock_system.reachable_inv)
  have "crit s h \<noteq> {} \<Longrightarrow> 0 < noff (cpus s h)"
    using inv lock_inv_depth [of s _ h] by (auto simp: lock_inv_def)
  then have "crit s h \<noteq> {} \<longrightarrow> \<not> sie s h" using inv by (simp add: lock_inv_def depth_inv_def)
  moreover have "noff (cpus s h) = int (card (crit s h)) + pc_depth (pcs s h)"
    using inv by (simp add: lock_inv_def depth_inv_def)
  moreover have "pcs s h = Releasing l \<longrightarrow>
      (\<exists>t. pop_off (s\<lparr>hart := h, lks := (lks s)(l := (lks s l)\<lparr>locked := False\<rparr>)\<rparr>) = Inr ((), t))"
    using give_back_runs [OF inv] by blast
  ultimately show ?thesis by blast
qed

theorem interrupt_nesting_witness:
  "noff (cpus one_taken 0) = 1 \<and> \<not> sie one_taken 0"
proof -
  have "crit one_taken 0 = {BdLock}" "pcs one_taken 0 = Got BdLock" by (simp_all add: one_taken_def)
  with interrupt_nesting [OF one_taken_reachable, of 0 BdLock] show ?thesis
    by (simp add: pc_depth_def)
qed

end
