(* ===== verification/DList.thy ===== *)
theory DList
  imports Spinlock
begin

text \<open>
  Circular doubly linked lists: kernel/list.c and \<open>struct list\<close> of kernel/defs.h.

  A node is an address; the \<open>next\<close> and \<open>prev\<close> members of all nodes are the two functions
  \<open>nxt\<close> and \<open>prv\<close> of the state.  The statements of each function are executed in the order
  of the source, on the memory the statements before it left.  \<open>dlist s h xs\<close> says that the
  list whose head is at \<open>h\<close> holds the nodes \<open>xs\<close>; the locale \<open>intrusive_list\<close> is what the
  buddy allocator, the client of these lists, relies on.
\<close>

section \<open>Operations\<close>

record list_heap = mach +
  nxt :: "int \<Rightarrow> int"
  prv :: "int \<Rightarrow> int"

definition lst_init :: "int \<Rightarrow> 'a list_heap_scheme \<Rightarrow> 'a list_heap_scheme" where
  "lst_init lst s =
     (let s = s\<lparr>nxt := (nxt s)(lst := lst)\<rparr>
      in s\<lparr>prv := (prv s)(lst := lst)\<rparr>)"

definition lst_empty :: "int \<Rightarrow> 'a list_heap_scheme \<Rightarrow> bool" where
  "lst_empty lst s \<longleftrightarrow> nxt s lst = lst"

definition lst_remove :: "int \<Rightarrow> 'a list_heap_scheme \<Rightarrow> 'a list_heap_scheme" where
  "lst_remove e s =
     (let s = s\<lparr>nxt := (nxt s)(prv s e := nxt s e)\<rparr>
      in s\<lparr>prv := (prv s)(nxt s e := prv s e)\<rparr>)"

definition lst_pop :: "int \<Rightarrow> ('a list_heap_scheme, int) kmon" where
  "lst_pop lst =
     bindM (gets (lst_empty lst)) (\<lambda>emp.
     if emp then panic ''lst_pop''
     else bindM (gets (\<lambda>s. nxt s lst)) (\<lambda>p.
     thenM (modify (lst_remove p)) (ret p)))"

definition lst_push :: "int \<Rightarrow> int \<Rightarrow> 'a list_heap_scheme \<Rightarrow> 'a list_heap_scheme" where
  "lst_push lst e s =
     (let s = s\<lparr>nxt := (nxt s)(e := nxt s lst)\<rparr>;
          s = s\<lparr>prv := (prv s)(e := lst)\<rparr>;
          s = s\<lparr>prv := (prv s)(nxt s lst := e)\<rparr>
      in s\<lparr>nxt := (nxt s)(lst := e)\<rparr>)"

section \<open>The lists in the heap\<close>

text \<open>\<open>dseg N P a xs b\<close>: following \<open>N\<close> from \<open>a\<close> visits \<open>xs\<close> and then \<open>b\<close>, and \<open>P\<close> leads back.\<close>

fun dseg :: "(int \<Rightarrow> int) \<Rightarrow> (int \<Rightarrow> int) \<Rightarrow> int \<Rightarrow> int list \<Rightarrow> int \<Rightarrow> bool" where
  "dseg N P a [] b \<longleftrightarrow> N a = b \<and> P b = a"
| "dseg N P a (x # xs) b \<longleftrightarrow> N a = x \<and> P x = a \<and> dseg N P x xs b"

definition dlist :: "'a list_heap_scheme \<Rightarrow> int \<Rightarrow> int list \<Rightarrow> bool" where
  "dlist s h xs \<longleftrightarrow> dseg (nxt s) (prv s) h xs h \<and> distinct (h # xs)"

lemma dseg_append:
  "dseg N P a (xs @ x # ys) b \<longleftrightarrow> dseg N P a xs x \<and> dseg N P x ys b"
  by (induction xs arbitrary: a) auto

lemma dseg_cong:
  "(\<And>y. y \<in> insert a (set xs) \<Longrightarrow> N y = N' y) \<Longrightarrow>
   (\<And>y. y \<in> insert b (set xs) \<Longrightarrow> P y = P' y) \<Longrightarrow>
   dseg N P a xs b = dseg N' P' a xs b"
  by (induction xs arbitrary: a) auto

lemma dlist_frame:
  assumes "\<And>y. y \<in> set (h # xs) \<Longrightarrow> nxt t y = nxt s y \<and> prv t y = prv s y"
  shows "dlist t h xs = dlist s h xs"
proof -
  have "dseg (nxt t) (prv t) h xs h = dseg (nxt s) (prv s) h xs h"
    by (rule dseg_cong) (simp_all add: assms)
  then show ?thesis by (simp add: dlist_def)
qed

lemma dseg_last_first:
  assumes "dseg N P a xs b"
  shows "N a = hd (xs @ [b])" and "P b = last (a # xs)"
  using assms by (induction xs arbitrary: a) auto

lemma dlist_init: "dlist (lst_init h s) h []"
  by (simp add: dlist_def lst_init_def Let_def)

lemma dlist_empty: "dlist s h xs \<Longrightarrow> lst_empty h s \<longleftrightarrow> xs = []"
  by (cases xs) (auto simp: dlist_def lst_empty_def)

lemma dlist_push:
  assumes "dlist s h xs" and "p \<notin> set (h # xs)"
  shows "dlist (lst_push h p s) h (p # xs)"
proof (cases xs)
  case Nil
  then show ?thesis using assms by (auto simp: dlist_def lst_push_def Let_def)
next
  case (Cons y ys)
  have seg: "dseg (nxt s) (prv s) y ys h" using assms(1) Cons by (simp add: dlist_def)
  have "dseg (nxt (lst_push h p s)) (prv (lst_push h p s)) y ys h"
    unfolding lst_push_def Let_def
    by (subst dseg_cong [where N' = "nxt s" and P' = "prv s"])
      (use seg assms Cons in \<open>auto simp: dlist_def\<close>)
  then show ?thesis using assms Cons
    by (auto simp: dlist_def lst_push_def Let_def)
qed

text \<open>Where \<open>x\<close> stands between its neighbours, removing it joins them.\<close>

lemma dlist_remove:
  assumes "dlist s h (ys @ x # zs)"
  shows "dlist (lst_remove x s) h (ys @ zs)"
proof -
  let ?N = "(nxt s)(last (h # ys) := hd (zs @ [h]))"
  let ?P = "(prv s)(hd (zs @ [h]) := last (h # ys))"
  have a: "dseg (nxt s) (prv s) h ys x" and b: "dseg (nxt s) (prv s) x zs h"
    and d: "distinct (h # ys @ x # zs)"
    using assms by (auto simp: dlist_def dseg_append)
  have nx: "nxt s x = hd (zs @ [h])" and px: "prv s x = last (h # ys)"
    using dseg_last_first [OF a] dseg_last_first [OF b] by auto
  have "last (h # ys) \<noteq> x" using d by (metis UnCI distinct.simps(2) distinct_append
      last_ConsL last_ConsR last_in_set list.set_intros(1) set_append disjoint_iff)
  then have rem: "lst_remove x s = s\<lparr>nxt := ?N, prv := ?P\<rparr>"
    by (simp add: lst_remove_def Let_def nx px)
  have "dseg ?N ?P h (ys @ zs) h"
  proof (cases zs)
    case Nil
    then show ?thesis using a d
    proof (cases ys rule: rev_cases)
      case (snoc us u)
      have "dseg ?N ?P h us u"
        using a snoc d Nil by (subst dseg_cong [where N' = "nxt s" and P' = "prv s"]) (auto simp: dseg_append)
      then show ?thesis using snoc Nil by (simp add: dseg_append)
    qed simp
  next
    case (Cons z ws)
    have "last (h # ys) \<in> set (h # ys)" by (rule last_in_set) simp
    then have "last (h # ys) \<notin> set zs" using d by (auto simp del: last.simps)
    then have r: "dseg ?N ?P z ws h"
      using b Cons d by (subst dseg_cong [where N' = "nxt s" and P' = "prv s"])
        (auto split: if_splits)
    have l: "dseg ?N ?P h ys z"
    proof (cases ys rule: rev_cases)
      case Nil
      then show ?thesis using Cons by simp
    next
      case (snoc us u)
      have "dseg ?N ?P h us u"
        using a snoc d Cons by (subst dseg_cong [where N' = "nxt s" and P' = "prv s"]) (auto simp: dseg_append)
      then show ?thesis using snoc Cons by (simp add: dseg_append)
    qed
    show ?thesis using l r Cons by (simp add: dseg_append)
  qed
  then show ?thesis using d rem by (auto simp: dlist_def)
qed


lemma dlist_push_frame:
  assumes "dlist s h xs" and "dlist s k ys" and "set (k # ys) \<inter> set (p # h # xs) = {}"
  shows "dlist (lst_push h p s) k ys"
proof -
  have "nxt s h \<in> set (h # xs)" using assms(1) by (cases xs) (auto simp: dlist_def)
  then have "\<And>y. y \<in> set (k # ys) \<Longrightarrow> y \<noteq> h \<and> y \<noteq> p \<and> y \<noteq> nxt s h" using assms(3) by auto
  then have "dlist (lst_push h p s) k ys = dlist s k ys"
    by (intro dlist_frame) (auto simp: lst_push_def Let_def)
  then show ?thesis using assms(2) by simp
qed

lemma dlist_remove_frame:
  assumes "dlist s h (us @ x # vs)" and "dlist s k ys"
    and "set (k # ys) \<inter> set (h # us @ x # vs) = {}"
  shows "dlist (lst_remove x s) k ys"
proof -
  have a: "dseg (nxt s) (prv s) h us x" and b: "dseg (nxt s) (prv s) x vs h"
    using assms(1) by (auto simp: dlist_def dseg_append)
  have n: "nxt s x \<in> set (vs @ [h])"
    unfolding dseg_last_first(1) [OF b] by (rule hd_in_set) simp
  have q: "prv s x \<in> set (h # us)"
    unfolding dseg_last_first(2) [OF a] by (rule last_in_set) simp
  have "x \<noteq> prv s x" using assms(1) q by (auto simp: dlist_def)
  then have "dlist (lst_remove x s) k ys = dlist s k ys"
    using assms(3) n q by (intro dlist_frame) (auto simp: lst_remove_def Let_def)
  then show ?thesis using assms(2) by simp
qed

lemma lst_pop_eq:
  "dlist s h (x # xs) \<Longrightarrow> lst_pop h s = Inr (x, lst_remove x s)"
  by (auto simp: lst_pop_def monad_simps dlist_empty) (auto simp: dlist_def)

section \<open>The interface the allocator relies on\<close>

text \<open>\<open>apart n H F\<close>: the \<open>n\<close> lists with heads \<open>H\<close> and nodes \<open>F\<close> share no node.\<close>

definition apart :: "nat \<Rightarrow> (nat \<Rightarrow> int) \<Rightarrow> (nat \<Rightarrow> int list) \<Rightarrow> bool" where
  "apart n H F \<longleftrightarrow> (\<forall>j<n. \<forall>k<n. j \<noteq> k \<longrightarrow> set (H j # F j) \<inter> set (H k # F k) = {})"

lemma apartD: "apart n H F \<Longrightarrow> j < n \<Longrightarrow> k < n \<Longrightarrow> j \<noteq> k \<Longrightarrow> set (H j # F j) \<inter> set (H k # F k) = {}"
  by (simp add: apart_def)

lemma apart_push:
  assumes "apart n H F" and "\<And>k. k < n \<Longrightarrow> p \<notin> set (H k # F k)"
  shows "apart n H (F(j := p # F j))"
  unfolding apart_def
proof (intro allI impI)
  fix a b assume ab: "a < n" "b < n" "a \<noteq> b"
  have "set (H a # F a) \<inter> set (H b # F b) = {}" using assms(1) ab by (rule apartD)
  moreover have "p \<notin> set (H a # F a)" "p \<notin> set (H b # F b)" using assms(2) ab by blast+
  ultimately show "set (H a # (F(j := p # F j)) a) \<inter> set (H b # (F(j := p # F j)) b) = {}"
    using ab(3) by (cases "a = j"; cases "b = j") auto
qed

lemma apart_subset:
  assumes "apart n H F" and "\<And>k. k < n \<Longrightarrow> set (G k) \<subseteq> set (F k)"
  shows "apart n H G"
  unfolding apart_def
proof (intro allI impI)
  fix a b assume ab: "a < n" "b < n" "a \<noteq> b"
  have "set (H a # F a) \<inter> set (H b # F b) = {}" using assms(1) ab by (rule apartD)
  moreover have "set (G a) \<subseteq> set (F a)" "set (G b) \<subseteq> set (F b)" using assms(2) ab by blast+
  ultimately show "set (H a # G a) \<inter> set (H b # G b) = {}" by auto
qed

locale intrusive_list =
  fixes lst :: "'s \<Rightarrow> int \<Rightarrow> int list \<Rightarrow> bool"
    and push :: "int \<Rightarrow> int \<Rightarrow> 's \<Rightarrow> 's"
    and remove :: "int \<Rightarrow> 's \<Rightarrow> 's"
    and pop :: "int \<Rightarrow> ('s, int) kmon"
    and empty :: "int \<Rightarrow> 's \<Rightarrow> bool"
  assumes push_law: "lst s h xs \<Longrightarrow> p \<notin> set (h # xs) \<Longrightarrow> lst (push h p s) h (p # xs)"
    and remove_law: "lst s h (us @ x # vs) \<Longrightarrow> lst (remove x s) h (us @ vs)"
    and pop_law: "lst s h (x # xs) \<Longrightarrow> pop h s = Inr (x, remove x s)"
    and empty_law: "lst s h xs \<Longrightarrow> empty h s \<longleftrightarrow> xs = []"
    and push_frame: "lst s h xs \<Longrightarrow> lst s k ys \<Longrightarrow> set (k # ys) \<inter> set (p # h # xs) = {} \<Longrightarrow>
      lst (push h p s) k ys"
    and remove_frame: "lst s h (us @ x # vs) \<Longrightarrow> lst s k ys \<Longrightarrow>
      set (k # ys) \<inter> set (h # us @ x # vs) = {} \<Longrightarrow> lst (remove x s) k ys"
begin

text \<open>A family of lists in one heap: pushing on or removing from one leaves the others.\<close>

lemma family_push:
  assumes fam: "\<And>k. k < n \<Longrightarrow> lst s (H k) (F k)" and ap: "apart n H F" and "j < n"
    and new: "\<And>k. k < n \<Longrightarrow> p \<notin> set (H k # F k)" and "k < n"
  shows "lst (push (H j) p s) (H k) ((F(j := p # F j)) k)"
proof (cases "k = j")
  case True
  then show ?thesis using push_law [OF fam new] assms(3) by simp
next
  case False
  have "set (H k # F k) \<inter> set (H j # F j) = {}"
    using ap \<open>k < n\<close> \<open>j < n\<close> False by (rule apartD)
  then have "set (H k # F k) \<inter> set (p # H j # F j) = {}" using new [OF \<open>k < n\<close>] by auto
  then show ?thesis using False push_frame [OF fam [OF \<open>j < n\<close>] fam [OF \<open>k < n\<close>]] by simp
qed

lemma family_remove:
  assumes fam: "\<And>k. k < n \<Longrightarrow> lst s (H k) (F k)" and ap: "apart n H F" and "j < n"
    and x: "F j = us @ x # vs" and "k < n"
  shows "lst (remove x s) (H k) ((F(j := us @ vs)) k)"
proof (cases "k = j")
  case True
  then show ?thesis using fam [OF \<open>j < n\<close>] x remove_law by simp
next
  case False
  have "set (H k # F k) \<inter> set (H j # F j) = {}"
    using ap \<open>k < n\<close> \<open>j < n\<close> False by (rule apartD)
  then show ?thesis using False x remove_frame [of s "H j" us x vs "H k" "F k"]
      fam [OF \<open>j < n\<close>] fam [OF \<open>k < n\<close>] by simp
qed

end

interpretation dl: intrusive_list dlist lst_push lst_remove lst_pop lst_empty
  by unfold_locales (rule dlist_push dlist_remove lst_pop_eq dlist_empty dlist_push_frame
      dlist_remove_frame; assumption)+

end
