(* ===== verification/Buddy_Spec.thy ===== *)
theory Buddy_Spec
  imports Main
begin

text \<open>
  What a buddy allocator is, without memory: the tree of blocks.

  The heap is a block of \<open>2 ^ M\<close> leaves.  A block of size \<open>k\<close> with index \<open>i\<close> covers the
  leaves from \<open>i * 2 ^ k\<close> up to \<open>(i + 1) * 2 ^ k\<close>.  The state is three families: \<open>A k i\<close> and
  \<open>S k i\<close> are the bits \<open>alloc\<close> and \<open>split\<close> that kernel/buddy.c keeps for the block, \<open>F k\<close> the
  blocks on the free list of size \<open>k\<close>.  The theory Buddy shows that \<open>bd_malloc\<close> and
  \<open>bd_free\<close> carry out the steps defined here.
\<close>

section \<open>Blocks and the invariant\<close>

type_synonym bits = "nat \<Rightarrow> nat \<Rightarrow> bool"

type_synonym frees = "nat \<Rightarrow> nat set"

definition leaves :: "nat \<Rightarrow> nat \<Rightarrow> nat set" where
  "leaves k i = {i * 2 ^ k ..< (i + 1) * 2 ^ k}"

definition node :: "nat \<Rightarrow> nat \<Rightarrow> nat \<Rightarrow> bool" where
  "node M k i \<longleftrightarrow> k \<le> M \<and> i < 2 ^ (M - k)"

text \<open>A block exists when it is the whole heap or the block above it has been split.\<close>

definition exists_blk :: "nat \<Rightarrow> bits \<Rightarrow> nat \<Rightarrow> nat \<Rightarrow> bool" where
  "exists_blk M S k i \<longleftrightarrow> k = M \<or> S (Suc k) (i div 2)"

definition used :: "nat \<Rightarrow> bits \<Rightarrow> bits \<Rightarrow> nat \<Rightarrow> nat \<Rightarrow> bool" where
  "used M A S k i \<longleftrightarrow> node M k i \<and> exists_blk M S k i \<and> A k i \<and> \<not> S k i"

definition buddy_of :: "nat \<Rightarrow> nat" where
  "buddy_of i = (if even i then i + 1 else i - 1)"

definition binv :: "nat \<Rightarrow> bits \<Rightarrow> bits \<Rightarrow> frees \<Rightarrow> bool" where
  "binv M A S F \<longleftrightarrow>
     (\<forall>k i. node M k i \<longrightarrow> S k i \<longrightarrow> A k i \<and> 0 < k) \<and>
     (\<forall>k i. node M k i \<longrightarrow> A k i \<longrightarrow> exists_blk M S k i) \<and>
     (\<forall>k i. i \<in> F k \<longleftrightarrow> node M k i \<and> exists_blk M S k i \<and> \<not> A k i) \<and>
     (\<forall>k i. node M (Suc k) i \<longrightarrow> S (Suc k) i \<longrightarrow> A k (2 * i) \<or> A k (2 * i + 1))"

lemma binv_split_alloc: "binv M A S F \<Longrightarrow> node M k i \<Longrightarrow> S k i \<Longrightarrow> A k i \<and> 0 < k"
  and binv_alloc_exists: "binv M A S F \<Longrightarrow> node M k i \<Longrightarrow> A k i \<Longrightarrow> exists_blk M S k i"
  and binv_free: "binv M A S F \<Longrightarrow> i \<in> F k \<longleftrightarrow> node M k i \<and> exists_blk M S k i \<and> \<not> A k i"
  and binv_merged: "binv M A S F \<Longrightarrow> node M (Suc k) i \<Longrightarrow> S (Suc k) i \<Longrightarrow> A k (2 * i) \<or> A k (2 * i + 1)"
  by (simp_all add: binv_def)

lemma node_parent: "node M k i \<Longrightarrow> k < M \<Longrightarrow> node M (Suc k) (i div 2)"
proof -
  assume a: "node M k i" "k < M"
  then have "M - k = Suc (M - Suc k)" by simp
  with a show ?thesis by (simp add: node_def)
qed

lemma node_child: "node M (Suc k) i \<Longrightarrow> j \<le> 1 \<Longrightarrow> node M k (2 * i + j)"
proof -
  assume a: "node M (Suc k) i" "j \<le> 1"
  then have "M - k = Suc (M - Suc k)" by (auto simp: node_def)
  with a show ?thesis by (simp add: node_def)
qed

lemma node_buddy: "node M k i \<Longrightarrow> k < M \<Longrightarrow> node M k (buddy_of i)"
proof -
  assume a: "node M k i" "k < M"
  then have p: "node M (Suc k) (i div 2)" by (rule node_parent)
  show ?thesis
  proof (cases "even i")
    case True
    then show ?thesis using node_child [OF p, of 1] by (simp add: buddy_of_def)
  next
    case False
    then show ?thesis using node_child [OF p, of 0] by (simp add: buddy_of_def)
  qed
qed

lemma buddy_of_div [simp]: "buddy_of i div 2 = i div 2"
  by (auto simp: buddy_of_def elim!: evenE oddE)

lemma buddy_of_neq [simp]: "buddy_of i \<noteq> i"
  by (cases "i = 0") (auto simp: buddy_of_def)

lemma same_parent: "j div 2 = i div 2 \<Longrightarrow> j = i \<or> j = buddy_of i"
  by (cases "even i"; cases "even j") (auto simp: buddy_of_def elim!: evenE oddE)

section \<open>Blocks in use do not overlap\<close>

text \<open>Every block above a block that exists is split.\<close>

lemma ancestors_split:
  assumes inv: "binv M A S F" and n: "node M k i" and e: "exists_blk M S k i" and "k + Suc j \<le> M"
  shows "S (k + Suc j) (i div 2 ^ Suc j)"
  using assms(4)
proof (induction j)
  case 0
  then show ?case using e by (simp add: exists_blk_def)
next
  case (Suc j)
  have s: "S (k + Suc j) (i div 2 ^ Suc j)" using Suc by simp
  have "i < 2 ^ (M - k)" "M - k = Suc j + (M - (k + Suc j))" using n Suc.prems by (simp_all add: node_def)
  then have "i < 2 ^ Suc j * 2 ^ (M - (k + Suc j))" by (metis power_add)
  then have nn: "node M (k + Suc j) (i div 2 ^ Suc j)"
    using Suc.prems by (simp add: node_def less_mult_imp_div_less mult.commute)
  have "exists_blk M S (k + Suc j) (i div 2 ^ Suc j)"
    using binv_alloc_exists [OF inv nn] binv_split_alloc [OF inv nn s] by blast
  then have "S (Suc (k + Suc j)) (i div 2 ^ Suc j div 2)"
    using Suc.prems by (auto simp: exists_blk_def)
  then show ?case by (simp add: div_mult2_eq [symmetric] mult.commute)
qed

lemma leaves_div: "x \<in> leaves k i \<longleftrightarrow> x div 2 ^ k = i"
proof -
  have "0 < (2::nat) ^ k" by simp
  then show ?thesis
    by (auto simp: leaves_def div_nat_eqI algebra_simps dividend_less_times_div)
qed

lemma leaves_up: "x \<in> leaves k i \<Longrightarrow> x \<in> leaves (k + j) (i div 2 ^ j)"
  by (simp add: leaves_div power_add div_mult2_eq)

lemma leaf_blocks_disjoint:
  assumes inv: "binv M A S F"
    and a: "node M k i" "exists_blk M S k i" "\<not> S k i"
    and b: "node M l j" "exists_blk M S l j" "\<not> S l j"
    and x: "x \<in> leaves k i" "x \<in> leaves l j"
  shows "k = l \<and> i = j"
proof -
  have up: "\<not> (k' < l' \<and> i' div 2 ^ (l' - k') = j')"
    if "node M k' i'" "exists_blk M S k' i'" "\<not> S l' j'" "node M l' j'" for k' i' l' j'
  proof
    assume h: "k' < l' \<and> i' div 2 ^ (l' - k') = j'"
    define d where "d = l' - Suc k'"
    have l: "l' = k' + Suc d" using h d_def by simp
    then have "S (k' + Suc d) (i' div 2 ^ Suc d)"
      using that h by (intro ancestors_split [OF inv]) (auto simp: node_def)
    then show False using that h l by simp
  qed
  consider "k < l" | "l < k" | "k = l" by linarith
  then show ?thesis
  proof cases
    case 1
    then have "i div 2 ^ (l - k) = j" using x leaves_up [of x k i "l - k"] by (simp add: leaves_div)
    with 1 up [OF a(1,2) b(3,1)] show ?thesis by blast
  next
    case 2
    then have "j div 2 ^ (k - l) = i" using x leaves_up [of x l j "k - l"] by (simp add: leaves_div)
    with 2 up [OF b(1,2) a(3,1)] show ?thesis by blast
  next
    case 3
    then show ?thesis using x by (simp add: leaves_div)
  qed
qed

lemma used_disjoint:
  "binv M A S F \<Longrightarrow> used M A S k i \<Longrightarrow> used M A S l j \<Longrightarrow> (k, i) \<noteq> (l, j) \<Longrightarrow>
   leaves k i \<inter> leaves l j = {}"
  unfolding used_def using leaf_blocks_disjoint by (metis Pair_inject disjoint_iff)

lemma used_free_disjoint:
  assumes "binv M A S F" and "used M A S k i" and "j \<in> F l"
  shows "leaves k i \<inter> leaves l j = {}"
proof -
  have f: "node M l j" "exists_blk M S l j" "\<not> A l j" using assms binv_free by blast+
  then have "\<not> S l j" using binv_split_alloc [OF assms(1)] by blast
  then show ?thesis
    using leaf_blocks_disjoint [OF assms(1)] assms(2) f unfolding used_def by (metis disjoint_iff)
qed


section \<open>The steps of the allocator\<close>

definition set_bit2 :: "bits \<Rightarrow> nat \<Rightarrow> nat \<Rightarrow> bool \<Rightarrow> bits" where
  "set_bit2 B k i v = B(k := (B k)(i := v))"

lemma set_bit2_apply [simp]: "set_bit2 B k i v l j = (if l = k \<and> j = i then v else B l j)"
  by (simp add: set_bit2_def)

text \<open>Take a block off its free list.\<close>

lemma take_step:
  assumes inv: "binv M A S F" and i: "i \<in> F k"
  shows "binv M (set_bit2 A k i True) S (F(k := F k - {i}))"
    and "used M (set_bit2 A k i True) S l j \<longleftrightarrow> used M A S l j \<or> (l, j) = (k, i)"
proof -
  have n: "node M k i" "exists_blk M S k i" "\<not> A k i" using inv i binv_free by blast+
  then have ns: "\<not> S k i" using binv_split_alloc [OF inv] by blast
  show "binv M (set_bit2 A k i True) S (F(k := F k - {i}))"
    unfolding binv_def
  proof (intro conjI allI impI)
    fix l j
    show "j \<in> (F(k := F k - {i})) l \<longleftrightarrow>
        node M l j \<and> exists_blk M S l j \<and> \<not> set_bit2 A k i True l j"
      using binv_free [OF inv, of j l] by auto
  qed (use inv n in \<open>auto simp: binv_def split: if_splits\<close>)
  show "used M (set_bit2 A k i True) S l j \<longleftrightarrow> used M A S l j \<or> (l, j) = (k, i)"
    using n ns by (auto simp: used_def)
qed

lemma absent_children:
  assumes inv: "binv M A S F" and u: "used M A S (Suc k) i" and j: "j div 2 = i"
  shows "\<not> A k j" "\<not> S k j" "node M k j"
proof -
  have "node M (Suc k) i" using u by (simp add: used_def)
  from node_child [OF this, of "j mod 2"] j show nj: "node M k j"
    by (auto simp: mult.commute)
  have "\<not> exists_blk M S k j" using u j by (auto simp: used_def exists_blk_def node_def)
  then show "\<not> A k j" using binv_alloc_exists [OF inv nj] by blast
  then show "\<not> S k j" using binv_split_alloc [OF inv nj] by blast
qed

text \<open>Split a block in use: its left half is in use, its right half is free.\<close>

lemma split_step:
  assumes inv: "binv M A S F" and u: "used M A S (Suc k) i"
  defines "A' \<equiv> set_bit2 A k (2 * i) True" and "S' \<equiv> set_bit2 S (Suc k) i True"
    and "F' \<equiv> F(k := insert (2 * i + 1) (F k))"
  shows "binv M A' S' F'"
    and "used M A' S' l j \<longleftrightarrow> (used M A S l j \<and> (l, j) \<noteq> (Suc k, i)) \<or> (l, j) = (k, 2 * i)"
proof -
  have Aa: "A' l j = (if l = k \<and> j = 2 * i then True else A l j)" for l j by (simp add: A'_def)
  have Sa: "S' l j = (if l = Suc k \<and> j = i then True else S l j)" for l j by (simp add: S'_def)
  note ch = absent_children [OF inv u]
  have n: "node M (Suc k) i" "A (Suc k) i" "\<not> S (Suc k) i" "Suc k \<le> M"
    using u by (auto simp: used_def node_def)
  have ex: "exists_blk M S' l j \<longleftrightarrow> exists_blk M S l j \<or> (l = k \<and> j div 2 = i)" for l j
    by (auto simp: exists_blk_def Sa)
  have div: "j div 2 = i \<longleftrightarrow> j = 2 * i \<or> j = 2 * i + 1" for j :: nat by auto
  show "binv M A' S' F'"
    unfolding binv_def
  proof (intro conjI allI impI)
    fix l j assume "node M l j" "S' l j"
    then show "A' l j" and "0 < l"
      using inv n by (auto simp: binv_def Aa Sa split: if_splits)
  next
    fix l j assume "node M l j" "A' l j"
    then show "exists_blk M S' l j"
      using inv by (auto simp: binv_def Aa ex split: if_splits)
  next
    fix l j
    have "\<not> exists_blk M S k j" if "j div 2 = i" for j
      using that n by (auto simp: exists_blk_def)
    then show "j \<in> F' l \<longleftrightarrow> node M l j \<and> exists_blk M S' l j \<and> \<not> A' l j"
      using binv_free [OF inv, of j l] ch [of "2 * i + 1"]
      by (auto simp: F'_def Aa ex div)
  next
    fix l j assume "node M (Suc l) j" "S' (Suc l) j"
    then show "A' l (2 * j) \<or> A' l (2 * j + 1)"
      using inv by (auto simp: binv_def Aa Sa split: if_splits)
  qed
  show "used M A' S' l j \<longleftrightarrow> (used M A S l j \<and> (l, j) \<noteq> (Suc k, i)) \<or> (l, j) = (k, 2 * i)"
    using ch [of "2 * i"] ch [of "2 * i + 1"] n
    by (auto simp: used_def ex Aa Sa div split: if_splits)
qed

text \<open>Join a block in use with its free buddy: the block above them is in use.\<close>

lemma merge_step:
  assumes inv: "binv M A S F" and u: "used M A S k i" and k: "k < M" and b: "\<not> A k (buddy_of i)"
  defines "A' \<equiv> set_bit2 A k i False" and "S' \<equiv> set_bit2 S (Suc k) (i div 2) False"
    and "F' \<equiv> F(k := F k - {buddy_of i})"
  shows "binv M A' S' F'" and "buddy_of i \<in> F k"
    and "used M A' S' l j \<longleftrightarrow> (used M A S l j \<and> (l, j) \<noteq> (k, i)) \<or> (l, j) = (Suc k, i div 2)"
proof -
  have Aa: "A' l j = (if l = k \<and> j = i then False else A l j)" for l j by (simp add: A'_def)
  have Sa: "S' l j = (if l = Suc k \<and> j = i div 2 then False else S l j)" for l j
    by (simp add: S'_def)
  have n: "node M k i" "A k i" "\<not> S k i" "S (Suc k) (i div 2)"
    using u k by (auto simp: used_def exists_blk_def)
  have p: "node M (Suc k) (i div 2)" using n(1) k by (rule node_parent)
  have pa: "A (Suc k) (i div 2)" using binv_split_alloc [OF inv p n(4)] by blast
  have pe: "exists_blk M S (Suc k) (i div 2)" using binv_alloc_exists [OF inv p pa] .
  have nb: "node M k (buddy_of i)" using n(1) k by (rule node_buddy)
  have sb: "\<not> S k (buddy_of i)" using b binv_split_alloc [OF inv nb] by blast
  show bf: "buddy_of i \<in> F k"
    using binv_free [OF inv] nb b n(4) by (auto simp: exists_blk_def)
  have ex: "exists_blk M S' l j \<longleftrightarrow> exists_blk M S l j \<and> \<not> (l = k \<and> j div 2 = i div 2)" for l j
    using k by (auto simp: exists_blk_def Sa)
  show "binv M A' S' F'"
    unfolding binv_def
  proof (intro conjI allI impI)
    fix l j assume "node M l j" "S' l j"
    then show "A' l j" and "0 < l"
      using inv n by (auto simp: binv_def Aa Sa split: if_splits)
  next
    fix l j assume "node M l j" "A' l j"
    then show "exists_blk M S' l j"
      using inv b same_parent [of j i] by (auto simp: binv_def Aa ex split: if_splits)
  next
    fix l j
    show "j \<in> F' l \<longleftrightarrow> node M l j \<and> exists_blk M S' l j \<and> \<not> A' l j"
      using binv_free [OF inv, of j l] n same_parent [of j i]
      by (auto simp: F'_def Aa ex)
  next
    fix l j assume h: "node M (Suc l) j" "S' (Suc l) j"
    then have "A l (2 * j) \<or> A l (2 * j + 1)" using inv by (auto simp: binv_def Sa split: if_splits)
    moreover have "(l, 2 * j) \<noteq> (k, i)" "(l, 2 * j + 1) \<noteq> (k, i)"
      using h(2) by (auto simp: Sa split: if_splits)
    ultimately show "A' l (2 * j) \<or> A' l (2 * j + 1)" by (auto simp: Aa)
  qed
  show "used M A' S' l j \<longleftrightarrow> (used M A S l j \<and> (l, j) \<noteq> (k, i)) \<or> (l, j) = (Suc k, i div 2)"
    using p pa pe b same_parent [of j i] n(4) k
    by (auto simp: used_def ex Aa Sa split: if_splits)
qed

text \<open>Put a block in use, whose buddy is not free, on its free list.\<close>

lemma give_step:
  assumes inv: "binv M A S F" and u: "used M A S k i" and k: "k < M" and b: "A k (buddy_of i)"
  defines "A' \<equiv> set_bit2 A k i False" and "F' \<equiv> F(k := insert i (F k))"
  shows "binv M A' S F'"
    and "used M A' S l j \<longleftrightarrow> used M A S l j \<and> (l, j) \<noteq> (k, i)"
proof -
  have n: "node M k i" "A k i" "\<not> S k i" "exists_blk M S k i" using u by (auto simp: used_def)
  show "binv M A' S F'"
    unfolding binv_def
  proof (intro conjI allI impI)
    fix l j assume "node M l j" "S l j"
    then show "A' l j" and "0 < l"
      using inv n by (auto simp: binv_def A'_def)
  next
    fix l j assume "node M l j" "A' l j"
    then show "exists_blk M S l j" using inv by (auto simp: binv_def A'_def split: if_splits)
  next
    fix l j
    show "j \<in> F' l \<longleftrightarrow> node M l j \<and> exists_blk M S l j \<and> \<not> A' l j"
      using binv_free [OF inv, of j l] n by (auto simp: F'_def A'_def)
  next
    fix l j assume h: "node M (Suc l) j" "S (Suc l) j"
    then have "A l (2 * j) \<or> A l (2 * j + 1)" using inv by (auto simp: binv_def)
    moreover have "buddy_of (2 * j) = 2 * j + 1" "buddy_of (2 * j + 1) = 2 * j"
      by (simp_all add: buddy_of_def)
    ultimately show "A' l (2 * j) \<or> A' l (2 * j + 1)"
      using b by (auto simp: A'_def)
  qed
  show "used M A' S l j \<longleftrightarrow> used M A S l j \<and> (l, j) \<noteq> (k, i)"
    by (auto simp: used_def A'_def split: if_splits)
qed

end
