(* ===== verification/Buddy.thy ===== *)
theory Buddy
  imports DList Buddy_Spec
begin

text \<open>
  The buddy allocator: kernel/buddy.c, and kernel/kalloc.c on top of it.

  Addresses and C integers are values of \<^typ>\<open>int\<close>; where the source stores a difference of
  pointers in an \<open>int\<close> the model reduces it to 32 bits.  A bit array is a list of bytes, and
  an access outside it is the failure \<open>Out_Of_Bounds\<close>, as is an index outside \<open>bd_sizes\<close>.
  The free lists are the lists of the theory DList, threaded through the free blocks
  themselves.  The messages the source prints are left out.
\<close>

unbundle bit_operations_syntax

section \<open>State\<close>

type_synonym byte = "8 word"

record sz_info =
  sz_alloc :: "byte list"
  sz_split :: "byte list"

record bd_state = list_heap +
  nsizes :: int
  bd_base :: int
  bd_sizes_ptr :: int
  bd_sizes :: "sz_info list"

definition LEAF_SIZE :: int where
  "LEAF_SIZE = 16"

definition MAXSIZE :: "'a bd_state_scheme \<Rightarrow> int" where
  "MAXSIZE s = nsizes s - 1"

definition BLK_SIZE :: "int \<Rightarrow> int" where
  "BLK_SIZE k = 2 ^ nat k * LEAF_SIZE"

definition NBLK :: "'a bd_state_scheme \<Rightarrow> int \<Rightarrow> int" where
  "NBLK s k = 2 ^ nat (MAXSIZE s - k)"

definition ROUNDUP :: "int \<Rightarrow> int \<Rightarrow> int" where
  "ROUNDUP n sz = ((n - 1) div sz + 1) * sz"

text \<open>\<open>sizeof(Sz_info)\<close>: a list head of two pointers and two array pointers, eight bytes each.\<close>

definition sizeof_Sz_info :: int where
  "sizeof_Sz_info = 32"

text \<open>The address of \<open>bd_sizes[k].free\<close>, the first member of its structure.\<close>

definition free_head :: "'a bd_state_scheme \<Rightarrow> int \<Rightarrow> int" where
  "free_head s k = bd_sizes_ptr s + sizeof_Sz_info * k"

section \<open>Bit arrays\<close>

definition bit_isset :: "byte list \<Rightarrow> int \<Rightarrow> kerr + bool" where
  "bit_isset array index =
     (if 0 \<le> index \<and> index div 8 < int (length array)
      then (let b = array ! nat (index div 8); m = push_bit (nat (index mod 8)) 1
            in Inr ((b AND m) = m))
      else Inl Out_Of_Bounds)"

definition bit_set :: "byte list \<Rightarrow> int \<Rightarrow> kerr + byte list" where
  "bit_set array index =
     (if 0 \<le> index \<and> index div 8 < int (length array)
      then (let b = array ! nat (index div 8); m = push_bit (nat (index mod 8)) 1
            in Inr (array[nat (index div 8) := b OR m]))
      else Inl Out_Of_Bounds)"

definition bit_clear :: "byte list \<Rightarrow> int \<Rightarrow> kerr + byte list" where
  "bit_clear array index =
     (if 0 \<le> index \<and> index div 8 < int (length array)
      then (let b = array ! nat (index div 8); m = push_bit (nat (index mod 8)) 1
            in Inr (array[nat (index div 8) := b AND NOT m]))
      else Inl Out_Of_Bounds)"

text \<open>\<open>bd_sizes[k]\<close>, read and written.\<close>

definition get_size :: "int \<Rightarrow> ('a bd_state_scheme, sz_info) kmon" where
  "get_size k = (\<lambda>s. if 0 \<le> k \<and> k < int (length (bd_sizes s))
     then Inr (bd_sizes s ! nat k, s) else Inl Out_Of_Bounds)"

definition put_size :: "int \<Rightarrow> sz_info \<Rightarrow> ('a bd_state_scheme, unit) kmon" where
  "put_size k z = modify (\<lambda>s. s\<lparr>bd_sizes := (bd_sizes s)[nat k := z]\<rparr>)"

definition alloc_isset :: "int \<Rightarrow> int \<Rightarrow> ('a bd_state_scheme, bool) kmon" where
  "alloc_isset k i = bindM (get_size k) (\<lambda>z. liftM (bit_isset (sz_alloc z) i))"

definition split_isset :: "int \<Rightarrow> int \<Rightarrow> ('a bd_state_scheme, bool) kmon" where
  "split_isset k i = bindM (get_size k) (\<lambda>z. liftM (bit_isset (sz_split z) i))"

definition on_alloc :: "(byte list \<Rightarrow> int \<Rightarrow> kerr + byte list) \<Rightarrow> int \<Rightarrow> int \<Rightarrow>
    ('a bd_state_scheme, unit) kmon" where
  "on_alloc f k i = bindM (get_size k) (\<lambda>z.
     bindM (liftM (f (sz_alloc z) i)) (\<lambda>a. put_size k (z\<lparr>sz_alloc := a\<rparr>)))"

definition on_split :: "(byte list \<Rightarrow> int \<Rightarrow> kerr + byte list) \<Rightarrow> int \<Rightarrow> int \<Rightarrow>
    ('a bd_state_scheme, unit) kmon" where
  "on_split f k i = bindM (get_size k) (\<lambda>z.
     bindM (liftM (f (sz_split z) i)) (\<lambda>a. put_size k (z\<lparr>sz_split := a\<rparr>)))"

section \<open>Allocation\<close>

text \<open>
  The loop of \<open>firstk\<close> works on \<open>uint64\<close>: for \<open>n\<close> above \<open>2 ^ 63\<close> the doubling wraps to 0
  and the loop does not end, which is the value \<open>None\<close>.
\<close>

partial_function (option) firstk_loop :: "64 word \<Rightarrow> int \<Rightarrow> 64 word \<Rightarrow> int option" where
  "firstk_loop n k sz = (if sz < n then firstk_loop n (k + 1) (sz * 2) else Some k)"

definition firstk :: "64 word \<Rightarrow> int option" where
  "firstk n = firstk_loop n 0 16"

definition blk_index :: "'a bd_state_scheme \<Rightarrow> int \<Rightarrow> int \<Rightarrow> int" where
  "blk_index s k p = (let n = c_int (p - bd_base s) in c_int (c_div n (BLK_SIZE k)))"

definition addr :: "'a bd_state_scheme \<Rightarrow> int \<Rightarrow> int \<Rightarrow> int" where
  "addr s k bi = (let n = c_int (bi * BLK_SIZE k) in bd_base s + n)"

text \<open>One round of the splitting loop of \<open>bd_malloc\<close>.\<close>

definition split_block :: "int \<Rightarrow> int \<Rightarrow> ('a bd_state_scheme, unit) kmon" where
  "split_block p k =
     (let q = p + BLK_SIZE (k - 1) in
      bindM (gets (\<lambda>s. blk_index s k p)) (\<lambda>i.
      thenM (on_split bit_set k i)
     (bindM (gets (\<lambda>s. blk_index s (k - 1) p)) (\<lambda>i.
      thenM (on_alloc bit_set (k - 1) i)
     (modify (\<lambda>s. lst_push (free_head s (k - 1)) q s))))))"

definition bd_malloc :: "64 word \<Rightarrow> ('a bd_state_scheme, int) kmon" where
  "bd_malloc nbytes =
     thenM (acquire BdLock)
    (case firstk nbytes of None \<Rightarrow> failM Diverges | Some fk \<Rightarrow>
     bindM (gets (\<lambda>s. find (\<lambda>k. \<not> lst_empty (free_head s k) s) [fk..nsizes s - 1])) (\<lambda>found.
     case found of
       None \<Rightarrow> thenM (release BdLock) (ret 0)
     | Some k \<Rightarrow>
         bindM (gets (\<lambda>s. free_head s k)) (\<lambda>h.
         bindM (lst_pop h) (\<lambda>p.
         bindM (gets (\<lambda>s. blk_index s k p)) (\<lambda>i.
         thenM (on_alloc bit_set k i)
        (thenM (forM (rev [fk + 1..k]) (split_block p))
        (thenM (release BdLock) (ret p))))))))"

section \<open>Freeing\<close>

fun size_loop :: "int \<Rightarrow> int list \<Rightarrow> ('a bd_state_scheme, int) kmon" where
  "size_loop p [] = ret 0"
| "size_loop p (k # ks) =
     bindM (gets (\<lambda>s. blk_index s (k + 1) p)) (\<lambda>i.
     bindM (split_isset (k + 1) i) (\<lambda>b. if b then ret k else size_loop p ks))"

definition size_of :: "int \<Rightarrow> ('a bd_state_scheme, int) kmon" where
  "size_of p = bindM (gets nsizes) (\<lambda>n. size_loop p [0..n - 1])"

text \<open>
  The loop of \<open>bd_free\<close>: the first argument counts the rounds left until \<open>k\<close> reaches
  \<open>MAXSIZE\<close>; the result is the block that goes on the free list and its size.
\<close>

fun free_loop :: "nat \<Rightarrow> int \<Rightarrow> int \<Rightarrow> ('a bd_state_scheme, int \<times> int) kmon" where
  "free_loop 0 k p = ret (k, p)"
| "free_loop (Suc n) k p =
     bindM (gets (\<lambda>s. blk_index s k p)) (\<lambda>bi.
     let buddy = (if bi mod 2 = 0 then bi + 1 else bi - 1) in
     thenM (on_alloc bit_clear k bi)
    (bindM (alloc_isset k buddy) (\<lambda>b.
     if b then ret (k, p)
     else bindM (gets (\<lambda>s. addr s k buddy)) (\<lambda>q.
          thenM (modify (lst_remove q))
         (let p = (if buddy mod 2 = 0 then q else p) in
          bindM (gets (\<lambda>s. blk_index s (k + 1) p)) (\<lambda>i.
          thenM (on_split bit_clear (k + 1) i)
         (free_loop n (k + 1) p)))))))"

definition bd_free :: "int \<Rightarrow> ('a bd_state_scheme, unit) kmon" where
  "bd_free p =
     thenM (acquire BdLock)
    (bindM (size_of p) (\<lambda>k.
     bindM (gets MAXSIZE) (\<lambda>mx.
     bindM (free_loop (nat (mx - k)) k p) (\<lambda>(k, p).
     thenM (modify (\<lambda>s. lst_push (free_head s k) p s))
    (release BdLock)))))"

definition PGSIZE :: int where
  "PGSIZE = 4096"

definition kalloc :: "('a bd_state_scheme, int) kmon" where
  "kalloc = bd_malloc (word_of_int PGSIZE)"

definition kfree :: "int \<Rightarrow> ('a bd_state_scheme, unit) kmon" where
  "kfree pa = bd_free pa"


section \<open>Bits\<close>

definition bitf :: "byte list \<Rightarrow> nat \<Rightarrow> bool" where
  "bitf a i = bit (a ! (i div 8)) (i mod 8)"

definition bit_upd :: "byte list \<Rightarrow> nat \<Rightarrow> bool \<Rightarrow> byte list" where
  "bit_upd a i v = a[i div 8 := (if v then (a ! (i div 8)) OR push_bit (i mod 8) 1
                                 else (a ! (i div 8)) AND NOT (push_bit (i mod 8) 1))]"

lemma bit_single: "bit (2 ^ m :: byte) n \<longleftrightarrow> n = m \<and> m < 8"
  by (auto simp: bit_exp_iff possible_bit_word)

lemma and_single: "m < 8 \<Longrightarrow> ((b::byte) AND 2 ^ m = 2 ^ m) \<longleftrightarrow> bit b m"
  unfolding bit_eq_iff [of "b AND 2 ^ m"] by (auto simp: bit_and_iff bit_single)

lemma int_div8:
  "nat (int i div 8) = i div 8" "nat (int i mod 8) = i mod 8"
  "int i div 8 < int n \<longleftrightarrow> i div 8 < n"
  by (simp_all add: nat_div_distrib nat_mod_distrib) linarith

lemma bit_isset_eq: "i div 8 < length a \<Longrightarrow> bit_isset a (int i) = Inr (bitf a i)"
  by (simp add: bit_isset_def int_div8 Let_def and_single bitf_def)

lemma bit_set_eq: "i div 8 < length a \<Longrightarrow> bit_set a (int i) = Inr (bit_upd a i True)"
  by (simp add: bit_set_def int_div8 Let_def bit_upd_def)

lemma bit_clear_eq: "i div 8 < length a \<Longrightarrow> bit_clear a (int i) = Inr (bit_upd a i False)"
  by (simp add: bit_clear_def int_div8 Let_def bit_upd_def)

lemma length_bit_upd [simp]: "length (bit_upd a i v) = length a"
  by (simp add: bit_upd_def)

lemma bitf_upd: "i div 8 < length a \<Longrightarrow> bitf (bit_upd a i v) j = (if j = i then v else bitf a j)"
proof -
  assume i: "i div 8 < length a"
  have ne: "j div 8 = i div 8 \<Longrightarrow> j \<noteq> i \<Longrightarrow> j mod 8 \<noteq> i mod 8"
    by (metis div_mult_mod_eq)
  show ?thesis
  proof (cases "j div 8 = i div 8")
    case True
    then show ?thesis using i ne
      by (auto simp: bitf_def bit_upd_def bit_or_iff bit_and_iff bit_not_iff bit_single)
  next
    case False
    then show ?thesis by (auto simp: bitf_def bit_upd_def)
  qed
qed

section \<open>The state seen as a tree of blocks\<close>

definition Abit :: "'a bd_state_scheme \<Rightarrow> nat \<Rightarrow> nat \<Rightarrow> bool" where
  "Abit s k i = bitf (sz_alloc (bd_sizes s ! k)) i"

text \<open>There is no \<open>split\<close> array for size 0: leaves are not split.\<close>

definition Sbit :: "'a bd_state_scheme \<Rightarrow> nat \<Rightarrow> nat \<Rightarrow> bool" where
  "Sbit s k i \<longleftrightarrow> 0 < k \<and> bitf (sz_split (bd_sizes s ! k)) i"

definition maxk :: "'a bd_state_scheme \<Rightarrow> nat" where
  "maxk s = nat (nsizes s - 1)"

definition blk_addr :: "'a bd_state_scheme \<Rightarrow> nat \<Rightarrow> nat \<Rightarrow> int" where
  "blk_addr s k i = bd_base s + 16 * int (i * 2 ^ k)"

text \<open>
  The shape of the structures: at most 27 sizes, so that offsets fit in an \<open>int\<close>; an entry
  of \<open>bd_sizes\<close> for each size; arrays with a bit for each block (no \<open>split\<close> array for size 0).
\<close>

definition bd_wf :: "'a bd_state_scheme \<Rightarrow> bool" where
  "bd_wf s \<longleftrightarrow> 1 \<le> nsizes s \<and> nsizes s \<le> 27 \<and> 0 < bd_base s \<and>
     int (length (bd_sizes s)) = nsizes s \<and>
     (\<forall>k\<le>maxk s. 2 ^ (maxk s - k) \<le> 8 * length (sz_alloc (bd_sizes s ! k))) \<and>
     (\<forall>k\<le>maxk s. 0 < k \<longrightarrow> 2 ^ (maxk s - k) \<le> 8 * length (sz_split (bd_sizes s ! k)))"

definition set_alloc :: "nat \<Rightarrow> nat \<Rightarrow> bool \<Rightarrow> 'a bd_state_scheme \<Rightarrow> 'a bd_state_scheme" where
  "set_alloc k i v s = s\<lparr>bd_sizes := (bd_sizes s)[k := (bd_sizes s ! k)
     \<lparr>sz_alloc := bit_upd (sz_alloc (bd_sizes s ! k)) i v\<rparr>]\<rparr>"

definition set_split :: "nat \<Rightarrow> nat \<Rightarrow> bool \<Rightarrow> 'a bd_state_scheme \<Rightarrow> 'a bd_state_scheme" where
  "set_split k i v s = s\<lparr>bd_sizes := (bd_sizes s)[k := (bd_sizes s ! k)
     \<lparr>sz_split := bit_upd (sz_split (bd_sizes s ! k)) i v\<rparr>]\<rparr>"

lemma bd_wf_length: "bd_wf s \<Longrightarrow> k \<le> maxk s \<Longrightarrow> k < length (bd_sizes s)"
  by (auto simp: bd_wf_def maxk_def)

lemma node_in_alloc:
  assumes "bd_wf s" and "node (maxk s) k i"
  shows "i div 8 < length (sz_alloc (bd_sizes s ! k))"
proof -
  have "i < 8 * length (sz_alloc (bd_sizes s ! k))"
    using assms by (auto simp: bd_wf_def node_def intro: less_le_trans)
  then show ?thesis by simp
qed

lemma node_in_split:
  assumes "bd_wf s" and "node (maxk s) k i" and "0 < k"
  shows "i div 8 < length (sz_split (bd_sizes s ! k))"
proof -
  have "i < 8 * length (sz_split (bd_sizes s ! k))"
    using assms by (auto simp: bd_wf_def node_def intro: less_le_trans)
  then show ?thesis by simp
qed

lemma get_size_eq: "bd_wf s \<Longrightarrow> k \<le> maxk s \<Longrightarrow> get_size (int k) s = Inr (bd_sizes s ! k, s)"
  by (simp add: get_size_def bd_wf_length)

lemmas size_ops = get_size_eq put_size_def monad_simps

lemma alloc_isset_eq:
  "bd_wf s \<Longrightarrow> node (maxk s) k i \<Longrightarrow> alloc_isset (int k) (int i) s = Inr (Abit s k i, s)"
  using node_in_alloc [of s k i]
  by (simp add: alloc_isset_def size_ops bit_isset_eq Abit_def node_def)

lemma split_isset_eq:
  "bd_wf s \<Longrightarrow> node (maxk s) k i \<Longrightarrow> 0 < k \<Longrightarrow> split_isset (int k) (int i) s = Inr (Sbit s k i, s)"
  using node_in_split [of s k i]
  by (simp add: split_isset_def size_ops bit_isset_eq Sbit_def node_def)

lemma on_alloc_eq:
  assumes "bd_wf s" and "node (maxk s) k i"
  shows "on_alloc bit_set (int k) (int i) s = Inr ((), set_alloc k i True s)"
    and "on_alloc bit_clear (int k) (int i) s = Inr ((), set_alloc k i False s)"
  using assms node_in_alloc [of s k i]
  by (simp_all add: on_alloc_def size_ops bit_set_eq bit_clear_eq set_alloc_def node_def)

lemma on_split_eq:
  assumes "bd_wf s" and "node (maxk s) k i" and "0 < k"
  shows "on_split bit_set (int k) (int i) s = Inr ((), set_split k i True s)"
    and "on_split bit_clear (int k) (int i) s = Inr ((), set_split k i False s)"
  using assms node_in_split [of s k i]
  by (simp_all add: on_split_def size_ops bit_set_eq bit_clear_eq set_split_def node_def)

lemma bits_set_alloc:
  assumes "bd_wf s" and "node (maxk s) k i"
  shows "Abit (set_alloc k i v s) = set_bit2 (Abit s) k i v" and "Sbit (set_alloc k i v s) = Sbit s"
proof -
  have k: "k < length (bd_sizes s)" using assms bd_wf_length [of s k] by (simp add: node_def)
  show "Abit (set_alloc k i v s) = set_bit2 (Abit s) k i v"
    using k node_in_alloc [OF assms]
    by (auto simp: fun_eq_iff Abit_def set_alloc_def bitf_upd nth_list_update)
  show "Sbit (set_alloc k i v s) = Sbit s"
    using k by (auto simp: fun_eq_iff Sbit_def set_alloc_def nth_list_update)
qed

lemma bits_set_split:
  assumes "bd_wf s" and "node (maxk s) k i" and "0 < k"
  shows "Sbit (set_split k i v s) = set_bit2 (Sbit s) k i v" and "Abit (set_split k i v s) = Abit s"
proof -
  have k: "k < length (bd_sizes s)" using assms bd_wf_length [of s k] by (simp add: node_def)
  show "Sbit (set_split k i v s) = set_bit2 (Sbit s) k i v"
    using k node_in_split [OF assms] assms(3)
    by (auto simp: fun_eq_iff Sbit_def set_split_def bitf_upd nth_list_update)
  show "Abit (set_split k i v s) = Abit s"
    using k by (auto simp: fun_eq_iff Abit_def set_split_def nth_list_update)
qed

text \<open>What the bit operations and the list operations leave alone.\<close>

lemma set_alloc_frame [simp]:
  "nsizes (set_alloc k i v s) = nsizes s" "bd_base (set_alloc k i v s) = bd_base s"
  "bd_sizes_ptr (set_alloc k i v s) = bd_sizes_ptr s" "nxt (set_alloc k i v s) = nxt s"
  "prv (set_alloc k i v s) = prv s" "hart (set_alloc k i v s) = hart s"
  "lks (set_alloc k i v s) = lks s" "cpus (set_alloc k i v s) = cpus s"
  "sie (set_alloc k i v s) = sie s" "bd_state.more (set_alloc k i v s) = bd_state.more s"
  by (simp_all add: set_alloc_def)

lemma set_split_frame [simp]:
  "nsizes (set_split k i v s) = nsizes s" "bd_base (set_split k i v s) = bd_base s"
  "bd_sizes_ptr (set_split k i v s) = bd_sizes_ptr s" "nxt (set_split k i v s) = nxt s"
  "prv (set_split k i v s) = prv s" "hart (set_split k i v s) = hart s"
  "lks (set_split k i v s) = lks s" "cpus (set_split k i v s) = cpus s"
  "sie (set_split k i v s) = sie s" "bd_state.more (set_split k i v s) = bd_state.more s"
  by (simp_all add: set_split_def)


lemma push_frame_bd [simp]:
  "nsizes (lst_push h p s) = nsizes s" "bd_base (lst_push h p s) = bd_base s"
  "bd_sizes_ptr (lst_push h p s) = bd_sizes_ptr s" "bd_sizes (lst_push h p s) = bd_sizes s"
  "hart (lst_push h p s) = hart s" "lks (lst_push h p s) = lks s"
  "cpus (lst_push h p s) = cpus s" "sie (lst_push h p s) = sie s"
  "bd_state.more (lst_push h p s) = bd_state.more s"
  by (simp_all add: lst_push_def Let_def)

lemma remove_frame_bd [simp]:
  "nsizes (lst_remove p s) = nsizes s" "bd_base (lst_remove p s) = bd_base s"
  "bd_sizes_ptr (lst_remove p s) = bd_sizes_ptr s" "bd_sizes (lst_remove p s) = bd_sizes s"
  "hart (lst_remove p s) = hart s" "lks (lst_remove p s) = lks s"
  "cpus (lst_remove p s) = cpus s" "sie (lst_remove p s) = sie s"
  "bd_state.more (lst_remove p s) = bd_state.more s"
  by (simp_all add: lst_remove_def Let_def)

lemma Abit_push [simp]: "Abit (lst_push h p s) = Abit s" "Sbit (lst_push h p s) = Sbit s"
  "Abit (lst_remove p s) = Abit s" "Sbit (lst_remove p s) = Sbit s"
  by (simp_all add: Abit_def Sbit_def fun_eq_iff)

lemma maxk_frame [simp]: "maxk (lst_push h p s) = maxk s" "maxk (lst_remove p s) = maxk s"
  "maxk (set_alloc k i v s) = maxk s" "maxk (set_split k i v s) = maxk s"
  by (simp_all add: maxk_def)

lemma free_head_frame [simp]:
  "free_head (lst_push h p s) k = free_head s k" "free_head (lst_remove p s) k = free_head s k"
  "free_head (set_alloc k' i v s) k = free_head s k" "free_head (set_split k' i v s) k = free_head s k"
  by (simp_all add: free_head_def)

lemma blk_addr_frame [simp]:
  "blk_addr (lst_push h p s) = blk_addr s" "blk_addr (lst_remove p s) = blk_addr s"
  "blk_addr (set_alloc k' i' v s) = blk_addr s"
  "blk_addr (set_split k' i' v s) = blk_addr s"
  by (simp_all add: blk_addr_def fun_eq_iff)

lemma dlist_bits [simp]:
  "dlist (set_alloc k i v s) h xs = dlist s h xs" "dlist (set_split k i v s) h xs = dlist s h xs"
  by (simp_all add: dlist_def)

lemma bd_wf_frame [simp]:
  "bd_wf (lst_push h p s) = bd_wf s" "bd_wf (lst_remove p s) = bd_wf s"
  by (simp_all add: bd_wf_def)

lemma array_lengths [simp]:
  "length (sz_alloc (bd_sizes (set_alloc k i v s) ! l)) = length (sz_alloc (bd_sizes s ! l))"
  "length (sz_split (bd_sizes (set_alloc k i v s) ! l)) = length (sz_split (bd_sizes s ! l))"
  "length (sz_alloc (bd_sizes (set_split k i v s) ! l)) = length (sz_alloc (bd_sizes s ! l))"
  "length (sz_split (bd_sizes (set_split k i v s) ! l)) = length (sz_split (bd_sizes s ! l))"
  by (simp_all add: set_alloc_def set_split_def
      nth_update_proj [where f = "\<lambda>z. length (sz_alloc z)"]
      nth_update_proj [where f = "\<lambda>z. length (sz_split z)"])

lemma length_sizes [simp]: "length (bd_sizes (set_alloc k i v s)) = length (bd_sizes s)"
  "length (bd_sizes (set_split k i v s)) = length (bd_sizes s)"
  by (simp_all add: set_alloc_def set_split_def)

lemma bd_wf_set [simp]: "bd_wf (set_alloc k i v s) = bd_wf s" "bd_wf (set_split k i v s) = bd_wf s"
  by (simp_all add: bd_wf_def)

section \<open>Addresses and block indices\<close>

lemma bd_wf_maxk: "bd_wf s \<Longrightarrow> maxk s \<le> 26"
  by (auto simp: bd_wf_def maxk_def)

lemma node_leaf_bound:
  assumes "node M k i"
  shows "i * 2 ^ k < 2 ^ M"
proof -
  have "i * 2 ^ k < 2 ^ (M - k) * 2 ^ k" using assms by (simp add: node_def)
  also have "\<dots> = 2 ^ M" using assms by (simp add: node_def power_add [symmetric])
  finally show ?thesis .
qed

lemma blk_index_leaf:
  assumes "bd_wf s" and "x < 2 ^ maxk s"
  shows "blk_index s (int l) (bd_base s + 16 * int x) = int (x div 2 ^ l)"
proof -
  have "(2::nat) ^ maxk s \<le> 2 ^ 26" using bd_wf_maxk [OF assms(1)] by (intro power_increasing) auto
  then have x: "x < 67108864" using assms(2) by simp
  have "c_int (16 * int x) = 16 * int x" using x by simp
  moreover have "c_div (16 * int x) (BLK_SIZE (int l)) = int x div 2 ^ l"
    by (simp add: BLK_SIZE_def LEAF_SIZE_def)
  moreover have "int x div 2 ^ l = int (x div 2 ^ l)" by (simp add: zdiv_int)
  moreover have "x div 2 ^ l < 67108864" using x by (rule le_less_trans [OF div_le_dividend])
  ultimately show ?thesis by (simp add: blk_index_def)
qed

lemma blk_index_node:
  assumes "bd_wf s" and "node (maxk s) k i"
  shows "blk_index s (int l) (blk_addr s k i) = int (i * 2 ^ k div 2 ^ l)"
  unfolding blk_addr_def
  using assms(1) node_leaf_bound [OF assms(2)] by (rule blk_index_leaf)

lemma addr_node:
  assumes "bd_wf s" and "node (maxk s) k i"
  shows "addr s (int k) (int i) = blk_addr s k i"
proof -
  have "(2::nat) ^ maxk s \<le> 2 ^ 26" using bd_wf_maxk [OF assms(1)] by (intro power_increasing) auto
  then have "i * 2 ^ k < 67108864" using node_leaf_bound [OF assms(2)] by simp
  then have "int (i * 2 ^ k) < int 67108864" by (rule iffD2 [OF of_nat_less_iff])
  then have "c_int (16 * int (i * 2 ^ k)) = 16 * int (i * 2 ^ k)"
    by (intro c_int_id) (simp_all del: of_nat_mult)
  then show ?thesis
    by (simp add: addr_def BLK_SIZE_def LEAF_SIZE_def blk_addr_def ac_simps)
qed

section \<open>The representation invariant\<close>

text \<open>
  \<open>bd_lists s F\<close>: the list headed by \<open>bd_sizes[k].free\<close> runs through the blocks \<open>F k\<close>, and
  the lists share no node.  \<open>bd_rep s F\<close>: moreover the bits and the lists satisfy the
  invariant of the block tree.
\<close>

definition bd_lists :: "'a bd_state_scheme \<Rightarrow> (nat \<Rightarrow> nat list) \<Rightarrow> bool" where
  "bd_lists s F \<longleftrightarrow>
     (\<forall>k < nat (nsizes s). dlist s (free_head s (int k)) (map (blk_addr s k) (F k))) \<and>
     apart (nat (nsizes s)) (\<lambda>k. free_head s (int k)) (\<lambda>k. map (blk_addr s k) (F k))"

definition bd_rep :: "'a bd_state_scheme \<Rightarrow> (nat \<Rightarrow> nat list) \<Rightarrow> bool" where
  "bd_rep s F \<longleftrightarrow> bd_wf s \<and> bd_lists s F \<and> binv (maxk s) (Abit s) (Sbit s) (\<lambda>k. set (F k))"

text \<open>
  \<open>resv s R\<close>: the leaves \<open>R\<close> are in use for good, and the list heads lie in them: the memory
  the allocator keeps for itself.  There is at least one such leaf.
\<close>

definition resv :: "'a bd_state_scheme \<Rightarrow> nat set \<Rightarrow> bool" where
  "resv s R \<longleftrightarrow> R \<noteq> {} \<and> (\<forall>r\<in>R. used (maxk s) (Abit s) (Sbit s) 0 r) \<and>
     (\<forall>k < nat (nsizes s). \<exists>r\<in>R. blk_addr s 0 r \<le> free_head s (int k) \<and>
        free_head s (int k) < blk_addr s 0 r + 16)"

lemma bd_rep_wf: "bd_rep s F \<Longrightarrow> bd_wf s"
  and bd_rep_binv: "bd_rep s F \<Longrightarrow> binv (maxk s) (Abit s) (Sbit s) (\<lambda>k. set (F k))"
  and bd_rep_lists: "bd_rep s F \<Longrightarrow> bd_lists s F"
  by (simp_all add: bd_rep_def)

lemma bd_lists_push:
  assumes "bd_lists s F" and "j < nat (nsizes s)"
    and "\<And>l. l < nat (nsizes s) \<Longrightarrow>
      blk_addr s j i \<notin> set (free_head s (int l) # map (blk_addr s l) (F l))"
  shows "bd_lists (lst_push (free_head s (int j)) (blk_addr s j i) s) (F(j := i # F j))"
proof -
  let ?H = "\<lambda>k. free_head s (int k)" and ?G = "\<lambda>k. map (blk_addr s k) (F k)"
  have G: "(\<lambda>k. map (blk_addr s k) (if k = j then i # F j else F k)) =
      (\<lambda>k. if k = j then blk_addr s j i # map (blk_addr s j) (F j) else map (blk_addr s k) (F k))"
    by (auto simp: fun_eq_iff)
  have fam: "\<And>k. k < nat (nsizes s) \<Longrightarrow> dlist s (?H k) (?G k)"
    and ap: "apart (nat (nsizes s)) ?H ?G" using assms(1) by (simp_all add: bd_lists_def)
  have "apart (nat (nsizes s)) ?H (?G(j := blk_addr s j i # ?G j))"
    by (rule apart_push [OF ap assms(3)])
  then have "apart (nat (nsizes s)) ?H (\<lambda>k. map (blk_addr s k) (if k = j then i # F j else F k))"
    by (simp add: G fun_upd_def)
  moreover have "dlist (lst_push (?H j) (blk_addr s j i) s) (?H k)
      (map (blk_addr s k) (if k = j then i # F j else F k))"
    if "k < nat (nsizes s)" for k
    using dl.family_push [where H = ?H and F = ?G, OF fam ap assms(2,3) that]
    by (cases "k = j") simp_all
  ultimately show ?thesis by (simp add: bd_lists_def)
qed

lemma bd_lists_remove:
  assumes "bd_lists s F" and "j < nat (nsizes s)" and "F j = us @ i # vs"
  shows "bd_lists (lst_remove (blk_addr s j i) s) (F(j := us @ vs))"
proof -
  let ?H = "\<lambda>k. free_head s (int k)" and ?G = "\<lambda>k. map (blk_addr s k) (F k)"
  let ?G' = "\<lambda>k. map (blk_addr s k) ((F(j := us @ vs)) k)"
  have fam: "\<And>k. k < nat (nsizes s) \<Longrightarrow> dlist s (?H k) (?G k)"
    and ap: "apart (nat (nsizes s)) ?H ?G" using assms(1) by (simp_all add: bd_lists_def)
  have "apart (nat (nsizes s)) ?H ?G'"
    by (rule apart_subset [OF ap]) (use assms(3) in auto)
  moreover have "dlist (lst_remove (blk_addr s j i) s) (?H k) (?G' k)"
    if "k < nat (nsizes s)" for k
    using dl.family_remove [where H = ?H and F = ?G, OF fam ap assms(2) _ that,
        of "map (blk_addr s j) us" "blk_addr s j i" "map (blk_addr s j) vs"] assms(3)
    by (auto split: if_splits)
  ultimately show ?thesis by (simp add: bd_lists_def)
qed

lemma bd_lists_bits [simp]:
  "bd_lists (set_alloc k i v s) F = bd_lists s F" "bd_lists (set_split k i v s) F = bd_lists s F"
  by (simp_all add: bd_lists_def)

lemma maxk_nsizes: "bd_wf s \<Longrightarrow> nat (nsizes s) = Suc (maxk s)" "bd_wf s \<Longrightarrow> nsizes s = int (maxk s) + 1"
  by (auto simp: bd_wf_def maxk_def)

lemma bd_rep_free_size: "bd_rep s F \<Longrightarrow> i \<in> set (F k) \<Longrightarrow> k < nat (nsizes s)"
  using binv_free [OF bd_rep_binv, of s F i k] maxk_nsizes [OF bd_rep_wf, of s F]
  by (auto simp: node_def)

text \<open>No node of a free list and no list head lies in a block in use that is not reserved.\<close>

lemma fresh_addr:
  assumes rep: "bd_rep s F" and rs: "resv s R"
    and u: "used (maxk s) (Abit s) (Sbit s) k i" and nr: "k \<noteq> 0 \<or> i \<notin> R"
    and x: "x \<in> leaves k i" and l: "l < nat (nsizes s)"
  shows "bd_base s + 16 * int x \<notin> set (free_head s (int l) # map (blk_addr s l) (F l))"
proof -
  have "bd_base s + 16 * int x \<noteq> blk_addr s l j" if j: "j \<in> set (F l)" for j
  proof
    assume "bd_base s + 16 * int x = blk_addr s l j"
    then have "x = j * 2 ^ l" by (simp add: blk_addr_def del: of_nat_mult)
    then have "x \<in> leaves l j" by (simp add: leaves_def)
    then show False using used_free_disjoint [OF bd_rep_binv [OF rep] u j] x by blast
  qed
  moreover have "free_head s (int l) \<noteq> bd_base s + 16 * int x"
  proof
    assume h: "free_head s (int l) = bd_base s + 16 * int x"
    obtain r where r: "r \<in> R" "blk_addr s 0 r \<le> free_head s (int l)"
      "free_head s (int l) < blk_addr s 0 r + 16" using rs l by (auto simp: resv_def)
    have ur: "used (maxk s) (Abit s) (Sbit s) 0 r" using rs r by (simp add: resv_def)
    have "x = r" using h r by (simp add: blk_addr_def)
    then have "x \<in> leaves 0 r" by (simp add: leaves_def)
    moreover have "(k, i) \<noteq> (0, r)" using nr r by auto
    ultimately show False using used_disjoint [OF bd_rep_binv [OF rep] u ur] x by blast
  qed
  ultimately show ?thesis by auto
qed

end
