(* ===== verification/Buddy_Correct.thy ===== *)
theory Buddy_Correct
  imports Buddy
begin

text \<open>
  Correctness of \<open>bd_malloc\<close> and \<open>bd_free\<close> (\<open>kernel/buddy.c\<close>).  Each step of the two loops
  is related to a step of the block tree of \<open>Buddy_Spec\<close>; the invariant \<open>bd_inv\<close> is kept, the
  set \<open>live\<close> of blocks in use changes by exactly one block, and the calls never fail.
\<close>

section \<open>Steps on the concrete state\<close>

definition live :: "'a bd_state_scheme \<Rightarrow> (nat \<times> nat) set" where
  "live s = {(k, i). used (maxk s) (Abit s) (Sbit s) k i}"

text \<open>Everything the allocator does not change: its geometry, the locks, the other components.\<close>

definition bd_frame :: "'a bd_state_scheme \<Rightarrow> 'a bd_state_scheme \<Rightarrow> bool" where
  "bd_frame s t \<longleftrightarrow> nsizes t = nsizes s \<and> bd_base t = bd_base s \<and>
     bd_sizes_ptr t = bd_sizes_ptr s \<and> hart t = hart s \<and> cpus t = cpus s \<and> sie t = sie s \<and>
     lks t = lks s \<and> lktab t = lktab s \<and> bd_state.more t = bd_state.more s"

lemma bd_frame_refl [simp]: "bd_frame s s"
  by (simp add: bd_frame_def)

lemma bd_frame_trans: "bd_frame s t \<Longrightarrow> bd_frame t u \<Longrightarrow> bd_frame s u"
  by (simp add: bd_frame_def)

lemma bd_frame_steps [simp]:
  "bd_frame u (set_alloc k i v s) = bd_frame u s" "bd_frame u (set_split k i v s) = bd_frame u s"
  "bd_frame u (lst_push h p s) = bd_frame u s" "bd_frame u (lst_remove p s) = bd_frame u s"
  by (simp_all add: bd_frame_def set_alloc_def set_split_def lst_push_def lst_remove_def Let_def)

lemma bd_frame_addr:
  "bd_frame s t \<Longrightarrow> blk_addr t = blk_addr s" "bd_frame s t \<Longrightarrow> free_head t = free_head s"
  "bd_frame s t \<Longrightarrow> maxk t = maxk s" "bd_frame s t \<Longrightarrow> nsizes t = nsizes s"
  "bd_frame s t \<Longrightarrow> bd_base t = bd_base s"
  by (simp_all add: bd_frame_def blk_addr_def free_head_def maxk_def fun_eq_iff)

lemma live_node: "(k, i) \<in> live s \<Longrightarrow> node (maxk s) k i"
  by (simp add: live_def used_def)

lemma resv_step:
  assumes "resv s R" and "bd_frame s t" and "\<And>r. r \<in> R \<Longrightarrow> (0, r) \<in> live t"
  shows "resv t R"
  using assms by (auto simp: resv_def bd_frame_addr live_def)

lemma resv_live: "resv s R \<Longrightarrow> r \<in> R \<Longrightarrow> (0, r) \<in> live s"
  by (simp add: resv_def live_def)

lemma blk_addr_left: "blk_addr s (Suc k) i = blk_addr s k (2 * i)"
  by (simp add: blk_addr_def ac_simps)

lemma blk_addr_right: "blk_addr s (Suc k) i + BLK_SIZE (int k) = blk_addr s k (2 * i + 1)"
  by (simp add: blk_addr_def BLK_SIZE_def LEAF_SIZE_def algebra_simps)

text \<open>What one step of the allocator must show of the new state.\<close>

definition bd_step ::
    "'a bd_state_scheme \<Rightarrow> 'a bd_state_scheme \<Rightarrow> (nat \<Rightarrow> nat list) \<Rightarrow> nat set \<Rightarrow> (nat \<times> nat) set \<Rightarrow> bool" where
  "bd_step s t F R L \<longleftrightarrow> bd_rep t F \<and> resv t R \<and> live t = L \<and> bd_frame s t"

lemma bd_stepI:
  assumes "bd_wf t" and "bd_lists t F" and "binv (maxk t) (Abit t) (Sbit t) (\<lambda>k. set (F k))"
    and "resv s R" and "live t = L" and "bd_frame s t" and "\<And>r. r \<in> R \<Longrightarrow> (0, r) \<in> L"
  shows "bd_step s t F R L"
  using assms by (simp add: bd_step_def bd_rep_def resv_step)

lemma take_ok:
  assumes rep: "bd_rep s F" and rs: "resv s R" and k: "k < nat (nsizes s)" and F: "F k = i # is"
  shows "bd_step s (set_alloc k i True (lst_remove (blk_addr s k i) s)) (F(k := is)) R
    (insert (k, i) (live s))" and "node (maxk s) k i"
proof -
  let ?t = "set_alloc k i True (lst_remove (blk_addr s k i) s)"
  note wf = bd_rep_wf [OF rep] and inv = bd_rep_binv [OF rep]
  have i: "i \<in> set (F k)" by (simp add: F)
  then show n: "node (maxk s) k i" using binv_free [OF inv] by blast
  note st = take_step [OF inv i]
  have A: "Abit ?t = set_bit2 (Abit s) k i True" and S: "Sbit ?t = Sbit s"
    using bits_set_alloc [of "lst_remove (blk_addr s k i) s" k i] wf n by simp_all
  have ls: "bd_lists (lst_remove (blk_addr s k i) s) (F(k := is))"
    using bd_lists_remove [OF bd_rep_lists [OF rep] k, of "[]"] F by simp
  have "dlist s (free_head s (int k)) (map (blk_addr s k) (F k))"
    using bd_rep_lists [OF rep] k by (simp add: bd_lists_def)
  then have "i \<notin> set is" by (auto simp: dlist_def F)
  then have F': "(\<lambda>l. set ((F(k := is)) l)) = (\<lambda>l. set (F l))(k := set (F k) - {i})"
    using F by (auto simp: fun_eq_iff)
  show "bd_step s ?t (F(k := is)) R (insert (k, i) (live s))"
  proof (rule bd_stepI [OF _ _ _ rs])
    show "live ?t = insert (k, i) (live s)" unfolding live_def A S by (auto simp: st(2))
    show "binv (maxk ?t) (Abit ?t) (Sbit ?t) (\<lambda>l. set ((F(k := is)) l))"
      unfolding F' A S using st(1) by simp
  qed (use wf ls resv_live [OF rs] in simp_all)
qed

lemma split_ok:
  assumes rep: "bd_rep s F" and rs: "resv s R" and u: "(Suc k, i) \<in> live s"
  obtains t where "split_block (blk_addr s (Suc k) i) (int (Suc k)) s = Inr ((), t)"
    and "bd_step s t (F(k := (2 * i + 1) # F k)) R (insert (k, 2 * i) (live s - {(Suc k, i)}))"
proof -
  let ?a = "set_split (Suc k) i True s"
  let ?b = "set_alloc k (2 * i) True ?a"
  let ?t = "lst_push (free_head s (int k)) (blk_addr s k (2 * i + 1)) ?b"
  note wf = bd_rep_wf [OF rep] and inv = bd_rep_binv [OF rep]
  have u': "used (maxk s) (Abit s) (Sbit s) (Suc k) i" using u by (simp add: live_def)
  have n: "node (maxk s) (Suc k) i" and n0: "node (maxk s) k (2 * i)"
    using live_node [OF u] node_child [of "maxk s" k i 0] by simp_all
  have i1: "blk_index s (int (Suc k)) (blk_addr s (Suc k) i) = int i"
    and i0: "blk_index ?a (int k) (blk_addr s (Suc k) i) = int (2 * i)"
    using blk_index_node [OF wf n, of "Suc k"] blk_index_node [OF wf n, of k]
    by (simp_all add: blk_index_def)
  have e: "int (Suc k) - 1 = int k" by simp
  have sp: "on_split bit_set (int (Suc k)) (int i) s = Inr ((), ?a)"
    and al: "on_alloc bit_set (int k) (int (2 * i)) ?a = Inr ((), ?b)"
    using on_split_eq(1) [OF wf n] on_alloc_eq(1) [of ?a k "2 * i"] wf n0 by simp_all
  have run: "split_block (blk_addr s (Suc k) i) (int (Suc k)) s = Inr ((), ?t)"
    unfolding split_block_def e blk_addr_right Let_def
    by (simp only: monad_simps sum.case prod.case i1 sp i0 al free_head_frame)
  note st = split_step [OF inv u']
  have A: "Abit ?t = set_bit2 (Abit s) k (2 * i) True"
    and S: "Sbit ?t = set_bit2 (Sbit s) (Suc k) i True"
    using bits_set_alloc [of ?a k "2 * i"] bits_set_split [OF wf n] wf n0 by simp_all
  have k: "k < nat (nsizes s)" using n maxk_nsizes [OF wf] by (simp add: node_def)
  have x: "(2 * i + 1) * 2 ^ k \<in> leaves (Suc k) i" by (simp add: leaves_def)
  have "bd_lists (lst_push (free_head ?b (int k)) (blk_addr ?b k (2 * i + 1)) ?b)
      (F(k := (2 * i + 1) # F k))"
    by (rule bd_lists_push)
      (use k bd_rep_lists [OF rep] fresh_addr [OF rep rs u' _ x] in \<open>simp_all add: blk_addr_def\<close>)
  then have ls: "bd_lists ?t (F(k := (2 * i + 1) # F k))" by simp
  have F': "(\<lambda>l. set ((F(k := (2 * i + 1) # F k)) l)) =
      (\<lambda>l. set (F l))(k := insert (2 * i + 1) (set (F k)))"
    by (auto simp: fun_eq_iff)
  have "bd_step s ?t (F(k := (2 * i + 1) # F k)) R (insert (k, 2 * i) (live s - {(Suc k, i)}))"
  proof (rule bd_stepI [OF _ _ _ rs])
    show "live ?t = insert (k, 2 * i) (live s - {(Suc k, i)})" unfolding live_def A S by (auto simp: st(2))
    show "binv (maxk ?t) (Abit ?t) (Sbit ?t) (\<lambda>l. set ((F(k := (2 * i + 1) # F k)) l))"
      unfolding F' A S using st(1) by simp
  qed (use wf ls resv_live [OF rs] in simp_all)
  with run show thesis by (rule that)
qed

text \<open>One round of the loop of \<open>bd_free\<close> in which the buddy is free: the two blocks merge.\<close>

lemma buddy_int: "(if int i mod 2 = 0 then int i + 1 else int i - 1) = int (buddy_of i)"
  by (auto simp: buddy_of_def even_iff_mod_2_eq_zero [symmetric] elim!: oddE)

lemma buddy_even: "int (buddy_of i) mod 2 = 0 \<longleftrightarrow> odd i"
proof -
  have "int (buddy_of i) mod 2 = 0 \<longleftrightarrow> buddy_of i mod 2 = 0" by presburger
  then show ?thesis by (simp add: buddy_of_def) presburger
qed

lemma merge_ok:
  assumes rep: "bd_rep s F" and rs: "resv s R" and u: "(k, i) \<in> live s" and k: "k < maxk s"
    and b: "\<not> Abit s k (buddy_of i)" and nr: "k \<noteq> 0 \<or> i \<notin> R"
  defines "t \<equiv> set_split (Suc k) (i div 2) False (lst_remove (blk_addr s k (buddy_of i)) (set_alloc k i False s))"
  obtains F' where "bd_step s t F' R (insert (Suc k, i div 2) (live s - {(k, i)}))"
proof -
  let ?a = "set_alloc k i False s"
  let ?b = "lst_remove (blk_addr s k (buddy_of i)) ?a"
  note wf = bd_rep_wf [OF rep] and inv = bd_rep_binv [OF rep]
  have u': "used (maxk s) (Abit s) (Sbit s) k i" using u by (simp add: live_def)
  note n = live_node [OF u]
  note st = merge_step [OF inv u' k b]
  have p: "node (maxk s) (Suc k) (i div 2)" using n k by (rule node_parent)
  have A: "Abit t = set_bit2 (Abit s) k i False"
    and S: "Sbit t = set_bit2 (Sbit s) (Suc k) (i div 2) False"
    using bits_set_split [of ?b "Suc k" "i div 2"] bits_set_alloc [OF wf n] wf p
    by (simp_all add: t_def)
  obtain us vs where F: "F k = us @ buddy_of i # vs" using st(2) by (meson split_list)
  have kn: "k < nat (nsizes s)" using k maxk_nsizes [OF wf] by simp
  have "bd_lists (lst_remove (blk_addr ?a k (buddy_of i)) ?a) (F(k := us @ vs))"
    by (rule bd_lists_remove) (use bd_rep_lists [OF rep] kn F in simp_all)
  then have ls: "bd_lists t (F(k := us @ vs))" by (simp add: t_def)
  have "dlist s (free_head s (int k)) (map (blk_addr s k) (F k))"
    using bd_rep_lists [OF rep] kn by (simp add: bd_lists_def)
  then have "buddy_of i \<notin> set (us @ vs)" by (auto simp: dlist_def F)
  then have F': "(\<lambda>l. set ((F(k := us @ vs)) l)) = (\<lambda>l. set (F l))(k := set (F k) - {buddy_of i})"
    using F by (auto simp: fun_eq_iff)
  have fr: "maxk t = maxk s" "bd_wf t" "bd_frame s t" using wf by (simp_all add: t_def)
  have "bd_step s t (F(k := us @ vs)) R (insert (Suc k, i div 2) (live s - {(k, i)}))"
  proof (rule bd_stepI [OF _ _ _ rs])
    show "live t = insert (Suc k, i div 2) (live s - {(k, i)})"
      by (auto simp: live_def A S fr st(3))
    show "binv (maxk t) (Abit t) (Sbit t) (\<lambda>l. set ((F(k := us @ vs)) l))"
      unfolding F' A S fr using st(1) .
    show "(0, r) \<in> insert (Suc k, i div 2) (live s - {(k, i)})" if "r \<in> R" for r
      using resv_live [OF rs that] nr that by auto
  qed (use ls fr in simp_all)
  then show thesis by (rule that)
qed

text \<open>The last step: the block goes on its free list.\<close>

lemma give_ok:
  assumes rep: "bd_rep s F" and rs: "resv s R" and u: "(k, i) \<in> live s" and k: "k < maxk s"
    and b: "Abit s k (buddy_of i)" and nr: "k \<noteq> 0 \<or> i \<notin> R"
  shows "bd_step s (lst_push (free_head s (int k)) (blk_addr s k i) (set_alloc k i False s))
    (F(k := i # F k)) R (live s - {(k, i)})"
proof -
  let ?a = "set_alloc k i False s"
  let ?t = "lst_push (free_head s (int k)) (blk_addr s k i) ?a"
  note wf = bd_rep_wf [OF rep] and inv = bd_rep_binv [OF rep]
  have u': "used (maxk s) (Abit s) (Sbit s) k i" using u by (simp add: live_def)
  note n = live_node [OF u]
  note st = give_step [OF inv u' k b]
  have A: "Abit ?t = set_bit2 (Abit s) k i False" and S: "Sbit ?t = Sbit s"
    using bits_set_alloc [OF wf n] by simp_all
  have kn: "k < nat (nsizes s)" using k maxk_nsizes [OF wf] by simp
  have x: "i * 2 ^ k \<in> leaves k i" by (simp add: leaves_def)
  have "bd_lists (lst_push (free_head ?a (int k)) (blk_addr ?a k i) ?a) (F(k := i # F k))"
    by (rule bd_lists_push)
      (use kn bd_rep_lists [OF rep] fresh_addr [OF rep rs u' nr x] in \<open>simp_all add: blk_addr_def\<close>)
  then have ls: "bd_lists ?t (F(k := i # F k))" by simp
  have F': "(\<lambda>l. set ((F(k := i # F k)) l)) = (\<lambda>l. set (F l))(k := insert i (set (F k)))"
    by (auto simp: fun_eq_iff)
  show ?thesis
  proof (rule bd_stepI [OF _ _ _ rs])
    show "live ?t = live s - {(k, i)}" unfolding live_def A S by (auto simp: st(2))
    show "binv (maxk ?t) (Abit ?t) (Sbit ?t) (\<lambda>l. set ((F(k := i # F k)) l))"
      unfolding F' A S using st(1) by simp
    show "(0, r) \<in> live s - {(k, i)}" if "r \<in> R" for r
      using resv_live [OF rs that] nr that by auto
  qed (use wf ls in simp_all)
qed

section \<open>The loops\<close>

lemma split_loop_ok:
  assumes "bd_rep s F" and "resv s R" and "(f + d, i) \<in> live s"
  shows "\<exists>t F'. forM (rev [int f + 1..int (f + d)]) (split_block (blk_addr s (f + d) i)) s = Inr ((), t)
    \<and> bd_step s t F' R (insert (f, i * 2 ^ d) (live s - {(f + d, i)}))"
  using assms
proof (induction d arbitrary: s F i)
  case 0
  have "insert (f, i) (live s - {(f, i)}) = live s" using 0 by auto
  then show ?case using 0 by (auto simp: forM.simps monad_simps bd_step_def)
next
  case (Suc d)
  let ?k = "f + d"
  have "(Suc ?k, i) \<in> live s" using Suc.prems(3) by simp
  from split_ok [OF Suc.prems(1,2) this] obtain t where
    run: "split_block (blk_addr s (Suc ?k) i) (int (Suc ?k)) s = Inr ((), t)"
    and st: "bd_step s t (F(?k := (2 * i + 1) # F ?k)) R (insert (?k, 2 * i) (live s - {(Suc ?k, i)}))" .
  have ad: "blk_addr t ?k (2 * i) = blk_addr s (Suc ?k) i"
    using st by (auto simp: bd_step_def bd_frame_addr blk_addr_left)
  have "bd_rep t (F(?k := (2 * i + 1) # F ?k))" "resv t R" "(?k, 2 * i) \<in> live t"
    using st by (simp_all add: bd_step_def)
  from Suc.IH [OF this, unfolded ad] obtain t' F' where
    run': "forM (rev [int f + 1..int ?k]) (split_block (blk_addr s (Suc ?k) i)) t = Inr ((), t')"
    and st': "bd_step t t' F' R (insert (f, 2 * i * 2 ^ d) (live t - {(?k, 2 * i)}))"
    by blast
  have up: "rev [int f + 1..int (f + Suc d)] = int (Suc ?k) # rev [int f + 1..int ?k]"
    using upto_rec2 [of "int f + 1" "int (f + Suc d)"] by simp
  have new: "(?k, 2 * i) \<notin> live s"
  proof
    assume "(?k, 2 * i) \<in> live s"
    then have "used (maxk s) (Abit s) (Sbit s) ?k (2 * i)" by (simp add: live_def)
    moreover have "used (maxk s) (Abit s) (Sbit s) (Suc ?k) i"
      using Suc.prems(3) by (simp add: live_def)
    ultimately show False by (auto simp: used_def exists_blk_def node_def)
  qed
  have "insert (f, 2 * i * 2 ^ d) (live t - {(?k, 2 * i)}) =
      insert (f, i * 2 ^ Suc d) (live s - {(f + Suc d, i)})"
    using st new by (auto simp: bd_step_def ac_simps)
  with st st' have "bd_step s t' F' R (insert (f, i * 2 ^ Suc d) (live s - {(f + Suc d, i)}))"
    by (auto simp: bd_step_def intro: bd_frame_trans)
  moreover have "forM (rev [int f + 1..int (f + Suc d)]) (split_block (blk_addr s (f + Suc d) i)) s =
      Inr ((), t')"
    unfolding up using run run' by (simp only: forM.simps monad_simps sum.case prod.case add_Suc_right)
  ultimately show ?case by blast
qed

text \<open>No block at or below a block in use is split, so the search of \<open>size\<close> stops at its size.\<close>

lemma not_split_below:
  assumes inv: "binv M A S F" and u: "used M A S k i" and l: "l \<le> k" and x: "x \<in> leaves k i"
  shows "node M l (x div 2 ^ l)" and "\<not> S l (x div 2 ^ l)"
proof -
  have k: "k \<le> M" "i < 2 ^ (M - k)" using u by (simp_all add: used_def node_def)
  have xk: "x div 2 ^ k = i" using x by (simp add: leaves_div)
  have "x div 2 ^ l div 2 ^ (k - l) = i"
    using xk l by (simp add: div_mult2_eq [symmetric] power_add [symmetric])
  then have "x div 2 ^ l < 2 ^ (M - k) * 2 ^ (k - l)"
    using k(2) by (metis less_mult_imp_div_less div_less_iff_less_mult zero_less_numeral zero_less_power)
  then show n: "node M l (x div 2 ^ l)"
    using l k(1) by (simp add: node_def power_add [symmetric])
  show "\<not> S l (x div 2 ^ l)"
  proof
    assume s: "S l (x div 2 ^ l)"
    show False
    proof (cases "l = k")
      case True
      then show False using s xk u by (simp add: used_def)
    next
      case False
      with l obtain j where j: "k = l + Suc j" by (metis le_neq_implies_less less_iff_Suc_add add_Suc_right)
      have "exists_blk M S l (x div 2 ^ l)"
        using binv_alloc_exists [OF inv n] binv_split_alloc [OF inv n s] by blast
      from ancestors_split [OF inv n this, of j] j k(1)
      have "S k (x div 2 ^ l div 2 ^ Suc j)" by simp
      also have "x div 2 ^ l div 2 ^ Suc j = i"
        using xk j by (simp add: div_mult2_eq [symmetric] power_add ac_simps)
      finally show False using u by (simp add: used_def)
    qed
  qed
qed

text \<open>A reserved leaf exists, so the whole heap is never one block in use.\<close>

lemma live_lt_maxk:
  assumes rep: "bd_rep s F" and rs: "resv s R" and u: "(k, i) \<in> live s" and nr: "k \<noteq> 0 \<or> i \<notin> R"
  shows "k < maxk s"
proof (rule ccontr)
  assume "\<not> k < maxk s"
  then have k: "k = maxk s" "i = 0" using live_node [OF u] by (simp_all add: node_def)
  obtain r where r: "r \<in> R" using rs by (auto simp: resv_def)
  then have ur: "used (maxk s) (Abit s) (Sbit s) 0 r" using rs by (simp add: resv_def)
  then have "r < 2 ^ maxk s" by (simp add: used_def node_def)
  then have "r \<in> leaves k i" "r \<in> leaves 0 r" using k by (simp_all add: leaves_def)
  moreover have "(k, i) \<noteq> (0, r)" using nr r by auto
  ultimately show False
    using used_disjoint [OF bd_rep_binv [OF rep] _ ur, of k i] u by (auto simp: live_def)
qed

lemma size_loop_ok:
  assumes rep: "bd_rep s F" and u: "(k, i) \<in> live s" and k: "k < maxk s" and "j \<le> k"
  shows "size_loop (blk_addr s k i) [int j..int (maxk s)] s = Inr (int k, s)"
  using \<open>j \<le> k\<close>
proof (induction "k - j" arbitrary: j)
  case 0
  note wf = bd_rep_wf [OF rep] and n = live_node [OF u]
  have "Sbit s (Suc k) (i div 2)" using u k by (auto simp: live_def used_def exists_blk_def)
  moreover have "i * 2 ^ k div 2 ^ (k + 1) = i div 2"
    by (simp add: div_mult2_eq mult.commute [of 2])
  ultimately have sp: "split_isset (int (k + 1)) (int (i * 2 ^ k div 2 ^ (k + 1))) s = Inr (True, s)"
    using split_isset_eq [OF wf node_parent [OF n k]] by simp
  have up: "[int k..int (maxk s)] = int k # [int (k + 1)..int (maxk s)]"
    using k by (simp add: upto_rec1 add.commute)
  have e: "int k + 1 = int (k + 1)" by simp
  have "size_loop (blk_addr s k i) [int k..int (maxk s)] s = Inr (int k, s)"
    unfolding up size_loop.simps e
    by (simp only: monad_simps sum.case prod.case blk_index_node [OF wf n] sp if_True)
  then show ?case using 0 by simp
next
  case (Suc d)
  note wf = bd_rep_wf [OF rep] and n = live_node [OF u]
  have x: "i * 2 ^ k \<in> leaves k i" by (simp add: leaves_def)
  have u': "used (maxk s) (Abit s) (Sbit s) k i" using u by (simp add: live_def)
  have jk: "j + 1 \<le> k" using Suc.hyps(2) by simp
  note ns = not_split_below [OF bd_rep_binv [OF rep] u' jk x]
  have sp: "split_isset (int (j + 1)) (int (i * 2 ^ k div 2 ^ (j + 1))) s = Inr (False, s)"
    using split_isset_eq [OF wf ns(1)] ns(2) by simp
  have up: "[int j..int (maxk s)] = int j # [int (j + 1)..int (maxk s)]"
    using k jk by (simp add: upto_rec1 add.commute)
  have e: "int j + 1 = int (j + 1)" by simp
  have ih: "size_loop (blk_addr s k i) [int (j + 1)..int (maxk s)] s = Inr (int k, s)"
    using Suc.hyps(1) [of "j + 1"] Suc.hyps(2) jk by simp
  show ?case
    unfolding up size_loop.simps e
    by (simp only: monad_simps sum.case prod.case blk_index_node [OF wf n] sp if_False ih)
qed

lemma free_loop_ok:
  assumes "bd_rep s F" and "resv s R" and "(k, i) \<in> live s" and "k + n = maxk s"
    and "k \<noteq> 0 \<or> i \<notin> R"
  shows "\<exists>k' p t F'. free_loop n (int k) (blk_addr s k i) s = Inr ((int k', p), t) \<and>
    bd_step s (lst_push (free_head s (int k')) p t) F' R (live s - {(k, i)}) \<and> bd_frame s t"
  using assms
proof (induction n arbitrary: s F k i)
  case 0
  then show ?case using live_lt_maxk [OF 0(1,2,3,5)] by simp
next
  case (Suc n)
  note rep = Suc.prems(1) and rs = Suc.prems(2) and u = Suc.prems(3) and nr = Suc.prems(5)
  note wf = bd_rep_wf [OF rep]
  let ?a = "set_alloc k i False s"
  let ?q = "blk_addr s k (buddy_of i)"
  have k: "k < maxk s" using Suc.prems(4) by simp
  note n = live_node [OF u]
  have nb: "node (maxk s) k (buddy_of i)" using node_buddy [OF n k] .
  have ix: "blk_index s (int k) (blk_addr s k i) = int i" using blk_index_node [OF wf n, of k] by simp
  have cl: "on_alloc bit_clear (int k) (int i) s = Inr ((), ?a)" using on_alloc_eq(2) [OF wf n] .
  have al: "alloc_isset (int k) (int (buddy_of i)) ?a = Inr (Abit s k (buddy_of i), ?a)"
    using alloc_isset_eq [of ?a k "buddy_of i"] wf nb bits_set_alloc(1) [OF wf n] by simp
  have buddy: "(if int i mod 2 = 0 then int i + 1 else int i - 1) = int (buddy_of i)"
    by (rule buddy_int)
  show ?case
  proof (cases "Abit s k (buddy_of i)")
    case True
    have "free_loop (Suc n) (int k) (blk_addr s k i) s = Inr ((int k, blk_addr s k i), ?a)"
      unfolding free_loop.simps Let_def
      by (simp only: monad_simps sum.case prod.case ix buddy cl al True if_True)
    then show ?thesis using give_ok [OF rep rs u k True nr]
      by (intro exI [of _ k] exI) (auto simp: bd_frame_steps(1))
  next
    case False
    let ?b = "lst_remove ?q ?a"
    let ?t = "set_split (Suc k) (i div 2) False ?b"
    have p: "node (maxk s) (Suc k) (i div 2)" using n k by (rule node_parent)
    from merge_ok [OF rep rs u k False nr] obtain F1
      where st: "bd_step s ?t F1 R (insert (Suc k, i div 2) (live s - {(k, i)}))" .
    have sp: "on_split bit_clear (int (Suc k)) (int (i div 2)) ?b = Inr ((), ?t)"
      using on_split_eq(2) [of ?b "Suc k" "i div 2"] wf p by simp
    have q: "addr ?a (int k) (int (buddy_of i)) = ?q"
      using addr_node [OF wf nb] by (simp add: addr_def)
    have p': "(if int (buddy_of i) mod 2 = 0 then ?q else blk_addr s k i) = blk_addr s (Suc k) (i div 2)"
      unfolding buddy_even blk_addr_left by (auto simp: buddy_of_def elim!: oddE)
    have ix': "blk_index ?b (int (Suc k)) (blk_addr s (Suc k) (i div 2)) = int (i div 2)"
      using blk_index_node [OF wf p, of "Suc k"] by (simp add: blk_index_def)
    have ad: "blk_addr s (Suc k) = blk_addr ?t (Suc k)" by simp
    have e: "int k + 1 = int (Suc k)" by simp
    have run: "free_loop (Suc n) (int k) (blk_addr s k i) s =
        free_loop n (int (Suc k)) (blk_addr ?t (Suc k) (i div 2)) ?t"
      unfolding free_loop.simps Let_def e
      by (simp only: monad_simps sum.case prod.case ix buddy cl al False if_False q p' ix' sp ad [symmetric])
    have "(Suc k, i div 2) \<notin> live s"
      using u k by (auto simp: live_def used_def exists_blk_def)
    then have L: "live ?t - {(Suc k, i div 2)} = live s - {(k, i)}"
      using st by (auto simp: bd_step_def)
    have "\<exists>k' p t F'. free_loop n (int (Suc k)) (blk_addr ?t (Suc k) (i div 2)) ?t = Inr ((int k', p), t) \<and>
      bd_step ?t (lst_push (free_head ?t (int k')) p t) F' R (live ?t - {(Suc k, i div 2)}) \<and>
      bd_frame ?t t"
      by (rule Suc.IH [of ?t F1]) (use st Suc.prems(4) in \<open>auto simp: bd_step_def\<close>)
    then obtain k' p t F' where
      r: "free_loop n (int (Suc k)) (blk_addr ?t (Suc k) (i div 2)) ?t = Inr ((int k', p), t)"
      and s': "bd_step ?t (lst_push (free_head ?t (int k')) p t) F' R (live s - {(k, i)})"
      and fr: "bd_frame ?t t" unfolding L by blast
    have f0: "bd_frame s ?t" by simp
    have "bd_step s (lst_push (free_head s (int k')) p t) F' R (live s - {(k, i)})"
      using s' bd_frame_trans [OF f0] by (auto simp: bd_step_def)
    then show ?thesis using run r bd_frame_trans [OF f0 fr] by auto
  qed
qed

section \<open>The size asked for\<close>

lemma unat_pow64: "m \<le> 63 \<Longrightarrow> unat (2 ^ m :: 64 word) = 2 ^ m"
  using unat_of_nat [of "2 ^ m", where 'a = 64] power_strict_increasing [of m 64 "2::nat"] by simp

lemma firstk_loop_ok:
  assumes "unat n \<le> 2 ^ 63" and "k + d = 59" and "k = 0 \<or> 2 ^ (k + 3) < unat n"
  shows "\<exists>f\<ge>k. f \<le> 59 \<and> firstk_loop n (int k) (2 ^ (k + 4)) = Some (int f) \<and>
    unat n \<le> 2 ^ (f + 4) \<and> (f = 0 \<or> 2 ^ (f + 3) < unat n)"
  using assms(2,3)
proof (induction d arbitrary: k)
  case 0
  then have "\<not> (2 ^ (k + 4) :: 64 word) < n"
    using assms(1) unat_pow64 [of "k + 4"] by (simp add: word_less_nat_alt)
  then have "firstk_loop n (int k) (2 ^ (k + 4)) = Some (int k)" by (simp add: firstk_loop.simps)
  then show ?case using 0 assms(1) by (intro exI [of _ k]) auto
next
  case (Suc d)
  show ?case
  proof (cases "(2 ^ (k + 4) :: 64 word) < n")
    case True
    then have "2 ^ (Suc k + 3) < unat n"
      using unat_pow64 [of "k + 4"] Suc.prems(1) by (simp add: word_less_nat_alt add.commute)
    from Suc.IH [OF _ disjI2 [OF this]] Suc.prems(1) obtain f where
      f: "f \<ge> Suc k" "f \<le> 59" "firstk_loop n (int (Suc k)) (2 ^ (Suc k + 4)) = Some (int f)"
      "unat n \<le> 2 ^ (f + 4)" "f = 0 \<or> 2 ^ (f + 3) < unat n" by auto
    have "firstk_loop n (int k) (2 ^ (k + 4)) = firstk_loop n (int (Suc k)) (2 ^ (Suc k + 4))"
      using True by (subst firstk_loop.simps) (simp add: power_add ac_simps)
    with f show ?thesis by (intro exI [of _ f]) auto
  next
    case False
    then have "firstk_loop n (int k) (2 ^ (k + 4)) = Some (int k)"
      by (simp add: firstk_loop.simps)
    moreover have "unat n \<le> 2 ^ (k + 4)"
      using False unat_pow64 [of "k + 4"] Suc.prems(1) by (simp add: word_less_nat_alt)
    ultimately show ?thesis using Suc.prems by (intro exI [of _ k]) auto
  qed
qed

lemma firstk_ok:
  assumes "unat n \<le> 2 ^ 63"
  obtains f where "firstk n = Some (int f)" and "f \<le> 59" and "unat n \<le> 16 * 2 ^ f"
    and "f = 0 \<or> 16 * 2 ^ (f - 1) < unat n"
proof -
  from firstk_loop_ok [OF assms, of 0 59] obtain f where
    f: "f \<le> 59" "firstk n = Some (int f)" "unat n \<le> 2 ^ (f + 4)" "f = 0 \<or> 2 ^ (f + 3) < unat n"
    by (auto simp: firstk_def)
  then show thesis
    by (intro that [of f]) (cases f; auto simp: power_add)+
qed

text \<open>Above \<open>2 ^ 63\<close> the size wraps to 0 and the loop goes on for ever.\<close>

lemma firstk_loop_diverges:
  assumes "2 ^ 63 < unat n" and "sz = 0 \<or> (\<exists>m\<le>63. sz = 2 ^ m)"
  shows "firstk_loop n k sz = None"
proof -
  let ?P = "\<lambda>n sz. 2 ^ 63 < unat n \<and> (sz = 0 \<or> (\<exists>m\<le>63. sz = (2 ^ m :: 64 word)))"
  have "\<not> ?P n sz" if "firstk_loop n k sz = Some r" for r
  proof (rule firstk_loop.raw_induct [OF _ that, where P = "\<lambda>n k sz r. \<not> ?P n sz"], rule notI)
    fix rec :: "64 word \<Rightarrow> int \<Rightarrow> 64 word \<Rightarrow> int option" and n k sz r
    assume ih: "\<And>n k sz r. rec n k sz = Some r \<Longrightarrow> \<not> ?P n sz"
      and run: "(if sz < n then rec n (k + 1) (sz * 2) else Some k) = Some r" and P: "?P n sz"
    have "unat sz \<le> 2 ^ 63"
      using P unat_pow64 power_increasing [of _ 63 "2::nat"] by fastforce
    then have "sz < n" using P by (simp add: word_less_nat_alt)
    moreover have "?P n (sz * 2)"
    proof (cases "sz = 0")
      case False
      then obtain m where m: "m \<le> 63" "sz = 2 ^ m" using P by blast
      show ?thesis
      proof (cases "m = 63")
        case False
        then show ?thesis using m P by (intro conjI disjI2 exI [of _ "Suc m"]) simp_all
      qed (use m P in simp)
    qed (use P in simp)
    ultimately show False using ih run by (metis (full_types))
  qed
  then show ?thesis using assms by (cases "firstk_loop n k sz") blast+
qed

section \<open>The calls\<close>

text \<open>The invariant between calls: the leaves \<open>R\<close> are the allocator's own.\<close>

definition bd_inv :: "nat set \<Rightarrow> 'a bd_state_scheme \<Rightarrow> bool" where
  "bd_inv R s \<longleftrightarrow> resv s R \<and> (\<exists>F. bd_rep s F) \<and> hart_ok s \<and> lock_free BdLock s"

definition free_blk :: "'a bd_state_scheme \<Rightarrow> nat \<Rightarrow> nat \<Rightarrow> bool" where
  "free_blk s k i \<longleftrightarrow> node (maxk s) k i \<and> exists_blk (maxk s) (Sbit s) k i \<and> \<not> Abit s k i"

lemma free_blk_iff: "bd_rep s F \<Longrightarrow> free_blk s k i \<longleftrightarrow> i \<in> set (F k)"
  unfolding free_blk_def using binv_free [OF bd_rep_binv] by blast

lemma locks_bd [simp]:
  "nsizes (lock_st l s) = nsizes s" "bd_base (lock_st l s) = bd_base s"
  "bd_sizes_ptr (lock_st l s) = bd_sizes_ptr s" "bd_sizes (lock_st l s) = bd_sizes s"
  "nxt (lock_st l s) = nxt s" "prv (lock_st l s) = prv s"
  "nsizes (unlock_st l s) = nsizes s" "bd_base (unlock_st l s) = bd_base s"
  "bd_sizes_ptr (unlock_st l s) = bd_sizes_ptr s" "bd_sizes (unlock_st l s) = bd_sizes s"
  "nxt (unlock_st l s) = nxt s" "prv (unlock_st l s) = prv s"
  "nsizes (settle s) = nsizes s" "bd_base (settle s) = bd_base s"
  "bd_sizes_ptr (settle s) = bd_sizes_ptr s" "bd_sizes (settle s) = bd_sizes s"
  "nxt (settle s) = nxt s" "prv (settle s) = prv s"
  by (simp_all add: lock_st_def push_st_def unlock_st_def pop_st_def settle_def)

text \<open>Two states with the same allocator data agree on all of the above.\<close>

lemma bd_cong:
  assumes "nsizes t = nsizes s" and "bd_base t = bd_base s" and "bd_sizes_ptr t = bd_sizes_ptr s"
    and "bd_sizes t = bd_sizes s" and "nxt t = nxt s" and "prv t = prv s"
  shows "bd_rep t F = bd_rep s F" and "resv t R = resv s R" and "live t = live s"
    and "free_head t = free_head s" and "blk_addr t = blk_addr s" and "maxk t = maxk s"
    and "free_blk t = free_blk s"
proof -
  show m: "maxk t = maxk s" using assms by (simp add: maxk_def)
  show h: "free_head t = free_head s" and b: "blk_addr t = blk_addr s"
    using assms by (simp_all add: free_head_def blk_addr_def fun_eq_iff)
  have A: "Abit t = Abit s" "Sbit t = Sbit s" using assms by (simp_all add: Abit_def Sbit_def fun_eq_iff)
  have "dlist t g xs = dlist s g xs" for g xs using assms by (simp add: dlist_def)
  then show "bd_rep t F = bd_rep s F"
    using assms by (simp add: bd_rep_def bd_wf_def bd_lists_def m h b A)
  show "resv t R = resv s R" "live t = live s" "free_blk t = free_blk s"
    using assms by (simp_all add: resv_def live_def m h b A free_blk_def fun_eq_iff)
qed

lemmas bd_lock_cong [simp] =
  bd_cong [of "lock_st l s" s for l s, simplified]
  bd_cong [of "unlock_st l s" s for l s, simplified]
  bd_cong [of "settle s" s for s, simplified]

lemma bd_frame_unlock:
  assumes "bd_frame (lock_st l s) t" and "hart_ok s" and "lock_free l s"
  shows "release l t = Inr ((), unlock_st l t)" and "bd_frame (settle s) (unlock_st l t)"
    and "hart_ok (unlock_st l t)"
proof -
  have e: "hart t = hart s" "cpus t = cpus (lock_st l s)" "lks t = lks (lock_st l s)"
    "sie t = sie (lock_st l s)" using assms(1) by (simp_all add: bd_frame_def)
  have n: "0 < noff (cpus t (hart t))" using assms(2) e by (simp add: hart_ok_def)
  have h: "hart_ok t" using hart_ok_lock_st [OF assms(2), of l] e by (simp add: hart_ok_def)
  have "holds_lock l t" using e by (simp add: holds_lock_def)
  then show "release l t = Inr ((), unlock_st l t)" using h n by (rule release_ok)
  show "bd_frame (settle s) (unlock_st l t)"
    unfolding unlock_lock_st [OF assms(2,3), symmetric]
    using assms(1) by (simp add: bd_frame_def unlock_st_def pop_st_def)
  show "hart_ok (unlock_st l t)" using h n by (rule hart_ok_unlock_st)
qed

lemma bd_invI:
  assumes "bd_step (lock_st BdLock s) t F R L" and "hart_ok s" and "lock_free BdLock s"
  shows "bd_inv R (unlock_st BdLock t)" and "live (unlock_st BdLock t) = L"
    and "bd_frame (settle s) (unlock_st BdLock t)" and "release BdLock t = Inr ((), unlock_st BdLock t)"
  using assms bd_frame_unlock [of BdLock s t] by (auto simp: bd_inv_def bd_step_def)

lemma find_free_size:
  assumes rep: "bd_rep s F"
  shows "find (\<lambda>k. \<not> lst_empty (free_head s k) s) [int f..nsizes s - 1] = r \<Longrightarrow>
    (case r of None \<Rightarrow> \<forall>k\<ge>f. F k = []
     | Some k \<Rightarrow> \<exists>k'. k = int k' \<and> f \<le> k' \<and> k' < nat (nsizes s) \<and> F k' \<noteq> [])"
proof -
  have e: "lst_empty (free_head s (int k)) s \<longleftrightarrow> F k = []" if "k < nat (nsizes s)" for k
    using bd_rep_lists [OF rep] that dlist_empty [of s _ "map (blk_addr s k) (F k)"]
    by (simp add: bd_lists_def)
  have out: "F k = []" if "\<not> k < nat (nsizes s)" for k
    using bd_rep_free_size [OF rep] that by (metis list.set_intros(1) neq_Nil_conv)
  assume r: "find (\<lambda>k. \<not> lst_empty (free_head s k) s) [int f..nsizes s - 1] = r"
  show ?thesis
  proof (cases r)
    case None
    then have "F k = []" if "f \<le> k" for k
      using r e [of k] out [of k] that by (cases "k < nat (nsizes s)") (auto simp: find_None_iff)
    then show ?thesis using None by simp
  next
    case (Some k)
    then have k: "int f \<le> k" "k < nsizes s" "\<not> lst_empty (free_head s k) s"
      using r by (auto simp: find_Some_iff)
    then show ?thesis using Some e [of "nat k"] by (auto intro!: exI [of _ "nat k"])
  qed
qed

lemma bd_malloc_none:
  assumes inv: "bd_inv R s" and f: "firstk n = Some (int f)" and no: "\<And>k i. f \<le> k \<Longrightarrow> \<not> free_blk s k i"
  shows "bd_malloc n s = Inr (0, settle s)"
proof -
  let ?s = "lock_st BdLock s"
  obtain F where rep: "bd_rep s F" and h: "hart_ok s" and l: "lock_free BdLock s"
    using inv by (auto simp: bd_inv_def)
  have "F k = []" if "f \<le> k" for k
    using no [OF that] free_blk_iff [OF rep] by (metis list.set_intros(1) neq_Nil_conv)
  then have "find (\<lambda>k. \<not> lst_empty (free_head ?s k) ?s) [int f..nsizes ?s - 1] = None"
    using find_free_size [of ?s F f, OF _ refl] rep
    by (cases "find (\<lambda>k. \<not> lst_empty (free_head ?s k) ?s) [int f..nsizes ?s - 1]") auto
  then show ?thesis
    using acquire_eq [OF l] bd_frame_unlock [OF bd_frame_refl h l] unlock_lock_st [OF h l]
    by (simp add: bd_malloc_def monad_simps f)
qed

lemma bd_malloc_some:
  assumes inv: "bd_inv R s" and f: "firstk n = Some (int f)" and yes: "f \<le> k0" "free_blk s k0 i0"
  shows "\<exists>i t. bd_malloc n s = Inr (blk_addr s f i, t) \<and> bd_inv R t \<and> (f, i) \<notin> live s \<and>
    live t = insert (f, i) (live s) \<and> bd_frame (settle s) t"
proof -
  let ?s = "lock_st BdLock s"
  obtain F where rep: "bd_rep s F" and h: "hart_ok s" and l: "lock_free BdLock s" and rs: "resv s R"
    using inv by (auto simp: bd_inv_def)
  have rep': "bd_rep ?s F" and rs': "resv ?s R" using rep rs by simp_all
  have "i0 \<in> set (F k0)" using free_blk_iff [OF rep] yes(2) by simp
  then obtain k where fnd: "find (\<lambda>k. \<not> lst_empty (free_head ?s k) ?s) [int f..nsizes ?s - 1] = Some (int k)"
    and k: "f \<le> k" "k < nat (nsizes ?s)" "F k \<noteq> []"
    using find_free_size [OF rep', of f, OF refl] yes(1)
    by (cases "find (\<lambda>k. \<not> lst_empty (free_head ?s k) ?s) [int f..nsizes ?s - 1]") auto
  then obtain i js where F: "F k = i # js" by (cases "F k") auto
  let ?p = "blk_addr s k i"
  let ?a = "lst_remove ?p ?s" and ?b = "set_alloc k i True (lst_remove ?p ?s)"
  have tk: "bd_step ?s ?b (F(k := js)) R (insert (k, i) (live s))" and n: "node (maxk s) k i"
    using take_ok [OF rep' rs' k(2) F] by simp_all
  have pop: "lst_pop (free_head ?s (int k)) ?s = Inr (?p, ?a)"
    using bd_rep_lists [OF rep'] k(2) F by (intro lst_pop_eq) (auto simp: bd_lists_def)
  have ix: "blk_index ?a (int k) ?p = int i"
    using blk_index_node [OF bd_rep_wf [OF rep] n, of k] by (simp add: blk_index_def)
  have al: "on_alloc bit_set (int k) (int i) ?a = Inr ((), ?b)"
    using on_alloc_eq(1) [of ?a k i] bd_rep_wf [OF rep'] n by simp
  obtain d where d: "k = f + d" using k(1) le_Suc_ex by blast
  have "bd_rep ?b (F(k := js))" "resv ?b R" "(f + d, i) \<in> live ?b"
    using tk by (simp_all add: bd_step_def d)
  from split_loop_ok [OF this] obtain t F' where
    run: "forM (rev [int f + 1..int k]) (split_block ?p) ?b = Inr ((), t)"
    and st: "bd_step ?b t F' R (insert (f, i * 2 ^ d) (live ?b - {(k, i)}))" by (auto simp: d)
  have free: "i \<in> set (F k)" by (simp add: F)
  have new: "(l, j) \<notin> live s" if "x \<in> leaves l j" "x \<in> leaves k i" for l j x
    using used_free_disjoint [OF bd_rep_binv [OF rep] _ free] that by (auto simp: live_def)
  have "(k, i) \<notin> live s" and nf: "(f, i * 2 ^ d) \<notin> live s"
    using new [of "i * 2 ^ k" k i] new [of "i * 2 ^ k" f "i * 2 ^ d"]
    by (simp_all add: leaves_def d power_add ac_simps)
  then have "insert (f, i * 2 ^ d) (live ?b - {(k, i)}) = insert (f, i * 2 ^ d) (live s)"
    using tk by (auto simp: bd_step_def)
  moreover have "bd_frame ?s ?b" "bd_frame ?b t" using tk st by (simp_all add: bd_step_def)
  ultimately have st': "bd_step ?s t F' R (insert (f, i * 2 ^ d) (live s))"
    using st bd_frame_trans [of ?s ?b t] by (simp add: bd_step_def)
  have p: "?p = blk_addr s f (i * 2 ^ d)" by (simp add: blk_addr_def d power_add ac_simps)
  note fin = bd_invI [OF st' h l]
  have "bd_malloc n s = Inr (blk_addr s f (i * 2 ^ d), unlock_st BdLock t)"
    unfolding bd_malloc_def f option.case p [symmetric]
    by (simp only: monad_simps sum.case prod.case acquire_eq [OF l] fnd option.case pop ix al run fin(4))
  then show ?thesis using fin nf by blast
qed

lemma bd_free_ok:
  assumes inv: "bd_inv R s" and u: "(k, i) \<in> live s" and nr: "k \<noteq> 0 \<or> i \<notin> R"
  shows "\<exists>t. bd_free (blk_addr s k i) s = Inr ((), t) \<and> bd_inv R t \<and>
    live t = live s - {(k, i)} \<and> bd_frame (settle s) t"
proof -
  let ?s = "lock_st BdLock s" and ?p = "blk_addr s k i"
  obtain F where rep: "bd_rep s F" and h: "hart_ok s" and l: "lock_free BdLock s" and rs: "resv s R"
    using inv by (auto simp: bd_inv_def)
  have rep': "bd_rep ?s F" and rs': "resv ?s R" and u': "(k, i) \<in> live ?s" using rep rs u by simp_all
  have k: "k < maxk s" using live_lt_maxk [OF rep rs u nr] .
  have mx: "nsizes s = int (maxk s) + 1" using maxk_nsizes [OF bd_rep_wf [OF rep]] by simp
  have sz: "size_of ?p ?s = Inr (int k, ?s)"
    using size_loop_ok [OF rep' u', of 0] k mx by (simp add: size_of_def monad_simps)
  have "k + (maxk s - k) = maxk ?s" using k by simp
  from free_loop_ok [OF rep' rs' u' this nr] obtain k' p t F' where
    run: "free_loop (maxk s - k) (int k) ?p ?s = Inr ((int k', p), t)"
    and st: "bd_step ?s (lst_push (free_head ?s (int k')) p t) F' R (live s - {(k, i)})"
    and fr: "bd_frame ?s t" by auto
  have m: "nat (MAXSIZE ?s - int k) = maxk s - k" using k mx by (simp add: MAXSIZE_def)
  have hd: "free_head t (int k') = free_head ?s (int k')" using fr by (simp add: bd_frame_addr)
  note fin = bd_invI [OF st h l]
  have "bd_free ?p s = Inr ((), unlock_st BdLock (lst_push (free_head ?s (int k')) p t))"
    unfolding bd_free_def
    by (simp only: monad_simps sum.case prod.case acquire_eq [OF l] sz m run hd fin(4))
  then show ?thesis using fin by blast
qed

end
