(* ===== verification/Buddy_Init.thy ===== *)
theory Buddy_Init
  imports Buddy_Correct
begin

text \<open>
  Initialisation of the buddy allocator (\<open>bd_init\<close> of kernel/buddy.c, \<open>kinit\<close> of
  kernel/kalloc.c): for a heap of more than 512 bytes whose size is not a power of two times
  the leaf size, it returns, and establishes the invariant \<open>bd_inv\<close> with the blocks that hold
  the allocator's own data and the blocks past the end of memory as the reserved leaves.
\<close>

section \<open>Definitions\<close>

definition blk_index_next :: "'a bd_state_scheme \<Rightarrow> int \<Rightarrow> int \<Rightarrow> int" where
  "blk_index_next s k p =
     (let n = c_int (c_div (p - bd_base s) (BLK_SIZE k)) in
      if (p - bd_base s) mod BLK_SIZE k \<noteq> 0 then c_int (n + 1) else n)"

function log2_loop :: "int \<Rightarrow> 64 word \<Rightarrow> int" where
  "log2_loop k n = (if 1 < n then log2_loop (k + 1) (drop_bit 1 n) else k)"
  by auto
termination
proof (relation "measure (\<lambda>(k, n). unat n)")
  fix k :: int and n :: "64 word"
  assume "1 < n"
  then have "1 < unat n" by (simp add: word_less_nat_alt)
  moreover have "unat (drop_bit 1 n) = unat n div 2" by (simp add: drop_bit_eq_div unat_div)
  ultimately show "((k + 1, drop_bit 1 n), (k, n)) \<in> measure (\<lambda>(k, n). unat n)" by simp
qed simp

declare log2_loop.simps [simp del]

definition log2 :: "64 word \<Rightarrow> int" where
  "log2 n = log2_loop 0 n"

definition mark_blk :: "int \<Rightarrow> int \<Rightarrow> ('a bd_state_scheme, unit) kmon" where
  "mark_blk k bi = thenM (whenM (0 < k) (on_split bit_set k bi)) (on_alloc bit_set k bi)"

definition bd_mark :: "int \<Rightarrow> int \<Rightarrow> ('a bd_state_scheme, unit) kmon" where
  "bd_mark start stop =
     (if start mod LEAF_SIZE \<noteq> 0 \<or> stop mod LEAF_SIZE \<noteq> 0 then panic ''bd_mark''
      else bindM (gets nsizes) (\<lambda>n.
        forM [0..n - 1] (\<lambda>k.
          bindM (gets (\<lambda>s. blk_index s k start)) (\<lambda>bi.
          bindM (gets (\<lambda>s. blk_index_next s k stop)) (\<lambda>bj.
          forM [bi..bj - 1] (mark_blk k))))))"

definition bd_initfree_pair :: "int \<Rightarrow> int \<Rightarrow> ('a bd_state_scheme, int) kmon" where
  "bd_initfree_pair k bi =
     (let buddy = (if bi mod 2 = 0 then bi + 1 else bi - 1) in
      bindM (alloc_isset k bi) (\<lambda>a. bindM (alloc_isset k buddy) (\<lambda>b.
      if a \<noteq> b
      then thenM (modify (\<lambda>s. lst_push (free_head s k) (addr s k (if a then buddy else bi)) s))
             (ret (c_int (BLK_SIZE k)))
      else ret 0)))"

fun initfree_loop :: "int \<Rightarrow> int \<Rightarrow> int \<Rightarrow> int list \<Rightarrow> ('a bd_state_scheme, int) kmon" where
  "initfree_loop bd_left bd_right free [] = ret free"
| "initfree_loop bd_left bd_right free (k # ks) =
     bindM (gets (\<lambda>s. blk_index_next s k bd_left)) (\<lambda>left.
     bindM (gets (\<lambda>s. blk_index s k bd_right)) (\<lambda>right.
     bindM (bd_initfree_pair k left) (\<lambda>f.
     if right \<le> left then initfree_loop bd_left bd_right (c_int (free + f)) ks
     else bindM (bd_initfree_pair k right) (\<lambda>g.
       initfree_loop bd_left bd_right (c_int (c_int (free + f) + g)) ks))))"

definition bd_initfree :: "int \<Rightarrow> int \<Rightarrow> ('a bd_state_scheme, int) kmon" where
  "bd_initfree bd_left bd_right =
     bindM (gets MAXSIZE) (\<lambda>mx. initfree_loop bd_left bd_right 0 [0..mx - 1])"

definition bd_mark_data_structures :: "int \<Rightarrow> ('a bd_state_scheme, int) kmon" where
  "bd_mark_data_structures p =
     bindM (gets bd_base) (\<lambda>base. thenM (bd_mark base p) (ret (c_int (p - base))))"

definition bd_mark_unavailable :: "int \<Rightarrow> int \<Rightarrow> ('a bd_state_scheme, int) kmon" where
  "bd_mark_unavailable stop left =
     bindM (gets bd_base) (\<lambda>base. bindM (gets MAXSIZE) (\<lambda>mx.
     let unavailable = c_int (BLK_SIZE mx - (stop - base));
         unavailable = (if 0 < unavailable then ROUNDUP unavailable LEAF_SIZE else unavailable);
         bd_end = base + BLK_SIZE mx - unavailable
     in thenM (bd_mark bd_end (base + BLK_SIZE mx)) (ret unavailable)))"

text \<open>The two loops that lay out the bit arrays; they return the first address after them.\<close>

definition array_size :: "'a bd_state_scheme \<Rightarrow> int \<Rightarrow> int" where
  "array_size s k = ROUNDUP (NBLK s k) 8 div 8"

fun init_alloc :: "int list \<Rightarrow> int \<Rightarrow> ('a bd_state_scheme, int) kmon" where
  "init_alloc [] p = ret p"
| "init_alloc (k # ks) p =
     thenM (modify (\<lambda>s. lst_init (free_head s k) s))
    (bindM (gets (\<lambda>s. array_size s k)) (\<lambda>sz.
     bindM (get_size k) (\<lambda>z.
     thenM (put_size k (z\<lparr>sz_alloc := replicate (nat sz) 0\<rparr>))
    (init_alloc ks (p + sz)))))"

fun init_split :: "int list \<Rightarrow> int \<Rightarrow> ('a bd_state_scheme, int) kmon" where
  "init_split [] p = ret p"
| "init_split (k # ks) p =
     bindM (gets (\<lambda>s. array_size s k)) (\<lambda>sz.
     bindM (get_size k) (\<lambda>z.
     thenM (put_size k (z\<lparr>sz_split := replicate (nat sz) 0\<rparr>))
    (init_split ks (p + sz))))"

definition bd_init :: "int \<Rightarrow> int \<Rightarrow> ('a bd_state_scheme, unit) kmon" where
  "bd_init base stop =
     (let p = ROUNDUP base LEAF_SIZE in
      thenM (initlock BdLock)
     (thenM (modify (\<lambda>s. s\<lparr>bd_base := p\<rparr>))
     (thenM (modify (\<lambda>s. s\<lparr>nsizes := log2 (word_of_int (c_div (stop - p) LEAF_SIZE)) + 1\<rparr>))
     (thenM (modify (\<lambda>s. if BLK_SIZE (MAXSIZE s) < stop - p then s\<lparr>nsizes := nsizes s + 1\<rparr> else s))
     (thenM (modify (\<lambda>s. s\<lparr>bd_sizes_ptr := p\<rparr>))
     (bindM (gets nsizes) (\<lambda>n.
      let p = p + sizeof_Sz_info * n in
      thenM (modify (\<lambda>s. s\<lparr>bd_sizes := replicate (nat n) \<lparr>sz_alloc = [], sz_split = []\<rparr>\<rparr>))
     (bindM (init_alloc [0..n - 1] p) (\<lambda>p.
      bindM (init_split [1..n - 1] p) (\<lambda>p.
      let p = ROUNDUP p LEAF_SIZE in
      bindM (bd_mark_data_structures p) (\<lambda>meta.
      bindM (bd_mark_unavailable stop p) (\<lambda>unavailable.
      bindM (gets (\<lambda>s. bd_base s + BLK_SIZE (MAXSIZE s) - unavailable)) (\<lambda>bd_end.
      bindM (bd_initfree p bd_end) (\<lambda>free.
      bindM (gets MAXSIZE) (\<lambda>mx.
      if free \<noteq> BLK_SIZE mx - meta - unavailable then panic ''bd_init: free mem''
      else ret ())))))))))))))))"

definition PGROUNDUP :: "int \<Rightarrow> int" where
  "PGROUNDUP sz = (sz + PGSIZE - 1) div PGSIZE * PGSIZE"

definition KERNBASE :: int where
  "KERNBASE = 0x80000000"

definition PHYSTOP :: int where
  "PHYSTOP = KERNBASE + 128 * 1024 * 1024"

text \<open>\<open>kend\<close> is the linker's symbol \<open>end\<close>, the first address after the kernel.\<close>

definition kinit :: "int \<Rightarrow> ('a bd_state_scheme, unit) kmon" where
  "kinit kend = bd_init (PGROUNDUP kend) PHYSTOP"

section \<open>Marking\<close>

definition cdiv :: "nat \<Rightarrow> nat \<Rightarrow> nat" where
  "cdiv b l = (if b mod 2 ^ l \<noteq> 0 then b div 2 ^ l + 1 else b div 2 ^ l)"

lemma less_cdiv: "i < cdiv b l \<longleftrightarrow> i * 2 ^ l < b"
proof -
  have p: "0 < (2::nat) ^ l" by simp
  have b: "b = b div 2 ^ l * 2 ^ l + b mod 2 ^ l" by (rule div_mult_mod_eq [symmetric])
  show ?thesis
  proof (cases "b mod 2 ^ l = 0")
    case True
    then have "b = b div 2 ^ l * 2 ^ l" using b by simp
    then show ?thesis using True p by (metis cdiv_def mult_less_cancel2)
  next
    case False
    have "i * 2 ^ l < b \<longleftrightarrow> i \<le> b div 2 ^ l"
      using False by (metis b div_le_mono div_mult_self_is_m le_eq_less_or_eq less_eq_div_iff_mult_less_eq
          mod_mult_self2_is_0 mult.commute p)
    then show ?thesis using False by (simp add: cdiv_def less_Suc_eq_le)
  qed
qed

lemma cdiv_Suc: "cdiv b (Suc l) = (cdiv b l + 1) div 2"
proof (rule antisym)
  have "(cdiv b l + 1) div 2 \<le> i" if "cdiv b (Suc l) \<le> i" for i
  proof -
    have "\<not> i < cdiv b (Suc l)" using that by simp
    then have "b \<le> 2 * i * 2 ^ l" by (simp add: less_cdiv ac_simps)
    then have "\<not> 2 * i < cdiv b l" by (simp add: less_cdiv)
    then show ?thesis by simp
  qed
  then show "(cdiv b l + 1) div 2 \<le> cdiv b (Suc l)" by simp
  have "cdiv b (Suc l) \<le> i" if "(cdiv b l + 1) div 2 \<le> i" for i
  proof -
    have "\<not> 2 * i < cdiv b l" using that by simp
    then have "\<not> i < cdiv b (Suc l)" by (simp add: less_cdiv ac_simps)
    then show ?thesis by simp
  qed
  then show "cdiv b (Suc l) \<le> (cdiv b l + 1) div 2" by simp
qed

lemma blk_index_next_leaf:
  assumes "bd_wf s" and "x \<le> 2 ^ maxk s"
  shows "blk_index_next s (int l) (bd_base s + 16 * int x) = int (cdiv x l)"
proof -
  have "(2::nat) ^ maxk s \<le> 2 ^ 26" using bd_wf_maxk [OF assms(1)] by (intro power_increasing) auto
  then have x: "x \<le> 67108864" using assms(2) by simp
  have "x div 2 ^ l \<le> x" by simp
  then have "int (x div 2 ^ l) \<le> 67108864" using x by linarith
  moreover have "c_div (16 * int x) (BLK_SIZE (int l)) = int (x div 2 ^ l)"
    by (simp add: BLK_SIZE_def LEAF_SIZE_def zdiv_int)
  moreover have "int x mod 2 ^ l = int (x mod 2 ^ l)" by (simp add: zmod_int)
  then have "16 * int x mod BLK_SIZE (int l) = 0 \<longleftrightarrow> x mod 2 ^ l = 0"
    by (simp add: BLK_SIZE_def LEAF_SIZE_def)
  ultimately show ?thesis by (simp add: blk_index_next_def cdiv_def)
qed

text \<open>\<open>marked s t P\<close>: \<open>t\<close> is \<open>s\<close> with the blocks \<open>P\<close> allocated, and split above size 0.\<close>

definition marked ::
    "'a bd_state_scheme \<Rightarrow> 'a bd_state_scheme \<Rightarrow> (nat \<Rightarrow> nat \<Rightarrow> bool) \<Rightarrow> bool" where
  "marked s t P \<longleftrightarrow> bd_wf t \<and> bd_frame s t \<and> nxt t = nxt s \<and> prv t = prv s \<and>
     Abit t = (\<lambda>k i. Abit s k i \<or> P k i) \<and> Sbit t = (\<lambda>k i. Sbit s k i \<or> 0 < k \<and> P k i)"

lemma marked_refl: "bd_wf s \<Longrightarrow> marked s s (\<lambda>k i. False)"
  by (simp add: marked_def)

lemma marked_trans:
  "marked s t P \<Longrightarrow> marked t u Q \<Longrightarrow> (\<And>k i. W k i \<longleftrightarrow> P k i \<or> Q k i) \<Longrightarrow> marked s u W"
  by (auto simp: marked_def fun_eq_iff intro: bd_frame_trans)

lemma marked_frame: "marked s t P \<Longrightarrow> bd_wf t" "marked s t P \<Longrightarrow> maxk t = maxk s"
  "marked s t P \<Longrightarrow> bd_base t = bd_base s" "marked s t P \<Longrightarrow> nsizes t = nsizes s"
  by (auto simp: marked_def bd_frame_def maxk_def)

lemma mark_blk_ok:
  assumes wf: "bd_wf s" and n: "node (maxk s) k i"
  shows "wpM (mark_blk (int k) (int i)) (\<lambda>_ t. marked s t (\<lambda>l j. l = k \<and> j = i)) s"
proof (cases "k = 0")
  case True
  then show ?thesis
    using on_alloc_eq(1) [OF wf n] bits_set_alloc [OF wf n, of True] wf
    by (auto simp: mark_blk_def wpM_iff monad_simps whenM_def marked_def fun_eq_iff)
next
  case False
  let ?a = "set_split k i True s"
  have n': "node (maxk ?a) k i" using n by simp
  have wf': "bd_wf ?a" using wf by simp
  have "mark_blk (int k) (int i) s = Inr ((), set_alloc k i True ?a)"
    unfolding mark_blk_def whenM_def
    using on_split_eq(1) [OF wf n] on_alloc_eq(1) [OF wf' n'] False by (simp add: monad_simps)
  moreover have "marked s (set_alloc k i True ?a) (\<lambda>l j. l = k \<and> j = i)"
    using bits_set_split [OF wf n, of True] bits_set_alloc [OF wf' n', of True] wf False
    by (auto simp: marked_def fun_eq_iff)
  ultimately show ?thesis by (rule wpM_I)
qed

lemma marked_cong: "marked s t P \<Longrightarrow> (\<And>k i. Q k i \<longleftrightarrow> P k i) \<Longrightarrow> marked s t Q"
  by (simp add: marked_def)

lemma mark_range_ok:
  assumes wf: "bd_wf s" and n: "\<And>i. i < b \<Longrightarrow> node (maxk s) k i" and "a \<le> b"
  shows "wpM (forM [int a..int b - 1] (mark_blk (int k)))
    (\<lambda>_ t. marked s t (\<lambda>l j. l = k \<and> a \<le> j \<and> j < b)) s"
  using \<open>a \<le> b\<close>
proof (rule wp_upto)
  show "marked s s (\<lambda>l j. l = k \<and> a \<le> j \<and> j < a)"
    by (rule marked_cong [OF marked_refl [OF wf]]) auto
next
  fix c t
  assume c: "a \<le> c" "c < b" and m: "marked s t (\<lambda>l j. l = k \<and> a \<le> j \<and> j < c)"
  have "wpM (mark_blk (int k) (int c)) (\<lambda>_ u. marked t u (\<lambda>l j. l = k \<and> j = c)) t"
    by (rule mark_blk_ok) (use n [OF c(2)] marked_frame [OF m] in simp_all)
  then show "wpM (mark_blk (int k) (int c)) (\<lambda>_ u. marked s u (\<lambda>l j. l = k \<and> a \<le> j \<and> j < Suc c)) t"
    by (rule wpM_mono) (erule marked_trans [OF m], use c in auto)
qed

text \<open>The blocks that meet the leaves from \<open>a\<close> up to \<open>b\<close>.\<close>

definition over :: "nat \<Rightarrow> nat \<Rightarrow> nat \<Rightarrow> nat \<Rightarrow> nat \<Rightarrow> bool" where
  "over M a b k i \<longleftrightarrow> k \<le> M \<and> a div 2 ^ k \<le> i \<and> i < cdiv b k"

lemma bd_mark_ok:
  assumes wf: "bd_wf s" and base: "bd_base s mod 16 = 0"
    and a: "a < 2 ^ maxk s" and b: "a \<le> b" "b \<le> 2 ^ maxk s"
  shows "wpM (bd_mark (bd_base s + 16 * int a) (bd_base s + 16 * int b))
    (\<lambda>_ t. marked s t (over (maxk s) a b)) s"
proof -
  let ?M = "maxk s"
  let ?body = "\<lambda>k. bindM (gets (\<lambda>t. blk_index t k (bd_base s + 16 * int a))) (\<lambda>bi.
    bindM (gets (\<lambda>t. blk_index_next t k (bd_base s + 16 * int b))) (\<lambda>bj. forM [bi..bj - 1] (mark_blk k)))"
  let ?I = "\<lambda>c t. marked s t (\<lambda>l j. l < c \<and> a div 2 ^ l \<le> j \<and> j < cdiv b l)"
  have "wpM (forM [int 0..int (Suc ?M) - 1] ?body) (\<lambda>_. ?I (Suc ?M)) s"
  proof (rule wp_upto)
    show "?I 0 s" by (rule marked_cong [OF marked_refl [OF wf]]) auto
  next
    fix c t
    assume c: "c < Suc ?M" and m: "?I c t"
    note fr = marked_frame [OF m]
    have ix: "blk_index t (int c) (bd_base s + 16 * int a) = int (a div 2 ^ c)"
      "blk_index_next t (int c) (bd_base s + 16 * int b) = int (cdiv b c)"
      using blk_index_leaf [of t a c] blk_index_next_leaf [of t b c] fr a b by simp_all
    have "node (maxk t) c i" if "i < cdiv b c" for i
    proof -
      have "i * 2 ^ c < 2 ^ ?M" using that b(2) by (simp add: less_cdiv)
      also have "\<dots> = 2 ^ (?M - c) * 2 ^ c" using c by (simp add: power_add [symmetric])
      finally show ?thesis using c fr by (simp add: node_def)
    qed
    moreover have "a div 2 ^ c \<le> cdiv b c"
      using b(1) div_le_mono [of a b "2 ^ c"] by (simp add: cdiv_def) 
    ultimately have "wpM (forM [int (a div 2 ^ c)..int (cdiv b c) - 1] (mark_blk (int c)))
      (\<lambda>_ u. marked t u (\<lambda>l j. l = c \<and> a div 2 ^ c \<le> j \<and> j < cdiv b c)) t"
      by (intro mark_range_ok fr(1))
    then have "wpM (forM [int (a div 2 ^ c)..int (cdiv b c) - 1] (mark_blk (int c))) (\<lambda>_. ?I (Suc c)) t"
      by (rule wpM_mono) (erule marked_trans [OF m], auto simp: less_Suc_eq)
    then show "wpM (?body (int c)) (\<lambda>_. ?I (Suc c)) t" by (simp add: wp ix)
  qed simp
  moreover have "nsizes s - 1 = int ?M" using maxk_nsizes [OF wf] by simp
  moreover have "over ?M a b = (\<lambda>l j. l < Suc ?M \<and> a div 2 ^ l \<le> j \<and> j < cdiv b l)"
    by (auto simp: fun_eq_iff over_def)
  moreover have "(bd_base s + 16 * int x) mod 16 = 0" for x using base by simp
  ultimately show ?thesis by (simp add: bd_mark_def LEAF_SIZE_def wp)
qed

section \<open>Filling the free lists\<close>

text \<open>
  \<open>init_st L E s\<close>: the leaves below \<open>L\<close> and from \<open>E\<close> on are in use, nothing else is, and the
  list heads lie below \<open>L\<close>.  The bounds on \<open>L\<close> and \<open>E\<close> are what \<open>bd_init\<close> makes of a heap that
  is large enough.
\<close>

definition init_st :: "nat \<Rightarrow> nat \<Rightarrow> 'a bd_state_scheme \<Rightarrow> bool" where
  "init_st L E s \<longleftrightarrow> bd_wf s \<and> 2 \<le> maxk s \<and> 0 < L \<and> L \<le> 2 ^ (maxk s - 2) \<and>
     2 ^ (maxk s - 1) \<le> E \<and> E < 2 ^ maxk s \<and>
     bd_sizes_ptr s = bd_base s \<and> 2 * maxk s < L \<and>
     (\<forall>k i. node (maxk s) k i \<longrightarrow> (Abit s k i \<longleftrightarrow> i < cdiv L k \<or> E div 2 ^ k \<le> i) \<and>
        (Sbit s k i \<longleftrightarrow> 0 < k \<and> (i < cdiv L k \<or> E div 2 ^ k \<le> i)))"

lemma init_st_bits:
  "init_st L E s \<Longrightarrow> node (maxk s) k i \<Longrightarrow> Abit s k i \<longleftrightarrow> i < cdiv L k \<or> E div 2 ^ k \<le> i"
  "init_st L E s \<Longrightarrow> node (maxk s) k i \<Longrightarrow> Sbit s k i \<longleftrightarrow> 0 < k \<and> (i < cdiv L k \<or> E div 2 ^ k \<le> i)"
  by (simp_all add: init_st_def)

text \<open>A block is marked exactly when one of its halves is.\<close>

lemma halves_low: "i < cdiv L (Suc k) \<longleftrightarrow> 2 * i < cdiv L k"
  by (simp add: less_cdiv ac_simps)

lemma halves_high: "E div 2 ^ Suc k \<le> i \<longleftrightarrow> E div 2 ^ k \<le> 2 * i + (1::nat)"
proof -
  have "E div 2 ^ Suc k = E div 2 ^ k div 2" by (simp add: div_mult2_eq [symmetric] mult.commute)
  then show ?thesis by auto
qed

definition init_free :: "nat \<Rightarrow> nat \<Rightarrow> nat \<Rightarrow> nat \<Rightarrow> nat list" where
  "init_free M L E k = (if k < M - 1
     then (if odd (E div 2 ^ k) then [E div 2 ^ k - 1] else []) @
          (if odd (cdiv L k) then [cdiv L k] else []) else [])"

lemma levels:
  assumes "0 < L" and "L \<le> 2 ^ (M - 2)" and "2 ^ (M - 1) \<le> E" and "E < 2 ^ M" and "k + 1 < M"
  shows "0 < cdiv L k" and "cdiv L k < E div 2 ^ k"
    and "even (cdiv L k) \<Longrightarrow> cdiv L k + 2 \<le> E div 2 ^ k" and "E div 2 ^ k < 2 ^ (M - k)"
proof -
  obtain d where M: "M = k + d + 2" using assms(5) less_iff_Suc_add by auto
  show pos: "0 < cdiv L k" using assms(1) by (simp add: less_cdiv)
  have "\<not> 2 ^ d < cdiv L k" using assms(2) by (simp add: less_cdiv M power_add mult.commute)
  then have l: "cdiv L k \<le> 2 ^ d" by simp
  have "2 ^ (d + 1) * 2 ^ k \<le> E" using assms(3) by (simp add: M power_add ac_simps)
  then have r: "2 ^ (d + 1) \<le> E div 2 ^ k" by (simp add: less_eq_div_iff_mult_less_eq)
  show "cdiv L k < E div 2 ^ k" using l r pos by simp
  show "cdiv L k + 2 \<le> E div 2 ^ k" if "even (cdiv L k)"
    using l r pos that by (auto elim!: evenE)
  show "E div 2 ^ k < 2 ^ (M - k)"
    using assms(4,5) by (simp add: div_less_iff_less_mult power_add [symmetric])
qed

lemma top_level:
  assumes "0 < L" and "L \<le> 2 ^ (M - 2)" and "2 ^ (M - 1) \<le> (E::nat)" and "E < 2 ^ M" and "2 \<le> M"
  shows "cdiv L (M - 1) = 1" and "E div 2 ^ (M - 1) = 1"
    and "cdiv L M = 1" and "E div 2 ^ M = 0"
proof -
  obtain d where M: "M = d + 2" using assms(5) by (metis le_add_diff_inverse2)
  have "0 < cdiv L (M - 1)" "\<not> 1 < cdiv L (M - 1)" "0 < cdiv L M" "\<not> 1 < cdiv L M"
    using assms(1,2) by (simp_all add: less_cdiv M)
  then show "cdiv L (M - 1) = 1" "cdiv L M = 1" by simp_all
  show "E div 2 ^ (M - 1) = 1"
    using assms(3,4) by (intro div_nat_eqI) (simp_all add: M)
  show "E div 2 ^ M = 0" using assms(4) by simp
qed

text \<open>The marks satisfy the invariant of the block tree, and the lists must hold \<open>init_free\<close>.\<close>

lemma init_exists:
  assumes st: "init_st L E s" and n: "node (maxk s) k i" and k: "k < maxk s"
  shows "exists_blk (maxk s) (Sbit s) k i \<longleftrightarrow>
    2 * (i div 2) < cdiv L k \<or> E div 2 ^ k \<le> 2 * (i div 2) + 1"
  using init_st_bits(2) [OF st node_parent [OF n k]] k halves_low [of "i div 2"] halves_high [of E k]
  by (simp add: exists_blk_def)

lemma pair_distinct: "(l::nat) < r \<Longrightarrow> \<not> (odd r \<and> odd l \<and> r - 1 = l)"
  by presburger

lemma int_halves: "int x = 2 * int (x div 2) + int (x mod 2)"
  "int x = 2 * int ((x + 1) div 2) - int (x mod 2)"
  by presburger+

lemma pair_arith:
  assumes "(l::nat) < r"
  shows "i \<in> set ((if odd r then [r - 1] else []) @ (if odd l then [l] else [])) \<longleftrightarrow>
    l \<le> i \<and> i < r \<and> (2 * (i div 2) < l \<or> r \<le> 2 * (i div 2) + 1)"
proof -
  have "i \<in> set ((if odd r then [r - 1] else []) @ (if odd l then [l] else [])) \<longleftrightarrow>
      (odd r \<and> i = r - 1) \<or> (odd l \<and> i = l)" by auto
  also have "\<dots> \<longleftrightarrow> l \<le> i \<and> i < r \<and> (2 * (i div 2) < l \<or> r \<le> 2 * (i div 2) + 1)"
    using assms by presburger
  finally show ?thesis .
qed

lemma init_binv:
  assumes st: "init_st L E s"
  shows "binv (maxk s) (Abit s) (Sbit s) (\<lambda>k. set (init_free (maxk s) L E k))"
proof -
  let ?M = "maxk s"
  note lv = levels [of L ?M E] and tp = top_level [of L ?M E] and ex = init_exists [OF st]
  have g: "0 < L" "L \<le> 2 ^ (?M - 2)" "2 ^ (?M - 1) \<le> E" "E < 2 ^ ?M" "2 \<le> ?M"
    using st by (simp_all add: init_st_def)
  note b = init_st_bits [OF st]
  have top: "Abit s k i" if "node ?M k i" "\<not> k + 1 < ?M" for k i
  proof (cases "k = ?M")
    case True
    then show ?thesis using b(1) [OF that(1)] tp(4) [OF g] by simp
  next
    case False
    then have "k = ?M - 1" using that by (auto simp: node_def)
    then show ?thesis using b(1) [OF that(1)] tp(1,2) [OF g] by (cases "i = 0") simp_all
  qed
  show ?thesis
    unfolding binv_def
  proof (intro conjI allI impI)
    fix k i assume n: "node ?M k i"
    show "Abit s k i" "0 < k" if "Sbit s k i" using that b [OF n] by auto
    show "exists_blk ?M (Sbit s) k i" if "Abit s k i"
    proof (cases "k < ?M")
      case True
      show ?thesis using ex [OF n True] b(1) [OF n] that by auto
    qed (use n in \<open>simp add: node_def exists_blk_def\<close>)
  next
    fix k i
    have "i \<in> set (init_free ?M L E k) \<longleftrightarrow> node ?M k i \<and> cdiv L k \<le> i \<and> i < E div 2 ^ k \<and>
        (2 * (i div 2) < cdiv L k \<or> E div 2 ^ k \<le> 2 * (i div 2) + 1)" if k: "k + 1 < ?M"
    proof -
      note l = lv [OF g(1-4) k]
      show ?thesis
        using pair_arith [OF l(2), of i] l(4) k by (auto simp: init_free_def node_def)
    qed
    moreover have "init_free ?M L E k = []" if "\<not> k + 1 < ?M"
      using that by (simp add: init_free_def less_diff_conv)
    ultimately show "i \<in> set (init_free ?M L E k) \<longleftrightarrow>
        node ?M k i \<and> exists_blk ?M (Sbit s) k i \<and> \<not> Abit s k i"
      using top [of k i] b(1) [of k i] ex [of k i] by (cases "k + 1 < ?M") (auto simp: not_less)
  next
    fix k i assume "node ?M (Suc k) i" "Sbit s (Suc k) i"
    then show "Abit s k (2 * i) \<or> Abit s k (2 * i + 1)"
      using b(2) [of "Suc k" i] b(1) [of k "2 * i"] b(1) [of k "2 * i + 1"]
        node_child [of ?M k i 0] node_child [of ?M k i 1] halves_low [of i L k] halves_high [of E k i]
      by auto
  qed
qed

lemma pair_ok:
  assumes wf: "bd_wf s" and n: "node (maxk s) k i" and k: "k < maxk s"
  shows "bd_initfree_pair (int k) (int i) s =
    (if Abit s k i = Abit s k (buddy_of i) then Inr (0, s)
     else Inr (16 * 2 ^ k, lst_push (free_head s (int k))
       (blk_addr s k (if Abit s k i then buddy_of i else i)) s))"
proof -
  have nb: "node (maxk s) k (buddy_of i)" using node_buddy [OF n k] .
  have "k \<le> 25" using k bd_wf_maxk [OF wf] by simp
  then have "(2::int) ^ k \<le> 2 ^ 25" by (intro power_increasing) auto
  moreover have "(-134217728::int) \<le> 2 ^ k" by (rule order_trans [of _ 0]) simp_all
  ultimately have "c_int (16 * 2 ^ k) = 16 * 2 ^ k" by (intro c_int_id) simp_all
  then have sz: "c_int (BLK_SIZE (int k)) = 16 * 2 ^ k"
    by (simp add: BLK_SIZE_def LEAF_SIZE_def mult.commute)
  have ad: "addr s (int k) (if a then int (buddy_of i) else int i) = blk_addr s k (if a then buddy_of i else i)" for a
    using addr_node [OF wf n] addr_node [OF wf nb] by simp
  show ?thesis
    unfolding bd_initfree_pair_def Let_def buddy_int
    using alloc_isset_eq [OF wf n] alloc_isset_eq [OF wf nb] by (simp add: monad_simps ad sz)
qed

text \<open>The state of the loop: the bits of \<open>s\<close>, and lists \<open>F\<close> of free blocks.\<close>

definition filling :: "'a bd_state_scheme \<Rightarrow> 'a bd_state_scheme \<Rightarrow> (nat \<Rightarrow> nat list) \<Rightarrow> bool" where
  "filling s t F \<longleftrightarrow> bd_frame s t \<and> bd_sizes t = bd_sizes s \<and> bd_lists t F"

lemma filling_same:
  "filling s t F \<Longrightarrow> Abit t = Abit s" "filling s t F \<Longrightarrow> Sbit t = Sbit s"
  "filling s t F \<Longrightarrow> maxk t = maxk s" "filling s t F \<Longrightarrow> bd_wf t = bd_wf s"
  "filling s t F \<Longrightarrow> blk_addr t = blk_addr s" "filling s t F \<Longrightarrow> free_head t = free_head s"
  "filling s t F \<Longrightarrow> bd_base t = bd_base s" "filling s t F \<Longrightarrow> nsizes t = nsizes s"
  by (auto simp: filling_def bd_frame_def Abit_def Sbit_def maxk_def bd_wf_def blk_addr_def
      free_head_def fun_eq_iff)

lemma filling_push:
  assumes st: "init_st L E s" and f: "filling s t F" and x: "x \<in> set (init_free (maxk s) L E k)"
    and sub: "\<And>l. set (F l) \<subseteq> set (init_free (maxk s) L E l)" and new: "x \<notin> set (F k)"
  shows "filling s (lst_push (free_head s (int k)) (blk_addr s k x) t) (F(k := x # F k))"
proof -
  note same = filling_same [OF f] and inv = init_binv [OF st]
  have wf: "bd_wf s" using st by (simp add: init_st_def)
  have X: "node (maxk s) l y \<and> exists_blk (maxk s) (Sbit s) l y \<and> \<not> Sbit s l y \<and> \<not> Abit s l y"
    if "y \<in> set (init_free (maxk s) L E l)" for l y
    using binv_free [OF inv, of y l] binv_split_alloc [OF inv, of l y] that by blast
  have k: "k < nat (nsizes t)" using X [OF x] maxk_nsizes [OF wf] same by (simp add: node_def)
  have "L \<le> x * 2 ^ k"
    using X [OF x] init_st_bits(1) [OF st, of k x] less_cdiv [of x L k] by auto
  then have "2 * maxk s < x * 2 ^ k" using st by (simp add: init_st_def)
  then have "int (2 * maxk s) < int (x * 2 ^ k)" by (rule iffD2 [OF of_nat_less_iff])
  then have "bd_base s + 32 * int (maxk s) < blk_addr s k x" by (simp add: blk_addr_def)
  moreover have "free_head s (int l) \<le> bd_base s + 32 * int (maxk s)" if "l < nat (nsizes s)" for l
    using that st maxk_nsizes [OF wf] by (simp add: free_head_def init_st_def sizeof_Sz_info_def)
  ultimately have h: "blk_addr s k x \<noteq> free_head s (int l)" if "l < nat (nsizes s)" for l
    using that by fastforce
  have d: "blk_addr s k x \<noteq> blk_addr s l y" if "y \<in> set (F l)" for l y
  proof
    assume "blk_addr s k x = blk_addr s l y"
    then have "x * 2 ^ k = y * 2 ^ l" by (simp add: blk_addr_def del: of_nat_mult)
    then have "x * 2 ^ k \<in> leaves k x" "x * 2 ^ k \<in> leaves l y" by (simp_all add: leaves_def)
    then have "k = l \<and> x = y"
      using leaf_blocks_disjoint [OF inv] X [OF x] X [of y l] sub that by blast
    then show False using new that by simp
  qed
  have "bd_lists (lst_push (free_head t (int k)) (blk_addr t k x) t) (F(k := x # F k))"
    using f k h d by (intro bd_lists_push) (auto simp: filling_def same)
  then show ?thesis using f by (simp add: filling_def same)
qed

text \<open>One size below the two largest: the block at \<open>left\<close> if odd, the one before \<open>right\<close> if odd.\<close>

definition partial_free :: "nat \<Rightarrow> nat \<Rightarrow> nat \<Rightarrow> nat \<Rightarrow> nat \<Rightarrow> nat list" where
  "partial_free M L E c k = (if k < c then init_free M L E k else [])"

lemma partial_free_sub: "set (partial_free M L E c k) \<subseteq> set (init_free M L E k)"
  by (auto simp: partial_free_def)

lemma partial_free_Suc:
  "(partial_free M L E c)(c := init_free M L E c) = partial_free M L E (Suc c)"
  by (auto simp: partial_free_def fun_eq_iff)

lemma left_pair:
  assumes st: "init_st L E s" and k: "k + 1 < maxk s" and f: "filling s t (partial_free (maxk s) L E k)"
  shows "wpM (bd_initfree_pair (int k) (int (cdiv L k)))
    (\<lambda>g u. g = 16 * 2 ^ k * int (cdiv L k mod 2) \<and>
       filling s u ((partial_free (maxk s) L E k)(k := (if odd (cdiv L k) then [cdiv L k] else [])))) t"
proof -
  let ?l = "cdiv L k" and ?r = "E div 2 ^ k"
  note same = filling_same [OF f]
  have g: "0 < L" "L \<le> 2 ^ (maxk s - 2)" "2 ^ (maxk s - 1) \<le> E" "E < 2 ^ maxk s" and wf: "bd_wf s"
    using st by (simp_all add: init_st_def)
  note lv = levels [OF g k]
  have n: "node (maxk s) k ?l" using lv k by (simp add: node_def)
  have nb: "node (maxk s) k (buddy_of ?l)" using node_buddy [OF n] k by simp
  have a: "\<not> Abit s k ?l" using init_st_bits(1) [OF st n] lv by simp
  have b: "Abit s k (buddy_of ?l) \<longleftrightarrow> odd ?l"
    using init_st_bits(1) [OF st nb] lv by (auto simp: buddy_of_def)
  have new: "partial_free (maxk s) L E k k = []" by (simp add: partial_free_def)
  have "odd ?l \<Longrightarrow> ?l \<in> set (init_free (maxk s) L E k)" using k by (simp add: init_free_def)
  then have "odd ?l \<Longrightarrow> filling s (lst_push (free_head s (int k)) (blk_addr s k ?l) t)
      ((partial_free (maxk s) L E k)(k := [?l]))"
    using filling_push [OF st f _ partial_free_sub, of ?l k] by (simp add: new)
  moreover have "(partial_free (maxk s) L E k)(k := []) = partial_free (maxk s) L E k"
    by (simp add: fun_eq_iff partial_free_def)
  moreover have "bd_initfree_pair (int k) (int ?l) t = (if odd ?l
      then Inr (16 * 2 ^ k, lst_push (free_head s (int k)) (blk_addr s k ?l) t) else Inr (0, t))"
    using pair_ok [of t k ?l] same wf n k a b by simp
  ultimately show ?thesis using f by (cases "odd ?l") (simp_all add: wpM_iff odd_iff_mod_2_eq_one)
qed

lemma right_pair:
  assumes st: "init_st L E s" and k: "k + 1 < maxk s"
    and f: "filling s t ((partial_free (maxk s) L E k)(k := (if odd (cdiv L k) then [cdiv L k] else [])))"
  shows "wpM (bd_initfree_pair (int k) (int (E div 2 ^ k)))
    (\<lambda>g u. g = 16 * 2 ^ k * int (E div 2 ^ k mod 2) \<and> filling s u (partial_free (maxk s) L E (Suc k))) t"
proof -
  let ?l = "cdiv L k" and ?r = "E div 2 ^ k"
  let ?F = "(partial_free (maxk s) L E k)(k := (if odd ?l then [?l] else []))"
  note same = filling_same [OF f]
  have g: "0 < L" "L \<le> 2 ^ (maxk s - 2)" "2 ^ (maxk s - 1) \<le> E" "E < 2 ^ maxk s" and wf: "bd_wf s"
    using st by (simp_all add: init_st_def)
  note lv = levels [OF g k]
  have n: "node (maxk s) k ?r" using lv k by (simp add: node_def)
  have nb: "node (maxk s) k (buddy_of ?r)" using node_buddy [OF n] k by simp
  have a: "Abit s k ?r" using init_st_bits(1) [OF st n] by simp
  have b: "Abit s k (buddy_of ?r) \<longleftrightarrow> even ?r"
    using init_st_bits(1) [OF st nb] lv(2) by (auto simp: buddy_of_def elim!: oddE)
  have pf: "partial_free (maxk s) L E (Suc k) = ?F(k := (if odd ?r then (?r - 1) # ?F k else ?F k))"
    using k by (auto simp: fun_eq_iff partial_free_def init_free_def)
  have sub: "set (?F l) \<subseteq> set (init_free (maxk s) L E l)" for l
    using k by (auto simp: partial_free_def init_free_def split: if_splits)
  have "\<not> (odd ?r \<and> odd ?l \<and> ?r - 1 = ?l)" using pair_distinct [OF lv(2)] .
  then have new: "odd ?r \<Longrightarrow> ?r - 1 \<notin> set (?F k)" by auto
  have "odd ?r \<Longrightarrow> ?r - 1 \<in> set (init_free (maxk s) L E k)" using k by (simp add: init_free_def)
  then have "odd ?r \<Longrightarrow> filling s (lst_push (free_head s (int k)) (blk_addr s k (?r - 1)) t)
      (?F(k := (?r - 1) # ?F k))"
    by (rule filling_push [OF st f]) (assumption, rule sub, rule new)
  then have "odd ?r \<Longrightarrow> filling s (lst_push (free_head s (int k)) (blk_addr s k (?r - 1)) t)
      (partial_free (maxk s) L E (Suc k))"
    unfolding pf by simp
  moreover have "even ?r \<Longrightarrow> partial_free (maxk s) L E (Suc k) = ?F" unfolding pf by simp
  moreover have "bd_initfree_pair (int k) (int ?r) t = (if odd ?r
      then Inr (16 * 2 ^ k, lst_push (free_head s (int k)) (blk_addr s k (?r - 1)) t) else Inr (0, t))"
    using pair_ok [of t k ?r] same wf n k a b by (simp add: buddy_of_def)
  ultimately show ?thesis using f by (cases "odd ?r") (simp_all add: wpM_iff mod2_eq_if)
qed

text \<open>
  What is free at size \<open>c\<close> and above.  The bytes put on the lists below size \<open>c\<close> are the
  difference to size 0: the sum telescopes.
\<close>

definition rest :: "nat \<Rightarrow> nat \<Rightarrow> nat \<Rightarrow> int" where
  "rest L E c = 16 * 2 ^ c * (int (E div 2 ^ c) - int (cdiv L c))"

lemma rest_Suc:
  "rest L E c = rest L E (Suc c) + 16 * 2 ^ c * int (cdiv L c mod 2) + 16 * 2 ^ c * int (E div 2 ^ c mod 2)"
proof -
  have e: "E div 2 ^ Suc c = E div 2 ^ c div 2" by (simp add: div_mult2_eq [symmetric] mult.commute)
  have l: "int (cdiv L c) = 2 * int (cdiv L (Suc c)) - int (cdiv L c mod 2)"
    unfolding cdiv_Suc by (rule int_halves)
  have r: "int (E div 2 ^ c) = 2 * int (E div 2 ^ Suc c) + int (E div 2 ^ c mod 2)"
    unfolding e by (rule int_halves)
  show ?thesis unfolding rest_def by (subst l, subst r) (simp add: algebra_simps)
qed

lemma c_int_sum:
  "0 \<le> a \<Longrightarrow> 0 \<le> f \<Longrightarrow> 0 \<le> g \<Longrightarrow> a + f + g < 2147483648 \<Longrightarrow> c_int (c_int (a + f) + g) = a + f + g"
  by simp

lemma rest_pos:
  assumes "0 < L" and "L \<le> 2 ^ (M - 2)" and "2 ^ (M - 1) \<le> E" and "E < 2 ^ M" and "2 \<le> M" and "c < M"
  shows "0 \<le> rest L E c"
proof (cases "c + 1 < M")
  case True
  then show ?thesis using levels(2) [OF assms(1-4) True] by (simp add: rest_def)
next
  case False
  then have "c = M - 1" using assms(6) by simp
  then show ?thesis using top_level [OF assms(1-5)] by (simp add: rest_def)
qed

lemma initfree_last:
  assumes st: "init_st L E s" and f: "filling s t (partial_free (maxk s) L E c)" and c: "c = maxk s - 1"
    and r: "0 \<le> free" "free < 2147483648"
  shows "wpM (initfree_loop (bd_base s + 16 * int L) (bd_base s + 16 * int E) free [int c..int (maxk s) - 1])
    (\<lambda>g u. g = free \<and> filling s u (init_free (maxk s) L E)) t"
proof -
  let ?M = "maxk s"
  have wf: "bd_wf s" and g: "0 < L" "L \<le> 2 ^ (?M - 2)" "2 ^ (?M - 1) \<le> E" "E < 2 ^ ?M" "2 \<le> ?M"
    using st by (simp_all add: init_st_def)
  note tp = top_level [OF g] and same = filling_same [OF f]
  have up: "[int c..int ?M - 1] = [int c]" using c g(5) by simp
  have Lle: "L \<le> 2 ^ ?M" using order_trans [OF g(2) power_increasing [of "?M - 2" ?M "2::nat"]] by simp
  have ix: "blk_index_next t (int c) (bd_base s + 16 * int L) = 1"
    "blk_index t (int c) (bd_base s + 16 * int E) = 1"
    using blk_index_next_leaf [of t L c] blk_index_leaf [of t E c] same wf Lle g tp c by simp_all
  have n: "node ?M c 1" "node ?M c 0" using c g by (simp_all add: node_def)
  have "Abit t c 1" "Abit t c 0"
    using init_st_bits(1) [OF st n(1)] init_st_bits(1) [OF st n(2)] tp c same by simp_all
  then have "bd_initfree_pair (int c) 1 t = Inr (0, t)"
    using pair_ok [of t c 1] same wf n c g by (simp add: buddy_of_def)
  moreover have "partial_free ?M L E c = init_free ?M L E"
    by (auto simp: fun_eq_iff partial_free_def init_free_def c)
  ultimately show ?thesis using f ix r unfolding up by (simp add: wp wpM_I)
qed

lemma initfree_loop_ok:
  assumes st: "init_st L E s" and "c + d = maxk s - 1"
    and "filling s t (partial_free (maxk s) L E c)" and "free = rest L E 0 - rest L E c"
    and "0 \<le> free" and tot: "rest L E 0 < 2147483648"
  shows "wpM (initfree_loop (bd_base s + 16 * int L) (bd_base s + 16 * int E) free [int c..int (maxk s) - 1])
    (\<lambda>g u. g = rest L E 0 \<and> filling s u (init_free (maxk s) L E)) t"
  using assms(2-5)
proof (induction d arbitrary: c t free)
  case 0
  have "rest L E c = 0"
    using st 0 top_level [of L "maxk s" E] by (simp add: init_st_def rest_def)
  then show ?case using initfree_last [OF st 0(2)] 0 tot by simp
next
  case (Suc d)
  let ?M = "maxk s" and ?run = "initfree_loop (bd_base s + 16 * int L) (bd_base s + 16 * int E)"
  let ?f = "16 * 2 ^ c * int (cdiv L c mod 2)" and ?g = "16 * 2 ^ c * int (E div 2 ^ c mod 2)"
  let ?Q = "\<lambda>g u. g = rest L E 0 \<and> filling s u (init_free ?M L E)"
  have wf: "bd_wf s" and g: "0 < L" "L \<le> 2 ^ (?M - 2)" "2 ^ (?M - 1) \<le> E" "E < 2 ^ ?M" "2 \<le> ?M"
    using st by (simp_all add: init_st_def)
  note same = filling_same [OF Suc.prems(2)]
  have c: "c + 1 < ?M" using Suc.prems(1) by simp
  have Lle: "L \<le> 2 ^ ?M" using order_trans [OF g(2) power_increasing [of "?M - 2" ?M "2::nat"]] by simp
  have ix: "blk_index_next t (int c) (bd_base s + 16 * int L) = int (cdiv L c)"
    "blk_index t (int c) (bd_base s + 16 * int E) = int (E div 2 ^ c)"
    using blk_index_next_leaf [of t L c] blk_index_leaf [of t E c] same wf Lle g by simp_all
  have lt: "\<not> int (E div 2 ^ c) \<le> int (cdiv L c)" using levels(2) [OF g(1-4) c] by linarith
  have pos: "0 \<le> ?f" "0 \<le> ?g" "0 \<le> rest L E (Suc c)"
    using rest_pos [OF g] c by simp_all
  have sum: "free + ?f + ?g = rest L E 0 - rest L E (Suc c)"
    using rest_Suc [of L E c] Suc.prems(3) by simp
  have ci: "c_int (c_int (free + ?f) + ?g) = free + ?f + ?g"
    by (rule c_int_sum) (use sum pos Suc.prems(4) tot in linarith)+
  have up: "[int c..int ?M - 1] = int c # [int (Suc c)..int ?M - 1]"
    using c by (simp add: upto_rec1 add.commute)
  have ih: "wpM (?run (c_int (c_int (free + ?f) + ?g)) [int (Suc c)..int ?M - 1]) ?Q u"
    if "filling s u (partial_free ?M L E (Suc c))" for u
    unfolding ci by (rule Suc.IH) (use Suc.prems sum pos that in simp_all)
  have "wpM (bindM (bd_initfree_pair (int c) (int (E div 2 ^ c))) (\<lambda>g'.
      ?run (c_int (c_int (free + ?f) + g')) [int (Suc c)..int ?M - 1])) ?Q u"
    if "filling s u ((partial_free ?M L E c)(c := if odd (cdiv L c) then [cdiv L c] else []))" for u
    unfolding wp_bind by (rule wpM_mono [OF right_pair [OF st c that]]) (use ih in blast)
  then show ?case
    unfolding up initfree_loop.simps wp_bind wp_gets ix if_not_P [OF lt]
    by (intro wpM_mono [OF left_pair [OF st c Suc.prems(2)]]) (auto simp: wp_bind)
qed

section \<open>The bit arrays\<close>

lemma NBLK_le: "array_size s k = (2 ^ nat (nsizes s - 1 - k) + 7) div 8"
  by (simp add: array_size_def ROUNDUP_def NBLK_def MAXSIZE_def)

text \<open>The state after the two loops: zeroed arrays and empty lists.\<close>

definition zeroed :: "int \<Rightarrow> nat \<Rightarrow> nat \<Rightarrow> sz_info list" where
  "zeroed n a b = map (\<lambda>k. \<lparr>sz_alloc = (if k < a then replicate (nat ((2 ^ nat (n - 1 - int k) + 7) div 8)) 0 else []),
     sz_split = (if 1 \<le> k \<and> k < b then replicate (nat ((2 ^ nat (n - 1 - int k) + 7) div 8)) 0 else [])\<rparr>)
     [0..<nat n]"

definition arrays_end :: "int \<Rightarrow> nat \<Rightarrow> nat \<Rightarrow> int" where
  "arrays_end n a b = (\<Sum>k<a. (2 ^ nat (n - 1 - int k) + 7) div 8) +
     (\<Sum>k\<in>{1..<b}. (2 ^ nat (n - 1 - int k) + 7) div 8)"

lemma zeroed_alloc:
  "a < nat n \<Longrightarrow> (zeroed n a 0)[a := (zeroed n a 0 ! a)
     \<lparr>sz_alloc := replicate (nat ((2 ^ nat (n - 1 - int a) + 7) div 8)) 0\<rparr>] = zeroed n (Suc a) 0"
  by (rule nth_equalityI) (auto simp: zeroed_def nth_list_update less_Suc_eq)

lemma zeroed_split:
  "1 \<le> b \<Longrightarrow> b < nat n \<Longrightarrow> (zeroed n a b)[b := (zeroed n a b ! b)
     \<lparr>sz_split := replicate (nat ((2 ^ nat (n - 1 - int b) + 7) div 8)) 0\<rparr>] = zeroed n a (Suc b)"
  by (rule nth_equalityI) (auto simp: zeroed_def nth_list_update less_Suc_eq)

lemma length_zeroed [simp]: "length (zeroed n a b) = nat n"
  by (simp add: zeroed_def)

text \<open>A step of the loops changes the arrays and the list heads, nothing else.\<close>

definition heads_done :: "'a bd_state_scheme \<Rightarrow> nat \<Rightarrow> bool" where
  "heads_done s a \<longleftrightarrow> (\<forall>k<a. nxt s (free_head s (int k)) = free_head s (int k) \<and>
     prv s (free_head s (int k)) = free_head s (int k))"

lemma init_alloc_ok:
  assumes "a + d = nat (nsizes s)" and "bd_sizes s = zeroed (nsizes s) a 0" and "heads_done s a"
    and "p = q + arrays_end (nsizes s) a 0"
  shows "wpM (init_alloc [int a..nsizes s - 1] p)
    (\<lambda>r t. r = q + arrays_end (nsizes s) (nat (nsizes s)) 0 \<and> bd_frame s t \<and>
       bd_sizes t = zeroed (nsizes s) (nat (nsizes s)) 0 \<and> heads_done t (nat (nsizes s))) s"
  using assms
proof (induction d arbitrary: a s p)
  case 0
  then have "[int a..nsizes s - 1] = []" by simp
  then show ?case using 0 by (simp add: wp)
next
  case (Suc d)
  let ?n = "nsizes s" and ?h = "free_head s (int a)"
  let ?sz = "(2 ^ nat (?n - 1 - int a) + 7) div 8 :: int"
  let ?t = "(lst_init ?h s)\<lparr>bd_sizes := zeroed ?n (Suc a) 0\<rparr>"
  have up: "[int a..?n - 1] = int a # [int (Suc a)..?n - 1]"
    using Suc.prems(1) by (simp add: upto_rec1 add.commute)
  have a: "a < nat ?n" using Suc.prems(1) by simp
  have fr: "bd_frame s ?t" "nsizes ?t = ?n" "free_head ?t = free_head s"
    by (simp_all add: bd_frame_def lst_init_def Let_def free_head_def fun_eq_iff)
  have hd: "heads_done ?t (Suc a)"
    using Suc.prems(3) by (auto simp: heads_done_def fr less_Suc_eq) (auto simp: lst_init_def Let_def)
  have "wpM (init_alloc [int (Suc a)..?n - 1] (p + ?sz))
    (\<lambda>r t. r = q + arrays_end ?n (nat ?n) 0 \<and> bd_frame ?t t \<and>
       bd_sizes t = zeroed ?n (nat ?n) 0 \<and> heads_done t (nat ?n)) ?t"
    using Suc.IH [of "Suc a" ?t "p + ?sz"] Suc.prems hd fr by (simp add: arrays_end_def)
  then have "wpM (init_alloc [int (Suc a)..?n - 1] (p + ?sz))
    (\<lambda>r t. r = q + arrays_end ?n (nat ?n) 0 \<and> bd_frame s t \<and>
       bd_sizes t = zeroed ?n (nat ?n) 0 \<and> heads_done t (nat ?n)) ?t"
    by (rule wpM_mono) (use bd_frame_trans [OF fr(1)] in blast)
  moreover have "get_size (int a) (lst_init ?h s) = Inr (zeroed ?n a 0 ! a, lst_init ?h s)"
    using a Suc.prems(2) by (simp add: get_size_def lst_init_def Let_def)
  moreover have "array_size (lst_init ?h s) (int a) = ?sz" by (simp add: NBLK_le lst_init_def Let_def)
  moreover have "bd_sizes (lst_init ?h s) = zeroed ?n a 0"
    using Suc.prems(2) by (simp add: lst_init_def Let_def)
  ultimately show ?case
    unfolding up init_alloc.simps wp
    by (simp add: wpM_def [of "get_size (int a)"] put_size_def wp zeroed_alloc [OF a])
qed

lemma init_split_ok:
  assumes "b + d = nat (nsizes s)" and "1 \<le> b" and "bd_sizes s = zeroed (nsizes s) a b"
    and "p = q + arrays_end (nsizes s) a b"
  shows "wpM (init_split [int b..nsizes s - 1] p)
    (\<lambda>r t. r = q + arrays_end (nsizes s) a (nat (nsizes s)) \<and>
       t = s\<lparr>bd_sizes := zeroed (nsizes s) a (nat (nsizes s))\<rparr>) s"
  using assms
proof (induction d arbitrary: b s p)
  case 0
  then have "[int b..nsizes s - 1] = []" by simp
  moreover have "s = s\<lparr>bd_sizes := zeroed (nsizes s) a b\<rparr>" using 0(3) by simp
  ultimately show ?case using 0 by (simp add: wp)
next
  case (Suc d)
  let ?n = "nsizes s"
  let ?sz = "(2 ^ nat (?n - 1 - int b) + 7) div 8 :: int"
  let ?t = "s\<lparr>bd_sizes := zeroed ?n a (Suc b)\<rparr>"
  have up: "[int b..?n - 1] = int b # [int (Suc b)..?n - 1]"
    using Suc.prems(1) by (simp add: upto_rec1 add.commute)
  have b: "b < nat ?n" using Suc.prems(1) by simp
  have "wpM (init_split [int (Suc b)..?n - 1] (p + ?sz))
    (\<lambda>r t. r = q + arrays_end ?n a (nat ?n) \<and> t = s\<lparr>bd_sizes := zeroed ?n a (nat ?n)\<rparr>) ?t"
    using Suc.IH [of "Suc b" ?t "p + ?sz"] Suc.prems by (simp add: arrays_end_def)
  moreover have "get_size (int b) s = Inr (zeroed ?n a b ! b, s)"
    using b Suc.prems(3) by (simp add: get_size_def)
  ultimately show ?case
    using Suc.prems(2,3) unfolding up init_split.simps wp
    by (simp add: wpM_def [of "get_size (int b)"] put_size_def wp zeroed_split [OF _ b] NBLK_le)
qed

text \<open>The size of the arrays, by the number of blocks of each size.\<close>

definition asum :: "nat \<Rightarrow> int" where
  "asum m = (\<Sum>j<m. (2 ^ j + 7) div 8)"

definition meta_leaves :: "nat \<Rightarrow> nat" where
  "meta_leaves M = nat ((32 * int (M + 1) + asum (M + 1) + asum M - 1) div 16 + 1)"

lemma arrays_end_asum: "arrays_end (int M + 1) (M + 1) (M + 1) = asum (M + 1) + asum M"
proof -
  have "(\<Sum>k<M + 1. (2 ^ nat (int M + 1 - 1 - int k) + 7) div 8) =
      (\<Sum>k<M + 1. (2 ^ (M + 1 - Suc k) + 7) div 8 :: int)"
    by (intro sum.cong) (auto simp: nat_diff_distrib')
  also have "\<dots> = asum (M + 1)" unfolding asum_def by (rule sum.nat_diff_reindex)
  finally have a: "(\<Sum>k<M + 1. (2 ^ nat (int M + 1 - 1 - int k) + 7) div 8) = asum (M + 1)" .
  have "(\<Sum>k\<in>{1..<M + 1}. (2 ^ nat (int M + 1 - 1 - int k) + 7) div 8) =
      (\<Sum>k<M. (2 ^ (M - Suc k) + 7) div 8 :: int)"
    by (rule sum.reindex_bij_witness [of _ Suc "\<lambda>k. k - 1"]) (auto simp: nat_diff_distrib')
  also have "\<dots> = asum M" unfolding asum_def by (rule sum.nat_diff_reindex)
  finally show ?thesis using a by (simp add: arrays_end_def)
qed

lemma asum_pos: "0 \<le> asum m"
  unfolding asum_def by (rule sum_nonneg) (simp add: pos_imp_zdiv_nonneg_iff add_nonneg_nonneg)

lemma meta_bound: "6 \<le> M \<Longrightarrow> 32 * int (M + 1) + asum (M + 1) + asum M \<le> 4 * 2 ^ M"
proof (induction M rule: nat_induct_at_least)
  case base
  show ?case by (simp add: asum_def lessThan_nat_numeral lessThan_Suc numeral_eq_Suc)
next
  case (Suc m)
  have "(64::int) = 2 ^ 6" by simp
  also have "\<dots> \<le> 2 ^ m" using Suc.hyps by (intro power_increasing) auto
  finally have p: "64 \<le> (2::int) ^ m" .
  have "asum (Suc m + 1) + asum (Suc m) =
      asum (m + 1) + asum m + (2 ^ Suc m + 7) div 8 + (2 ^ m + 7) div 8"
    by (simp add: asum_def)
  moreover have "(2 ^ Suc m + 7) div 8 \<le> (2::int) ^ m" "(2 ^ m + 7) div 8 \<le> (2::int) ^ m"
    using p by simp_all
  ultimately show ?case using Suc.IH p by simp
qed

lemma meta_leaves_bounds:
  assumes "6 \<le> M"
  shows "2 * M < meta_leaves M" and "meta_leaves M \<le> 2 ^ (M - 2)"
proof -
  let ?b = "32 * int (M + 1) + asum (M + 1) + asum M"
  have "2 * int M + 1 \<le> (?b - 1) div 16" using asum_pos [of "M + 1"] asum_pos [of M] by simp
  then show "2 * M < meta_leaves M" by (simp add: meta_leaves_def)
  obtain m where m: "M = m + 2" using assms by (intro that [of "M - 2"]) simp
  have "?b \<le> 16 * 2 ^ m" using meta_bound [OF assms] by (simp add: m)
  then have "(?b - 1) div 16 + 1 \<le> 2 ^ m" by simp
  then show "meta_leaves M \<le> 2 ^ (M - 2)" by (simp add: meta_leaves_def m nat_le_iff)
qed

end
