(* ===== verification/Buddy_Boot.thy ===== *)
theory Buddy_Boot
  imports Buddy_Init
begin

text \<open>
  \<open>bd_init\<close> as a whole: the number of sizes, the layout, the marks and the free lists.
\<close>

lemma log2_loop_eq: "2 ^ m \<le> unat n \<Longrightarrow> unat n < 2 ^ Suc m \<Longrightarrow> log2_loop k n = k + int m"
proof (induction m arbitrary: n k)
  case 0
  then have "\<not> 1 < n" by (simp add: word_less_nat_alt)
  then show ?case by (simp add: log2_loop.simps [of k n])
next
  case (Suc m)
  have "(1::nat) < 2 ^ Suc m" using one_less_power [of "2::nat" "Suc m"] by simp
  then have "1 < unat n" using Suc.prems(1) by (rule less_le_trans)
  then have "1 < n" by (simp add: word_less_nat_alt)
  moreover have "unat (drop_bit 1 n) = unat n div 2" by (simp add: drop_bit_eq_div unat_div)
  ultimately show ?case using Suc.IH [of "drop_bit 1 n" "k + 1"] Suc.prems
    by (subst log2_loop.simps) simp
qed

lemma roundup16: "0 < n \<Longrightarrow> b mod 16 = 0 \<Longrightarrow> ROUNDUP (b + n) 16 = b + 16 * ((n - 1) div 16 + 1)"
proof -
  assume "b mod 16 = 0"
  then obtain c where "b = 16 * c" by (auto simp: dvd_eq_mod_eq_0 [symmetric])
  moreover have "(16 * c + n - 1) div 16 = c + (n - 1) div 16"
    using div_mult_self1 [of 16 "n - 1" c] by (simp add: algebra_simps)
  ultimately show ?thesis by (simp add: ROUNDUP_def algebra_simps)
qed

text \<open>The state before the marks.\<close>

definition laid_out :: "nat \<Rightarrow> int \<Rightarrow> 'a bd_state_scheme \<Rightarrow> bool" where
  "laid_out M p t \<longleftrightarrow> nsizes t = int M + 1 \<and> bd_base t = p \<and> bd_sizes_ptr t = p \<and>
     bd_sizes t = zeroed (int M + 1) (M + 1) (M + 1) \<and> heads_done t (M + 1)"

lemma laid_out_wf:
  assumes "laid_out M p t" and "M \<le> 26" and "0 < p"
  shows "bd_wf t" and "maxk t = M" and "node M k i \<Longrightarrow> \<not> Abit t k i"
    and "node M k i \<Longrightarrow> \<not> Sbit t k i" and "bd_lists t (\<lambda>k. [])"
proof -
  have t: "nsizes t = int M + 1" "bd_base t = p" "bd_sizes_ptr t = p"
    "bd_sizes t = zeroed (int M + 1) (M + 1) (M + 1)" "heads_done t (M + 1)"
    using assms(1) by (simp_all add: laid_out_def)
  show m: "maxk t = M" using t by (simp add: maxk_def)
  have len: "(2::nat) ^ (M - k) \<le> 8 * nat ((2 ^ nat (int M - int k) + 7) div 8)" for k
  proof -
    have "nat (int M - int k) = M - k" by simp
    moreover have "(x::nat) \<le> 8 * nat ((int x + 7) div 8)" for x by linarith
    from this [of "2 ^ (M - k)"] have "(2::nat) ^ (M - k) \<le> 8 * nat ((2 ^ (M - k) + 7) div 8)" by simp
    ultimately show ?thesis by simp
  qed
  have nth: "bd_sizes t ! k = \<lparr>sz_alloc = replicate (nat ((2 ^ nat (int M - int k) + 7) div 8)) 0,
      sz_split = (if 1 \<le> k then replicate (nat ((2 ^ nat (int M - int k) + 7) div 8)) 0 else [])\<rparr>"
    if "k \<le> M" for k using that by (simp add: t zeroed_def)
  show wf: "bd_wf t"
    unfolding bd_wf_def m using t(1,2) assms(2,3) len by (simp add: nth) (simp add: t)
  show "\<not> Abit t k i" if "node M k i"
    using node_in_alloc [of t k i] wf m that by (simp add: node_def Abit_def nth bitf_def)
  show "\<not> Sbit t k i" if "node M k i"
    using node_in_split [of t k i] wf m that by (cases "k = 0") (simp_all add: node_def Sbit_def nth bitf_def)
  show "bd_lists t (\<lambda>k. [])"
    using t by (auto simp: bd_lists_def heads_done_def dlist_def apart_def free_head_def sizeof_Sz_info_def)
qed

text \<open>The part of \<open>bd_init\<close> after the layout.\<close>

lemma finish_ok:
  assumes lo: "laid_out M p s" and M: "6 \<le> M" "M \<le> 26" and p: "0 < p" "p mod 16 = 0"
    and E: "2 ^ (M - 1) \<le> E" "E < 2 ^ M"
  shows "\<exists>a b c. bd_mark p (p + 16 * int (meta_leaves M)) s = Inr ((), a) \<and>
    bd_mark (p + 16 * int E) (p + 16 * 2 ^ M) a = Inr ((), b) \<and>
    bd_initfree (p + 16 * int (meta_leaves M)) (p + 16 * int E) b =
      Inr (16 * (int E - int (meta_leaves M)), c) \<and>
    bd_frame s a \<and> bd_frame s b \<and> bd_frame s c \<and> bd_rep c (init_free M (meta_leaves M) E) \<and>
    (\<forall>k i. node M k i \<longrightarrow> (Abit c k i \<longleftrightarrow> i < cdiv (meta_leaves M) k \<or> E div 2 ^ k \<le> i) \<and>
        (Sbit c k i \<longleftrightarrow> 0 < k \<and> (i < cdiv (meta_leaves M) k \<or> E div 2 ^ k \<le> i)))"
proof -
  let ?L = "meta_leaves M"
  note L = meta_leaves_bounds [OF M(1)] and z = laid_out_wf [OF lo M(2) p(1)]
  have base: "bd_base s = p" using lo by (simp add: laid_out_def)
  have Lle: "?L \<le> 2 ^ M" using order_trans [OF L(2) power_increasing [of "M - 2" M "2::nat"]] by simp
  have "wpM (bd_mark (bd_base s + 16 * int 0) (bd_base s + 16 * int ?L))
      (\<lambda>_ t. marked s t (over M 0 ?L)) s"
    using bd_mark_ok [of s 0 ?L] z(1,2) base p Lle by simp
  then obtain a where a: "bd_mark p (p + 16 * int ?L) s = Inr ((), a)" "marked s a (over M 0 ?L)"
    by (auto simp: wpM_iff base)
  note fa = marked_frame [OF a(2)]
  have "wpM (bd_mark (bd_base a + 16 * int E) (bd_base a + 16 * int (2 ^ M)))
      (\<lambda>_ t. marked a t (over M E (2 ^ M))) a"
    using bd_mark_ok [of a E "2 ^ M"] fa z(2) base p E by simp
  then obtain b where b: "bd_mark (p + 16 * int E) (p + 16 * 2 ^ M) a = Inr ((), b)"
    "marked a b (over M E (2 ^ M))"
    by (auto simp: wpM_iff fa base)
  have m: "marked s b (\<lambda>k i. over M 0 ?L k i \<or> over M E (2 ^ M) k i)"
    using a(2) b(2) by (rule marked_trans) simp
  note fb = marked_frame [OF m]
  have full: "i < cdiv (2 ^ M) k" if "node M k i" for k i
    using node_leaf_bound [OF that] by (simp add: less_cdiv)
  have bits: "Abit b k i \<longleftrightarrow> i < cdiv ?L k \<or> E div 2 ^ k \<le> i"
    "Sbit b k i \<longleftrightarrow> 0 < k \<and> (i < cdiv ?L k \<or> E div 2 ^ k \<le> i)" if "node M k i" for k i
    using m z(3,4) [OF that] full [OF that] that by (auto simp: marked_def over_def node_def)
  have ptr: "bd_sizes_ptr b = p" "bd_base b = p" and ls: "bd_lists b (\<lambda>k. [])"
    using m lo z(5) by (auto simp: marked_def bd_frame_def laid_out_def bd_lists_def dlist_def
        free_head_def blk_addr_def)
  have st: "init_st ?L E b"
    using fb z(2) M L E ptr bits by (auto simp: init_st_def)
  have "partial_free M ?L E 0 = (\<lambda>k. [])" by (simp add: fun_eq_iff partial_free_def)
  then have "filling b b (partial_free M ?L E 0)" using ls by (simp add: filling_def)
  moreover have r0: "rest ?L E 0 = 16 * (int E - int ?L)" by (simp add: rest_def cdiv_def)
  moreover have "(2::nat) ^ M \<le> 2 ^ 26" using M(2) by (intro power_increasing) auto
  ultimately have "wpM (initfree_loop (p + 16 * int ?L) (p + 16 * int E) 0 [int 0..int M - 1])
      (\<lambda>g u. g = rest ?L E 0 \<and> filling b u (init_free M ?L E)) b"
    using initfree_loop_ok [OF st, of 0 "M - 1" b 0] fb z(2) ptr E by simp
  then obtain c where c: "initfree_loop (p + 16 * int ?L) (p + 16 * int E) 0 [0..int M - 1] b =
      Inr (16 * (int E - int ?L), c)" "filling b c (init_free M ?L E)"
    by (auto simp: wpM_iff r0)
  have "MAXSIZE b = int M" using fb lo by (simp add: MAXSIZE_def laid_out_def)
  then have "bd_initfree (p + 16 * int ?L) (p + 16 * int E) b = Inr (16 * (int E - int ?L), c)"
    using c(1) by (simp add: bd_initfree_def monad_simps)
  moreover have "bd_frame s c" using m c(2) by (auto simp: marked_def filling_def intro: bd_frame_trans)
  moreover have "bd_rep c (init_free M ?L E)"
    using c(2) init_binv [OF st] filling_same [OF c(2)] fb z(2)
    by (simp add: bd_rep_def filling_def)
  moreover have "\<forall>k i. node M k i \<longrightarrow> (Abit c k i \<longleftrightarrow> i < cdiv ?L k \<or> E div 2 ^ k \<le> i) \<and>
      (Sbit c k i \<longleftrightarrow> 0 < k \<and> (i < cdiv ?L k \<or> E div 2 ^ k \<le> i))"
    using bits filling_same [OF c(2)] by simp
  moreover have "bd_frame s a" "bd_frame s b" using a(2) m by (simp_all add: marked_def)
  ultimately show ?thesis using a(1) b(1) by blast
qed

lemma meta_end:
  assumes "p mod 16 = 0"
  shows "ROUNDUP (p + sizeof_Sz_info * (int M + 1) + arrays_end (int M + 1) (M + 1) (M + 1)) 16 =
    p + 16 * int (meta_leaves M)"
proof -
  let ?b = "32 * int (M + 1) + asum (M + 1) + asum M"
  have pos: "0 < ?b" using asum_pos [of "M + 1"] asum_pos [of M] by simp
  have e: "p + sizeof_Sz_info * (int M + 1) + arrays_end (int M + 1) (M + 1) (M + 1) = p + ?b"
    unfolding arrays_end_asum by (simp add: sizeof_Sz_info_def)
  show ?thesis unfolding e roundup16 [OF pos assms] using pos by (simp add: meta_leaves_def)
qed

lemma mark_data_ok:
  assumes "bd_mark p (p + 16 * int L) s = Inr ((), a)" and "bd_base s = p" and "L \<le> 2 ^ 26"
  shows "bd_mark_data_structures (p + 16 * int L) s = Inr (16 * int L, a)"
proof -
  have "int L \<le> int (2 ^ 26)" using assms(3) by (rule iffD2 [OF of_nat_le_iff])
  then have "c_int (16 * int L) = 16 * int L" by (intro c_int_id) simp_all
  then show ?thesis using assms by (simp add: bd_mark_data_structures_def monad_simps)
qed

lemma mark_unavailable_ok:
  assumes m: "bd_mark (p + 16 * (d div 16)) (p + 16 * 2 ^ M) s = Inr ((), b)" and "bd_base s = p"
    and "nsizes s = int M + 1" and "M \<le> 26" and "d < 16 * 2 ^ M" and "0 \<le> d"
  shows "bd_mark_unavailable (p + d) left s = Inr (16 * 2 ^ M - 16 * (d div 16), b)"
proof -
  let ?X = "(2::int) ^ M"
  have X: "?X \<le> 2 ^ 26" using assms(4) by (intro power_increasing) auto
  then have c: "c_int (16 * ?X - d) = 16 * ?X - d" using assms(5,6) by (intro c_int_id) simp_all
  have D: "BLK_SIZE (MAXSIZE s) = 16 * ?X" by (simp add: BLK_SIZE_def LEAF_SIZE_def MAXSIZE_def assms(3))
  have "((16 * x - d - 1) div 16 + 1) * 16 = 16 * x - 16 * (d div 16)" for x :: int
  proof -
    have "16 * x - d - 1 = (15 - d mod 16) + (x - d div 16 - 1) * 16"
      using mult_div_mod_eq [of 16 d] by (simp add: algebra_simps)
    moreover have "(15 - d mod 16) div 16 = 0" by simp
    ultimately have "(16 * x - d - 1) div 16 = x - d div 16 - 1" by simp
    then show ?thesis by simp
  qed
  then have r: "ROUNDUP (16 * ?X - d) LEAF_SIZE = 16 * ?X - 16 * (d div 16)"
    by (simp add: ROUNDUP_def LEAF_SIZE_def)
  have e: "p + 16 * ?X - (16 * ?X - 16 * (d div 16)) = p + 16 * (d div 16)" by simp
  show ?thesis
    unfolding bd_mark_unavailable_def Let_def
    using assms(5) by (simp add: monad_simps assms(2) D c r e m)
qed

section \<open>The whole of \<open>bd_init\<close>\<close>

text \<open>The leaves in use after initialisation: the allocator's own, and those past the end.\<close>

definition boot_leaves :: "nat \<Rightarrow> nat \<Rightarrow> nat set" where
  "boot_leaves M E = {i. i < 2 ^ M \<and> (i < meta_leaves M \<or> E \<le> i)}"

lemma layout_ok:
  assumes n: "nsizes s = int M + 1" and "bd_base s = p" and "bd_sizes_ptr s = p"
  shows "\<exists>t. init_alloc [0..int M] q (s\<lparr>bd_sizes := replicate (nat (int M + 1)) \<lparr>sz_alloc = [], sz_split = []\<rparr>\<rparr>) =
      Inr (q + arrays_end (int M + 1) (M + 1) 0, t) \<and>
    init_split [1..int M] (q + arrays_end (int M + 1) (M + 1) 0) t =
      Inr (q + arrays_end (int M + 1) (M + 1) (M + 1), t\<lparr>bd_sizes := zeroed (int M + 1) (M + 1) (M + 1)\<rparr>) \<and>
    laid_out M p (t\<lparr>bd_sizes := zeroed (int M + 1) (M + 1) (M + 1)\<rparr>) \<and> bd_frame s t"
proof -
  let ?s = "s\<lparr>bd_sizes := replicate (nat (int M + 1)) \<lparr>sz_alloc = [], sz_split = []\<rparr>\<rparr>"
  have z: "replicate (nat (int M + 1)) \<lparr>sz_alloc = [], sz_split = []\<rparr> = zeroed (int M + 1) 0 0"
    by (rule nth_equalityI) (simp_all add: zeroed_def)
  have fr: "bd_frame s ?s" by (simp add: bd_frame_def)
  have "wpM (init_alloc [int 0..nsizes ?s - 1] q)
    (\<lambda>r t. r = q + arrays_end (nsizes ?s) (nat (nsizes ?s)) 0 \<and> bd_frame ?s t \<and>
       bd_sizes t = zeroed (nsizes ?s) (nat (nsizes ?s)) 0 \<and> heads_done t (nat (nsizes ?s))) ?s"
    by (rule init_alloc_ok [of 0 "M + 1"]) (simp_all add: n z heads_done_def arrays_end_def)
  then obtain t where t: "init_alloc [0..int M] q ?s = Inr (q + arrays_end (int M + 1) (M + 1) 0, t)"
    "bd_frame ?s t" "bd_sizes t = zeroed (int M + 1) (M + 1) 0" "heads_done t (M + 1)"
    by (auto simp: wpM_iff n nat_add_distrib)
  have nt: "nsizes t = int M + 1" "bd_base t = p" "bd_sizes_ptr t = p"
    using t(2) assms by (simp_all add: bd_frame_def)
  have z1: "zeroed (int M + 1) (M + 1) 0 = zeroed (int M + 1) (M + 1) 1"
    by (rule nth_equalityI) (auto simp: zeroed_def)
  have "wpM (init_split [int 1..nsizes t - 1] (q + arrays_end (int M + 1) (M + 1) 0))
    (\<lambda>r u. r = q + arrays_end (nsizes t) (M + 1) (nat (nsizes t)) \<and>
       u = t\<lparr>bd_sizes := zeroed (nsizes t) (M + 1) (nat (nsizes t))\<rparr>) t"
    by (rule init_split_ok [of 1 M]) (use t(3) z1 in \<open>simp_all add: nt arrays_end_def\<close>)
  then have "init_split [1..int M] (q + arrays_end (int M + 1) (M + 1) 0) t =
      Inr (q + arrays_end (int M + 1) (M + 1) (M + 1), t\<lparr>bd_sizes := zeroed (int M + 1) (M + 1) (M + 1)\<rparr>)"
    by (auto simp: wpM_iff nt nat_add_distrib)
  moreover have "laid_out M p (t\<lparr>bd_sizes := zeroed (int M + 1) (M + 1) (M + 1)\<rparr>)"
    using nt t(4) by (simp add: laid_out_def heads_done_def free_head_def)
  moreover have "bd_frame s t" using fr t(2) by (rule bd_frame_trans)
  ultimately show ?thesis using t(1) by blast
qed

lemma init_sizes:
  assumes M: "6 \<le> M" "M \<le> 26" and d: "16 * 2 ^ (M - 1) < d" "d < 16 * 2 ^ M"
  shows "log2 (word_of_int (c_div d LEAF_SIZE)) = int M - 1" and "BLK_SIZE (int M - 1) < d"
    and "2 ^ (M - 1) \<le> nat (d div 16)" and "nat (d div 16) < 2 ^ M"
proof -
  have d0: "0 \<le> d" by (rule less_imp_le, rule less_trans [OF _ d(1)]) simp
  have lo: "2 ^ (M - 1) \<le> d div 16" and hi: "d div 16 < 2 ^ M" using d by simp_all
  show lo': "2 ^ (M - 1) \<le> nat (d div 16)" and hi': "nat (d div 16) < 2 ^ M"
    using lo hi d0 by (simp_all add: le_nat_iff nat_less_iff)
  have "(2::int) ^ M \<le> 2 ^ 26" using M(2) by (intro power_increasing) auto
  then have u: "unat (word_of_int (d div 16) :: 64 word) = nat (d div 16)"
    using hi d0 by (simp add: unat_eq_nat_uint uint_word_of_int)
  have e: "2 ^ M = (2::nat) ^ Suc (M - 1)" using M by simp
  have "log2 (word_of_int (d div 16)) = int (M - 1)"
    unfolding log2_def by (subst log2_loop_eq [of "M - 1"]) (use lo' hi' u e in simp_all)
  then show "log2 (word_of_int (c_div d LEAF_SIZE)) = int M - 1"
    using d0 M by (simp add: LEAF_SIZE_def of_nat_diff)
  have "nat (int M - 1) = M - 1" by simp
  then show "BLK_SIZE (int M - 1) < d" using d(1) by (simp add: BLK_SIZE_def LEAF_SIZE_def mult.commute)
qed

lemma cdiv_0 [simp]: "cdiv b 0 = b"
  by (simp add: cdiv_def)

lemma boot_live:
  assumes rep: "bd_rep c F" and m: "maxk c = M"
    and bits: "\<forall>k i. node M k i \<longrightarrow> (Abit c k i \<longleftrightarrow> i < cdiv (meta_leaves M) k \<or> E div 2 ^ k \<le> i) \<and>
        (Sbit c k i \<longleftrightarrow> 0 < k \<and> (i < cdiv (meta_leaves M) k \<or> E div 2 ^ k \<le> i))"
  shows "live c = {0} \<times> boot_leaves M E"
proof -
  have "used M (Abit c) (Sbit c) k i \<longleftrightarrow> k = 0 \<and> i \<in> boot_leaves M E" for k i
  proof
    assume u: "used M (Abit c) (Sbit c) k i"
    then show "k = 0 \<and> i \<in> boot_leaves M E"
      using bits by (auto simp: used_def boot_leaves_def node_def)
  next
    assume i: "k = 0 \<and> i \<in> boot_leaves M E"
    then have n: "node M k i" by (simp add: boot_leaves_def node_def)
    then have "Abit c k i" "\<not> Sbit c k i" using bits i by (auto simp: boot_leaves_def)
    then show "used M (Abit c) (Sbit c) k i"
      using binv_alloc_exists [OF bd_rep_binv [OF rep]] n m by (simp add: used_def)
  qed
  then show ?thesis by (auto simp: live_def m)
qed

lemma boot_resv:
  assumes "live c = {0} \<times> boot_leaves M E" and "maxk c = M" and "nsizes c = int M + 1"
    and "bd_sizes_ptr c = bd_base c" and "6 \<le> M"
  shows "resv c (boot_leaves M E)"
proof -
  note L = meta_leaves_bounds [OF assms(5)]
  have Lle: "meta_leaves M \<le> 2 ^ M"
    using order_trans [OF L(2) power_increasing [of "M - 2" M "2::nat"]] by simp
  have in_R: "2 * k \<in> boot_leaves M E" if "k \<le> M" for k
    using that L(1) Lle by (simp add: boot_leaves_def)
  have "\<exists>r\<in>boot_leaves M E. blk_addr c 0 r \<le> free_head c (int k) \<and> free_head c (int k) < blk_addr c 0 r + 16"
    if "k < nat (nsizes c)" for k
    using that assms(3,4) in_R [of k]
    by (intro bexI [of _ "2 * k"]) (simp_all add: blk_addr_def free_head_def sizeof_Sz_info_def nat_add_distrib)
  moreover have "used (maxk c) (Abit c) (Sbit c) 0 r" if "r \<in> boot_leaves M E" for r
  proof -
    have "(0, r) \<in> live c" using that by (simp add: assms(1))
    then show ?thesis by (simp add: live_def)
  qed
  moreover have "boot_leaves M E \<noteq> {}" using in_R [of 0] by blast
  ultimately show ?thesis by (simp add: resv_def)
qed

lemma bd_init_ok:
  assumes "length (lktab s) < NLOCK" and "hart_ok s" and p: "p = ROUNDUP base 16" "0 < p"
    and M: "6 \<le> M" "M \<le> 26" and d: "16 * 2 ^ (M - 1) < stop - p" "stop - p < 16 * 2 ^ M"
  defines "E \<equiv> nat ((stop - p) div 16)"
  shows "\<exists>t. bd_init base stop s = Inr ((), t) \<and> bd_inv (boot_leaves M E) t \<and>
    live t = {0} \<times> boot_leaves M E \<and> bd_base t = p \<and> nsizes t = int M + 1 \<and>
    bd_state.more t = bd_state.more s \<and>
    (\<forall>k i. free_blk t k i \<longleftrightarrow> i \<in> set (init_free M (meta_leaves M) E k))"
proof -
  let ?L = "meta_leaves M"
  let ?s = "s\<lparr>lks := (lks s)(BdLock := \<lparr>locked = False, lk_cpu = None\<rparr>), lktab := lktab s @ [BdLock],
    bd_base := p, nsizes := int M + 1, bd_sizes_ptr := p\<rparr>"
  let ?q = "p + sizeof_Sz_info * (int M + 1)"
  note sz = init_sizes [OF M d]
  have p16: "p mod 16 = 0" by (simp add: p ROUNDUP_def)
  have "nsizes ?s = int M + 1" "bd_base ?s = p" "bd_sizes_ptr ?s = p" by simp_all
  from layout_ok [OF this, of ?q] obtain t where
    t: "init_alloc [0..int M] ?q (?s\<lparr>bd_sizes := replicate (nat (int M + 1)) \<lparr>sz_alloc = [], sz_split = []\<rparr>\<rparr>) =
      Inr (?q + arrays_end (int M + 1) (M + 1) 0, t)"
    "init_split [1..int M] (?q + arrays_end (int M + 1) (M + 1) 0) t =
      Inr (?q + arrays_end (int M + 1) (M + 1) (M + 1), t\<lparr>bd_sizes := zeroed (int M + 1) (M + 1) (M + 1)\<rparr>)"
    "laid_out M p (t\<lparr>bd_sizes := zeroed (int M + 1) (M + 1) (M + 1)\<rparr>)" "bd_frame ?s t" by blast
  let ?t = "t\<lparr>bd_sizes := zeroed (int M + 1) (M + 1) (M + 1)\<rparr>"
  note q = meta_end [OF p16, of M]
  have E: "2 ^ (M - 1) \<le> E" "E < 2 ^ M" using sz(3,4) by (simp_all add: E_def)
  from finish_ok [OF t(3) M p(2) p16 E] obtain a b c where
    a: "bd_mark p (p + 16 * int ?L) ?t = Inr ((), a)"
    and b: "bd_mark (p + 16 * int E) (p + 16 * 2 ^ M) a = Inr ((), b)"
    and c: "bd_initfree (p + 16 * int ?L) (p + 16 * int E) b = Inr (16 * (int E - int ?L), c)"
    and fa: "bd_frame ?t a" and fb: "bd_frame ?t b" and fr: "bd_frame ?t c" and rep: "bd_rep c (init_free M ?L E)"
    and bits: "\<forall>k i. node M k i \<longrightarrow> (Abit c k i \<longleftrightarrow> i < cdiv ?L k \<or> E div 2 ^ k \<le> i) \<and>
      (Sbit c k i \<longleftrightarrow> 0 < k \<and> (i < cdiv ?L k \<or> E div 2 ^ k \<le> i))" by blast
  have fc: "bd_frame ?s c" using t(4) fr by (simp add: bd_frame_def)
  have cs: "nsizes c = int M + 1" "bd_base c = p" "bd_sizes_ptr c = bd_base c" "maxk c = M"
    using fc by (simp_all add: bd_frame_def maxk_def)
  have lv: "live c = {0} \<times> boot_leaves M E" using boot_live [OF rep cs(4) bits] .
  have "bd_inv (boot_leaves M E) c"
    using boot_resv [OF lv cs(4,1,3) M(1)] rep fc assms(2)
    by (auto simp: bd_inv_def bd_frame_def hart_ok_def lock_free_def)
  moreover have "bd_init base stop s = Inr ((), c)"
  proof -
    have i1: "initlock BdLock s = Inr ((), s\<lparr>lks := (lks s)(BdLock := \<lparr>locked = False, lk_cpu = None\<rparr>),
        lktab := lktab s @ [BdLock]\<rparr>)"
      using assms(1) by (simp add: initlock_def monad_simps)
    have d0: "0 \<le> stop - p" by (rule less_imp_le, rule less_trans [OF _ d(1)]) simp
    have Ei: "int E = (stop - p) div 16" using d0 by (simp add: E_def)
    have "?L \<le> 2 ^ M" using order_trans [OF meta_leaves_bounds(2) [OF M(1)] power_increasing [of "M - 2" M "2::nat"]] by simp
    also have "\<dots> \<le> (2::nat) ^ 26" using M(2) by (intro power_increasing) auto
    finally have L26: "?L \<le> 2 ^ 26" .
    have md: "bd_mark_data_structures (p + 16 * int ?L) ?t = Inr (16 * int ?L, a)"
      using mark_data_ok [OF a _ L26] t(4) by (simp add: bd_frame_def)
    have "bd_mark_unavailable (p + (stop - p)) (p + 16 * int ?L) a = Inr (16 * 2 ^ M - 16 * int E, b)"
      unfolding Ei by (rule mark_unavailable_ok) (use b t(4) fa M d d0 Ei in \<open>simp_all add: bd_frame_def\<close>)
    then have mu: "bd_mark_unavailable stop (p + 16 * int ?L) a = Inr (16 * 2 ^ M - 16 * int E, b)" by simp
    have D: "BLK_SIZE (int M) = 16 * 2 ^ M" by (simp add: BLK_SIZE_def LEAF_SIZE_def)
    have bb: "nsizes b = int M + 1" "bd_base b = p" using fb t(4) by (simp_all add: bd_frame_def)
    let ?x = "s\<lparr>lks := (lks s)(BdLock := \<lparr>locked = False, lk_cpu = None\<rparr>),
        lktab := lktab s @ [BdLock], bd_base := p, nsizes := int M - 1 + 1\<rparr>"
    have m4: "(if BLK_SIZE (MAXSIZE ?x) < stop - p then ?x\<lparr>nsizes := nsizes ?x + 1\<rparr> else ?x)
        \<lparr>bd_sizes_ptr := p\<rparr> = ?s"
      using sz(2) by (simp add: MAXSIZE_def)
    have pre: "thenM (initlock BdLock) (thenM (modify (\<lambda>s. s\<lparr>bd_base := p\<rparr>))
        (thenM (modify (\<lambda>s. s\<lparr>nsizes := log2 (word_of_int (c_div (stop - p) LEAF_SIZE)) + 1\<rparr>))
        (thenM (modify (\<lambda>s. if BLK_SIZE (MAXSIZE s) < stop - p then s\<lparr>nsizes := nsizes s + 1\<rparr> else s))
        (thenM (modify (\<lambda>s. s\<lparr>bd_sizes_ptr := p\<rparr>)) K)))) s = K ?s" for K :: "('a bd_state_scheme, unit) kmon"
      by (simp only: thenM_apply i1 sum.case prod.case modify_apply sz(1) m4)
    have ns: "nsizes ?s = int M + 1" "int M + 1 - 1 = int M" by simp_all
    have pl: "ROUNDUP base LEAF_SIZE = p" by (simp add: p(1) LEAF_SIZE_def)
    have ql: "ROUNDUP (?q + arrays_end (int M + 1) (M + 1) (M + 1)) LEAF_SIZE = p + 16 * int ?L"
      using q by (simp only: LEAF_SIZE_def)
    have bend: "bd_base b + BLK_SIZE (MAXSIZE b) - (16 * 2 ^ M - 16 * int E) = p + 16 * int E"
      using bb D by (simp add: MAXSIZE_def)
    have chk: "16 * (int E - int ?L) = BLK_SIZE (MAXSIZE c) - 16 * int ?L - (16 * 2 ^ M - 16 * int E)"
      using cs D by (simp add: MAXSIZE_def)
    show ?thesis
      unfolding bd_init_def Let_def pl pre
    proof (rule bindM_run, rule gets_apply, unfold ns)
      show "thenM (modify (\<lambda>s. s\<lparr>bd_sizes := replicate (nat (int M + 1)) \<lparr>sz_alloc = [], sz_split = []\<rparr>\<rparr>))
       (bindM (init_alloc [0..int M] ?q) (\<lambda>p. bindM (init_split [1..int M] p) (\<lambda>p.
        bindM (bd_mark_data_structures (ROUNDUP p LEAF_SIZE)) (\<lambda>meta.
        bindM (bd_mark_unavailable stop (ROUNDUP p LEAF_SIZE)) (\<lambda>unavailable.
        bindM (gets (\<lambda>s. bd_base s + BLK_SIZE (MAXSIZE s) - unavailable)) (\<lambda>bd_end.
        bindM (bd_initfree (ROUNDUP p LEAF_SIZE) bd_end) (\<lambda>free. bindM (gets MAXSIZE) (\<lambda>mx.
        if free \<noteq> BLK_SIZE mx - meta - unavailable then panic ''bd_init: free mem'' else ret ())))))))) ?s =
        Inr ((), c)"
        by (rule thenM_run, rule modify_apply, rule bindM_run, rule t(1), rule bindM_run, rule t(2),
            unfold ql, rule bindM_run, rule md, rule bindM_run, rule mu, rule bindM_run, rule gets_apply,
            unfold bend, rule bindM_run, rule c, rule bindM_run, rule gets_apply)
          (simp only: chk simp_thms if_False ret_apply)
    qed
  qed
  moreover have "bd_state.more c = bd_state.more s" using fc by (simp add: bd_frame_def)
  moreover have "\<forall>k i. free_blk c k i \<longleftrightarrow> i \<in> set (init_free M ?L E k)"
    using free_blk_iff [OF rep] by blast
  ultimately show ?thesis using lv cs(1,2) by blast
qed

end
