(* ===== verification/Allocator.thy ===== *)
theory Allocator
  imports Buddy_Boot
begin

text \<open>
  What the rest of the kernel relies on: an allocator hands out memory that does not overlap
  what it has handed out before, and takes it back.  The contract is a locale; the buddy
  allocator is shown to meet it, for \<open>bd_malloc\<close> and \<open>bd_free\<close> and for \<open>kalloc\<close> and \<open>kfree\<close>.
\<close>

section \<open>The contract\<close>

text \<open>Two ranges, each an address and a length, that share no byte.\<close>

definition disjnt_range :: "int \<times> int \<Rightarrow> int \<times> int \<Rightarrow> bool" where
  "disjnt_range a b \<longleftrightarrow> fst a + snd a \<le> fst b \<or> fst b + snd b \<le> fst a"

lemma disjnt_range_sym: "disjnt_range a b \<Longrightarrow> disjnt_range b a"
  by (auto simp: disjnt_range_def)

definition ranges_apart :: "(int \<times> int) set \<Rightarrow> bool" where
  "ranges_apart B \<longleftrightarrow> (\<forall>a\<in>B. \<forall>b\<in>B. a \<noteq> b \<longrightarrow> disjnt_range a b)"

text \<open>
  \<open>inv\<close> is the invariant of the provider, \<open>blocks\<close> the memory handed out.  An allocation either
  returns 0 and changes nothing the client sees, or returns a new block; giving back a block
  removes it.  Neither call fails.
\<close>

locale allocator =
  fixes inv :: "'s \<Rightarrow> bool" and blocks :: "'s \<Rightarrow> (int \<times> int) set"
    and req :: "'n \<Rightarrow> bool" and len :: "'n \<Rightarrow> int"
    and alloc :: "'n \<Rightarrow> ('s, int) kmon" and give :: "int \<Rightarrow> ('s, unit) kmon"
  assumes alloc_law: "inv s \<Longrightarrow> req n \<Longrightarrow> wpM (alloc n) (\<lambda>p t. inv t \<and>
      (p = 0 \<and> blocks t = blocks s \<or>
       (\<exists>z. p \<noteq> 0 \<and> len n \<le> z \<and> (p, z) \<notin> blocks s \<and> blocks t = insert (p, z) (blocks s)))) s"
    and give_law: "inv s \<Longrightarrow> (p, z) \<in> blocks s \<Longrightarrow>
      wpM (give p) (\<lambda>_ t. inv t \<and> blocks t = blocks s - {(p, z)}) s"
    and apart_law: "inv s \<Longrightarrow> ranges_apart (blocks s)"
begin

lemma alloc_fresh:
  assumes "inv s" and "req n"
  shows "wpM (alloc n) (\<lambda>p t. p \<noteq> 0 \<longrightarrow> (\<exists>z. len n \<le> z \<and> (p, z) \<in> blocks t \<and>
    (\<forall>b\<in>blocks s. disjnt_range (p, z) b))) s"
proof (rule wpM_mono [OF alloc_law [OF assms]])
  fix p t
  assume a: "inv t \<and> (p = 0 \<and> blocks t = blocks s \<or>
    (\<exists>z. p \<noteq> 0 \<and> len n \<le> z \<and> (p, z) \<notin> blocks s \<and> blocks t = insert (p, z) (blocks s)))"
  show "p \<noteq> 0 \<longrightarrow> (\<exists>z. len n \<le> z \<and> (p, z) \<in> blocks t \<and> (\<forall>b\<in>blocks s. disjnt_range (p, z) b))"
  proof
    assume "p \<noteq> 0"
    then obtain z where z: "len n \<le> z" "(p, z) \<notin> blocks s" "blocks t = insert (p, z) (blocks s)"
      using a by blast
    have "disjnt_range (p, z) b" if "b \<in> blocks s" for b
      using apart_law [of t] a z that by (auto simp: ranges_apart_def)
    then show "\<exists>z. len n \<le> z \<and> (p, z) \<in> blocks t \<and> (\<forall>b\<in>blocks s. disjnt_range (p, z) b)"
      using z by blast
  qed
qed

text \<open>An allocation that is given back leaves the client's view as it was.\<close>

lemma alloc_give:
  assumes "inv s" and "req n"
  shows "wpM (bindM (alloc n) (\<lambda>p. if p = 0 then ret () else give p))
    (\<lambda>_ t. inv t \<and> blocks t = blocks s) s"
proof -
  have "wpM (if p = 0 then ret () else give p) (\<lambda>_ u. inv u \<and> blocks u = blocks s) t"
    if a: "inv t" "p = 0 \<and> blocks t = blocks s \<or>
      (\<exists>z. p \<noteq> 0 \<and> len n \<le> z \<and> (p, z) \<notin> blocks s \<and> blocks t = insert (p, z) (blocks s))" for p t
  proof (cases "p = 0")
    case True
    then show ?thesis using a by (simp add: wp)
  next
    case False
    then obtain z where z: "(p, z) \<notin> blocks s" "blocks t = insert (p, z) (blocks s)" using a by blast
    have "wpM (give p) (\<lambda>_ u. inv u \<and> blocks u = blocks t - {(p, z)}) t"
      by (rule give_law [OF a(1)]) (simp add: z)
    then show ?thesis using False z by (auto elim: wpM_mono)
  qed
  then show ?thesis
    unfolding wp_bind by (intro wpM_mono [OF alloc_law [OF assms]]) blast
qed

end

section \<open>The buddy allocator meets it\<close>

text \<open>The memory handed out: the blocks in use but for the reserved leaves.\<close>

definition handed :: "nat set \<Rightarrow> 'a bd_state_scheme \<Rightarrow> (int \<times> int) set" where
  "handed R s = {(blk_addr s k i, BLK_SIZE (int k)) |k i. (k, i) \<in> live s \<and> (k \<noteq> 0 \<or> i \<notin> R)}"

lemma live_disjoint:
  "bd_rep s F \<Longrightarrow> (k, i) \<in> live s \<Longrightarrow> (l, j) \<in> live s \<Longrightarrow> (k, i) \<noteq> (l, j) \<Longrightarrow>
   leaves k i \<inter> leaves l j = {}"
  by (rule used_disjoint [OF bd_rep_binv]) (simp_all add: live_def)

lemma blk_addr_inj:
  assumes inv: "bd_inv R s" and u: "(k, i) \<in> live s" "(l, j) \<in> live s"
    and eq: "blk_addr s k i = blk_addr s l j"
  shows "k = l \<and> i = j"
proof (rule ccontr)
  assume "\<not> (k = l \<and> i = j)"
  moreover obtain F where "bd_rep s F" using inv by (auto simp: bd_inv_def)
  ultimately have "leaves k i \<inter> leaves l j = {}"
    using u live_disjoint by blast
  moreover have "i * 2 ^ k = j * 2 ^ l" using eq by (simp add: blk_addr_def del: of_nat_mult)
  then have "i * 2 ^ k \<in> leaves k i \<inter> leaves l j" by (simp add: leaves_def)
  ultimately show False by blast
qed

lemma leaves_apart:
  assumes "leaves k i \<inter> leaves l j = {}"
  shows "disjnt_range (blk_addr s k i, BLK_SIZE (int k)) (blk_addr s l j, BLK_SIZE (int l))"
proof -
  have "(i + 1) * 2 ^ k \<le> j * 2 ^ l \<or> (j + 1) * 2 ^ l \<le> i * 2 ^ k"
  proof (rule ccontr)
    assume a: "\<not> ?thesis"
    then have "max (i * 2 ^ k) (j * 2 ^ l) \<in> leaves k i \<inter> leaves l j"
      by (auto simp: leaves_def max_def)
    then show False using assms by simp
  qed
  then have "int ((i + 1) * 2 ^ k) \<le> int (j * 2 ^ l) \<or> int ((j + 1) * 2 ^ l) \<le> int (i * 2 ^ k)"
    by (simp only: of_nat_le_iff)
  then show ?thesis
    by (auto simp: disjnt_range_def blk_addr_def BLK_SIZE_def LEAF_SIZE_def algebra_simps)
qed

lemma handed_apart: "bd_inv R s \<Longrightarrow> ranges_apart (handed R s)"
proof -
  assume inv: "bd_inv R s"
  then obtain F where rep: "bd_rep s F" by (auto simp: bd_inv_def)
  have "disjnt_range (blk_addr s k i, BLK_SIZE (int k)) (blk_addr s l j, BLK_SIZE (int l))"
    if "(k, i) \<in> live s" "(l, j) \<in> live s" "(k, i) \<noteq> (l, j)" for k i l j
    using live_disjoint [OF rep that] by (rule leaves_apart)
  then show ?thesis unfolding ranges_apart_def handed_def by blast
qed

section \<open>No memory is lost\<close>

text \<open>Every leaf of the heap lies in a block that is in use or in a free one.\<close>

lemma leaf_cover_below:
  assumes "binv M A S F" and "k \<le> M" and "x < 2 ^ M" and "exists_blk M S k (x div 2 ^ k)"
  shows "\<exists>l\<le>k. used M A S l (x div 2 ^ l) \<or> x div 2 ^ l \<in> F l"
  using assms
proof (induction k)
  case 0
  then have n: "node M 0 (x div 2 ^ 0)" by (simp add: node_def)
  then have "\<not> S 0 (x div 2 ^ 0)" using binv_split_alloc [OF 0(1)] by blast
  then show ?case using n 0 binv_free [OF 0(1), of "x div 2 ^ 0" 0] by (auto simp: used_def)
next
  case (Suc k)
  let ?i = "x div 2 ^ Suc k"
  have "(2::nat) ^ M = 2 ^ (M - Suc k) * 2 ^ Suc k"
    using Suc.prems(2) by (simp only: power_add [symmetric]) simp
  then have "?i < 2 ^ (M - Suc k)" using Suc.prems(3) by (intro less_mult_imp_div_less) simp
  then have n: "node M (Suc k) ?i" using Suc.prems(2) by (simp add: node_def)
  show ?case
  proof (cases "S (Suc k) ?i")
    case True
    then have "exists_blk M S k (x div 2 ^ k)" by (simp add: exists_blk_def div_mult2_eq [symmetric] mult.commute)
    then show ?thesis using Suc.IH Suc.prems by (meson Suc_leD le_Suc_eq)
  next
    case False
    then show ?thesis
      using n Suc.prems binv_free [OF Suc.prems(1), of ?i "Suc k"] by (auto simp: used_def)
  qed
qed

lemma leaf_cover:
  assumes "bd_rep s F" and "x < 2 ^ maxk s"
  shows "\<exists>l. (l, x div 2 ^ l) \<in> live s \<or> free_blk s l (x div 2 ^ l)"
  using leaf_cover_below [OF bd_rep_binv [OF assms(1)], of "maxk s" x] assms
  by (auto simp: live_def free_blk_iff exists_blk_def)

text \<open>Giving back a block leaves a free one.\<close>

lemma free_after_give:
  assumes "bd_inv R s" and "bd_inv R t" and "(k, i) \<in> live s" and "live t = live s - {(k, i)}"
    and "nsizes t = nsizes s"
  shows "\<exists>l j. free_blk t l j"
proof -
  obtain F G where rep: "bd_rep s F" "bd_rep t G" using assms(1,2) by (auto simp: bd_inv_def)
  let ?x = "i * 2 ^ k"
  have "node (maxk s) k i" using assms(3) by (simp add: live_def used_def)
  then have "k \<le> maxk s" "i < 2 ^ (maxk s - k)" by (simp_all add: node_def)
  then have "?x < 2 ^ (maxk s - k) * 2 ^ k" by simp
  then have "?x < 2 ^ maxk t" using \<open>k \<le> maxk s\<close> assms(5) by (simp add: maxk_def flip: power_add)
  from leaf_cover [OF rep(2) this] obtain l where
    "(l, ?x div 2 ^ l) \<in> live t \<or> free_blk t l (?x div 2 ^ l)" by blast
  moreover have "(l, ?x div 2 ^ l) \<notin> live t"
  proof
    assume l: "(l, ?x div 2 ^ l) \<in> live t"
    then have "(l, ?x div 2 ^ l) \<in> live s" "(k, i) \<noteq> (l, ?x div 2 ^ l)"
      unfolding assms(4) by (simp_all only: Diff_iff singleton_iff not_sym, simp)
    then have "leaves k i \<inter> leaves l (?x div 2 ^ l) = {}"
      by (rule live_disjoint [OF rep(1) assms(3)])
    moreover have "?x \<in> leaves k i \<inter> leaves l (?x div 2 ^ l)" by (simp add: leaves_div)
    ultimately show False by blast
  qed
  ultimately show ?thesis by blast
qed

lemma handed_frame: "live t = live s \<Longrightarrow> blk_addr t = blk_addr s \<Longrightarrow> handed R t = handed R s"
  by (simp add: handed_def)

lemma bd_frame_settle: "bd_frame (settle s) t \<Longrightarrow> blk_addr t = blk_addr s"
  by (auto simp: bd_frame_def blk_addr_def fun_eq_iff)

lemma bd_inv_settle [simp]: "bd_inv R (settle s) = bd_inv R s"
  by (simp add: bd_inv_def)

lemma BLK_SIZE_nat: "BLK_SIZE (int f) = 16 * 2 ^ f"
  by (simp add: BLK_SIZE_def LEAF_SIZE_def)

lemma bd_alloc_law:
  assumes inv: "bd_inv R s" and n: "unat n \<le> 2 ^ 63"
  shows "wpM (bd_malloc n) (\<lambda>p t. bd_inv R t \<and>
    (p = 0 \<and> handed R t = handed R s \<or>
     (\<exists>z. p \<noteq> 0 \<and> int (unat n) \<le> z \<and> (p, z) \<notin> handed R s \<and> handed R t = insert (p, z) (handed R s)))) s"
proof -
  obtain f where f: "firstk n = Some (int f)" "unat n \<le> 16 * 2 ^ f" using firstk_ok [OF n] by blast
  show ?thesis
  proof (cases "\<exists>k i. f \<le> k \<and> free_blk s k i")
    case False
    then have "bd_malloc n s = Inr (0, settle s)" using bd_malloc_none [OF inv f(1)] by blast
    then show ?thesis using inv handed_frame [of "settle s" s R] by (simp add: wpM_def)
  next
    case True
    then obtain i t where run: "bd_malloc n s = Inr (blk_addr s f i, t)" and inv': "bd_inv R t"
      and new: "(f, i) \<notin> live s" and lv: "live t = insert (f, i) (live s)" and fr: "bd_frame (settle s) t"
      using bd_malloc_some [OF inv f(1)] by blast
    note ad = bd_frame_settle [OF fr]
    have nr: "f \<noteq> 0 \<or> i \<notin> R" using new inv resv_live [of s R i] by (auto simp: bd_inv_def)
    have "0 < bd_base s" using inv by (auto simp: bd_inv_def bd_rep_def bd_wf_def)
    then have "0 < blk_addr s f i" by (simp add: blk_addr_def add_pos_nonneg)
    moreover have "int (unat n) \<le> int (16 * 2 ^ f)" using f(2) by (rule iffD2 [OF of_nat_le_iff])
    then have "int (unat n) \<le> BLK_SIZE (int f)" by (simp add: BLK_SIZE_nat)
    moreover have "handed R t = insert (blk_addr s f i, BLK_SIZE (int f)) (handed R s)"
      using nr by (auto simp: handed_def lv ad)
    moreover have "(blk_addr s f i, BLK_SIZE (int f)) \<notin> handed R s"
    proof
      assume "(blk_addr s f i, BLK_SIZE (int f)) \<in> handed R s"
      then obtain k j where "blk_addr s f i = blk_addr s k j" "(k, j) \<in> live s" by (auto simp: handed_def)
      then show False using blk_addr_inj [OF inv', of f i k j] new by (auto simp: lv ad)
    qed
    ultimately show ?thesis using inv' run by (auto simp: wpM_def)
  qed
qed

lemma bd_give_law:
  assumes inv: "bd_inv R s" and p: "(p, z) \<in> handed R s"
  shows "wpM (bd_free p) (\<lambda>_ t. bd_inv R t \<and> handed R t = handed R s - {(p, z)}) s"
proof -
  obtain k i where ki: "p = blk_addr s k i" "z = BLK_SIZE (int k)" "(k, i) \<in> live s" "k \<noteq> 0 \<or> i \<notin> R"
    using p by (auto simp: handed_def)
  obtain t where run: "bd_free p s = Inr ((), t)" and inv': "bd_inv R t"
    and lv: "live t = live s - {(k, i)}" and fr: "bd_frame (settle s) t"
    using bd_free_ok [OF inv ki(3,4)] ki(1) by blast
  have inj: "(l, j) \<in> live s \<Longrightarrow> blk_addr s l j = blk_addr s k i \<Longrightarrow> l = k \<and> j = i" for l j
    using blk_addr_inj [OF inv _ ki(3)] .
  have "handed R t = handed R s - {(p, z)}"
    unfolding handed_def lv bd_frame_settle [OF fr] ki(1,2) by (auto dest: inj)
  then show ?thesis using run inv' by (simp add: wpM_def)
qed

interpretation bd: allocator "bd_inv R" "handed R" "\<lambda>n. unat n \<le> 2 ^ 63" "\<lambda>n. int (unat n)"
    bd_malloc bd_free for R
  by unfold_locales (fact bd_alloc_law bd_give_law handed_apart)+

interpretation page: allocator "bd_inv R" "handed R" "\<lambda>_::unit. True" "\<lambda>_. PGSIZE" "\<lambda>_. kalloc" kfree for R
proof
  fix s :: "'a bd_state_scheme" and n :: unit
  assume "bd_inv R s"
  moreover have "unat (word_of_int PGSIZE :: 64 word) = 4096" by (simp add: PGSIZE_def)
  ultimately show "wpM kalloc (\<lambda>p t. bd_inv R t \<and> (p = 0 \<and> handed R t = handed R s \<or>
     (\<exists>z. p \<noteq> 0 \<and> PGSIZE \<le> z \<and> (p, z) \<notin> handed R s \<and> handed R t = insert (p, z) (handed R s)))) s"
    using bd_alloc_law [of R s "word_of_int PGSIZE"] by (simp add: kalloc_def PGSIZE_def)
next
  fix s :: "'a bd_state_scheme" and p z
  assume "bd_inv R s" "(p, z) \<in> handed R s"
  then show "wpM (kfree p) (\<lambda>_ t. bd_inv R t \<and> handed R t = handed R s - {(p, z)}) s"
    unfolding kfree_def by (rule bd_give_law)
qed (rule handed_apart)

end
