(* ===== verification/Buddy_Theorems.thy ===== *)
theory Buddy_Theorems
  imports Allocator
begin

text \<open>
  The properties of the physical memory allocator, and a concrete machine on which they are
  seen to apply: a heap of 1000 bytes at address 4096.
\<close>

section \<open>A machine at boot\<close>

definition boot_machine :: bd_state where
  "boot_machine = \<lparr>hart = 0, cpus = (\<lambda>_. \<lparr>c_proc = None, noff = 0, intena = False\<rparr>),
     sie = (\<lambda>_. False), lks = (\<lambda>_. \<lparr>locked = False, lk_cpu = None\<rparr>), lktab = [],
     nxt = (\<lambda>_. 0), prv = (\<lambda>_. 0), nsizes = 0, bd_base = 0, bd_sizes_ptr = 0, bd_sizes = []\<rparr>"

lemma boot_machine_ok: "length (lktab boot_machine) < NLOCK" "hart_ok boot_machine"
  by (simp_all add: boot_machine_def NLOCK_def hart_ok_def)

lemma boot_heap_fits:
  "(4096::int) = ROUNDUP 4096 16" "(0::int) < 4096" "(6::nat) \<le> 6" "(6::nat) \<le> 26"
  "16 * 2 ^ (6 - 1) < (5096::int) - 4096" "(5096::int) - 4096 < 16 * 2 ^ 6"
  by (simp_all add: ROUNDUP_def)

lemma boot_heap:
  "\<exists>t. bd_init 4096 5096 boot_machine = Inr ((), t) \<and> bd_inv (boot_leaves 6 62) t \<and> free_blk t 1 30"
  using bd_init_ok [OF boot_machine_ok boot_heap_fits] by (auto simp: init_free_def)

text \<open>A block of 16 bytes can be allocated there.\<close>

lemma boot_block:
  obtains s :: bd_state and p z where "bd_inv (boot_leaves 6 62) s" and "(p, z) \<in> handed (boot_leaves 6 62) s"
proof -
  obtain s :: bd_state where s: "bd_inv (boot_leaves 6 62) s" "free_blk s 1 30" using boot_heap by blast
  have "firstk 16 = Some (int 0)" by (simp add: firstk_def firstk_loop.simps)
  from bd_malloc_some [OF s(1) this _ s(2)] obtain i t where t: "bd_inv (boot_leaves 6 62) (t :: bd_state)"
    "(0, i) \<notin> live s" "live t = insert (0, i) (live s)" by auto
  have "i \<notin> boot_leaves 6 62" using t(2) resv_live s(1) by (auto simp: bd_inv_def)
  then have "(blk_addr t 0 i, BLK_SIZE (int 0)) \<in> handed (boot_leaves 6 62) t"
    unfolding handed_def t(3) by blast
  then show thesis using t(1) that by blast
qed

section \<open>Properties\<close>

text \<open>
  C4: initialisation.  For a heap of more than 512 bytes, less than a gigabyte and not a power
  of two, \<open>bd_init\<close> returns without panic, establishes the invariant, and the only leaves in
  use are those of the allocator's own data at the start and those past the end of memory.
\<close>

theorem bd_init_establishes:
  assumes "length (lktab s) < NLOCK" and "hart_ok s" and "p = ROUNDUP base 16" and "0 < p"
    and "6 \<le> M" and "M \<le> 26" and "16 * 2 ^ (M - 1) < stop - p" and "stop - p < 16 * 2 ^ M"
  shows "\<exists>t. bd_init base stop s = Inr ((), t) \<and>
    bd_inv (boot_leaves M (nat ((stop - p) div 16))) t \<and>
    live t = {0} \<times> boot_leaves M (nat ((stop - p) div 16)) \<and>
    handed (boot_leaves M (nat ((stop - p) div 16))) t = {} \<and>
    (\<forall>k i. free_blk t k i \<longleftrightarrow> i \<in> set (init_free M (meta_leaves M) (nat ((stop - p) div 16)) k))"
proof -
  obtain t where t: "bd_init base stop s = Inr ((), t)" "bd_inv (boot_leaves M (nat ((stop - p) div 16))) t"
    "live t = {0} \<times> boot_leaves M (nat ((stop - p) div 16))"
    "\<forall>k i. free_blk t k i \<longleftrightarrow> i \<in> set (init_free M (meta_leaves M) (nat ((stop - p) div 16)) k)"
    using bd_init_ok [OF assms] by blast
  moreover have "handed (boot_leaves M (nat ((stop - p) div 16))) t = {}" using t(3) by (auto simp: handed_def)
  ultimately show ?thesis by blast
qed

theorem bd_init_establishes_witness:
  "\<exists>t. bd_init 4096 5096 boot_machine = Inr ((), t) \<and> bd_inv (boot_leaves 6 62) t \<and>
    live t = {0} \<times> boot_leaves 6 62 \<and> handed (boot_leaves 6 62) t = {} \<and>
    (\<forall>k i. free_blk t k i \<longleftrightarrow> i \<in> set (init_free 6 (meta_leaves 6) 62 k))"
  using bd_init_establishes [OF boot_machine_ok boot_heap_fits] by simp

text \<open>
  C1: allocation.  For a request of at most \<open>2 ^ 63\<close> bytes \<open>bd_malloc n\<close> returns, keeps the invariant, and gives either 0 or the address
  of a block of at least \<open>n\<close> bytes that overlaps no block handed out before.
\<close>

theorem bd_malloc_fresh:
  assumes "bd_inv R s" and "unat n \<le> 2 ^ 63"
  shows "\<exists>p t. bd_malloc n s = Inr (p, t) \<and> bd_inv R t \<and>
    (p \<noteq> 0 \<longrightarrow> (\<exists>z. int (unat n) \<le> z \<and> (p, z) \<in> handed R t \<and>
       (\<forall>b\<in>handed R s. disjnt_range (p, z) b)))"
  using wpM_conj [OF bd.alloc_law [OF assms] bd.alloc_fresh [OF assms]] by (auto simp: wpM_iff)

theorem bd_malloc_fresh_witness:
  "\<exists>(s :: bd_state) p t. bd_inv (boot_leaves 6 62) s \<and> bd_malloc 100 s = Inr (p, t) \<and> bd_inv (boot_leaves 6 62) t"
proof -
  obtain s :: bd_state where s: "bd_inv (boot_leaves 6 62) s" using boot_heap by blast
  have "unat (100 :: 64 word) \<le> 2 ^ 63" by simp
  from bd_malloc_fresh [OF s this] show ?thesis using s by blast
qed

text \<open>
  C15: when allocation fails.  \<open>bd_malloc n\<close> returns 0 exactly when no block of the size that
  \<open>firstk\<close> computes for \<open>n\<close>, or of a larger one, is free; it then changes nothing.
\<close>

theorem bd_malloc_null:
  assumes "bd_inv R s" and "firstk n = Some (int f)"
  shows "(\<exists>t. bd_malloc n s = Inr (0, t)) \<longleftrightarrow> (\<forall>k i. f \<le> k \<longrightarrow> \<not> free_blk s k i)"
proof
  assume "\<forall>k i. f \<le> k \<longrightarrow> \<not> free_blk s k i"
  then show "\<exists>t. bd_malloc n s = Inr (0, t)" using bd_malloc_none [OF assms] by blast
next
  assume null: "\<exists>t. bd_malloc n s = Inr (0, t)"
  show "\<forall>k i. f \<le> k \<longrightarrow> \<not> free_blk s k i"
  proof (intro allI impI notI)
    fix k i assume "f \<le> k" "free_blk s k i"
    then obtain j t where "bd_malloc n s = Inr (blk_addr s f j, t)"
      using bd_malloc_some [OF assms] by blast
    then have "blk_addr s f j = 0" using null by simp
    moreover have "0 < bd_base s" using assms(1) by (auto simp: bd_inv_def bd_rep_def bd_wf_def)
    ultimately show False by (simp add: blk_addr_def add_pos_nonneg less_imp_neq [symmetric])
  qed
qed

theorem bd_malloc_null_witness:
  "\<exists>s :: bd_state. bd_inv (boot_leaves 6 62) s \<and> firstk 100 = Some 3 \<and>
    ((\<exists>t. bd_malloc 100 s = Inr (0, t)) \<longleftrightarrow> (\<forall>k i. 3 \<le> k \<longrightarrow> \<not> free_blk s k i))"
proof -
  obtain s :: bd_state where s: "bd_inv (boot_leaves 6 62) s" using boot_heap by blast
  have f: "firstk 100 = Some (int 3)" by (simp add: firstk_def firstk_loop.simps)
  from bd_malloc_null [OF s f] show ?thesis using s f by auto
qed

text \<open>
  C5: freeing.  \<open>bd_free\<close> of a block that has been handed out returns, keeps the invariant, and
  removes exactly that block from the memory handed out.
\<close>

theorem bd_free_removes:
  assumes "bd_inv R s" and "(p, z) \<in> handed R s"
  shows "\<exists>t. bd_free p s = Inr ((), t) \<and> bd_inv R t \<and> handed R t = handed R s - {(p, z)}"
  using bd.give_law [OF assms] by (simp add: wpM_iff)

theorem bd_free_removes_witness:
  "\<exists>(s :: bd_state) p z t. bd_inv (boot_leaves 6 62) s \<and> (p, z) \<in> handed (boot_leaves 6 62) s \<and>
    bd_free p s = Inr ((), t) \<and> handed (boot_leaves 6 62) t = handed (boot_leaves 6 62) s - {(p, z)}"
proof -
  obtain s :: bd_state and p z where s: "bd_inv (boot_leaves 6 62) s" "(p, z) \<in> handed (boot_leaves 6 62) s"
    by (rule boot_block)
  from bd_free_removes [OF s] show ?thesis using s by blast
qed

text \<open>
  C16: round trip.  For a request of at most \<open>2 ^ 63\<close> bytes, allocating a block and freeing it again leaves the memory handed out as it
  was, whether or not the allocation succeeded.
\<close>

theorem bd_malloc_free:
  assumes "bd_inv R s" and "unat n \<le> 2 ^ 63"
  shows "\<exists>t. bindM (bd_malloc n) (\<lambda>p. if p = 0 then ret () else bd_free p) s = Inr ((), t) \<and>
    bd_inv R t \<and> handed R t = handed R s"
  using bd.alloc_give [OF assms] by (simp add: wpM_iff)

theorem bd_malloc_free_witness:
  "\<exists>(s :: bd_state) t. bd_inv (boot_leaves 6 62) s \<and>
    bindM (bd_malloc 16) (\<lambda>p. if p = 0 then ret () else bd_free p) s = Inr ((), t) \<and>
    handed (boot_leaves 6 62) t = handed (boot_leaves 6 62) s"
proof -
  obtain s :: bd_state where s: "bd_inv (boot_leaves 6 62) s" using boot_heap by blast
  have "unat (16 :: 64 word) \<le> 2 ^ 63" by simp
  from bd_malloc_free [OF s this] show ?thesis using s by blast
qed

text \<open>The states of the allocator: what \<open>bd_init\<close> leaves, and what calls that return make of it.\<close>

definition heap_boot :: "int \<Rightarrow> int \<Rightarrow> bd_state \<Rightarrow> bool" where
  "heap_boot base stop t \<longleftrightarrow> (\<exists>s. length (lktab s) < NLOCK \<and> hart_ok s \<and> bd_init base stop s = Inr ((), t))"

inductive heap_step :: "nat set \<Rightarrow> bd_state \<Rightarrow> bd_state \<Rightarrow> bool" for R :: "nat set" where
  call_malloc: "unat n \<le> 2 ^ 63 \<Longrightarrow> bd_malloc n s = Inr (p, t) \<Longrightarrow> heap_step R s t"
| call_free: "(p, z) \<in> handed R s \<Longrightarrow> bd_free p s = Inr ((), t) \<Longrightarrow> heap_step R s t"

lemma heap_step_inv: "heap_step R s t \<Longrightarrow> bd_inv R s \<Longrightarrow> bd_inv R t"
proof (induction rule: heap_step.induct)
  case (call_malloc n s p t)
  then show ?case using bd.alloc_law [of R s n] by (simp add: wpM_iff)
next
  case (call_free p z s t)
  then show ?case using bd.give_law [of R s p z] by (simp add: wpM_iff)
qed

interpretation heap_system: invariant_of
  "\<lambda>t. heap_boot base stop t \<and> p = ROUNDUP base 16 \<and> 0 < p \<and> 6 \<le> M \<and> M \<le> 26 \<and>
     16 * 2 ^ (M - 1) < stop - p \<and> stop - p < 16 * 2 ^ M"
  "heap_step (boot_leaves M (nat ((stop - p) div 16)))" "bd_inv (boot_leaves M (nat ((stop - p) div 16)))"
  for base stop p M
proof unfold_locales
  fix t
  assume a: "heap_boot base stop t \<and> p = ROUNDUP base 16 \<and> 0 < p \<and> 6 \<le> M \<and> M \<le> 26 \<and>
     16 * 2 ^ (M - 1) < stop - p \<and> stop - p < 16 * 2 ^ M"
  then obtain s where "length (lktab s) < NLOCK" "hart_ok s" "bd_init base stop s = Inr ((), t)"
    by (auto simp: heap_boot_def)
  then show "bd_inv (boot_leaves M (nat ((stop - p) div 16))) t" using bd_init_ok [of s p base M stop] a by auto
qed (rule heap_step_inv)

text \<open>
  C17: coalescing.  After \<open>bd_init\<close> of a heap of more than 512 bytes, less than a gigabyte and not a power
  of two, and after any sequence of calls of \<open>bd_malloc\<close> for at most \<open>2 ^ 63\<close> bytes and of \<open>bd_free\<close> for blocks that are
  handed out, no two buddies are both free: a free block's buddy is in use
  or split.  So freeing merges as far as it can.
\<close>

theorem no_free_buddies:
  assumes "p = ROUNDUP base 16" and "0 < p" and "6 \<le> M" and "M \<le> 26"
    and "16 * 2 ^ (M - 1) < stop - p" and "stop - p < 16 * 2 ^ M"
    and "reachable (heap_boot base stop) (heap_step (boot_leaves M (nat ((stop - p) div 16)))) s"
    and "free_blk s k i" and "k < maxk s"
  shows "\<not> free_blk s k (buddy_of i)"
proof -
  have "reachable (\<lambda>t. heap_boot base stop t \<and> p = ROUNDUP base 16 \<and> 0 < p \<and> 6 \<le> M \<and> M \<le> 26 \<and>
     16 * 2 ^ (M - 1) < stop - p \<and> stop - p < 16 * 2 ^ M) (heap_step (boot_leaves M (nat ((stop - p) div 16)))) s"
    using assms(1-7) by simp
  then have "bd_inv (boot_leaves M (nat ((stop - p) div 16))) s" by (rule heap_system.reachable_inv)
  then obtain F where inv: "binv (maxk s) (Abit s) (Sbit s) (\<lambda>k. set (F k))"
    by (auto simp: bd_inv_def bd_rep_def)
  have n: "node (maxk s) k i" "Sbit s (Suc k) (i div 2)" "\<not> Abit s k i"
    using assms(8,9) by (auto simp: free_blk_def exists_blk_def)
  then have "Abit s k (2 * (i div 2)) \<or> Abit s k (2 * (i div 2) + 1)"
    using binv_merged [OF inv node_parent [OF n(1) assms(9)]] by blast
  then have "Abit s k (buddy_of i)" using n(3) by (cases "even i") (auto simp: buddy_of_def)
  then show ?thesis by (simp add: free_blk_def)
qed

text \<open>After an allocation and its release on the machine above, a block of 32 bytes is free and its buddy is not.\<close>

theorem no_free_buddies_witness:
  "\<exists>s p t u. heap_boot 4096 5096 s \<and> bd_malloc 16 s = Inr (p, t) \<and> bd_free p t = Inr ((), u) \<and>
    (\<forall>k i. free_blk u k i \<longrightarrow> k < maxk u \<longrightarrow> \<not> free_blk u k (buddy_of i))"
proof -
  obtain s where s: "bd_init 4096 5096 boot_machine = Inr ((), s)" "bd_inv (boot_leaves 6 62) s" "free_blk s 1 30"
    using boot_heap by blast
  then have boot: "heap_boot 4096 5096 s" using boot_machine_ok by (auto simp: heap_boot_def)
  have n: "unat (16 :: 64 word) \<le> 2 ^ 63" by simp
  have "firstk 16 = Some (int 0)" by (simp add: firstk_def firstk_loop.simps)
  from bd_malloc_some [OF s(2) this _ s(3)] obtain i t where t: "bd_malloc 16 s = Inr (blk_addr s 0 i, t)"
    "bd_inv (boot_leaves 6 62) t" "(0, i) \<notin> live s" "live t = insert (0, i) (live s)" "blk_addr t 0 i = blk_addr s 0 i"
    by (auto simp: blk_addr_def bd_frame_def)
  have "i \<notin> boot_leaves 6 62" using t(3) resv_live s(2) by (auto simp: bd_inv_def)
  then have h: "(blk_addr s 0 i, BLK_SIZE (int 0)) \<in> handed (boot_leaves 6 62) t"
    unfolding handed_def t(4) t(5) [symmetric] by blast
  from bd.give_law [OF t(2) h] obtain u where u: "bd_free (blk_addr s 0 i) t = Inr ((), u)" by (auto simp: wpM_iff)
  have "reachable (heap_boot 4096 5096) (heap_step (boot_leaves 6 62)) u"
    using reachable.reach_init [where init = "heap_boot 4096 5096", OF boot] heap_step.call_malloc [OF n t(1)] heap_step.call_free [OF h u]
    by (blast intro: reachable.reach_step)
  then have "\<not> free_blk u k (buddy_of i)" if "free_blk u k i" "k < maxk u" for k i
    using no_free_buddies [OF boot_heap_fits(1,2,3,4,5,6), of u k i] that by simp
  then show ?thesis using boot t(1) u by blast
qed

text \<open>
  C19: the size class.  For a request of at most \<open>2 ^ 63\<close> bytes the loop of \<open>firstk\<close> ends with
  the smallest size whose blocks hold the request.
\<close>

theorem firstk_smallest:
  assumes "unat n \<le> 2 ^ 63"
  shows "\<exists>f. firstk n = Some (int f) \<and> int (unat n) \<le> BLK_SIZE (int f) \<and>
    (\<forall>k. int (unat n) \<le> BLK_SIZE (int k) \<longrightarrow> f \<le> k)"
proof -
  obtain f where f: "firstk n = Some (int f)" "unat n \<le> 16 * 2 ^ f" "f = 0 \<or> 16 * 2 ^ (f - 1) < unat n"
    using firstk_ok [OF assms] by blast
  have nat: "int (unat n) \<le> BLK_SIZE (int k) \<longleftrightarrow> unat n \<le> 16 * 2 ^ k" for k
    using of_nat_le_iff [where 'a = int, of "unat n" "16 * 2 ^ k"] by (simp add: BLK_SIZE_nat)
  have "f \<le> k" if "unat n \<le> 16 * 2 ^ k" for k
  proof (rule ccontr)
    assume "\<not> f \<le> k"
    then have "16 * (2::nat) ^ k \<le> 16 * 2 ^ (f - 1)" by (intro mult_left_mono power_increasing) auto
    also have "\<dots> < unat n" using f(3) \<open>\<not> f \<le> k\<close> by simp
    finally show False using that by simp
  qed
  then show ?thesis using f(1,2) unfolding nat by blast
qed

theorem firstk_smallest_witness:
  "\<exists>f. firstk 4096 = Some (int f) \<and> int (unat (4096 :: 64 word)) \<le> BLK_SIZE (int f) \<and>
    (\<forall>k. int (unat (4096 :: 64 word)) \<le> BLK_SIZE (int k) \<longrightarrow> f \<le> k)"
  by (rule firstk_smallest) simp

text \<open>
  C20: the limit of \<open>firstk\<close>.  For a request above \<open>2 ^ 63\<close> bytes the block size wraps to 0 and
  the loop does not end, and \<open>bd_malloc\<close>, called with the allocator's lock free, does not return.
\<close>

theorem firstk_diverges:
  assumes "2 ^ 63 < unat n" and "lock_free BdLock s"
  shows "firstk n = None \<and> bd_malloc n s = Inl Diverges"
proof -
  have "\<exists>m\<le>63. (16 :: 64 word) = 2 ^ m" by (rule exI [of _ 4]) simp
  then have "firstk n = None"
    unfolding firstk_def using firstk_loop_diverges [OF assms(1)] by blast
  then show ?thesis using acquire_eq [OF assms(2)] by (simp add: bd_malloc_def monad_simps)
qed

theorem firstk_diverges_witness:
  "firstk (2 ^ 63 + 1) = None \<and> bd_malloc (2 ^ 63 + 1) boot_machine = Inl Diverges"
  by (rule firstk_diverges) (simp_all add: boot_machine_def lock_free_def)

end
