(* ===== verification/CString.thy ===== *)
theory CString
  imports Buddy_Correct
begin

text \<open>
  Memory and strings: kernel/string.c and the string routines of user/ulib.c.  A memory is a
  function from addresses to bytes.  Loops that follow a string to its end are partial functions:
  on memory without a NUL they do not return.  \<open>char\<close> is unsigned on this machine.
\<close>

type_synonym bmem = "int \<Rightarrow> byte"

section \<open>Definitions: kernel/string.c\<close>

definition memset :: "bmem \<Rightarrow> int \<Rightarrow> byte \<Rightarrow> nat \<Rightarrow> bmem" where
  "memset m dst c n = fold (\<lambda>i m. m(dst + int i := c)) [0..<n] m"

fun memcmp :: "bmem \<Rightarrow> int \<Rightarrow> int \<Rightarrow> nat \<Rightarrow> int" where
  "memcmp m s1 s2 0 = 0"
| "memcmp m s1 s2 (Suc n) =
     (if m s1 \<noteq> m s2 then uint (m s1) - uint (m s2) else memcmp m (s1 + 1) (s2 + 1) n)"

fun copy_up :: "bmem \<Rightarrow> int \<Rightarrow> int \<Rightarrow> nat \<Rightarrow> bmem" where
  "copy_up m d s 0 = m"
| "copy_up m d s (Suc n) = copy_up (m(d := m s)) (d + 1) (s + 1) n"

fun copy_down :: "bmem \<Rightarrow> int \<Rightarrow> int \<Rightarrow> nat \<Rightarrow> bmem" where
  "copy_down m d s 0 = m"
| "copy_down m d s (Suc n) = copy_down (m(d - 1 := m (s - 1))) (d - 1) (s - 1) n"

definition memmove :: "bmem \<Rightarrow> int \<Rightarrow> int \<Rightarrow> nat \<Rightarrow> bmem" where
  "memmove m dst src n =
     (if src < dst \<and> dst < src + int n then copy_down m (dst + int n) (src + int n) n
      else copy_up m dst src n)"

definition memcpy :: "bmem \<Rightarrow> int \<Rightarrow> int \<Rightarrow> nat \<Rightarrow> bmem" where
  "memcpy m dst src n = memmove m dst src n"

fun strncmp :: "bmem \<Rightarrow> int \<Rightarrow> int \<Rightarrow> nat \<Rightarrow> int" where
  "strncmp m p q 0 = 0"
| "strncmp m p q (Suc n) =
     (if m p \<noteq> 0 \<and> m p = m q then strncmp m (p + 1) (q + 1) n else uint (m p) - uint (m q))"

text \<open>
  The first loop of \<open>strncpy\<close> copies up to and including a NUL; the second fills what is left.
  A count of 0 or less copies nothing.
\<close>

fun strncpy_loop :: "bmem \<Rightarrow> int \<Rightarrow> int \<Rightarrow> nat \<Rightarrow> bmem" where
  "strncpy_loop m s t 0 = m"
| "strncpy_loop m s t (Suc n) =
     (let c = m t; m = m(s := c) in
      if c \<noteq> 0 then strncpy_loop m (s + 1) (t + 1) n else memset m (s + 1) 0 n)"

definition strncpy :: "bmem \<Rightarrow> int \<Rightarrow> int \<Rightarrow> int \<Rightarrow> bmem" where
  "strncpy m s t n = strncpy_loop m s t (nat n)"

text \<open>The argument counts the rounds left: the loop tests \<open>--n > 0\<close> before each copy.\<close>

fun safestrcpy_loop :: "bmem \<Rightarrow> int \<Rightarrow> int \<Rightarrow> nat \<Rightarrow> bmem" where
  "safestrcpy_loop m s t 0 = m(s := 0)"
| "safestrcpy_loop m s t (Suc n) =
     (let c = m t; m = m(s := c) in
      if c \<noteq> 0 then safestrcpy_loop m (s + 1) (t + 1) n else m(s + 1 := 0))"

definition safestrcpy :: "bmem \<Rightarrow> int \<Rightarrow> int \<Rightarrow> int \<Rightarrow> bmem" where
  "safestrcpy m s t n = (if n \<le> 0 then m else safestrcpy_loop m s t (nat (n - 1)))"

partial_function (option) strlen_loop :: "bmem \<Rightarrow> int \<Rightarrow> nat \<Rightarrow> nat option" where
  "strlen_loop m s n = (if m (s + int n) \<noteq> 0 then strlen_loop m s (n + 1) else Some n)"

definition strlen :: "bmem \<Rightarrow> int \<Rightarrow> nat option" where
  "strlen m s = strlen_loop m s 0"

text \<open>
  \<open>strdup\<close> and \<open>strjoin\<close> take memory from the allocator.  Neither checks for a null result;
  a store through it is the failure \<open>Null_Deref\<close>.
\<close>

record kmem = bd_state +
  mem :: bmem

definition strlenM :: "int \<Rightarrow> ('a kmem_scheme, nat) kmon" where
  "strlenM s = bindM (gets (\<lambda>st. strlen (mem st) s)) (\<lambda>r.
     case r of None \<Rightarrow> failM Diverges | Some n \<Rightarrow> ret n)"

definition strdup :: "int \<Rightarrow> ('a kmem_scheme, int) kmon" where
  "strdup s =
     bindM (strlenM s) (\<lambda>l.
     let n = int l + 1 in
     bindM (bd_malloc (word_of_int n)) (\<lambda>d.
     if d = 0 then failM Null_Deref
     else thenM (modify (\<lambda>st. st\<lparr>mem := safestrcpy (mem st) d s n\<rparr>)) (ret d)))"

text \<open>The argument of \<open>strjoin\<close> is the array of string addresses up to its null.\<close>

fun strjoin_size :: "int list \<Rightarrow> ('a kmem_scheme, int) kmon" where
  "strjoin_size [] = ret 0"
| "strjoin_size (s # ss) =
     bindM (strlenM s) (\<lambda>l. bindM (strjoin_size ss) (\<lambda>n. ret (int l + 1 + n)))"

fun strjoin_copy :: "int \<Rightarrow> int list \<Rightarrow> ('a kmem_scheme, int) kmon" where
  "strjoin_copy d [] = ret d"
| "strjoin_copy d (s # ss) =
     bindM (strlenM s) (\<lambda>n.
     if d = 0 then failM Null_Deref
     else thenM (modify (\<lambda>st. st\<lparr>mem := safestrcpy (mem st) d s (int n + 1)\<rparr>))
    (thenM (modify (\<lambda>st. st\<lparr>mem := (mem st)(d + int n := 32)\<rparr>))
     (strjoin_copy (d + int n + 1) ss)))"

definition strjoin :: "int list \<Rightarrow> ('a kmem_scheme, int) kmon" where
  "strjoin ss =
     bindM (strjoin_size ss) (\<lambda>n.
     bindM (bd_malloc (word_of_int n)) (\<lambda>od.
     bindM (strjoin_copy od ss) (\<lambda>d.
     thenM (modify (\<lambda>st. st\<lparr>mem := (mem st)(d - 1 := 0)\<rparr>)) (ret od))))"

section \<open>Definitions: user/ulib.c\<close>

partial_function (option) strcpy :: "bmem \<Rightarrow> int \<Rightarrow> int \<Rightarrow> bmem option" where
  "strcpy m s t = (let c = m t; m = m(s := c) in
     if c \<noteq> 0 then strcpy m (s + 1) (t + 1) else Some m)"

partial_function (option) strcmp :: "bmem \<Rightarrow> int \<Rightarrow> int \<Rightarrow> int option" where
  "strcmp m p q = (if m p \<noteq> 0 \<and> m p = m q then strcmp m (p + 1) (q + 1)
     else Some (uint (m p) - uint (m q)))"

partial_function (option) strchr :: "bmem \<Rightarrow> int \<Rightarrow> byte \<Rightarrow> int option" where
  "strchr m s c = (if m s = 0 then Some 0 else if m s = c then Some s else strchr m (s + 1) c)"

partial_function (option) atoi_loop :: "bmem \<Rightarrow> int \<Rightarrow> int \<Rightarrow> int option" where
  "atoi_loop m s n = (if 48 \<le> m s \<and> m s \<le> 57
     then atoi_loop m (s + 1) (c_int (n * 10 + uint (m s) - 48)) else Some n)"

definition atoi :: "bmem \<Rightarrow> int \<Rightarrow> int option" where
  "atoi m s = atoi_loop m s 0"

definition user_memmove :: "bmem \<Rightarrow> int \<Rightarrow> int \<Rightarrow> int \<Rightarrow> bmem" where
  "user_memmove m vdst vsrc n =
     (if vdst < vsrc then copy_up m vdst vsrc (nat n)
      else copy_down m (vdst + n) (vsrc + n) (nat n))"

definition user_memcpy :: "bmem \<Rightarrow> int \<Rightarrow> int \<Rightarrow> int \<Rightarrow> bmem" where
  "user_memcpy m dst src n = user_memmove m dst src n"

fun user_memcmp :: "bmem \<Rightarrow> int \<Rightarrow> int \<Rightarrow> nat \<Rightarrow> int" where
  "user_memcmp m p1 p2 0 = 0"
| "user_memcmp m p1 p2 (Suc n) =
     (if m p1 \<noteq> m p2 then uint (m p1) - uint (m p2) else user_memcmp m (p1 + 1) (p2 + 1) n)"

text \<open>
  \<open>gets\<close> reads one byte at a time from standard input; \<open>input\<close> is what the reads will return,
  and a read from the empty list returns less than 1.  The first argument is \<open>max - 1 - i\<close>.
\<close>

fun gets_loop :: "nat \<Rightarrow> bmem \<Rightarrow> int \<Rightarrow> byte list \<Rightarrow> bmem \<times> int \<times> byte list" where
  "gets_loop 0 m p input = (m, p, input)"
| "gets_loop (Suc n) m p [] = (m, p, [])"
| "gets_loop (Suc n) m p (c # input) =
     (let m = m(p := c) in
      if c = 10 \<or> c = 13 then (m, p + 1, input) else gets_loop n m (p + 1) input)"

definition c_gets :: "bmem \<Rightarrow> int \<Rightarrow> int \<Rightarrow> byte list \<Rightarrow> bmem \<times> byte list" where
  "c_gets m buf mx input =
     (let (m, p, input) = gets_loop (nat (mx - 1)) m buf input in (m(p := 0), input))"

section \<open>Memory\<close>

lemma memset_apply: "memset m d c n a = (if d \<le> a \<and> a < d + int n then c else m a)"
proof (induction n)
  case (Suc n)
  have "memset m d c (Suc n) = (memset m d c n)(d + int n := c)" by (simp add: memset_def)
  then show ?case using Suc by auto
qed (auto simp: memset_def)

lemma copy_up_apply:
  "d \<le> s \<or> s + int n \<le> d \<Longrightarrow> copy_up m d s n a = (if d \<le> a \<and> a < d + int n then m (s + (a - d)) else m a)"
proof (induction n arbitrary: m d s)
  case (Suc n)
  have "copy_up m d s (Suc n) a = (if d + 1 \<le> a \<and> a < d + 1 + int n
      then (m(d := m s)) (s + 1 + (a - (d + 1))) else (m(d := m s)) a)"
    using Suc.prems by (simp only: copy_up.simps, intro Suc.IH) auto
  then show ?case using Suc.prems by auto
qed auto

lemma copy_down_apply:
  "s \<le> d \<or> d \<le> s - int n \<Longrightarrow>
   copy_down m d s n a = (if d - int n \<le> a \<and> a < d then m (s + (a - d)) else m a)"
proof (induction n arbitrary: m d s)
  case (Suc n)
  have "copy_down m d s (Suc n) a = (if d - 1 - int n \<le> a \<and> a < d - 1
      then (m(d - 1 := m (s - 1))) (s - 1 + (a - (d - 1))) else (m(d - 1 := m (s - 1))) a)"
    using Suc.prems by (simp only: copy_down.simps, intro Suc.IH) auto
  then show ?case using Suc.prems by auto
qed auto

lemma memmove_apply: "memmove m d s n a = (if d \<le> a \<and> a < d + int n then m (s + (a - d)) else m a)"
  unfolding memmove_def using copy_up_apply [of d s n m a] copy_down_apply [of "s + int n" "d + int n" n m a]
  by (auto simp: algebra_simps)

lemma user_memmove_apply:
  "user_memmove m d s n a = (if d \<le> a \<and> a < d + n then m (s + (a - d)) else m a)"
proof (cases "n \<le> 0")
  case True
  then show ?thesis by (auto simp: user_memmove_def)
next
  case False
  then show ?thesis
    unfolding user_memmove_def
    using copy_up_apply [of d s "nat n" m a] copy_down_apply [of "s + n" "d + n" "nat n" m a]
    by (auto simp: algebra_simps)
qed

lemma memcmp_zero: "memcmp m p q n = 0 \<longleftrightarrow> (\<forall>i<n. m (p + int i) = m (q + int i))"
proof (induction n arbitrary: p q)
  case (Suc n)
  have "(\<forall>i<Suc n. m (p + int i) = m (q + int i)) \<longleftrightarrow>
      m p = m q \<and> (\<forall>i<n. m (p + 1 + int i) = m (q + 1 + int i))"
    by (subst All_less_Suc2) (simp add: ac_simps)
  then show ?case using Suc by (auto simp: word_uint_eq_iff)
qed simp

lemma user_memcmp_eq: "user_memcmp m p q n = memcmp m p q n"
  by (induction n arbitrary: p q) auto

section \<open>Strings\<close>

text \<open>\<open>cstr m s bs\<close>: at \<open>s\<close> lies the string \<open>bs\<close>, ended by a NUL.\<close>

fun cstr :: "bmem \<Rightarrow> int \<Rightarrow> byte list \<Rightarrow> bool" where
  "cstr m s [] \<longleftrightarrow> m s = 0"
| "cstr m s (b # bs) \<longleftrightarrow> m s = b \<and> b \<noteq> 0 \<and> cstr m (s + 1) bs"

lemma cstr_cong:
  "(\<And>a. s \<le> a \<Longrightarrow> a \<le> s + int (length bs) \<Longrightarrow> m' a = m a) \<Longrightarrow> cstr m' s bs = cstr m s bs"
proof (induction bs arbitrary: s)
  case (Cons b bs)
  have "cstr m' (s + 1) bs = cstr m (s + 1) bs" by (rule Cons.IH) (use Cons.prems in auto)
  then show ?case using Cons.prems [of s] by simp
qed simp

lemma cstr_inj: "cstr m s bs \<Longrightarrow> cstr m s cs \<Longrightarrow> bs = cs"
proof (induction bs arbitrary: s cs)
  case Nil
  then show ?case by (cases cs) auto
next
  case (Cons b bs)
  then show ?case by (cases cs) auto
qed

lemma strlen_loop_cstr: "cstr m (s + int n) bs \<Longrightarrow> strlen_loop m s n = Some (n + length bs)"
  by (induction bs arbitrary: n) (subst strlen_loop.simps; simp add: ac_simps)+

lemma strlen_cstr: "cstr m s bs \<Longrightarrow> strlen m s = Some (length bs)"
  using strlen_loop_cstr [of m s 0 bs] by (simp add: strlen_def)

lemma strncmp_cstr:
  "cstr m p bs \<Longrightarrow> cstr m q cs \<Longrightarrow> strncmp m p q n = 0 \<longleftrightarrow> take n bs = take n cs"
proof (induction n arbitrary: p q bs cs)
  case (Suc n)
  then show ?case by (cases bs; cases cs) (auto simp: uint_0_iff word_uint_eq_iff [symmetric])
qed simp

lemma strcmp_cstr: "cstr m p bs \<Longrightarrow> cstr m q cs \<Longrightarrow> \<exists>r. strcmp m p q = Some r \<and> (r = 0 \<longleftrightarrow> bs = cs)"
proof (induction bs arbitrary: p q cs)
  case Nil
  then show ?case by (subst strcmp.simps) (cases cs; auto simp: uint_0_iff)
next
  case (Cons b bs)
  then show ?case by (subst strcmp.simps) (cases cs; auto simp: uint_0_iff word_uint_eq_iff [symmetric])
qed

text \<open>A bounded copy writes the first bytes of the string and a NUL, and stays within its bound.\<close>

lemma safestrcpy_loop_frame:
  "a < s \<or> s + int n < a \<Longrightarrow> safestrcpy_loop m s t n a = m a"
  by (induction n arbitrary: m s t) (auto simp: Let_def)

lemma safestrcpy_loop_cstr:
  assumes "cstr m t bs" and "s + int n < t \<or> t + int (length bs) < s"
  shows "cstr (safestrcpy_loop m s t n) s (take n bs)"
  using assms
proof (induction n arbitrary: m s t bs)
  case (Suc n)
  show ?case
  proof (cases bs)
    case Nil
    then show ?thesis using Suc.prems by (simp add: Let_def)
  next
    case (Cons b cs)
    let ?m = "m(s := b)"
    have "cstr ?m (t + 1) cs = cstr m (t + 1) cs"
      by (rule cstr_cong) (use Suc.prems(2) Cons in auto)
    then have "cstr ?m (t + 1) cs" using Suc.prems(1) Cons by simp
    then have ih: "cstr (safestrcpy_loop ?m (s + 1) (t + 1) n) (s + 1) (take n cs)"
      by (rule Suc.IH) (use Suc.prems(2) Cons in auto)
    have "safestrcpy_loop ?m (s + 1) (t + 1) n s = b" by (subst safestrcpy_loop_frame) auto
    then show ?thesis using ih Suc.prems(1) Cons by (simp add: Let_def)
  qed
qed simp

lemma strncpy_loop_frame: "a < s \<or> s + int n \<le> a \<Longrightarrow> strncpy_loop m s t n a = m a"
  by (induction n arbitrary: m s t) (auto simp: Let_def memset_apply)

lemma strncpy_loop_apply:
  assumes "cstr m t bs" and "s + int n \<le> t \<or> t + int (length bs) < s" and "i < n"
  shows "strncpy_loop m s t n (s + int i) = (if i < length bs then bs ! i else 0)"
  using assms
proof (induction n arbitrary: m s t bs i)
  case (Suc n)
  show ?case
  proof (cases bs)
    case Nil
    then show ?thesis using Suc.prems by (simp add: Let_def memset_apply)
  next
    case (Cons b cs)
    let ?m = "m(s := b)"
    have "cstr ?m (t + 1) cs = cstr m (t + 1) cs"
      by (rule cstr_cong) (use Suc.prems(2) Cons in auto)
    then have c: "cstr ?m (t + 1) cs" using Suc.prems(1) Cons by simp
    show ?thesis
    proof (cases i)
      case 0
      then show ?thesis using Suc.prems(1) Cons by (simp add: Let_def strncpy_loop_frame)
    next
      case (Suc j)
      have "strncpy_loop ?m (s + 1) (t + 1) n (s + 1 + int j) = (if j < length cs then cs ! j else 0)"
        by (rule Suc.IH [OF c]) (use Suc.prems(2,3) Cons Suc in auto)
      then show ?thesis using Suc.prems(1) Cons Suc by (simp add: Let_def ac_simps)
    qed
  qed
qed simp

lemma strchr_cstr:
  "cstr m s bs \<Longrightarrow> strchr m s c = Some (if c \<in> set bs then s + int (length (takeWhile (\<lambda>b. b \<noteq> c) bs)) else 0)"
proof (induction bs arbitrary: s)
  case Nil
  then show ?case by (subst strchr.simps) simp
next
  case (Cons b bs)
  then show ?case by (subst strchr.simps) (auto simp: ac_simps)
qed

text \<open>The decimal value of a list of digits, most significant first.\<close>

definition dec_val :: "byte list \<Rightarrow> int \<Rightarrow> int" where
  "dec_val ds n = foldl (\<lambda>n d. n * 10 + (uint d - 48)) n ds"

definition is_digit :: "byte \<Rightarrow> bool" where
  "is_digit b \<longleftrightarrow> 48 \<le> b \<and> b \<le> 57"

lemma dec_val_Cons: "dec_val (d # ds) n = dec_val ds (n * 10 + (uint d - 48))"
  by (simp add: dec_val_def)

lemma digit_bounds: "is_digit b \<Longrightarrow> 48 \<le> uint b \<and> uint b \<le> 57"
  by (auto simp: is_digit_def word_le_def)

lemma dec_val_mono: "0 \<le> n \<Longrightarrow> list_all is_digit ds \<Longrightarrow> n \<le> dec_val ds n"
proof (induction ds arbitrary: n)
  case (Cons d ds)
  have "n * 10 + (uint d - 48) \<le> dec_val ds (n * 10 + (uint d - 48))"
    using Cons.prems digit_bounds [of d] by (intro Cons.IH) auto
  then show ?case using Cons.prems digit_bounds [of d] by (simp add: dec_val_Cons)
qed (simp add: dec_val_def)

lemma atoi_loop_digits:
  assumes "\<And>i. i < length ds \<Longrightarrow> m (s + int i) = ds ! i" and "list_all is_digit ds"
    and "\<not> is_digit (m (s + int (length ds)))" and "0 \<le> n" and "dec_val ds n < 2147483648"
  shows "atoi_loop m s n = Some (dec_val ds n)"
  using assms
proof (induction ds arbitrary: s n)
  case Nil
  then show ?case by (subst atoi_loop.simps) (auto simp: is_digit_def dec_val_def)
next
  case (Cons d ds)
  let ?n = "n * 10 + (uint d - 48)"
  have d: "is_digit d" "m s = d" using Cons.prems(1) [of 0] Cons.prems(2) by simp_all
  note b = digit_bounds [OF d(1)]
  have "?n \<le> dec_val ds ?n" using Cons.prems(2,4) b by (intro dec_val_mono) auto
  then have c: "c_int (n * 10 + uint d - 48) = ?n"
    using Cons.prems(4,5) b by (subst c_int_id) (auto simp: dec_val_Cons)
  have "atoi_loop m (s + 1) ?n = Some (dec_val ds ?n)"
  proof (rule Cons.IH)
    show "m (s + 1 + int i) = ds ! i" if "i < length ds" for i
      using Cons.prems(1) [of "Suc i"] that by (simp add: ac_simps)
  qed (use Cons.prems b in \<open>auto simp: dec_val_Cons ac_simps\<close>)
  then show ?case using d c by (subst atoi_loop.simps) (simp add: is_digit_def dec_val_Cons)
qed

section \<open>Properties\<close>

text \<open>
  C30: \<open>memmove\<close> copies as if through a buffer.  Whatever the overlap, afterwards the destination
  holds what the source held before, and no other byte has changed.
\<close>

theorem memmove_correct:
  "memmove m dst src n = (\<lambda>a. if dst \<le> a \<and> a < dst + int n then m (src + (a - dst)) else m a)"
  by (simp add: fun_eq_iff memmove_apply)

text \<open>
  the kernel's and the user library's \<open>memmove\<close>, \<open>memcpy\<close> and \<open>memcmp\<close>, which choose the
  direction of the copy by different tests, compute the same.
\<close>

theorem user_memmove_equiv:
  "user_memmove m dst src (int n) = memmove m dst src n \<and>
   user_memcpy m dst src (int n) = memcpy m dst src n \<and>
   user_memcmp m dst src n = memcmp m dst src n"
  by (simp add: fun_eq_iff memmove_apply user_memmove_apply user_memcpy_def memcpy_def user_memcmp_eq)

text \<open>
  \<open>safestrcpy\<close> writes the longest prefix of the string that fits with a NUL after it, and
  no byte outside the destination's \<open>n\<close> bytes.
\<close>

theorem safestrcpy_prefix:
  assumes "cstr m t bs" and "0 < n" and "s + n \<le> t \<or> t + int (length bs) < s"
  shows "cstr (safestrcpy m s t n) s (take (nat n - 1) bs) \<and>
    (\<forall>a. a < s \<or> s + n \<le> a \<longrightarrow> safestrcpy m s t n a = m a)"
proof -
  have k: "nat n - 1 = nat (n - 1)" "int (nat (n - 1)) = n - 1" using assms(2) by auto
  have "cstr (safestrcpy_loop m s t (nat (n - 1))) s (take (nat (n - 1)) bs)"
    by (rule safestrcpy_loop_cstr [OF assms(1)]) (use assms(2,3) k in auto)
  moreover have "safestrcpy_loop m s t (nat (n - 1)) a = m a" if "a < s \<or> s + n \<le> a" for a
    by (rule safestrcpy_loop_frame) (use that assms(2) in auto)
  moreover have "safestrcpy m s t n = safestrcpy_loop m s t (nat (n - 1))"
    using assms(2) by (simp add: safestrcpy_def)
  ultimately show ?thesis using k(1) by simp
qed

theorem safestrcpy_prefix_witness:
  "cstr (safestrcpy ((\<lambda>_. 0)(100 := 104, 101 := 105)) 200 100 2) 200 [104]"
  using safestrcpy_prefix [of "(\<lambda>_. 0)(100 := 104, 101 := 105)" 100 "[104, 105]" 2 200] by simp

text \<open>
  \<open>strncpy\<close> into a field of \<open>n\<close> bytes (the name of a directory entry) leaves the string cut
  to the field and padded with NULs, and touches nothing else; \<open>strncmp\<close> then finds the two
  equal exactly when they agree on the first \<open>n\<close> bytes.
\<close>

theorem strncpy_field:
  assumes "cstr m t bs" and "s + int n \<le> t \<or> t + int (length bs) < s"
  shows "(\<forall>i<n. strncpy m s t (int n) (s + int i) = (if i < length bs then bs ! i else 0)) \<and>
    (\<forall>a. a < s \<or> s + int n \<le> a \<longrightarrow> strncpy m s t (int n) a = m a) \<and>
    (\<forall>q cs. cstr m q cs \<longrightarrow> (strncmp m t q n = 0 \<longleftrightarrow> take n bs = take n cs))"
  using strncpy_loop_apply [OF assms] strncpy_loop_frame strncmp_cstr [OF assms(1)]
  by (simp add: strncpy_def)

theorem strncpy_field_witness:
  "strncpy ((\<lambda>_. 0)(100 := 104, 101 := 105)) 200 100 14 201 = 105 \<and>
   strncpy ((\<lambda>_. 0)(100 := 104, 101 := 105)) 200 100 14 213 = 0"
proof -
  have e: "\<forall>i<14. strncpy ((\<lambda>_. 0)(100 := 104, 101 := 105)) 200 100 14 (200 + int i) =
      (if i < 2 then [104, 105] ! i else 0)"
    using strncpy_field [of "(\<lambda>_. 0)(100 := 104, 101 := 105)" 100 "[104, 105]" 200 14] by simp
  show ?thesis using e [rule_format, of 1] e [rule_format, of 13] by simp
qed

text \<open>
  the loops over a string end.  On a terminated string \<open>strlen\<close> returns its length, \<open>strcmp\<close>
  returns and is 0 exactly for equal strings, and \<open>strchr\<close> returns the first occurrence.
\<close>

theorem string_loops_end:
  assumes "cstr m s bs" and "cstr m q cs"
  shows "strlen m s = Some (length bs) \<and> (\<exists>r. strcmp m s q = Some r \<and> (r = 0 \<longleftrightarrow> bs = cs)) \<and>
    strchr m s c = Some (if c \<in> set bs then s + int (length (takeWhile (\<lambda>b. b \<noteq> c) bs)) else 0)"
  using strlen_cstr [OF assms(1)] strcmp_cstr [OF assms] strchr_cstr [OF assms(1)] by blast

theorem string_loops_end_witness:
  "strlen ((\<lambda>_. 0)(100 := 104, 101 := 105)) 100 = Some 2 \<and>
   strchr ((\<lambda>_. 0)(100 := 104, 101 := 105)) 100 105 = Some 101"
  using string_loops_end [of "(\<lambda>_. 0)(100 := 104, 101 := 105)" 100 "[104, 105]" 0 "[]" 105] by simp

text \<open>
  \<open>atoi\<close> reads the digits up to the first other byte and returns their decimal value, when
  that value fits in an \<open>int\<close>.
\<close>

theorem atoi_decimal:
  assumes "\<And>i. i < length ds \<Longrightarrow> m (s + int i) = ds ! i" and "list_all is_digit ds"
    and "\<not> is_digit (m (s + int (length ds)))" and "dec_val ds 0 < 2147483648"
  shows "atoi m s = Some (dec_val ds 0)"
  unfolding atoi_def using assms by (intro atoi_loop_digits) auto

theorem atoi_decimal_witness: "atoi ((\<lambda>_. 0)(100 := 52, 101 := 50)) 100 = Some 42"
proof -
  have "((\<lambda>_. 0)(100 := 52, 101 := 50)) (100 + int i) = [52, 50 :: byte] ! i"
    if "i < length [52, 50 :: byte]" for i
    using that by (auto simp: less_Suc_eq)
  from atoi_decimal [OF this] show ?thesis by (simp add: is_digit_def dec_val_def fun_upd_def)
qed

end
