(* ===== verification/Vm.thy ===== *)
theory Vm
  imports Buddy_Boot CString
begin

text \<open>
  Page tables: kernel/vm.c and the page table macros of kernel/riscv.h.  A page table is a page
  of memory, named by its physical address; virtual addresses, sizes and page table entries are
  64-bit words.  Reading a page table changes nothing, so the operations that only read are
  functions of the memory.
\<close>

section \<open>Words in memory\<close>

definition load64 :: "bmem \<Rightarrow> int \<Rightarrow> 64 word" where
  "load64 m a = foldr (\<lambda>i v. push_bit (8 * i) (ucast (m (a + int i))) OR v) [0..<8] 0"

definition store64 :: "bmem \<Rightarrow> int \<Rightarrow> 64 word \<Rightarrow> bmem" where
  "store64 m a v = (\<lambda>b. if a \<le> b \<and> b < a + 8 then ucast (drop_bit (8 * nat (b - a)) v) else m b)"

lemma bit_foldr_or: "bit (foldr (\<lambda>i v. f i OR v) xs 0) n \<longleftrightarrow> (\<exists>i\<in>set xs. bit (f i) n)"
  for f :: "nat \<Rightarrow> 64 word"
  by (induction xs) (auto simp: bit_or_iff)

lemma bit_load64: "bit (load64 m a) n \<longleftrightarrow> n < 64 \<and> bit (m (a + int (n div 8))) (n mod 8)"
proof -
  have b: "bit (push_bit (8 * i) (ucast (m (a + int i)) :: 64 word)) n \<longleftrightarrow>
      n < 64 \<and> 8 * i \<le> n \<and> bit (m (a + int i)) (n - 8 * i)" for i
    by (auto simp: bit_push_bit_iff bit_ucast_iff dest: bit_imp_le_length)
  have "(\<exists>i<8. n < 64 \<and> 8 * i \<le> n \<and> bit (m (a + int i)) (n - 8 * i)) \<longleftrightarrow>
      n < 64 \<and> bit (m (a + int (n div 8))) (n mod 8)" (is "?l \<longleftrightarrow> ?r")
  proof
    assume ?l
    then obtain i where i: "i < 8" "n < 64" "8 * i \<le> n" "bit (m (a + int i)) (n - 8 * i)" by blast
    then have "n - 8 * i < 8" using bit_imp_le_length [of "m (a + int i)"] by simp
    moreover obtain r where "n = 8 * i + r" using i(3) le_Suc_ex by blast
    ultimately show ?r using i by simp
  next
    assume r: ?r
    then show ?l by (intro exI [of _ "n div 8"]) (auto simp: minus_mult_div_eq_mod)
  qed
  then show ?thesis unfolding load64_def bit_foldr_or b by auto
qed

lemma load_store64: "load64 (store64 m a v) a = v"
proof (rule bit_word_eqI)
  fix n assume "n < LENGTH(64)"
  then have n: "int (n div 8) < 8" "n < 64" by auto
  then have "store64 m a v (a + int (n div 8)) = ucast (drop_bit (8 * (n div 8)) v)"
    by (simp add: store64_def)
  then show "bit (load64 (store64 m a v) a) n \<longleftrightarrow> bit v n"
    using n(2) by (simp add: bit_load64 bit_ucast_iff bit_drop_bit_eq)
qed

lemma load_store64_other: "b + 8 \<le> a \<or> a + 8 \<le> b \<Longrightarrow> load64 (store64 m a v) b = load64 m b"
proof (rule bit_word_eqI)
  fix n assume "b + 8 \<le> a \<or> a + 8 \<le> b" "n < LENGTH(64)"
  then have "n div 8 < 8" "b + 8 \<le> a \<or> a + 8 \<le> b" by auto
  then show "bit (load64 (store64 m a v) b) n \<longleftrightarrow> bit (load64 m b) n"
    by (auto simp: bit_load64 store64_def)
qed

lemma load64_cong: "(\<And>i. i < 8 \<Longrightarrow> m (a + int i) = m' (a + int i)) \<Longrightarrow> load64 m a = load64 m' a"
proof (rule bit_word_eqI)
  fix n assume e: "\<And>i. i < 8 \<Longrightarrow> m (a + int i) = m' (a + int i)" and "n < LENGTH(64)"
  then have "n div 8 < 8" by auto
  then show "bit (load64 m a) n \<longleftrightarrow> bit (load64 m' a) n" by (simp add: bit_load64 e)
qed

section \<open>Page table entries\<close>

definition PGROUNDUP_w :: "64 word \<Rightarrow> 64 word" where
  "PGROUNDUP_w sz = (sz + 4095) AND NOT 4095"

definition PGROUNDDOWN :: "64 word \<Rightarrow> 64 word" where
  "PGROUNDDOWN a = a AND NOT 4095"

definition PTE_V :: "64 word" where "PTE_V = 1"

definition PTE_R :: "64 word" where "PTE_R = 2"

definition PTE_W :: "64 word" where "PTE_W = 4"

definition PTE_X :: "64 word" where "PTE_X = 8"

definition PTE_U :: "64 word" where "PTE_U = 16"

definition PA2PTE :: "64 word \<Rightarrow> 64 word" where
  "PA2PTE pa = push_bit 10 (drop_bit 12 pa)"

definition PTE2PA :: "64 word \<Rightarrow> 64 word" where
  "PTE2PA pte = push_bit 12 (drop_bit 10 pte)"

definition PTE_FLAGS :: "64 word \<Rightarrow> 64 word" where
  "PTE_FLAGS pte = pte AND 0x3FF"

definition PX :: "nat \<Rightarrow> 64 word \<Rightarrow> 64 word" where
  "PX level va = drop_bit (12 + 9 * level) va AND 0x1FF"

definition MAXVA :: "64 word" where
  "MAXVA = 2 ^ 38"

definition pte_addr :: "int \<Rightarrow> nat \<Rightarrow> 64 word \<Rightarrow> int" where
  "pte_addr pagetable level va = pagetable + 8 * uint (PX level va)"

section \<open>Walking\<close>

record vm_state = kmem +
  kernel_pagetable :: int
  satp :: "64 word"

fun walk_levels :: "nat list \<Rightarrow> int \<Rightarrow> 64 word \<Rightarrow> bool \<Rightarrow> ('a vm_state_scheme, int) kmon" where
  "walk_levels [] pagetable va alloc = ret (pte_addr pagetable 0 va)"
| "walk_levels (level # levels) pagetable va alloc =
     (let pte = pte_addr pagetable level va in
      bindM (gets (\<lambda>s. load64 (mem s) pte)) (\<lambda>v.
      if v AND PTE_V \<noteq> 0 then walk_levels levels (uint (PTE2PA v)) va alloc
      else if \<not> alloc then ret 0
      else bindM kalloc (\<lambda>pg.
        if pg = 0 then ret 0
        else thenM (modify (\<lambda>s. s\<lparr>mem := memset (mem s) pg 0 4096\<rparr>))
            (thenM (modify (\<lambda>s. s\<lparr>mem := store64 (mem s) pte (PA2PTE (word_of_int pg) OR PTE_V)\<rparr>))
            (walk_levels levels pg va alloc)))))"

definition walk :: "int \<Rightarrow> 64 word \<Rightarrow> bool \<Rightarrow> ('a vm_state_scheme, int) kmon" where
  "walk pagetable va alloc =
     (if MAXVA \<le> va then panic ''walk'' else walk_levels [2, 1] pagetable va alloc)"

text \<open>\<open>walk\<close> with \<open>alloc = 0\<close>, as the function of the memory it is.\<close>

fun walk_mem :: "nat list \<Rightarrow> bmem \<Rightarrow> int \<Rightarrow> 64 word \<Rightarrow> int" where
  "walk_mem [] m pagetable va = pte_addr pagetable 0 va"
| "walk_mem (level # levels) m pagetable va =
     (let v = load64 m (pte_addr pagetable level va) in
      if v AND PTE_V \<noteq> 0 then walk_mem levels m (uint (PTE2PA v)) va else 0)"

definition walkaddr :: "bmem \<Rightarrow> int \<Rightarrow> 64 word \<Rightarrow> int" where
  "walkaddr m pagetable va =
     (if MAXVA \<le> va then 0
      else (let pte = walk_mem [2, 1] m pagetable va in
        if pte = 0 then 0
        else (let v = load64 m pte in
          if v AND PTE_V = 0 then 0 else if v AND PTE_U = 0 then 0 else uint (PTE2PA v))))"

definition kvmpa :: "64 word \<Rightarrow> ('a vm_state_scheme, 64 word) kmon" where
  "kvmpa va =
     bindM (gets kernel_pagetable) (\<lambda>kpt.
     bindM (walk kpt va False) (\<lambda>pte.
     if pte = 0 then panic ''kvmpa''
     else bindM (gets (\<lambda>s. load64 (mem s) pte)) (\<lambda>v.
       if v AND PTE_V = 0 then panic ''kvmpa'' else ret (PTE2PA v + va mod 4096))))"

section \<open>Mapping and unmapping\<close>

text \<open>
  The loops of \<open>mappages\<close> and \<open>uvmunmap\<close> visit \<open>a\<close>, \<open>a + PGSIZE\<close>, and so on up to \<open>last\<close>, modulo
  \<open>2 ^ 64\<close>: the test is for equality.
\<close>

definition pages_to :: "64 word \<Rightarrow> 64 word \<Rightarrow> 64 word list" where
  "pages_to a lst = map (\<lambda>i. a + of_nat i * 4096) [0..<Suc (unat ((lst - a) div 4096))]"

fun mappages_loop :: "int \<Rightarrow> 64 word list \<Rightarrow> 64 word \<Rightarrow> 64 word \<Rightarrow> ('a vm_state_scheme, int) kmon" where
  "mappages_loop pagetable [] pa perm = ret 0"
| "mappages_loop pagetable (a # as) pa perm =
     bindM (walk pagetable a True) (\<lambda>pte.
     if pte = 0 then ret (- 1)
     else bindM (gets (\<lambda>s. load64 (mem s) pte)) (\<lambda>v.
       if v AND PTE_V \<noteq> 0 then panic ''remap''
       else thenM (modify (\<lambda>s. s\<lparr>mem := store64 (mem s) pte (PA2PTE pa OR perm OR PTE_V)\<rparr>))
         (mappages_loop pagetable as (pa + 4096) perm)))"

definition mappages :: "int \<Rightarrow> 64 word \<Rightarrow> 64 word \<Rightarrow> 64 word \<Rightarrow> 64 word \<Rightarrow> ('a vm_state_scheme, int) kmon" where
  "mappages pagetable va sz pa perm =
     mappages_loop pagetable (pages_to (PGROUNDDOWN va) (PGROUNDDOWN (va + sz - 1))) pa perm"

definition kvmmap :: "64 word \<Rightarrow> 64 word \<Rightarrow> 64 word \<Rightarrow> 64 word \<Rightarrow> ('a vm_state_scheme, unit) kmon" where
  "kvmmap va pa sz perm =
     bindM (gets kernel_pagetable) (\<lambda>kpt.
     bindM (mappages kpt va sz pa perm) (\<lambda>r. if r \<noteq> 0 then panic ''kvmmap'' else ret ()))"

definition uvmunmap_page :: "int \<Rightarrow> bool \<Rightarrow> 64 word \<Rightarrow> ('a vm_state_scheme, unit) kmon" where
  "uvmunmap_page pagetable do_free a =
     bindM (walk pagetable a False) (\<lambda>pte.
     if pte = 0 then panic ''uvmunmap: walk''
     else bindM (gets (\<lambda>s. load64 (mem s) pte)) (\<lambda>v.
       if v AND PTE_V = 0 then panic ''uvmunmap: not mapped''
       else if PTE_FLAGS v = PTE_V then panic ''uvmunmap: not a leaf''
       else thenM (whenM do_free (kfree (uint (PTE2PA v))))
         (modify (\<lambda>s. s\<lparr>mem := store64 (mem s) pte 0\<rparr>))))"

definition uvmunmap :: "int \<Rightarrow> 64 word \<Rightarrow> 64 word \<Rightarrow> bool \<Rightarrow> ('a vm_state_scheme, unit) kmon" where
  "uvmunmap pagetable va sz do_free =
     forM (pages_to (PGROUNDDOWN va) (PGROUNDDOWN (va + sz - 1))) (uvmunmap_page pagetable do_free)"

section \<open>The kernel's page table\<close>

definition UART0 :: "64 word" where "UART0 = 0x10000000"

definition VIRTION :: "64 word \<Rightarrow> 64 word" where "VIRTION n = 0x10000000 + (n + 1) * 0x1000"

definition CLINT :: "64 word" where "CLINT = 0x2000000"

definition PLIC :: "64 word" where "PLIC = 0x0c000000"

definition TRAMPOLINE :: "64 word" where "TRAMPOLINE = MAXVA - 4096"

definition TRAPFRAME :: "64 word" where "TRAPFRAME = TRAMPOLINE - 4096"

definition KSTACK :: "64 word \<Rightarrow> 64 word" where "KSTACK p = TRAMPOLINE - (p + 1) * 2 * 4096"

text \<open>\<open>etext\<close> and \<open>trampoline\<close> are symbols of the linker.\<close>

definition kvminit :: "64 word \<Rightarrow> 64 word \<Rightarrow> ('a vm_state_scheme, unit) kmon" where
  "kvminit etext trampoline =
     (let kernbase = word_of_int KERNBASE; phystop = word_of_int PHYSTOP in
      bindM kalloc (\<lambda>pg.
      thenM (modify (\<lambda>s. s\<lparr>kernel_pagetable := pg\<rparr>))
     (if pg = 0 then failM Null_Deref else
      thenM (modify (\<lambda>s. s\<lparr>mem := memset (mem s) pg 0 4096\<rparr>))
     (thenM (kvmmap UART0 UART0 4096 (PTE_R OR PTE_W))
     (thenM (kvmmap (VIRTION 0) (VIRTION 0) 4096 (PTE_R OR PTE_W))
     (thenM (kvmmap (VIRTION 1) (VIRTION 1) 4096 (PTE_R OR PTE_W))
     (thenM (kvmmap CLINT CLINT 0x10000 (PTE_R OR PTE_W))
     (thenM (kvmmap PLIC PLIC 0x400000 (PTE_R OR PTE_W))
     (thenM (kvmmap kernbase kernbase (etext - kernbase) (PTE_R OR PTE_X))
     (thenM (kvmmap etext etext (phystop - etext) (PTE_R OR PTE_W))
     (kvmmap TRAMPOLINE trampoline 4096 (PTE_R OR PTE_X))))))))))))"

definition MAKE_SATP :: "64 word \<Rightarrow> 64 word" where
  "MAKE_SATP pagetable = push_bit 60 8 OR drop_bit 12 pagetable"

definition kvminithart :: "('a vm_state_scheme, unit) kmon" where
  "kvminithart = modify (\<lambda>s. s\<lparr>satp := MAKE_SATP (word_of_int (kernel_pagetable s))\<rparr>)"

section \<open>User memory\<close>

definition uvmcreate :: "('a vm_state_scheme, int) kmon" where
  "uvmcreate = bindM kalloc (\<lambda>pagetable.
     if pagetable = 0 then panic ''uvmcreate: out of memory''
     else thenM (modify (\<lambda>s. s\<lparr>mem := memset (mem s) pagetable 0 4096\<rparr>)) (ret pagetable))"

definition uvminit :: "int \<Rightarrow> int \<Rightarrow> nat \<Rightarrow> ('a vm_state_scheme, unit) kmon" where
  "uvminit pagetable src sz =
     (if 4096 \<le> sz then panic ''inituvm: more than a page''
      else bindM kalloc (\<lambda>pg.
        if pg = 0 then failM Null_Deref
        else thenM (modify (\<lambda>s. s\<lparr>mem := memset (mem s) pg 0 4096\<rparr>))
            (thenM (mappages pagetable 0 4096 (word_of_int pg) (PTE_W OR PTE_R OR PTE_X OR PTE_U))
            (modify (\<lambda>s. s\<lparr>mem := memmove (mem s) pg src sz\<rparr>)))))"

definition uvmdealloc :: "int \<Rightarrow> 64 word \<Rightarrow> 64 word \<Rightarrow> ('a vm_state_scheme, 64 word) kmon" where
  "uvmdealloc pagetable oldsz newsz =
     (if oldsz \<le> newsz then ret oldsz
      else (let newup = PGROUNDUP_w newsz in
        thenM (whenM (newup < PGROUNDUP_w oldsz) (uvmunmap pagetable newup (oldsz - newup) True))
          (ret newsz)))"

text \<open>The addresses \<open>a\<close>, \<open>a + PGSIZE\<close>, and so on below \<open>stop\<close>.\<close>

definition pages_below :: "64 word \<Rightarrow> 64 word \<Rightarrow> 64 word list" where
  "pages_below a stop = (if a < stop
     then map (\<lambda>i. a + of_nat i * 4096) [0..<(unat (stop - a) + 4095) div 4096] else [])"

fun uvmalloc_loop :: "int \<Rightarrow> 64 word \<Rightarrow> 64 word \<Rightarrow> 64 word list \<Rightarrow> ('a vm_state_scheme, 64 word) kmon" where
  "uvmalloc_loop pagetable oldsz newsz [] = ret newsz"
| "uvmalloc_loop pagetable oldsz newsz (a # as) =
     bindM kalloc (\<lambda>pg.
     if pg = 0 then thenM (uvmdealloc pagetable a oldsz) (ret 0)
     else thenM (modify (\<lambda>s. s\<lparr>mem := memset (mem s) pg 0 4096\<rparr>))
      (bindM (mappages pagetable a 4096 (word_of_int pg) (PTE_W OR PTE_X OR PTE_R OR PTE_U)) (\<lambda>r.
       if r \<noteq> 0 then thenM (kfree pg) (thenM (uvmdealloc pagetable a oldsz) (ret 0))
       else uvmalloc_loop pagetable oldsz newsz as)))"

definition uvmalloc :: "int \<Rightarrow> 64 word \<Rightarrow> 64 word \<Rightarrow> ('a vm_state_scheme, 64 word) kmon" where
  "uvmalloc pagetable oldsz newsz =
     (if newsz < oldsz then ret oldsz
      else (let oldsz = PGROUNDUP_w oldsz in
        uvmalloc_loop pagetable oldsz newsz (pages_below oldsz newsz)))"

text \<open>
  \<open>freewalk\<close> recurses into the tables below; the first argument bounds the depth, and a page
  table has three levels.
\<close>

primrec freewalk :: "nat \<Rightarrow> int \<Rightarrow> ('a vm_state_scheme, unit) kmon" where
  "freewalk 0 pagetable = failM Diverges"
| "freewalk (Suc n) pagetable =
     thenM (forM [0..<512] (\<lambda>i.
       bindM (gets (\<lambda>s. load64 (mem s) (pagetable + 8 * int i))) (\<lambda>pte.
       if pte AND PTE_V \<noteq> 0 \<and> pte AND (PTE_R OR PTE_W OR PTE_X) = 0
       then thenM (freewalk n (uint (PTE2PA pte)))
         (modify (\<lambda>s. s\<lparr>mem := store64 (mem s) (pagetable + 8 * int i) 0\<rparr>))
       else if pte AND PTE_V \<noteq> 0 then panic ''freewalk: leaf'' else ret ())))
    (kfree pagetable)"

definition uvmfree :: "int \<Rightarrow> 64 word \<Rightarrow> ('a vm_state_scheme, unit) kmon" where
  "uvmfree pagetable sz = thenM (uvmunmap pagetable 0 sz True) (freewalk 3 pagetable)"

fun uvmcopy_loop :: "int \<Rightarrow> int \<Rightarrow> 64 word list \<Rightarrow> ('a vm_state_scheme, int) kmon" where
  "uvmcopy_loop old new [] = ret 0"
| "uvmcopy_loop old new (i # is) =
     bindM (walk old i False) (\<lambda>pte.
     if pte = 0 then panic ''uvmcopy: pte should exist''
     else bindM (gets (\<lambda>s. load64 (mem s) pte)) (\<lambda>v.
     if v AND PTE_V = 0 then panic ''uvmcopy: page not present''
     else bindM kalloc (\<lambda>pg.
     if pg = 0 then thenM (uvmunmap new 0 i True) (ret (- 1))
     else thenM (modify (\<lambda>s. s\<lparr>mem := memmove (mem s) pg (uint (PTE2PA v)) 4096\<rparr>))
      (bindM (mappages new i 4096 (word_of_int pg) (PTE_FLAGS v)) (\<lambda>r.
       if r \<noteq> 0 then thenM (kfree pg) (thenM (uvmunmap new 0 i True) (ret (- 1)))
       else uvmcopy_loop old new is)))))"

definition uvmcopy :: "int \<Rightarrow> int \<Rightarrow> 64 word \<Rightarrow> ('a vm_state_scheme, int) kmon" where
  "uvmcopy old new sz = uvmcopy_loop old new (pages_below 0 sz)"

definition uvmclear :: "int \<Rightarrow> 64 word \<Rightarrow> ('a vm_state_scheme, unit) kmon" where
  "uvmclear pagetable va =
     bindM (walk pagetable va False) (\<lambda>pte.
     if pte = 0 then panic ''uvmclear''
     else modify (\<lambda>s. s\<lparr>mem := store64 (mem s) pte (load64 (mem s) pte AND NOT PTE_U)\<rparr>))"

section \<open>Copying between user and kernel memory\<close>

text \<open>
  The kernel's side of a copy is the list of bytes copied: its objects are not at addresses of
  \<open>mem\<close>.  The loops return 0 or -1; each round copies at least one byte.
\<close>

definition load_bytes :: "bmem \<Rightarrow> int \<Rightarrow> nat \<Rightarrow> byte list" where
  "load_bytes m a n = map (\<lambda>i. m (a + int i)) [0..<n]"

definition store_bytes :: "bmem \<Rightarrow> int \<Rightarrow> byte list \<Rightarrow> bmem" where
  "store_bytes m a bs = (\<lambda>b. if a \<le> b \<and> b < a + int (length bs) then bs ! nat (b - a) else m b)"

definition page_left :: "64 word \<Rightarrow> nat" where
  "page_left va = 4096 - unat (va - PGROUNDDOWN va)"

lemma mask12: "(4095 :: 64 word) = mask 12"
  by (simp add: mask_eq_exp_minus_1)

lemma PGROUNDDOWN_eq: "PGROUNDDOWN a = push_bit 12 (drop_bit 12 a)"
  unfolding PGROUNDDOWN_def mask12
  by (rule bit_word_eqI) (auto simp: bit_and_iff bit_not_iff bit_mask_iff bit_push_bit_iff bit_drop_bit_eq)

lemma PGROUNDDOWN_plus: "PGROUNDDOWN a + take_bit 12 a = a"
  unfolding PGROUNDDOWN_eq by (rule bits_ident)

lemma page_offset: "a - PGROUNDDOWN a = take_bit 12 a"
  using PGROUNDDOWN_plus [of a] by (metis add_diff_cancel_left')

lemma unat_offset: "unat (a - PGROUNDDOWN a) = unat a mod 4096"
  unfolding page_offset by (simp add: take_bit_eq_mod unat_mod)

lemma page_left_pos: "0 < page_left va"
  by (simp add: page_left_def unat_offset)

function copyout :: "bmem \<Rightarrow> int \<Rightarrow> 64 word \<Rightarrow> byte list \<Rightarrow> int \<times> bmem" where
  "copyout m pagetable dstva src =
     (if src = [] then (0, m)
      else (let va0 = PGROUNDDOWN dstva; pa0 = walkaddr m pagetable va0 in
        if pa0 = 0 then (- 1, m)
        else (let n = min (page_left dstva) (length src) in
          copyout (store_bytes m (pa0 + uint (dstva - va0)) (take n src)) pagetable (va0 + 4096) (drop n src))))"
  by auto
termination by (relation "measure (\<lambda>(m, pt, va, src). length src)") (auto simp: page_left_pos)

declare copyout.simps [simp del]

function copyin :: "bmem \<Rightarrow> int \<Rightarrow> 64 word \<Rightarrow> nat \<Rightarrow> int \<times> byte list" where
  "copyin m pagetable srcva len =
     (if len = 0 then (0, [])
      else (let va0 = PGROUNDDOWN srcva; pa0 = walkaddr m pagetable va0 in
        if pa0 = 0 then (- 1, [])
        else (let n = min (page_left srcva) len;
                  (r, bs) = copyin m pagetable (va0 + 4096) (len - n)
              in (r, load_bytes m (pa0 + uint (srcva - va0)) n @ bs))))"
  by auto
termination by (relation "measure (\<lambda>(m, pt, va, len). len)") (auto simp: page_left_pos)

declare copyin.simps [simp del]

text \<open>The inner loop of \<open>copyinstr\<close>: whether it met the NUL, and the bytes before it.\<close>

fun copyinstr_page :: "bmem \<Rightarrow> int \<Rightarrow> nat \<Rightarrow> bool \<times> byte list" where
  "copyinstr_page m p 0 = (False, [])"
| "copyinstr_page m p (Suc n) =
     (if m p = 0 then (True, [])
      else (let (r, bs) = copyinstr_page m (p + 1) n in (r, m p # bs)))"

text \<open>The string copied, without its NUL, when the result is 0.\<close>

function copyinstr :: "bmem \<Rightarrow> int \<Rightarrow> 64 word \<Rightarrow> nat \<Rightarrow> int \<times> byte list" where
  "copyinstr m pagetable srcva mx =
     (if mx = 0 then (- 1, [])
      else (let va0 = PGROUNDDOWN srcva; pa0 = walkaddr m pagetable va0 in
        if pa0 = 0 then (- 1, [])
        else (let n = min (page_left srcva) mx;
                  (got, bs) = copyinstr_page m (pa0 + uint (srcva - va0)) n
              in if got then (0, bs)
                 else (let (r, cs) = copyinstr m pagetable (va0 + 4096) (mx - n) in (r, bs @ cs)))))"
  by auto
termination by (relation "measure (\<lambda>(m, pt, va, mx). mx)") (auto simp: page_left_pos)

declare copyinstr.simps [simp del]

text \<open>Integers as the bytes of memory, least significant first.\<close>

definition le_bytes :: "nat \<Rightarrow> 'a::len word \<Rightarrow> byte list" where
  "le_bytes n w = map (\<lambda>i. ucast (drop_bit (8 * i) w)) [0..<n]"

definition of_le :: "byte list \<Rightarrow> 'a::len word" where
  "of_le bs = foldr (\<lambda>b v. ucast b OR push_bit 8 v) bs 0"

section \<open>Facts about entries and addresses\<close>

lemma walk_read:
  assumes "va < MAXVA"
  shows "walk pt va False s = Inr (walk_mem [2, 1] (mem s) pt va, s)"
  using assms by (simp add: walk_def monad_simps Let_def not_le)

lemma bit_small: "perm < 1024 \<Longrightarrow> bit (perm :: 64 word) n \<Longrightarrow> n < 10"
proof -
  assume "perm < 1024" "bit perm n"
  have "unat perm < 2 ^ 10" using \<open>perm < 1024\<close> by (simp add: word_less_nat_alt)
  then have "take_bit 10 (unat perm) = unat perm" by (simp add: take_bit_nat_eq_self_iff)
  then have "take_bit 10 perm = perm" by (metis unsigned_take_bit_eq word_unat_eq_iff)
  then have "bit (take_bit 10 perm) n" using \<open>bit perm n\<close> by simp
  then show "n < 10" by (simp add: bit_take_bit_iff)
qed

lemma mask10: "(0x3FF :: 64 word) = mask 10"
  by (simp add: mask_eq_exp_minus_1)

lemma mask9: "(0x1FF :: 64 word) = mask 9"
  by (simp add: mask_eq_exp_minus_1)

lemma bit_PTE_V: "bit PTE_V n \<longleftrightarrow> n = 0"
  by (simp add: PTE_V_def bit_1_iff)

lemma PTE2PA_PA2PTE:
  assumes "perm < 1024"
  shows "PTE2PA (PA2PTE pa OR perm OR PTE_V) = PGROUNDDOWN pa"
  unfolding PGROUNDDOWN_eq PTE2PA_def PA2PTE_def
  by (rule bit_word_eqI)
    (auto simp: bit_push_bit_iff bit_drop_bit_eq bit_or_iff bit_PTE_V dest: bit_small [OF assms])

lemma PTE_FLAGS_PA2PTE:
  assumes "perm < 1024"
  shows "PTE_FLAGS (PA2PTE pa OR perm OR PTE_V) = perm OR PTE_V"
  unfolding PTE_FLAGS_def PA2PTE_def mask10
  by (rule bit_word_eqI)
    (auto simp: bit_and_iff bit_mask_iff bit_push_bit_iff bit_drop_bit_eq bit_or_iff bit_PTE_V
      dest: bit_small [OF assms])

text \<open>The three indices and the offset determine an address below \<open>MAXVA\<close>.\<close>

lemma bit_PX: "bit (PX l va) n \<longleftrightarrow> n < 9 \<and> bit va (12 + 9 * l + n)"
  unfolding PX_def mask9 by (auto simp: bit_and_iff bit_mask_iff bit_drop_bit_eq)

lemma bit_below_MAXVA: "va < MAXVA \<Longrightarrow> bit va n \<Longrightarrow> n < 38"
proof -
  assume "va < MAXVA" "bit va n"
  have "unat va < 2 ^ 38" using \<open>va < MAXVA\<close> by (simp add: word_less_nat_alt MAXVA_def)
  then have "take_bit 38 (unat va) = unat va" by (simp add: take_bit_nat_eq_self_iff)
  then have "take_bit 38 va = va" by (metis unsigned_take_bit_eq word_unat_eq_iff)
  then have "bit (take_bit 38 va) n" using \<open>bit va n\<close> by simp
  then show "n < 38" by (simp add: bit_take_bit_iff)
qed

lemma PX_inj:
  assumes "va < MAXVA" "vb < MAXVA" and "PX 2 va = PX 2 vb" "PX 1 va = PX 1 vb" "PX 0 va = PX 0 vb"
  shows "PGROUNDDOWN va = PGROUNDDOWN vb"
proof (rule bit_word_eqI)
  fix n assume "n < LENGTH(64)"
  have px: "bit va (12 + 9 * l + k) \<longleftrightarrow> bit vb (12 + 9 * l + k)" if "l < 3" "k < 9" for l k
  proof -
    have "l = 0 \<or> l = 1 \<or> l = 2" using that(1) by linarith
    then have "PX l va = PX l vb" using assms(3-5) by auto
    then show ?thesis using bit_PX [of l va k] bit_PX [of l vb k] that(2) by simp
  qed
  have "bit va n \<longleftrightarrow> bit vb n" if "12 \<le> n"
  proof (cases "n < 38")
    case True
    have e: "12 + 9 * ((n - 12) div 9) + (n - 12) mod 9 = n" using that by simp
    have "(n - 12) div 9 < 3" using True by auto
    then show ?thesis using px [of "(n - 12) div 9" "(n - 12) mod 9"] e by simp
  next
    case False
    then show ?thesis using bit_below_MAXVA assms(1,2) by blast
  qed
  then show "bit (PGROUNDDOWN va) n \<longleftrightarrow> bit (PGROUNDDOWN vb) n"
    unfolding PGROUNDDOWN_eq by (auto simp: bit_push_bit_iff bit_drop_bit_eq)
qed

end
