(* ===== verification/Vm_Copy.thy ===== *)
theory Vm_Copy
  imports Vm Buddy_Theorems
begin

text \<open>
  Copying between user and kernel memory, page by page, is copying byte by byte through the page
  table.
\<close>

section \<open>Addresses within a page\<close>

lemma unat_PGROUNDDOWN: "unat (PGROUNDDOWN a) = unat a div 4096 * 4096"
proof -
  have "unat (PGROUNDDOWN a) = unat a - unat (take_bit 12 a)"
    using PGROUNDDOWN_plus [of a] by (metis add_diff_cancel_right' diff_le_self page_offset unat_sub_if_size unat_plus_if_size
        word_le_nat_alt unat_offset add.commute diff_diff_cancel le_add_diff_inverse2 mod_less_eq_dividend unat_sub)
  then show ?thesis using unat_offset [of a] page_offset [of a] by (metis minus_mod_eq_div_mult)
qed

lemma page_parts:
  fixes va :: "64 word"
  obtains d r where "unat va = d * 4096 + r" and "r = unat va mod 4096" and "r < 4096" and "d < 2 ^ 52"
proof -
  have "unat va < 2 ^ 52 * 4096" using unsigned_less [of va, where ?'a = nat] by simp
  then have "unat va div 4096 < 2 ^ 52" by (rule less_mult_imp_div_less)
  then show thesis using that [of "unat va div 4096" "unat va mod 4096"] div_mult_mod_eq [of "unat va" 4096] by simp
qed

lemma page_step:
  assumes "i < page_left va"
  shows "PGROUNDDOWN (va + of_nat i) = PGROUNDDOWN va"
    and "uint (va + of_nat i - PGROUNDDOWN va) = uint (va - PGROUNDDOWN va) + int i"
proof -
  obtain d r where va: "unat va = d * 4096 + r" "r = unat va mod 4096" "r < 4096" "d < 2 ^ 52" by (rule page_parts)
  have i: "r + i < 4096" using assms va(2) by (simp add: page_left_def unat_offset)
  have "unat (of_nat i :: 64 word) = i" using i by (simp add: unat_of_nat)
  moreover have "d * 4096 + (r + i) < 2 ^ 64" using i va(4) by simp
  ultimately have u: "unat (va + of_nat i) = d * 4096 + (r + i)"
    by (simp add: unat_plus_if_size word_size va(1))
  have q: "(d * 4096 + (r + i)) div 4096 = d" "(d * 4096 + r) div 4096 = d" using i va(3) by simp_all
  show e: "PGROUNDDOWN (va + of_nat i) = PGROUNDDOWN va"
    by (rule word_unat_eq_iff [THEN iffD2]) (simp add: unat_PGROUNDDOWN u q va(1))
  have "unat (va + of_nat i - PGROUNDDOWN va) = (d * 4096 + (r + i)) mod 4096"
    using unat_offset [of "va + of_nat i"] unfolding e u .
  then have "unat (va + of_nat i - PGROUNDDOWN va) = r + i" using i by simp
  moreover have "unat (va - PGROUNDDOWN va) = r" using unat_offset [of va] va(2) by simp
  ultimately show "uint (va + of_nat i - PGROUNDDOWN va) = uint (va - PGROUNDDOWN va) + int i"
    unfolding uint_nat by simp
qed

lemma page_end: "va + of_nat (page_left va) = PGROUNDDOWN va + 4096"
proof -
  have "unat (va - PGROUNDDOWN va) \<le> 4096" by (simp add: unat_offset)
  then have "(of_nat (page_left va) :: 64 word) = 4096 - (va - PGROUNDDOWN va)"
    by (simp add: page_left_def of_nat_diff)
  then show ?thesis by simp
qed

section \<open>Byte by byte\<close>

text \<open>The byte of memory behind a user address.\<close>

definition uaddr :: "bmem \<Rightarrow> int \<Rightarrow> 64 word \<Rightarrow> int option" where
  "uaddr m pt va = (let pa = walkaddr m pt (PGROUNDDOWN va) in
     if pa = 0 then None else Some (pa + uint (va - PGROUNDDOWN va)))"

fun copyin_ref :: "bmem \<Rightarrow> int \<Rightarrow> 64 word \<Rightarrow> nat \<Rightarrow> int \<times> byte list" where
  "copyin_ref m pt va 0 = (0, [])"
| "copyin_ref m pt va (Suc n) = (case uaddr m pt va of None \<Rightarrow> (- 1, [])
     | Some a \<Rightarrow> let (r, bs) = copyin_ref m pt (va + 1) n in (r, m a # bs))"

fun copyinstr_ref :: "bmem \<Rightarrow> int \<Rightarrow> 64 word \<Rightarrow> nat \<Rightarrow> int \<times> byte list" where
  "copyinstr_ref m pt va 0 = (- 1, [])"
| "copyinstr_ref m pt va (Suc n) = (case uaddr m pt va of None \<Rightarrow> (- 1, [])
     | Some a \<Rightarrow> if m a = 0 then (0, [])
         else let (r, bs) = copyinstr_ref m pt (va + 1) n in (r, m a # bs))"

lemma uaddr_step: "i < page_left va \<Longrightarrow> uaddr m pt (va + of_nat i) = map_option (\<lambda>a. a + int i) (uaddr m pt va)"
  using page_step [of i va] by (simp add: uaddr_def Let_def)

lemma page_left_Suc: "Suc n < page_left va \<Longrightarrow> n < page_left (va + 1)"
proof -
  assume n: "Suc n < page_left va"
  then have "1 < page_left va" by simp
  from page_step [OF this] have e: "PGROUNDDOWN (va + 1) = PGROUNDDOWN va"
    "uint (va + 1 - PGROUNDDOWN va) = uint (va - PGROUNDDOWN va) + 1" by simp_all
  then have "unat (va + 1 - PGROUNDDOWN va) = unat (va - PGROUNDDOWN va) + 1"
    unfolding uint_nat by linarith
  then show ?thesis using n unfolding page_left_def e(1) by linarith
qed

lemma load_bytes_Suc: "load_bytes m a (Suc n) = m a # load_bytes m (a + 1) n"
  by (rule nth_equalityI) (auto simp: load_bytes_def nth_Cons' simp del: upt_Suc)

lemma copyin_ref_chunk:
  assumes "uaddr m pt va = Some a" and "n \<le> page_left va"
  shows "copyin_ref m pt va (n + k) =
    (let (r, bs) = copyin_ref m pt (va + of_nat n) k in (r, load_bytes m a n @ bs))"
  using assms
proof (induction n arbitrary: va a)
  case 0
  then show ?case by (simp add: load_bytes_def)
next
  case (Suc n)
  show ?case
  proof (cases n)
    case 0
    then show ?thesis using Suc.prems by (simp add: load_bytes_def split: prod.split)
  next
    case (Suc j)
    then have n: "n \<le> page_left (va + 1)" using page_left_Suc [of j va] Suc.prems(2) by simp
    have "uaddr m pt (va + 1) = Some (a + 1)" using uaddr_step [of 1 va m pt] Suc.prems Suc by simp
    from Suc.IH [OF this n] show ?thesis
      using Suc.prems(1) by (simp add: load_bytes_Suc Let_def add.assoc split: prod.split)
  qed
qed

lemma copyin_eq_ref: "copyin m pt va n = copyin_ref m pt va n"
proof (induction m pt va n rule: copyin.induct)
  case (1 m pt va len)
  show ?case
  proof (cases "len = 0 \<or> walkaddr m pt (PGROUNDDOWN va) = 0")
    case True
    then show ?thesis by (subst copyin.simps, cases len) (auto simp: uaddr_def)
  next
    case False
    let ?n = "min (page_left va) len"
    let ?a = "walkaddr m pt (PGROUNDDOWN va) + uint (va - PGROUNDDOWN va)"
    have a: "uaddr m pt va = Some ?a" using False by (simp add: uaddr_def)
    have "copyin_ref m pt (va + of_nat ?n) (len - ?n) = copyin_ref m pt (PGROUNDDOWN va + 4096) (len - ?n)"
      by (cases "page_left va \<le> len") (simp_all add: min_def page_end)
    moreover have "copyin m pt va len = (let (r, bs) = copyin m pt (PGROUNDDOWN va + 4096) (len - ?n)
        in (r, load_bytes m ?a ?n @ bs))"
      using False by (simp add: copyin.simps [of m pt va len] Let_def)
    moreover have "copyin m pt (PGROUNDDOWN va + 4096) (len - ?n) = copyin_ref m pt (PGROUNDDOWN va + 4096) (len - ?n)"
      using 1 False by simp
    ultimately show ?thesis using copyin_ref_chunk [OF a, of ?n "len - ?n"] by simp
  qed
qed


lemma copyinstr_ref_chunk:
  assumes "uaddr m pt va = Some a" and "n \<le> page_left va"
  shows "copyinstr_ref m pt va (n + k) = (let (got, bs) = copyinstr_page m a n in
    if got then (0, bs) else let (r, cs) = copyinstr_ref m pt (va + of_nat n) k in (r, bs @ cs))"
  using assms
proof (induction n arbitrary: va a)
  case (Suc n)
  show ?case
  proof (cases n)
    case 0
    then show ?thesis using Suc.prems by (simp split: prod.split)
  next
    case (Suc j)
    then have n: "n \<le> page_left (va + 1)" using page_left_Suc [of j va] Suc.prems(2) by simp
    have "uaddr m pt (va + 1) = Some (a + 1)" using uaddr_step [of 1 va m pt] Suc.prems Suc by simp
    from Suc.IH [OF this n] show ?thesis
      using Suc.prems(1) by (simp add: Let_def add.assoc split: prod.split)
  qed
qed (simp split: prod.split)

lemma copyinstr_eq_ref: "copyinstr m pt va n = copyinstr_ref m pt va n"
proof (induction m pt va n rule: copyinstr.induct)
  case (1 m pt va mx)
  show ?case
  proof (cases "mx = 0 \<or> walkaddr m pt (PGROUNDDOWN va) = 0")
    case True
    then show ?thesis by (subst copyinstr.simps, cases mx) (auto simp: uaddr_def)
  next
    case False
    let ?n = "min (page_left va) mx"
    let ?a = "walkaddr m pt (PGROUNDDOWN va) + uint (va - PGROUNDDOWN va)"
    have a: "uaddr m pt va = Some ?a" using False by (simp add: uaddr_def)
    have "copyinstr_ref m pt (va + of_nat ?n) (mx - ?n) = copyinstr_ref m pt (PGROUNDDOWN va + 4096) (mx - ?n)"
      by (cases "page_left va \<le> mx") (simp_all add: min_def page_end)
    moreover have "copyinstr m pt va mx = (let (got, bs) = copyinstr_page m ?a ?n in if got then (0, bs)
        else let (r, cs) = copyinstr m pt (PGROUNDDOWN va + 4096) (mx - ?n) in (r, bs @ cs))"
      using False by (simp add: copyinstr.simps [of m pt va mx] Let_def)
    moreover have "copyinstr m pt (PGROUNDDOWN va + 4096) (mx - ?n) = copyinstr_ref m pt (PGROUNDDOWN va + 4096) (mx - ?n)"
      if "\<not> fst (copyinstr_page m ?a ?n)"
      using 1 False that by (simp add: prod.split) (metis prod.collapse)
    ultimately show ?thesis using copyinstr_ref_chunk [OF a, of ?n "mx - ?n"] by (auto simp: split_beta)
  qed
qed


section \<open>Writing\<close>

text \<open>
  \<open>backed m pt va as\<close>: the user addresses from \<open>va\<close> on are backed by the bytes \<open>as\<close>, no byte backs
  two of them, and the page table does not lie in these bytes: writing to them does not change
  the translation.
\<close>

definition backed :: "bmem \<Rightarrow> int \<Rightarrow> 64 word \<Rightarrow> int list \<Rightarrow> bool" where
  "backed m pt va as \<longleftrightarrow> distinct as \<and> (\<forall>m'. (\<forall>a. a \<notin> set as \<longrightarrow> m' a = m a) \<longrightarrow>
     (\<forall>i<length as. uaddr m' pt (va + of_nat i) = Some (as ! i)))"

lemma backed_uaddr: "backed m pt va as \<Longrightarrow> \<forall>a. a \<notin> set as \<longrightarrow> m' a = m a \<Longrightarrow> i < length as \<Longrightarrow>
    uaddr m' pt (va + of_nat i) = Some (as ! i)"
  unfolding backed_def by blast

lemma copyin_ref_backed:
  assumes "\<And>i. i < n \<Longrightarrow> uaddr m pt (va + of_nat i) = Some (as i)"
  shows "copyin_ref m pt va n = (0, map (\<lambda>i. m (as i)) [0..<n])"
  using assms
proof (induction n arbitrary: va as)
  case (Suc n)
  have "uaddr m pt (va + 1 + of_nat i) = Some (as (Suc i))" if "i < n" for i
    using Suc.prems [of "Suc i"] that by (simp add: add.assoc)
  from Suc.IH [OF this] have "copyin_ref m pt (va + 1) n = (0, map (\<lambda>i. m (as (Suc i))) [0..<n])" by simp
  moreover have "map (\<lambda>i. m (as i)) [0..<Suc n] = m (as 0) # map (\<lambda>i. m (as (Suc i))) [0..<n]"
    by (rule nth_equalityI) (auto simp: nth_Cons' simp del: upt_Suc)
  ultimately show ?case using Suc.prems [of 0] by (simp del: upt_Suc)
qed simp

lemma chunk_addr:
  assumes "\<And>i. i < n \<Longrightarrow> as ! (j + i) = as ! j + int i" and "j + n \<le> length as"
    and "as ! j \<le> a" and "a < as ! j + int n"
  shows "a \<in> set (drop j as)"
proof -
  have l: "nat (a - as ! j) < n" and e: "a = as ! j + int (nat (a - as ! j))" using assms(3,4) by linarith+
  then have "a = drop j as ! nat (a - as ! j)" using assms(1) [OF l] assms(2) by simp
  moreover have "nat (a - as ! j) < length (drop j as)" using l assms(2) by simp
  ultimately show ?thesis using nth_mem by metis
qed

lemma copyout_backed:
  assumes b: "backed m0 pt v0 as"
    and "length bs + j = length as" and "\<forall>a. a \<notin> set as \<longrightarrow> m a = m0 a"
  shows "\<exists>m'. copyout m pt (v0 + of_nat j) bs = (0, m') \<and> (\<forall>i<length bs. m' (as ! (j + i)) = bs ! i) \<and>
    (\<forall>a. a \<notin> set (drop j as) \<longrightarrow> m' a = m a)"
  using assms(2,3)
proof (induction bs arbitrary: j m rule: length_induct)
  case (1 bs)
  show ?case
  proof (cases "bs = []")
    case True
    then show ?thesis by (simp add: copyout.simps)
  next
    case False
    let ?va = "v0 + of_nat j"
    have j: "j < length as" using 1(2) False by (cases bs) auto
    have ua: "uaddr m pt ?va = Some (as ! j)" using backed_uaddr [OF b 1(3) j] .
    let ?pa = "walkaddr m pt (PGROUNDDOWN ?va)" and ?n = "min (page_left ?va) (length bs)"
    have pa: "?pa \<noteq> 0" "?pa + uint (?va - PGROUNDDOWN ?va) = as ! j"
      using ua by (auto simp: uaddr_def Let_def split: if_splits)
    let ?m = "store_bytes m (as ! j) (take ?n bs)"
    have adr: "as ! (j + i) = as ! j + int i" if "i < ?n" for i
      using backed_uaddr [OF b 1(3), of "j + i"] uaddr_step [of i ?va m pt] ua that 1(2) by (simp add: add.assoc)
    have n0: "0 < ?n" using page_left_pos False by simp
    have jn: "j + ?n \<le> length as" using 1(2) by simp
    have other: "?m a = m a" if "a \<notin> set (drop j as)" for a
      using chunk_addr [OF adr jn, of a] that by (auto simp: store_bytes_def)
    have agree: "?m a = m0 a" if "a \<notin> set as" for a
      using other [of a] that 1(3) by (metis in_set_dropD)
    have len: "length (drop ?n bs) + (j + ?n) = length as" "length (drop ?n bs) < length bs" using 1(2) n0 by auto
    from 1(1) [rule_format, OF len(2,1), of ?m] agree obtain m' where
      m': "copyout ?m pt (v0 + of_nat (j + ?n)) (drop ?n bs) = (0, m')"
      "\<forall>i<length (drop ?n bs). m' (as ! (j + ?n + i)) = drop ?n bs ! i"
      "\<forall>a. a \<notin> set (drop (j + ?n) as) \<longrightarrow> m' a = ?m a" by blast
    have "copyout ?m pt (PGROUNDDOWN ?va + 4096) (drop ?n bs) = (0, m')"
    proof (cases "page_left ?va \<le> length bs")
      case True
      then show ?thesis using m'(1) page_end [of ?va] by (simp add: min_def add.assoc)
    next
      case False
      then show ?thesis using m'(1) by (simp add: min_def copyout.simps)
    qed
    then have run: "copyout m pt ?va bs = (0, m')"
      using False pa by (simp add: copyout.simps [of m pt ?va bs] Let_def)
    have dis: "distinct as" using b by (simp add: backed_def)
    have "m' (as ! (j + i)) = bs ! i" if i: "i < length bs" for i
    proof (cases "i < ?n")
      case True
      have "as ! (j + i) \<notin> set (drop (j + ?n) as)"
        using dis True 1(2) by (auto simp: in_set_conv_nth nth_eq_iff_index_eq)
      then have "m' (as ! (j + i)) = ?m (as ! (j + i))" using m'(3) by blast
      then show ?thesis using adr [OF True] True by (simp add: store_bytes_def)
    next
      case False
      then show ?thesis using m'(2) i by (auto dest: spec [of _ "i - ?n"])
    qed
    moreover have "m' a = m a" if a: "a \<notin> set (drop j as)" for a
    proof -
      have "set (drop (j + ?n) as) \<subseteq> set (drop j as)" by (simp add: set_drop_subset_set_drop)
      then have "m' a = ?m a" using m'(3) a by blast
      then show ?thesis using other [OF a] by simp
    qed
    ultimately show ?thesis using run by blast
  qed
qed

end
