(* ===== verification/Vm_Theorems.thy ===== *)
theory Vm_Theorems
  imports Vm_Copy
begin

text \<open>The properties of page tables and of the copies between user and kernel memory.\<close>

section \<open>Entries and addresses\<close>

text \<open>
  a page-table entry holds a page and its permissions.  Whatever the address and the
  permission bits, the entry \<open>mappages\<close> writes gives back the page of the address and the
  permissions with the valid bit, and two addresses below \<open>MAXVA\<close> that use the same entry at each
  level are in the same page.
\<close>

theorem pte_roundtrip:
  assumes "perm < 1024"
  shows "PTE2PA (PA2PTE pa OR perm OR PTE_V) = PGROUNDDOWN pa \<and>
    PTE_FLAGS (PA2PTE pa OR perm OR PTE_V) = perm OR PTE_V \<and>
    (va < MAXVA \<and> vb < MAXVA \<and> (\<forall>l<3. PX l va = PX l vb) \<longrightarrow> PGROUNDDOWN va = PGROUNDDOWN vb)"
proof -
  have "PGROUNDDOWN va = PGROUNDDOWN vb" if "va < MAXVA" "vb < MAXVA" "\<forall>l<3. PX l va = PX l vb"
    using PX_inj [OF that(1,2)] that(3) by simp
  then show ?thesis using PTE2PA_PA2PTE [OF assms] PTE_FLAGS_PA2PTE [OF assms] by blast
qed

theorem pte_roundtrip_witness:
  "(22 :: 64 word) < 1024 \<and> PTE2PA (PA2PTE 0x87654321 OR 22 OR PTE_V) = PGROUNDDOWN 0x87654321 \<and>
   PTE_FLAGS (PA2PTE 0x87654321 OR 22 OR PTE_V) = 22 OR PTE_V \<and> PGROUNDDOWN 0x5123 = PGROUNDDOWN 0x5FFF"
proof -
  have "\<forall>l<3. PX l 0x5123 = PX l 0x5FFF" by (simp add: PX_def less_Suc_eq numeral_3_eq_3 drop_bit_eq_div)
  moreover have "(0x5123 :: 64 word) < MAXVA" "(0x5FFF :: 64 word) < MAXVA" by (simp_all add: MAXVA_def)
  moreover have "(22 :: 64 word) < 1024" by simp
  ultimately show ?thesis using pte_roundtrip [of 22 "0x87654321" "0x5123" "0x5FFF"] by blast
qed

section \<open>Copies\<close>

text \<open>
  C28: the page-wise copies from user memory read what a byte-wise copy reads.  \<open>copyin\<close> and
  \<open>copyinstr\<close>, which translate one address per page, return the same result and the same bytes
  as the loops that translate every address, for any memory, page table and length.
\<close>

theorem copyin_bytewise:
  "copyin m pt va n = copyin_ref m pt va n \<and> copyinstr m pt va n = copyinstr_ref m pt va n"
  by (simp add: copyin_eq_ref copyinstr_eq_ref)

text \<open>
  C27: what \<open>copyout\<close> stores, \<open>copyin\<close> reads.  If the user addresses are backed by bytes outside
  the page table, \<open>copyout\<close> succeeds, writes nothing but these bytes, and \<open>copyin\<close> from the same
  address returns what was written, whether or not the range crosses a page.
\<close>

theorem copyout_copyin:
  assumes "backed m pt va as" and "length bs = length as"
  shows "\<exists>m'. copyout m pt va bs = (0, m') \<and> copyin m' pt va (length bs) = (0, bs) \<and>
    (\<forall>a. a \<notin> set as \<longrightarrow> m' a = m a)"
proof -
  obtain m' where m': "copyout m pt va bs = (0, m')" "\<forall>i<length bs. m' (as ! i) = bs ! i"
    "\<forall>a. a \<notin> set as \<longrightarrow> m' a = m a"
    using copyout_backed [OF assms(1), of bs 0 m] assms(2) by auto
  have "copyin_ref m' pt va (length bs) = (0, map (\<lambda>i. m' (as ! i)) [0..<length bs])"
    by (rule copyin_ref_backed) (use backed_uaddr [OF assms(1) m'(3)] assms(2) in simp)
  moreover have "map (\<lambda>i. m' (as ! i)) [0..<length bs] = bs" using m'(2) by (intro nth_equalityI) simp_all
  ultimately show ?thesis using m' by (simp add: copyin_eq_ref)
qed

text \<open>A page table with one user page, at address 0x4000, for the addresses of page 0.\<close>

definition one_page :: bmem where
  "one_page = store64 (store64 (store64 (\<lambda>_. 0) 0x1000 (PA2PTE 0x2000 OR PTE_V))
     0x2000 (PA2PTE 0x3000 OR PTE_V)) 0x3000 (PA2PTE 0x4000 OR PTE_U OR PTE_V)"

lemma one_page_walk:
  assumes "\<And>a. a < 0x4000 \<Longrightarrow> m a = one_page a"
  shows "walkaddr m 0x1000 0 = 0x4000"
proof -
  have l: "load64 m a = load64 one_page a" if "a + 8 \<le> 0x4000" for a
    by (rule load64_cong) (use that in \<open>simp add: assms\<close>)
  have "load64 m 0x1000 = PA2PTE 0x2000 OR PTE_V" "load64 m 0x2000 = PA2PTE 0x3000 OR PTE_V"
    "load64 m 0x3000 = PA2PTE 0x4000 OR PTE_U OR PTE_V"
    by (simp_all add: l one_page_def load_store64 load_store64_other)
  then show ?thesis
    by (simp add: walkaddr_def MAXVA_def pte_addr_def PX_def Let_def PA2PTE_def PTE2PA_def PTE_V_def PTE_U_def)
qed

lemma one_page_uaddr:
  assumes "\<And>a. a < 0x4000 \<Longrightarrow> m a = one_page a" and "i < 3"
  shows "uaddr m 0x1000 (5 + of_nat i) = Some (0x4005 + int i)"
proof -
  have "uaddr m 0x1000 5 = Some 0x4005"
    using one_page_walk [OF assms(1)] by (simp add: uaddr_def PGROUNDDOWN_def Let_def)
  then show ?thesis using uaddr_step [of i 5 m "0x1000"] assms(2) by (simp add: page_left_def PGROUNDDOWN_def)
qed

lemma one_page_backed:
  assumes "\<And>a. a < 0x4000 \<Longrightarrow> m a = one_page a"
  shows "backed m 0x1000 5 [0x4005, 0x4006, 0x4007]"
proof -
  have "uaddr m' 0x1000 (5 + of_nat i) = Some (0x4005 + int i)"
    if "\<forall>a. a \<notin> {0x4005, 0x4006, 0x4007} \<longrightarrow> m' a = m a" and "i < 3" for m' i
    by (rule one_page_uaddr) (use that assms in auto)
  then show ?thesis by (auto simp: backed_def less_Suc_eq numeral_3_eq_3)
qed

theorem copyout_copyin_witness:
  "\<exists>m'. copyout one_page 0x1000 5 [1, 2, 3] = (0, m') \<and> copyin m' 0x1000 5 3 = (0, [1, 2, 3])"
  using copyout_copyin [OF one_page_backed, of one_page "[1, 2, 3]"] by (auto simp: numeral_3_eq_3)


section \<open>Running out of memory in fork\<close>

lemma pages_to_all: "\<exists>as. pages_to 0 (PGROUNDDOWN (0 + 0 - 1)) = 0 # as"
  unfolding pages_to_def by (subst upt_conv_Cons) simp_all

lemma pages_below_start: "0 < sz \<Longrightarrow> \<exists>is. pages_below 0 sz = 0 # is"
proof -
  assume "0 < sz"
  then have "0 < unat sz" by (simp add: word_less_nat_alt)
  then have "0 < (unat (sz - 0) + 4095) div 4096" by (simp add: div_greater_zero_iff)
  then show ?thesis using \<open>0 < sz\<close> unfolding pages_below_def by (subst upt_conv_Cons) simp_all
qed

text \<open>
  C29: \<open>uvmcopy\<close> panics when the first page cannot be allocated.  Copying an address space of at
  least one page with no page left does not return -1, as the error path means to: unmapping the
  zero pages copied so far asks \<open>uvmunmap\<close> for the range up to the last page of the address
  space, and the new table has no page 0.
\<close>

theorem uvmcopy_out_of_memory:
  assumes "bd_inv R s" and "\<And>k i. 8 \<le> k \<Longrightarrow> \<not> free_blk s k i" and "0 < sz"
    and "pte = walk_mem [2, 1] (mem s) old 0" and "pte \<noteq> 0" and "load64 (mem s) pte AND PTE_V \<noteq> 0"
    and "load64 (mem s) new = 0"
  shows "uvmcopy old new sz s = Inl (Panic ''uvmunmap: walk'')"
proof -
  have "firstk (word_of_int PGSIZE) = Some (int 8)" by (simp add: firstk_def firstk_loop.simps PGSIZE_def)
  then have k: "kalloc s = Inr (0, settle s)"
    using bd_malloc_none [OF assms(1), of _ 8] assms(2) by (simp add: kalloc_def)
  obtain as where as: "pages_to 0 (PGROUNDDOWN (0 + 0 - 1)) = 0 # as" using pages_to_all by blast
  obtain "is" where "is": "pages_below 0 sz = 0 # is" using pages_below_start [OF assms(3)] by blast
  have z: "PGROUNDDOWN 0 = 0" "(0 :: 64 word) < MAXVA" by (simp_all add: PGROUNDDOWN_def MAXVA_def)
  have "mem (settle s) = mem s" by (simp add: settle_def)
  moreover have "pte_addr new 2 0 = new" by (simp add: pte_addr_def PX_def)
  ultimately have "uvmunmap_page new True 0 (settle s) = Inl (Panic ''uvmunmap: walk'')"
    using assms(7) z by (simp add: uvmunmap_page_def walk_read monad_simps)
  then have "uvmunmap new 0 0 True (settle s) = Inl (Panic ''uvmunmap: walk'')"
    unfolding uvmunmap_def z as by (simp add: monad_simps)
  then show ?thesis
    using assms(4-6) k z unfolding uvmcopy_def "is" by (simp add: walk_read monad_simps)
qed


definition boot_vm :: vm_state where
  "boot_vm = \<lparr>hart = 0, cpus = (\<lambda>_. \<lparr>c_proc = None, noff = 0, intena = False\<rparr>),
     sie = (\<lambda>_. False), lks = (\<lambda>_. \<lparr>locked = False, lk_cpu = None\<rparr>), lktab = [],
     nxt = (\<lambda>_. 0), prv = (\<lambda>_. 0), nsizes = 0, bd_base = 0, bd_sizes_ptr = 0, bd_sizes = [],
     mem = one_page, kernel_pagetable = 0, satp = 0\<rparr>"

theorem uvmcopy_out_of_memory_witness:
  "\<exists>s :: vm_state. mem s = one_page \<and> uvmcopy 0x1000 0x5000 4096 s = Inl (Panic ''uvmunmap: walk'')"
proof -
  have ok: "length (lktab boot_vm) < NLOCK" "hart_ok boot_vm" by (simp_all add: boot_vm_def NLOCK_def hart_ok_def)
  obtain s where s: "bd_inv (boot_leaves 6 62) s" "nsizes s = 7" "bd_state.more s = bd_state.more boot_vm"
    using bd_init_ok [OF ok boot_heap_fits] by auto
  have m: "mem s = one_page" using s(3) by (cases s) (simp add: boot_vm_def)
  have f: "\<not> free_blk s k i" if "8 \<le> k" for k i using that s(2) by (simp add: free_blk_def node_def maxk_def)
  have w: "walk_mem [2, 1] one_page 0x1000 0 = 0x3000" "load64 one_page 0x3000 AND PTE_V \<noteq> 0"
    by (simp_all add: one_page_def load_store64 load_store64_other pte_addr_def PX_def Let_def PA2PTE_def PTE2PA_def PTE_V_def PTE_U_def)
  have "load64 one_page 0x5000 = load64 (\<lambda>_. 0) 0x5000" by (simp add: one_page_def load_store64_other)
  also have "\<dots> = 0" by (rule bit_word_eqI) (simp add: bit_load64)
  finally have "uvmcopy 0x1000 0x5000 4096 s = Inl (Panic ''uvmunmap: walk'')"
    using w by (intro uvmcopy_out_of_memory [OF s(1) f, of _ "0x3000"]) (simp_all add: m)
  then show ?thesis using m by blast
qed

end
