(* ===== verification/Proc.thy ===== *)
theory Proc
  imports Vm
begin

text \<open>
  Processes and scheduling: kernel/proc.c (but for \<open>fork\<close>, \<open>exit\<close> and \<open>userinit\<close>, which use the
  file system) and kernel/proc.h.  A process is its index in the table \<open>proc\<close>.  A function
  that gives up the processor is split where it does: \<open>sleep\<close> into \<open>sleep_begin\<close>, up to the switch
  to the scheduler and the scheduler's own code after it, and \<open>sleep_end\<close>, from the moment the
  process runs again; \<open>yield\<close> likewise.
\<close>

section \<open>State\<close>

definition NPROC :: nat where "NPROC = 64"

definition NCPU :: nat where "NCPU = 8"

definition NOFILE :: nat where "NOFILE = 16"

definition NPRIO :: int where "NPRIO = 10"

definition DEF_PRIO :: int where "DEF_PRIO = 5"

datatype procstate = UNUSED | SLEEPING | RUNNABLE | RUNNING | ZOMBIE

text \<open>The objects whose addresses the kernel sleeps on.\<close>

datatype chan = ProcChan nat | TicksChan | PipeRead int | PipeWrite int | LogChan nat
  | BufChan nat | InodeChan nat | ConsChan int | ConsRead int | DiskFree nat | DiskBuf nat

datatype code_addr = Forkret | Saved

record kcontext =
  ctx_ra :: code_addr
  ctx_sp :: "64 word"

record proc =
  p_state :: procstate
  parent :: "nat option"
  chan :: "chan option"
  killed :: bool
  xstate :: int
  pid :: int
  priority :: int
  kstack :: "64 word"
  psz :: "64 word"
  pagetable :: int
  tf :: int
  p_context :: kcontext
  ofile :: "nat \<Rightarrow> nat option"
  cwd :: "nat option"
  p_name :: "byte list"
  cmd :: int

text \<open>The nodes of the priority queues are the two fields of \<open>struct list_proc\<close>, by address.\<close>

record pstate = vm_state +
  ptable :: "nat \<Rightarrow> proc"
  prio :: "int \<Rightarrow> int"
  lp_p :: "int \<Rightarrow> nat"
  lp_next :: "int \<Rightarrow> int"
  initproc :: "nat option"
  nextpid :: int

definition get_proc :: "nat \<Rightarrow> ('a pstate_scheme, proc) kmon" where
  "get_proc p = gets (\<lambda>s. ptable s p)"

definition upd_proc :: "nat \<Rightarrow> (proc \<Rightarrow> proc) \<Rightarrow> ('a pstate_scheme, unit) kmon" where
  "upd_proc p f = modify (\<lambda>s. s\<lparr>ptable := (ptable s)(p := f (ptable s p))\<rparr>)"

section \<open>The priority queues\<close>

definition prio_index :: "int \<Rightarrow> ('a pstate_scheme, int) kmon" where
  "prio_index i = (if 0 \<le> i \<and> i < NPRIO then gets (\<lambda>s. prio s i) else failM Out_Of_Bounds)"

definition set_prio :: "int \<Rightarrow> int \<Rightarrow> ('a pstate_scheme, unit) kmon" where
  "set_prio i h = (if 0 \<le> i \<and> i < NPRIO then modify (\<lambda>s. s\<lparr>prio := (prio s)(i := h)\<rparr>)
     else failM Out_Of_Bounds)"

partial_function (option) lp_last :: "(int \<Rightarrow> int) \<Rightarrow> int \<Rightarrow> int option" where
  "lp_last N l = (if l \<noteq> 0 \<and> N l \<noteq> 0 then lp_last N (N l) else Some l)"

definition insert_into_prio_queue :: "nat \<Rightarrow> ('a pstate_scheme, unit) kmon" where
  "insert_into_prio_queue p =
     bindM (bd_malloc 16) (\<lambda>new.
     if new = 0 then failM Null_Deref
     else thenM (modify (\<lambda>s. s\<lparr>lp_next := (lp_next s)(new := 0)\<rparr>))
     (thenM (modify (\<lambda>s. s\<lparr>lp_p := (lp_p s)(new := p)\<rparr>))
     (bindM (get_proc p) (\<lambda>pr.
      bindM (prio_index (priority pr)) (\<lambda>h.
      if h = 0 then set_prio (priority pr) new
      else bindM (gets (\<lambda>s. lp_last (lp_next s) h)) (\<lambda>r.
        case r of None \<Rightarrow> failM Diverges
        | Some lst \<Rightarrow> modify (\<lambda>s. s\<lparr>lp_next := (lp_next s)(lst := new)\<rparr>)))))))"

text \<open>The search of \<open>remove_from_prio_queue\<close>: the node before and the node of \<open>p\<close>, if any.\<close>

partial_function (option) lp_find ::
    "(int \<Rightarrow> int) \<Rightarrow> (int \<Rightarrow> nat) \<Rightarrow> nat \<Rightarrow> int \<Rightarrow> int \<Rightarrow> (int \<times> int) option option" where
  "lp_find N P p prev old =
     (if old = 0 then Some None
      else if P old = p then Some (Some (prev, old)) else lp_find N P p old (N old))"

definition remove_from_prio_queue :: "nat \<Rightarrow> ('a pstate_scheme, unit) kmon" where
  "remove_from_prio_queue p =
     bindM (get_proc p) (\<lambda>pr.
     bindM (prio_index (priority pr)) (\<lambda>head.
     bindM (gets (\<lambda>s. lp_find (lp_next s) (lp_p s) p 0 head)) (\<lambda>r.
     case r of None \<Rightarrow> failM Diverges
     | Some None \<Rightarrow> set_prio (priority pr) head
     | Some (Some (prev, old)) \<Rightarrow>
         bindM (gets (\<lambda>s. lp_next s old)) (\<lambda>nx.
         if old = head then thenM (bd_free old) (set_prio (priority pr) nx)
         else thenM (modify (\<lambda>s. s\<lparr>lp_next := (lp_next s)(prev := nx)\<rparr>))
             (thenM (bd_free old) (set_prio (priority pr) head))))))"

section \<open>The current process\<close>

definition myproc :: "('a mach_scheme, nat option) kmon" where
  "myproc = thenM push_off (bindM mycpu (\<lambda>c. thenM pop_off (ret (c_proc c))))"

text \<open>Code that follows the pointer \<open>myproc()\<close> returns.\<close>

definition the_proc :: "('a mach_scheme, nat) kmon" where
  "the_proc = bindM myproc (\<lambda>r. case r of None \<Rightarrow> failM Null_Deref | Some p \<Rightarrow> ret p)"

section \<open>Allocation of processes\<close>

definition allocpid :: "('a pstate_scheme, int) kmon" where
  "allocpid =
     thenM (acquire PidLock)
    (bindM (gets nextpid) (\<lambda>n.
     thenM (modify (\<lambda>s. s\<lparr>nextpid := c_int (nextpid s + 1)\<rparr>))
    (thenM (release PidLock) (ret n))))"

text \<open>\<open>trampoline\<close> is the linker's symbol for the trap code.\<close>

definition proc_pagetable :: "64 word \<Rightarrow> nat \<Rightarrow> ('a pstate_scheme, int) kmon" where
  "proc_pagetable trampoline p =
     bindM uvmcreate (\<lambda>pt.
     thenM (mappages pt TRAMPOLINE 4096 trampoline (PTE_R OR PTE_X))
    (bindM (get_proc p) (\<lambda>pr.
     thenM (mappages pt TRAPFRAME 4096 (word_of_int (tf pr)) (PTE_R OR PTE_W))
    (ret pt))))"

definition proc_freepagetable :: "int \<Rightarrow> 64 word \<Rightarrow> ('a pstate_scheme, unit) kmon" where
  "proc_freepagetable pt sz =
     thenM (uvmunmap pt TRAMPOLINE 4096 False)
    (thenM (uvmunmap pt TRAPFRAME 4096 False)
    (whenM (0 < sz) (uvmfree pt sz)))"

text \<open>The search for an unused slot: its lock is held on return.\<close>

fun find_unused :: "nat list \<Rightarrow> ('a pstate_scheme, nat option) kmon" where
  "find_unused [] = ret None"
| "find_unused (p # ps) =
     thenM (acquire (ProcLock p))
    (bindM (get_proc p) (\<lambda>pr.
     if p_state pr = UNUSED then ret (Some p)
     else thenM (release (ProcLock p)) (find_unused ps)))"

definition allocproc :: "64 word \<Rightarrow> ('a pstate_scheme, nat option) kmon" where
  "allocproc trampoline =
     bindM (find_unused [0..<NPROC]) (\<lambda>found.
     case found of None \<Rightarrow> ret None
     | Some p \<Rightarrow>
         bindM allocpid (\<lambda>n.
         thenM (upd_proc p (\<lambda>q. q\<lparr>pid := n\<rparr>))
        (bindM kalloc (\<lambda>pg.
         thenM (upd_proc p (\<lambda>q. q\<lparr>tf := pg\<rparr>))
        (if pg = 0 then thenM (release (ProcLock p)) (ret None)
         else bindM (proc_pagetable trampoline p) (\<lambda>pt.
         thenM (upd_proc p (\<lambda>q. q\<lparr>pagetable := pt\<rparr>))
        (thenM (upd_proc p (\<lambda>q. q\<lparr>priority := DEF_PRIO\<rparr>))
        (thenM (upd_proc p (\<lambda>q. q\<lparr>p_context := \<lparr>ctx_ra = Forkret, ctx_sp = kstack q + 4096\<rparr>\<rparr>))
        (ret (Some p))))))))))"

definition freeproc :: "nat \<Rightarrow> ('a pstate_scheme, unit) kmon" where
  "freeproc p =
     bindM (get_proc p) (\<lambda>pr.
     thenM (whenM (tf pr \<noteq> 0) (kfree (tf pr)))
    (thenM (upd_proc p (\<lambda>q. q\<lparr>tf := 0\<rparr>))
    (thenM (whenM (pagetable pr \<noteq> 0) (proc_freepagetable (pagetable pr) (psz pr)))
    (thenM (whenM (cmd pr \<noteq> 0) (bd_free (cmd pr)))
    (upd_proc p (\<lambda>q. q\<lparr>cmd := 0, priority := 0, pagetable := 0, psz := 0, pid := 0,
       parent := None, p_name := (p_name q)[0 := 0], chan := None, killed := False,
       xstate := 0, p_state := UNUSED\<rparr>))))))"

definition procinit :: "('a pstate_scheme, unit) kmon" where
  "procinit =
     thenM (initlock PrioLock)
    (thenM (modify (\<lambda>s. s\<lparr>prio := (\<lambda>i. if 0 \<le> i \<and> i < NPRIO then 0 else prio s i)\<rparr>))
    (thenM (initlock PidLock)
    (thenM (forM [0..<NPROC] (\<lambda>p.
       thenM (initlock (ProcLock p))
      (bindM kalloc (\<lambda>pa.
       if pa = 0 then panic ''kalloc''
       else (let va = KSTACK (of_nat p) in
         thenM (kvmmap va (word_of_int pa) 4096 (PTE_R OR PTE_W))
         (upd_proc p (\<lambda>q. q\<lparr>kstack := va\<rparr>)))))))
    kvminithart)))"

text \<open>\<open>sz\<close> is a \<open>uint\<close>: the size is cut to 32 bits on the way.\<close>

definition growproc :: "int \<Rightarrow> ('a pstate_scheme, int) kmon" where
  "growproc n =
     bindM the_proc (\<lambda>p.
     bindM (get_proc p) (\<lambda>pr.
     let sz = ucast (psz pr) :: 32 word in
     if 0 < n
     then bindM (uvmalloc (pagetable pr) (ucast sz) (ucast (sz + word_of_int n))) (\<lambda>r.
       let sz = ucast r :: 32 word in
       if sz = 0 then ret (- 1) else thenM (upd_proc p (\<lambda>q. q\<lparr>psz := ucast sz\<rparr>)) (ret 0))
     else if n < 0
     then bindM (uvmdealloc (pagetable pr) (ucast sz) (ucast (sz + word_of_int n))) (\<lambda>r.
       let sz = ucast r :: 32 word in thenM (upd_proc p (\<lambda>q. q\<lparr>psz := ucast sz\<rparr>)) (ret 0))
     else thenM (upd_proc p (\<lambda>q. q\<lparr>psz := ucast sz\<rparr>)) (ret 0)))"

section \<open>Scheduling\<close>

partial_function (option) lp_runnable ::
    "(int \<Rightarrow> int) \<Rightarrow> (int \<Rightarrow> nat) \<Rightarrow> (nat \<Rightarrow> proc) \<Rightarrow> int \<Rightarrow> nat option option" where
  "lp_runnable N P tab l =
     (if l = 0 then Some None
      else if p_state (tab (P l)) = RUNNABLE then Some (Some (P l)) else lp_runnable N P tab (N l))"

fun pick_loop :: "int list \<Rightarrow> ('a pstate_scheme, nat option) kmon" where
  "pick_loop [] = ret None"
| "pick_loop (i # is) =
     bindM (gets (\<lambda>s. lp_runnable (lp_next s) (lp_p s) (ptable s) (prio s i))) (\<lambda>r.
     case r of None \<Rightarrow> failM Diverges
     | Some None \<Rightarrow> pick_loop is
     | Some (Some p) \<Rightarrow> thenM (acquire (ProcLock p)) (ret (Some p)))"

definition pick_highest_priority_runnable_proc :: "('a pstate_scheme, nat option) kmon" where
  "pick_highest_priority_runnable_proc =
     thenM (acquire PrioLock)
    (bindM (pick_loop [0..NPRIO - 1]) (\<lambda>r.
     case r of Some p \<Rightarrow> ret (Some p)
     | None \<Rightarrow> thenM (release PrioLock) (ret None)))"

text \<open>
  One round of \<open>scheduler\<close> up to \<open>swtch\<close>: the process it switches to, if any.  (Turning
  interrupts on and off again only lets pending ones in.)
\<close>

definition scheduler_round :: "('a pstate_scheme, nat option) kmon" where
  "scheduler_round =
     thenM intr_on (thenM intr_off
    (bindM pick_highest_priority_runnable_proc (\<lambda>r.
     case r of None \<Rightarrow> ret None
     | Some p \<Rightarrow>
         thenM (upd_proc p (\<lambda>q. q\<lparr>p_state := RUNNING\<rparr>))
        (thenM (upd_mycpu (\<lambda>c. c\<lparr>c_proc := Some p\<rparr>))
        (thenM (remove_from_prio_queue p)
        (thenM (insert_into_prio_queue p)
        (thenM (release PrioLock) (ret (Some p)))))))))"

text \<open>What \<open>scheduler\<close> does when the process it switched to has switched back.\<close>

definition scheduler_back :: "nat \<Rightarrow> ('a pstate_scheme, unit) kmon" where
  "scheduler_back p =
     thenM (upd_mycpu (\<lambda>c. c\<lparr>c_proc := None\<rparr>))
    (thenM (upd_mycpu (\<lambda>c. c\<lparr>intena := False\<rparr>))
    (release (ProcLock p)))"

text \<open>\<open>sched\<close> up to \<open>swtch\<close>; it returns the \<open>intena\<close> to restore.\<close>

definition sched :: "('a pstate_scheme, bool) kmon" where
  "sched =
     bindM the_proc (\<lambda>p.
     bindM (holding (ProcLock p)) (\<lambda>h.
     if \<not> h then panic ''sched p->lock''
     else bindM mycpu (\<lambda>c.
     if noff c \<noteq> 1 then panic ''sched locks''
     else bindM (get_proc p) (\<lambda>pr.
     if p_state pr = RUNNING then panic ''sched running''
     else bindM intr_get (\<lambda>i.
     if i then panic ''sched interruptible''
     else ret (intena c))))))"

definition sched_resume :: "bool \<Rightarrow> ('a pstate_scheme, unit) kmon" where
  "sched_resume ie = upd_mycpu (\<lambda>c. c\<lparr>intena := ie\<rparr>)"

definition yield_begin :: "('a pstate_scheme, bool) kmon" where
  "yield_begin =
     bindM the_proc (\<lambda>p.
     thenM (acquire (ProcLock p))
    (thenM (upd_proc p (\<lambda>q. q\<lparr>p_state := RUNNABLE\<rparr>))
    (bindM sched (\<lambda>ie. thenM (scheduler_back p) (ret ie)))))"

definition yield_end :: "bool \<Rightarrow> ('a pstate_scheme, unit) kmon" where
  "yield_end ie =
     thenM (sched_resume ie) (bindM the_proc (\<lambda>p. release (ProcLock p)))"

definition sleep_begin :: "chan \<Rightarrow> lockid \<Rightarrow> ('a pstate_scheme, bool) kmon" where
  "sleep_begin ch lk =
     bindM the_proc (\<lambda>p.
     thenM (whenM (lk \<noteq> ProcLock p) (thenM (acquire (ProcLock p)) (release lk)))
    (thenM (upd_proc p (\<lambda>q. q\<lparr>chan := Some ch\<rparr>))
    (thenM (upd_proc p (\<lambda>q. q\<lparr>p_state := SLEEPING\<rparr>))
    (bindM sched (\<lambda>ie. thenM (scheduler_back p) (ret ie))))))"

definition sleep_end :: "lockid \<Rightarrow> bool \<Rightarrow> ('a pstate_scheme, unit) kmon" where
  "sleep_end lk ie =
     thenM (sched_resume ie)
    (bindM the_proc (\<lambda>p.
     thenM (upd_proc p (\<lambda>q. q\<lparr>chan := None\<rparr>))
    (whenM (lk \<noteq> ProcLock p) (thenM (release (ProcLock p)) (acquire lk)))))"

definition wakeup :: "chan \<Rightarrow> ('a pstate_scheme, unit) kmon" where
  "wakeup ch = forM [0..<NPROC] (\<lambda>p.
     thenM (acquire (ProcLock p))
    (bindM (get_proc p) (\<lambda>pr.
     thenM (whenM (p_state pr = SLEEPING \<and> chan pr = Some ch)
       (upd_proc p (\<lambda>q. q\<lparr>p_state := RUNNABLE\<rparr>)))
    (release (ProcLock p)))))"

definition wakeup1 :: "nat \<Rightarrow> ('a pstate_scheme, unit) kmon" where
  "wakeup1 p =
     bindM (holding (ProcLock p)) (\<lambda>h.
     if \<not> h then panic ''wakeup1''
     else bindM (get_proc p) (\<lambda>pr.
       whenM (chan pr = Some (ProcChan p) \<and> p_state pr = SLEEPING)
         (upd_proc p (\<lambda>q. q\<lparr>p_state := RUNNABLE\<rparr>))))"

section \<open>Killing, priorities, parents\<close>

fun kill_loop :: "int \<Rightarrow> nat list \<Rightarrow> ('a pstate_scheme, int) kmon" where
  "kill_loop n [] = ret (- 1)"
| "kill_loop n (p # ps) =
     thenM (acquire (ProcLock p))
    (bindM (get_proc p) (\<lambda>pr.
     if pid pr = n
     then thenM (upd_proc p (\<lambda>q. q\<lparr>killed := True\<rparr>))
         (thenM (whenM (p_state pr = SLEEPING) (upd_proc p (\<lambda>q. q\<lparr>p_state := RUNNABLE\<rparr>)))
         (thenM (release (ProcLock p)) (ret 0)))
     else thenM (release (ProcLock p)) (kill_loop n ps)))"

definition kill :: "int \<Rightarrow> ('a pstate_scheme, int) kmon" where
  "kill n = kill_loop n [0..<NPROC]"

fun nice_loop :: "int \<Rightarrow> int \<Rightarrow> nat list \<Rightarrow> ('a pstate_scheme, int) kmon" where
  "nice_loop n pr [] = ret 0"
| "nice_loop n pr (p # ps) =
     bindM (get_proc p) (\<lambda>q.
     if pid q = n
     then thenM (remove_from_prio_queue p)
         (thenM (upd_proc p (\<lambda>q. q\<lparr>priority := pr\<rparr>))
         (thenM (insert_into_prio_queue p) (ret 1)))
     else nice_loop n pr ps)"

definition nice :: "int \<Rightarrow> int \<Rightarrow> ('a pstate_scheme, int) kmon" where
  "nice n pr = nice_loop n pr [0..<NPROC]"

definition reparent :: "nat \<Rightarrow> ('a pstate_scheme, unit) kmon" where
  "reparent p = forM [0..<NPROC] (\<lambda>pp.
     bindM (get_proc pp) (\<lambda>q.
     whenM (parent q = Some p)
      (thenM (acquire (ProcLock pp))
      (bindM (gets initproc) (\<lambda>ip.
       thenM (upd_proc pp (\<lambda>q. q\<lparr>parent := ip\<rparr>))
      (release (ProcLock pp)))))))"

section \<open>Waiting for a child\<close>

text \<open>A call of \<open>copyout\<close> to the memory of a process, if the condition holds.\<close>

definition copyoutM :: "int \<Rightarrow> 64 word \<Rightarrow> byte list \<Rightarrow> ('a kmem_scheme, int) kmon" where
  "copyoutM pt dstva bs = (\<lambda>s. let (r, m) = copyout (mem s) pt dstva bs in Inr (r, s\<lparr>mem := m\<rparr>))"

definition user_store :: "bool \<Rightarrow> proc \<Rightarrow> 64 word \<Rightarrow> byte list \<Rightarrow> ('a kmem_scheme, int) kmon" where
  "user_store b pr ua bs = (if b then copyoutM (pagetable pr) ua bs else ret 0)"

text \<open>One scan of the table by \<open>wait\<close>: the result of the call if it returns, or whether there
  are children.\<close>

datatype wait_scan = Wait_Return int | Wait_Kids bool

fun wait_loop :: "nat \<Rightarrow> 64 word \<Rightarrow> bool \<Rightarrow> nat list \<Rightarrow> ('a pstate_scheme, wait_scan) kmon" where
  "wait_loop p ua kids [] = ret (Wait_Kids kids)"
| "wait_loop p ua kids (np # nps) =
     bindM (get_proc np) (\<lambda>q.
     if parent q = Some p
     then thenM (acquire (ProcLock np))
       (bindM (get_proc np) (\<lambda>q.
        if p_state q = ZOMBIE
        then bindM (get_proc p) (\<lambda>pr.
          bindM (user_store (ua \<noteq> 0) pr ua (le_bytes 4 (word_of_int (xstate q) :: 32 word))) (\<lambda>r.
          if r < 0
          then thenM (release (ProcLock np)) (thenM (release (ProcLock p)) (ret (Wait_Return (- 1))))
          else thenM (freeproc np)
              (thenM (release (ProcLock np))
              (thenM (release (ProcLock p)) (ret (Wait_Return (pid q)))))))
        else thenM (release (ProcLock np)) (wait_loop p ua True nps)))
     else wait_loop p ua kids nps)"

text \<open>
  \<open>wait\<close> holds the lock of the process from its start.  Each round of its loop either returns or
  goes to sleep on the process itself; after the sleep the next round starts with the scan.
\<close>

datatype 'a outcome = Returned 'a | Slept bool

definition wait_round :: "64 word \<Rightarrow> ('a pstate_scheme, int outcome) kmon" where
  "wait_round ua =
     bindM the_proc (\<lambda>p.
     bindM (wait_loop p ua False [0..<NPROC]) (\<lambda>r.
     case r of Wait_Return v \<Rightarrow> ret (Returned v)
     | Wait_Kids kids \<Rightarrow>
         bindM (get_proc p) (\<lambda>pr.
         if \<not> kids \<or> killed pr then thenM (release (ProcLock p)) (ret (Returned (- 1)))
         else bindM (sleep_begin (ProcChan p) (ProcLock p)) (\<lambda>ie. ret (Slept ie)))))"

definition wait_begin :: "64 word \<Rightarrow> ('a pstate_scheme, int outcome) kmon" where
  "wait_begin ua = bindM the_proc (\<lambda>p. thenM (acquire (ProcLock p)) (wait_round ua))"

definition wait_again :: "bool \<Rightarrow> 64 word \<Rightarrow> ('a pstate_scheme, int outcome) kmon" where
  "wait_again ie ua = bindM the_proc (\<lambda>p. thenM (sleep_end (ProcLock p) ie) (wait_round ua))"

section \<open>Copies to and from a user or a kernel address\<close>

definition either_copyout :: "bool \<Rightarrow> 64 word \<Rightarrow> byte list \<Rightarrow> ('a pstate_scheme, int) kmon" where
  "either_copyout user_dst dst src =
     bindM myproc (\<lambda>p.
     if user_dst
     then (case p of None \<Rightarrow> failM Null_Deref
       | Some p \<Rightarrow> bindM (get_proc p) (\<lambda>pr. copyoutM (pagetable pr) dst src))
     else thenM (modify (\<lambda>s. s\<lparr>mem := store_bytes (mem s) (uint dst) src\<rparr>)) (ret 0))"

definition either_copyin :: "bool \<Rightarrow> 64 word \<Rightarrow> nat \<Rightarrow> ('a pstate_scheme, int \<times> byte list) kmon" where
  "either_copyin user_src src len =
     bindM myproc (\<lambda>p.
     if user_src
     then (case p of None \<Rightarrow> failM Null_Deref
       | Some p \<Rightarrow> bindM (get_proc p) (\<lambda>pr. gets (\<lambda>s. copyin (mem s) (pagetable pr) src len)))
     else gets (\<lambda>s. (0, load_bytes (mem s) (uint src) len)))"

end
