(* ===== verification/Proc_Queue.thy ===== *)
theory Proc_Queue
  imports Proc Allocator
begin

text \<open>
  The priority queues of kernel/proc.c are singly linked lists of nodes taken from the allocator.
  They refine one list of processes per priority: \<open>insert_into_prio_queue\<close> appends at the end and
  \<open>remove_from_prio_queue\<close> removes the first occurrence.  The contract is a locale, and the
  rotation of a process by the scheduler is proved from it.
\<close>

section \<open>Linked lists\<close>

fun lpath :: "(int \<Rightarrow> int) \<Rightarrow> int \<Rightarrow> int list \<Rightarrow> bool" where
  "lpath N h [] \<longleftrightarrow> h = 0"
| "lpath N h (n # ns) \<longleftrightarrow> h = n \<and> n \<noteq> 0 \<and> lpath N (N n) ns"

lemma lpath_cong: "(\<And>n. n \<in> set ns \<Longrightarrow> N' n = N n) \<Longrightarrow> lpath N' h ns = lpath N h ns"
  by (induction ns arbitrary: h) auto

lemma lpath_0: "lpath N 0 ns \<longleftrightarrow> ns = []"
  by (cases ns) auto

lemma lpath_hd: "lpath N h ns \<Longrightarrow> ns \<noteq> [] \<Longrightarrow> h = hd ns \<and> h \<noteq> 0"
  by (cases ns) auto

lemma lp_last_eq: "lpath N h ns \<Longrightarrow> ns \<noteq> [] \<Longrightarrow> lp_last N h = Some (last ns)"
proof (induction ns arbitrary: h)
  case (Cons n ns)
  show ?case
  proof (cases ns)
    case Nil
    then show ?thesis using Cons.prems by (subst lp_last.simps) simp
  next
    case (Cons m ms)
    have "lp_last N (N n) = Some (last ns)" using Cons.IH Cons.prems Cons by simp
    then show ?thesis using Cons.prems Cons by (subst lp_last.simps) simp
  qed
qed simp

lemma lpath_append:
  assumes "lpath N h ns" and "distinct ns" and "new \<notin> set ns" and "new \<noteq> 0" and "N new = 0"
    and "ns \<noteq> []"
  shows "lpath (N(last ns := new)) h (ns @ [new])"
  using assms
proof (induction ns arbitrary: h)
  case (Cons n ns)
  show ?case
  proof (cases ns)
    case Nil
    then show ?thesis using Cons.prems by auto
  next
    case (Cons m ms)
    have ne: "ns \<noteq> []" using Cons by simp
    have "lpath (N(last ns := new)) (N n) (ns @ [new])"
      by (rule Cons.IH) (use Cons.prems ne in simp_all)
    moreover have "(N(last ns := new)) n = N n" using Cons.prems(2) ne last_in_set [OF ne] by auto
    moreover have "last (n # ns) = last ns" using ne by simp
    ultimately show ?thesis using Cons.prems(1) by (simp only: append_Cons lpath.simps) blast
  qed
qed simp

lemma lp_find_eq:
  assumes "lpath N h ns"
  shows "lp_find N P p prev h = Some (if p \<in> set (map P ns)
    then Some (last (prev # takeWhile (\<lambda>n. P n \<noteq> p) ns), hd (dropWhile (\<lambda>n. P n \<noteq> p) ns)) else None)"
  using assms
proof (induction ns arbitrary: h prev)
  case Nil
  then show ?case by (subst lp_find.simps) simp
next
  case (Cons n ns)
  then show ?case by (subst lp_find.simps) auto
qed

lemma lpath_remove_mid:
  assumes "lpath N h (us @ x # old # vs)" and "distinct (us @ x # old # vs)"
  shows "lpath (N(x := N old)) h (us @ x # vs)"
  using assms
proof (induction us arbitrary: h)
  case Nil
  have "lpath (N(x := N old)) (N old) vs = lpath N (N old) vs"
    by (rule lpath_cong) (use Nil.prems(2) in auto)
  moreover have "(N(x := N old)) x = N old" by simp
  ultimately show ?case using Nil.prems(1) by (simp only: append_Nil lpath.simps) blast
qed auto

lemma split_first:
  assumes "p \<in> set (map P ns)"
  obtains us x vs where "ns = us @ x # vs" and "P x = p" and "\<forall>u\<in>set us. P u \<noteq> p"
    and "takeWhile (\<lambda>n. P n \<noteq> p) ns = us" and "dropWhile (\<lambda>n. P n \<noteq> p) ns = x # vs"
proof -
  let ?us = "takeWhile (\<lambda>n. P n \<noteq> p) ns" and ?d = "dropWhile (\<lambda>n. P n \<noteq> p) ns"
  have "?d \<noteq> []" using assms by (auto simp: dropWhile_eq_Nil_conv)
  then obtain x vs where d: "?d = x # vs" by (cases ?d) auto
  have "P x = p" using hd_dropWhile [of "\<lambda>n. P n \<noteq> p" ns] d by simp
  moreover have "ns = ?us @ x # vs" using takeWhile_dropWhile_id [of "\<lambda>n. P n \<noteq> p" ns] d by simp
  moreover have "\<forall>u\<in>set ?us. P u \<noteq> p" using set_takeWhileD by fastforce
  ultimately show thesis using that d by blast
qed

lemma remove1_split: "\<forall>u\<in>set us. P u \<noteq> p \<Longrightarrow> P x = p \<Longrightarrow>
    remove1 p (map P (us @ x # vs)) = map P (us @ vs)"
  by (induction us) auto

section \<open>The representation\<close>

text \<open>
  \<open>nodes R s Q\<close>: the queue of priority \<open>i\<close> runs through the nodes \<open>Q i\<close>, no node is on two
  queues, and each is a block handed out by the allocator.  \<open>prio_rep R s q\<close>: the processes on
  queue \<open>i\<close> are \<open>q i\<close>.
\<close>

definition nodes :: "nat set \<Rightarrow> 'a pstate_scheme \<Rightarrow> (int \<Rightarrow> int list) \<Rightarrow> bool" where
  "nodes R s Q \<longleftrightarrow> (\<forall>i. 0 \<le> i \<and> i < NPRIO \<longrightarrow> lpath (lp_next s) (prio s i) (Q i) \<and> distinct (Q i)) \<and>
     (\<forall>i j. i \<noteq> j \<longrightarrow> set (Q i) \<inter> set (Q j) = {}) \<and> (\<forall>i. \<not> (0 \<le> i \<and> i < NPRIO) \<longrightarrow> Q i = []) \<and>
     (\<forall>i. \<forall>n\<in>set (Q i). \<exists>z. (n, z) \<in> handed R s)"

definition prio_rep :: "nat set \<Rightarrow> 'a pstate_scheme \<Rightarrow> (int \<Rightarrow> nat list) \<Rightarrow> bool" where
  "prio_rep R s q \<longleftrightarrow> bd_inv R s \<and> (\<exists>Q. nodes R s Q \<and> q = (\<lambda>i. map (lp_p s) (Q i)))"

lemma pstate_more:
  assumes "bd_state.more t = bd_state.more (s :: 'a pstate_scheme)"
  shows "mem t = mem s" "kernel_pagetable t = kernel_pagetable s" "satp t = satp s"
    "ptable t = ptable s" "prio t = prio s" "lp_p t = lp_p s" "lp_next t = lp_next s"
    "initproc t = initproc s" "nextpid t = nextpid s" "pstate.more t = pstate.more s"
  using assms by (cases s; cases t; simp)+


lemma pstate_lock_st [simp]:
  fixes s :: "'a pstate_scheme"
  shows "ptable (lock_st l s) = ptable s" "prio (lock_st l s) = prio s" "lp_p (lock_st l s) = lp_p s"
    "lp_next (lock_st l s) = lp_next s" "initproc (lock_st l s) = initproc s" "mem (lock_st l s) = mem s"
    "nextpid (lock_st l s) = nextpid s" "pstate.more (lock_st l s) = pstate.more s"
  and pstate_unlock_st [simp]:
    "ptable (unlock_st l s) = ptable s" "prio (unlock_st l s) = prio s" "lp_p (unlock_st l s) = lp_p s"
    "lp_next (unlock_st l s) = lp_next s" "initproc (unlock_st l s) = initproc s" "mem (unlock_st l s) = mem s"
    "nextpid (unlock_st l s) = nextpid s" "pstate.more (unlock_st l s) = pstate.more s"
  and pstate_settle [simp]:
    "ptable (settle s) = ptable s" "prio (settle s) = prio s" "lp_p (settle s) = lp_p s"
    "lp_next (settle s) = lp_next s" "initproc (settle s) = initproc s" "mem (settle s) = mem s"
    "nextpid (settle s) = nextpid s" "pstate.more (settle s) = pstate.more s"
  by (simp_all add: lock_st_def push_st_def unlock_st_def pop_st_def settle_def)

lemma bd_inv_lock_st: "bd_inv R s \<Longrightarrow> l \<noteq> BdLock \<Longrightarrow> bd_inv R (lock_st l s)"
  by (simp add: bd_inv_def)

lemma bd_inv_unlock_st:
  "bd_inv R s \<Longrightarrow> l \<noteq> BdLock \<Longrightarrow> 0 < noff (cpus s (hart s)) \<Longrightarrow> bd_inv R (unlock_st l s)"
  by (simp add: bd_inv_def hart_ok_unlock_st)

lemma handed_lock_st [simp]: "handed R (lock_st l s) = handed R s" "handed R (unlock_st l s) = handed R s"
    "handed R (settle s) = handed R s"
  by (simp_all add: handed_def)

text \<open>What the operations on the queues leave alone.\<close>

definition lp_frame :: "'a pstate_scheme \<Rightarrow> 'a pstate_scheme \<Rightarrow> bool" where
  "lp_frame s t \<longleftrightarrow> ptable t = ptable s \<and> mem t = mem s \<and> kernel_pagetable t = kernel_pagetable s \<and>
     satp t = satp s \<and> initproc t = initproc s \<and> nextpid t = nextpid s \<and>
     pstate.more t = pstate.more s \<and> hart t = hart s \<and> cpus (settle t) = cpus (settle s) \<and> sie t = sie s \<and>
     lks t = lks s \<and> lktab t = lktab s"

lemma bd_inv_lp [simp]:
  "bd_inv R (s\<lparr>lp_next := x\<rparr>) = bd_inv R s" "bd_inv R (s\<lparr>lp_p := y\<rparr>) = bd_inv R s"
  "bd_inv R (s\<lparr>prio := z\<rparr>) = bd_inv R s"
  and handed_lp [simp]:
  "handed R (s\<lparr>lp_next := x\<rparr>) = handed R s" "handed R (s\<lparr>lp_p := y\<rparr>) = handed R s"
  "handed R (s\<lparr>prio := z\<rparr>) = handed R s"
  by (simp_all add: bd_inv_def handed_def hart_ok_def lock_free_def
      bd_cong [of "s\<lparr>lp_next := x\<rparr>" s] bd_cong [of "s\<lparr>lp_p := y\<rparr>" s] bd_cong [of "s\<lparr>prio := z\<rparr>" s])

text \<open>There is memory for a node.\<close>

definition room :: "'a bd_state_scheme \<Rightarrow> bool" where
  "room s \<longleftrightarrow> (\<exists>k i. free_blk s k i)"

lemma room_lp [simp]:
  "room (s\<lparr>lp_next := x\<rparr>) = room s" "room (s\<lparr>lp_p := y\<rparr>) = room s" "room (s\<lparr>prio := z\<rparr>) = room s"
  by (simp_all add: room_def
      bd_cong [of "s\<lparr>lp_next := x\<rparr>" s] bd_cong [of "s\<lparr>lp_p := y\<rparr>" s] bd_cong [of "s\<lparr>prio := z\<rparr>" s])

lemma bd_malloc_node:
  assumes inv: "bd_inv R s" and room: "room s"
  obtains new t z where "bd_malloc 16 s = Inr (new, t)" and "bd_inv R t" and "new \<noteq> 0"
    and "\<forall>z. (new, z) \<notin> handed R s" and "handed R t = insert (new, z) (handed R s)"
    and "bd_frame (settle s) t"
proof -
  have f: "firstk 16 = Some (int 0)" by (subst firstk_def, subst firstk_loop.simps) (simp add: BLK_SIZE_def LEAF_SIZE_def)
  obtain k j where fb: "free_blk s k j" using room by (auto simp: room_def)
  obtain i t where run: "bd_malloc 16 s = Inr (blk_addr s 0 i, t)" and inv': "bd_inv R t"
    and new: "(0, i) \<notin> live s" and lv: "live t = insert (0, i) (live s)" and fr: "bd_frame (settle s) t"
    using bd_malloc_some [OF inv f _ fb] by auto
  note ad = bd_frame_settle [OF fr]
  have nr: "i \<notin> R" using new inv resv_live [of s R i] by (auto simp: bd_inv_def)
  have "0 < bd_base s" using inv by (auto simp: bd_inv_def bd_rep_def bd_wf_def)
  then have "blk_addr s 0 i \<noteq> 0" by (simp add: blk_addr_def)
  moreover have "handed R t = insert (blk_addr s 0 i, BLK_SIZE (int 0)) (handed R s)"
    unfolding handed_def lv ad using nr by blast
  moreover have "(blk_addr s 0 i, z) \<notin> handed R s" for z
  proof
    assume "(blk_addr s 0 i, z) \<in> handed R s"
    then obtain k j where "blk_addr s 0 i = blk_addr s k j" "(k, j) \<in> live s" by (auto simp: handed_def)
    then show False using blk_addr_inj [OF inv', of 0 i k j] new by (auto simp: lv ad)
  qed
  ultimately show thesis using that run inv' fr by blast
qed

lemma bd_free_node:
  assumes inv: "bd_inv R s" and p: "(p, z) \<in> handed R s"
  obtains t where "bd_free p s = Inr ((), t)" and "bd_inv R t" and "handed R t = handed R s - {(p, z)}"
    and "room t" and "bd_frame (settle s) t"
proof -
  obtain k i where ki: "p = blk_addr s k i" "z = BLK_SIZE (int k)" "(k, i) \<in> live s" "k \<noteq> 0 \<or> i \<notin> R"
    using p by (auto simp: handed_def)
  obtain t where run: "bd_free p s = Inr ((), t)" and fr: "bd_frame (settle s) t"
    and lv: "live t = live s - {(k, i)}"
    using bd_free_ok [OF inv ki(3,4)] unfolding ki(1) by blast
  have inv': "bd_inv R t" "handed R t = handed R s - {(p, z)}"
    using bd_give_law [OF inv p] run by (simp_all add: wpM_def)
  moreover have "nsizes t = nsizes s" using fr by (simp add: bd_frame_def)
  then have "room t" unfolding room_def by (rule free_after_give [OF inv inv'(1) ki(3) lv])
  ultimately show thesis using that run fr by blast
qed


lemma cpus_settle_eq: "cpus (settle s) = (cpus s)(hart s := (cpus s (hart s))\<lparr>intena :=
    (if noff (cpus s (hart s)) = 0 then sie s (hart s) else intena (cpus s (hart s)))\<rparr>)"
  by (simp add: settle_def)

lemma lp_frame_trans: "lp_frame s t \<Longrightarrow> lp_frame t u \<Longrightarrow> lp_frame s u"
  by (simp add: lp_frame_def)

section \<open>Inserting\<close>

lemma nodes_fresh:
  assumes "nodes R s Q" and "\<forall>z. (new, z) \<notin> handed R s"
  shows "new \<notin> set (Q i)"
  using assms unfolding nodes_def by blast

lemma nodes_grow:
  assumes Q: "nodes R s Q" and new: "\<forall>z. (new, z) \<notin> handed R s"
    and h: "handed R t = insert (new, z) (handed R s)" and pr: "0 \<le> pr" "pr < NPRIO"
    and path: "lpath (lp_next t) (prio t pr) (Q pr @ [new])"
    and other: "\<And>i. i \<noteq> pr \<Longrightarrow> prio t i = prio s i"
    and next_other: "\<And>n. n \<noteq> new \<Longrightarrow> n \<notin> set (Q pr) \<Longrightarrow> lp_next t n = lp_next s n"
  shows "nodes R t (Q(pr := Q pr @ [new]))"
proof -
  note fresh = nodes_fresh [OF Q new]
  have dj: "set (Q i) \<inter> set (Q j) = {}" if "i \<noteq> j" for i j using Q that by (auto simp: nodes_def)
  have "lpath (lp_next t) (prio t i) (Q i) \<and> distinct (Q i)" if "0 \<le> i \<and> i < NPRIO" "i \<noteq> pr" for i
  proof -
    have "lpath (lp_next t) (prio s i) (Q i) = lpath (lp_next s) (prio s i) (Q i)"
      by (rule lpath_cong) (use dj [OF that(2)] fresh in \<open>auto intro!: next_other\<close>)
    then show ?thesis using Q that other by (simp add: nodes_def)
  qed
  moreover have "distinct (Q pr)" using Q pr by (simp add: nodes_def)
  moreover have "\<exists>z. (n, z) \<in> handed R t" if "n \<in> set (Q i)" for n i
    using Q that unfolding nodes_def h by blast
  ultimately show ?thesis using Q path fresh pr dj h
    unfolding nodes_def by (auto split: if_splits)
qed

lemma nodes_map_lp_p:
  assumes "\<And>i. new \<notin> set (Q i)"
  shows "(\<lambda>i. map (P(new := p)) ((Q(pr := Q pr @ [new])) i)) =
    (\<lambda>i. map P (Q i))(pr := map P (Q pr) @ [p])"
  using assms by (auto simp: fun_eq_iff)

lemma more_settle_bd: "bd_state.more (settle s) = bd_state.more (s :: 'a bd_state_scheme)"
  by (simp add: settle_def)

lemma insert_ok:
  assumes rep: "prio_rep R s q" and fb: "room s" and pr: "pr = priority (ptable s p)" "0 \<le> pr" "pr < NPRIO"
  shows "\<exists>t. insert_into_prio_queue p s = Inr ((), t) \<and> prio_rep R t (q(pr := q pr @ [p])) \<and> lp_frame s t"
proof -
  obtain Q where inv: "bd_inv R s" and Q: "nodes R s Q" and q: "q = (\<lambda>i. map (lp_p s) (Q i))"
    using rep by (auto simp: prio_rep_def)
  obtain new t z where run: "bd_malloc 16 s = Inr (new, t)" and inv': "bd_inv R t" and new0: "new \<noteq> 0"
    and new: "\<forall>z. (new, z) \<notin> handed R s" and hd: "handed R t = insert (new, z) (handed R s)"
    and fr: "bd_frame (settle s) t"
    by (rule bd_malloc_node [OF inv fb])
  have "bd_state.more t = bd_state.more s" using fr by (simp add: bd_frame_def more_settle_bd)
  note same = pstate_more [OF this]
  note fresh = nodes_fresh [OF Q new]
  let ?N = "(lp_next s)(new := 0)" and ?P = "(lp_p s)(new := p)"
  let ?t = "t\<lparr>lp_next := ?N, lp_p := ?P\<rparr>"
  have path: "lpath (lp_next s) (prio s pr) (Q pr)" and dis: "distinct (Q pr)"
    using Q pr by (auto simp: nodes_def)
  have "lpath ?N (prio s pr) (Q pr) = lpath (lp_next s) (prio s pr) (Q pr)"
    by (rule lpath_cong) (use fresh [of pr] in auto)
  then have path': "lpath ?N (prio s pr) (Q pr)" using path by blast
  have qq: "q(pr := q pr @ [p]) = (\<lambda>i. map ?P ((Q(pr := Q pr @ [new])) i))"
    unfolding q by (rule nodes_map_lp_p [symmetric]) (rule fresh)
  show ?thesis
  proof (cases "Q pr = []")
    case True
    then have h0: "prio s pr = 0" using path by simp
    let ?u = "?t\<lparr>prio := (prio s)(pr := new)\<rparr>"
    have "nodes R ?u (Q(pr := Q pr @ [new]))"
      by (rule nodes_grow [OF Q new, where z = z]) (use True hd pr new0 in simp_all)
    then have "prio_rep R ?u (q(pr := q pr @ [p]))"
      unfolding prio_rep_def qq using inv' by (intro conjI exI [of _ "Q(pr := Q pr @ [new])"]) simp_all
    moreover have "insert_into_prio_queue p s = Inr ((), ?u)"
      using run new0 h0 pr by (simp add: insert_into_prio_queue_def bindM_run monad_simps get_proc_def prio_index_def set_prio_def same)
    moreover have "lp_frame s ?u" using fr same by (simp add: lp_frame_def bd_frame_def cpus_settle_eq)
    ultimately show ?thesis by auto
  next
    case False
    then have h0: "prio s pr \<noteq> 0" using lpath_hd [OF path] by simp
    let ?u = "?t\<lparr>lp_next := ?N(last (Q pr) := new)\<rparr>"
    have "lpath (?N(last (Q pr) := new)) (prio s pr) (Q pr @ [new])"
      by (rule lpath_append [OF path' dis]) (use fresh new0 False in simp_all)
    then have "nodes R ?u (Q(pr := Q pr @ [new]))"
      by (intro nodes_grow [OF Q new, where z = z]) (use hd pr same last_in_set [OF False] in auto)
    then have "prio_rep R ?u (q(pr := q pr @ [p]))"
      unfolding prio_rep_def qq using inv' by (intro conjI exI [of _ "Q(pr := Q pr @ [new])"]) simp_all
    moreover have "insert_into_prio_queue p s = Inr ((), ?u)"
      using run new0 h0 pr lp_last_eq [OF path' False]
      by (simp add: insert_into_prio_queue_def bindM_run monad_simps get_proc_def prio_index_def set_prio_def same)
    moreover have "lp_frame s ?u" using fr same by (simp add: lp_frame_def bd_frame_def cpus_settle_eq)
    ultimately show ?thesis by auto
  qed
qed

lemma insert_no_memory:
  assumes "bd_inv R s" and "\<not> room s"
  shows "insert_into_prio_queue p s = Inl Null_Deref"
proof -
  have "firstk 16 = Some (int 0)" by (subst firstk_def, subst firstk_loop.simps) simp
  then have "bd_malloc 16 s = Inr (0, settle s)" using bd_malloc_none [OF assms(1)] assms(2) unfolding room_def by blast
  then show ?thesis by (simp add: insert_into_prio_queue_def bindM_run failM_def)
qed


section \<open>Removing\<close>

lemma nodes_shrink:
  assumes Q: "nodes R s Q" and Qpr: "Q pr = us @ x # vs"
    and h: "handed R t = handed R s - {(x, z)}" and pr: "0 \<le> pr" "pr < NPRIO"
    and path: "lpath (lp_next t) (prio t pr) (us @ vs)"
    and other: "\<And>i. i \<noteq> pr \<Longrightarrow> prio t i = prio s i"
    and next_other: "\<And>n. n \<notin> set (Q pr) \<Longrightarrow> lp_next t n = lp_next s n"
  shows "nodes R t (Q(pr := us @ vs))"
proof -
  have dj: "set (Q i) \<inter> set (Q j) = {}" if "i \<noteq> j" for i j using Q that by (auto simp: nodes_def)
  have dis: "distinct (Q pr)" using Q pr by (simp add: nodes_def)
  have "lpath (lp_next t) (prio t i) (Q i) \<and> distinct (Q i)" if "0 \<le> i \<and> i < NPRIO" "i \<noteq> pr" for i
  proof -
    have "lpath (lp_next t) (prio s i) (Q i) = lpath (lp_next s) (prio s i) (Q i)"
      by (rule lpath_cong) (use dj [OF that(2)] in \<open>auto intro!: next_other\<close>)
    then show ?thesis using Q that other by (simp add: nodes_def)
  qed
  moreover have "distinct (us @ vs)" using dis Qpr by auto
  moreover have "\<exists>z. (n, z) \<in> handed R t" if "n \<in> set ((Q(pr := us @ vs)) i)" for n i
  proof -
    have "n \<noteq> x" using that dis Qpr dj [of i pr] by (auto split: if_splits)
    moreover have "n \<in> set (Q i)" using that Qpr by (auto split: if_splits)
    then obtain z' where "(n, z') \<in> handed R s" using Q unfolding nodes_def by blast
    ultimately show ?thesis unfolding h by blast
  qed
  moreover have "set ((Q(pr := us @ vs)) i) \<inter> set ((Q(pr := us @ vs)) j) = {}" if "i \<noteq> j" for i j
    using dj [OF that] Qpr by auto
  ultimately show ?thesis using Q path pr unfolding nodes_def by auto
qed

lemma lpath_last_upd:
  assumes "lpath N h (us @ x # vs)" and "distinct (us @ x # vs)" and "us \<noteq> []"
  shows "lpath (N(last us := N x)) h (us @ vs)"
proof -
  obtain ws w where us: "us = ws @ [w]" using assms(3) by (cases us rule: rev_cases) auto
  then have "lpath (N(w := N x)) h (ws @ w # vs)" using assms by (intro lpath_remove_mid) simp_all
  then show ?thesis using us by simp
qed

lemma remove_ok:
  assumes rep: "prio_rep R s q" and pr: "pr = priority (ptable s p)" "0 \<le> pr" "pr < NPRIO"
  shows "\<exists>t. remove_from_prio_queue p s = Inr ((), t) \<and> prio_rep R t (q(pr := remove1 p (q pr))) \<and> lp_frame s t \<and>
    (room s \<or> p \<in> set (q pr) \<longrightarrow> room t)"
proof -
  obtain Q where inv: "bd_inv R s" and Q: "nodes R s Q" and q: "q = (\<lambda>i. map (lp_p s) (Q i))"
    using rep by (auto simp: prio_rep_def)
  have path: "lpath (lp_next s) (prio s pr) (Q pr)" and dis: "distinct (Q pr)"
    using Q pr by (auto simp: nodes_def)
  note find = lp_find_eq [OF path, where P = "lp_p s" and p = p and prev = 0]
  show ?thesis
  proof (cases "p \<in> set (map (lp_p s) (Q pr))")
    case False
    have "remove_from_prio_queue p s = Inr ((), s)"
      using False pr find by (simp add: remove_from_prio_queue_def monad_simps get_proc_def prio_index_def set_prio_def)
    moreover have "q(pr := remove1 p (q pr)) = q"
      using False by (simp add: q remove1_idem fun_upd_idem)
    moreover have "p \<notin> set (q pr)" using False by (simp add: q)
    ultimately show ?thesis using rep by (simp add: lp_frame_def)
  next
    case True
    then obtain us x vs where Qpr: "Q pr = us @ x # vs" and x: "lp_p s x = p" "\<forall>u\<in>set us. lp_p s u \<noteq> p"
      and tw: "takeWhile (\<lambda>n. lp_p s n \<noteq> p) (Q pr) = us" "dropWhile (\<lambda>n. lp_p s n \<noteq> p) (Q pr) = x # vs"
      by (rule split_first)
    have found: "lp_find (lp_next s) (lp_p s) p 0 (prio s pr) = Some (Some (last (0 # us), x))"
      using find True tw by simp
    have "x \<in> set (Q pr)" by (simp add: Qpr)
    then obtain z where z: "(x, z) \<in> handed R s" using Q unfolding nodes_def by blast
    have qq: "q(pr := remove1 p (q pr)) = (\<lambda>i. map (lp_p s) ((Q(pr := us @ vs)) i))"
      using remove1_split [OF x(2,1), of vs] by (auto simp: q Qpr fun_eq_iff)
    show ?thesis
    proof (cases us)
      case Nil
      then have hd: "prio s pr = x" and tl: "lpath (lp_next s) (lp_next s x) vs" using path Qpr by simp_all
      obtain t where run: "bd_free x s = Inr ((), t)" and inv': "bd_inv R t" and h: "handed R t = handed R s - {(x, z)}"
        and rm: "room t" and fr: "bd_frame (settle s) t" by (rule bd_free_node [OF inv z])
      have "bd_state.more t = bd_state.more s" using fr by (simp add: bd_frame_def more_settle_bd)
      note same = pstate_more [OF this]
      let ?u = "t\<lparr>prio := (prio s)(pr := lp_next s x)\<rparr>"
      have "nodes R ?u (Q(pr := us @ vs))"
        by (rule nodes_shrink [OF Q Qpr, where z = z]) (use h pr same tl Nil in simp_all)
      then have "prio_rep R ?u (q(pr := remove1 p (q pr)))"
        unfolding prio_rep_def qq using inv' same by (intro conjI exI [of _ "Q(pr := us @ vs)"]) simp_all
      moreover have "remove_from_prio_queue p s = Inr ((), ?u)"
        using found run hd pr same Nil
        by (simp add: remove_from_prio_queue_def bindM_run thenM_run monad_simps get_proc_def prio_index_def set_prio_def)
      moreover have "lp_frame s ?u" using fr same by (simp add: lp_frame_def bd_frame_def cpus_settle_eq)
      moreover have "room ?u" using rm by simp
      ultimately show ?thesis by blast
    next
      case (Cons u ws)
      then have us: "us \<noteq> []" by simp
      have hd: "prio s pr \<noteq> x" using path dis Qpr Cons by auto
      let ?s = "s\<lparr>lp_next := (lp_next s)(last us := lp_next s x)\<rparr>"
      have "bd_inv R ?s" "(x, z) \<in> handed R ?s" using inv z by simp_all
      then obtain t where run: "bd_free x ?s = Inr ((), t)" and inv': "bd_inv R t"
        and h: "handed R t = handed R ?s - {(x, z)}" and rm: "room t" and fr: "bd_frame (settle ?s) t" by (rule bd_free_node)
      have "bd_state.more t = bd_state.more ?s" using fr by (simp add: bd_frame_def more_settle_bd)
      note same = pstate_more [OF this]
      let ?u = "t\<lparr>prio := prio s\<rparr>"
      have "lpath (lp_next t) (prio s pr) (us @ vs)"
        using lpath_last_upd [OF path [unfolded Qpr] dis [unfolded Qpr] us] same by simp
      then have "nodes R ?u (Q(pr := us @ vs))"
        by (intro nodes_shrink [OF Q Qpr, where z = z]) (use h pr same Qpr last_in_set [OF us] in auto)
      then have "prio_rep R ?u (q(pr := remove1 p (q pr)))"
        unfolding prio_rep_def qq using inv' same by (intro conjI exI [of _ "Q(pr := us @ vs)"]) simp_all
      moreover have "remove_from_prio_queue p s = Inr ((), ?u)"
        using found run hd pr same us
        by (simp add: remove_from_prio_queue_def bindM_run thenM_run monad_simps get_proc_def prio_index_def set_prio_def)
      moreover have "lp_frame s ?u" using fr same by (simp add: lp_frame_def bd_frame_def cpus_settle_eq)
      moreover have "room ?u" using rm by simp
      ultimately show ?thesis by blast
    qed
  qed
qed


section \<open>The contract\<close>

text \<open>
  A family of queues, one per priority.  \<open>ins\<close> appends a process to the queue of its priority if
  there is memory for a node, \<open>rem\<close> takes its first occurrence out and leaves memory for a node
  if there was one, \<open>setp\<close> changes its priority without touching the queues.
\<close>

locale prio_queues =
  fixes rep :: "'s \<Rightarrow> (int \<Rightarrow> 'p list) \<Rightarrow> bool" and prio_of :: "'s \<Rightarrow> 'p \<Rightarrow> int"
    and roomy :: "'s \<Rightarrow> bool" and levels :: int
    and ins rem :: "'p \<Rightarrow> ('s, unit) kmon" and setp :: "'p \<Rightarrow> int \<Rightarrow> ('s, unit) kmon"
  assumes ins_law: "rep s q \<Longrightarrow> roomy s \<Longrightarrow> pr = prio_of s p \<Longrightarrow> 0 \<le> pr \<Longrightarrow> pr < levels \<Longrightarrow>
      wpM (ins p) (\<lambda>_ t. rep t (q(pr := q pr @ [p])) \<and> prio_of t = prio_of s) s"
    and rem_law: "rep s q \<Longrightarrow> pr = prio_of s p \<Longrightarrow> 0 \<le> pr \<Longrightarrow> pr < levels \<Longrightarrow>
      wpM (rem p) (\<lambda>_ t. rep t (q(pr := remove1 p (q pr))) \<and> prio_of t = prio_of s \<and>
        (roomy s \<or> p \<in> set (q pr) \<longrightarrow> roomy t)) s"
    and set_law: "rep s q \<Longrightarrow> wpM (setp p i) (\<lambda>_ t. rep t q \<and> prio_of t = (prio_of s)(p := i) \<and>
        (roomy s \<longrightarrow> roomy t)) s"
begin

text \<open>Taking a process out and putting it back moves it to the end of its queue.\<close>

lemma rotate:
  assumes "rep s q" and "pr = prio_of s p" and "0 \<le> pr" and "pr < levels" and "p \<in> set (q pr)"
  shows "wpM (thenM (rem p) (ins p)) (\<lambda>_ t. rep t (q(pr := remove1 p (q pr) @ [p])) \<and> prio_of t = prio_of s) s"
  unfolding wp_then
proof (rule wpM_mono [OF rem_law [OF assms(1-4)]], elim conjE)
  fix t
  assume t: "rep t (q(pr := remove1 p (q pr)))" "prio_of t = prio_of s" "roomy s \<or> p \<in> set (q pr) \<longrightarrow> roomy t"
  show "wpM (ins p) (\<lambda>_ t. rep t (q(pr := remove1 p (q pr) @ [p])) \<and> prio_of t = prio_of s) t"
    using ins_law [OF t(1), of pr p] t assms by simp
qed

text \<open>Changing the priority in between moves it to the end of another queue.\<close>

lemma move:
  assumes "rep s q" and "pr = prio_of s p" and "0 \<le> pr" and "pr < levels" and "p \<in> set (q pr)"
    and "0 \<le> i" and "i < levels" and "i \<noteq> pr"
  shows "wpM (thenM (rem p) (thenM (setp p i) (ins p)))
    (\<lambda>_ t. rep t (q(pr := remove1 p (q pr), i := q i @ [p])) \<and> prio_of t = (prio_of s)(p := i)) s"
  unfolding wp_then
proof (rule wpM_mono [OF rem_law [OF assms(1-4)]], elim conjE)
  fix t
  assume t: "rep t (q(pr := remove1 p (q pr)))" "prio_of t = prio_of s" "roomy s \<or> p \<in> set (q pr) \<longrightarrow> roomy t"
  show "wpM (setp p i) (\<lambda>_. wpM (ins p)
    (\<lambda>_ t. rep t (q(pr := remove1 p (q pr), i := q i @ [p])) \<and> prio_of t = (prio_of s)(p := i))) t"
  proof (rule wpM_mono [OF set_law [OF t(1), of p i]], elim conjE)
    fix u
    assume u: "rep u (q(pr := remove1 p (q pr)))" "prio_of u = (prio_of t)(p := i)" "roomy t \<longrightarrow> roomy u"
    show "wpM (ins p) (\<lambda>_ t. rep t (q(pr := remove1 p (q pr), i := q i @ [p])) \<and> prio_of t = (prio_of s)(p := i)) u"
      using ins_law [OF u(1), of i p] u t assms by simp
  qed
qed

end

lemma bd_inv_ptable [simp]: "bd_inv R (s\<lparr>ptable := x\<rparr>) = bd_inv R s"
  and handed_ptable [simp]: "handed R (s\<lparr>ptable := x\<rparr>) = handed R s"
  and room_ptable [simp]: "room (s\<lparr>ptable := x\<rparr>) = room s"
  by (simp_all add: bd_inv_def handed_def hart_ok_def lock_free_def room_def bd_cong [of "s\<lparr>ptable := x\<rparr>" s])

lemma prio_rep_ptable [simp]: "prio_rep R (s\<lparr>ptable := x\<rparr>) q = prio_rep R s q"
  by (simp add: prio_rep_def nodes_def)

text \<open>The kernel's queues meet it.\<close>

interpretation pq: prio_queues "prio_rep R" "\<lambda>s p. priority (ptable s p)" room NPRIO
    insert_into_prio_queue remove_from_prio_queue
    "\<lambda>p i. upd_proc p (\<lambda>q. q\<lparr>priority := i\<rparr>)" for R
proof
  fix s :: "'a pstate_scheme" and q pr p
  assume a: "prio_rep R s q" "pr = priority (ptable s p)" "0 \<le> pr" "pr < NPRIO"
  show "wpM (remove_from_prio_queue p) (\<lambda>_ t. prio_rep R t (q(pr := remove1 p (q pr))) \<and>
     (\<lambda>p. priority (ptable t p)) = (\<lambda>p. priority (ptable s p)) \<and> (room s \<or> p \<in> set (q pr) \<longrightarrow> room t)) s"
    using remove_ok [OF a] by (auto simp: wpM_iff lp_frame_def)
  assume "room s"
  then show "wpM (insert_into_prio_queue p) (\<lambda>_ t. prio_rep R t (q(pr := q pr @ [p])) \<and>
     (\<lambda>p. priority (ptable t p)) = (\<lambda>p. priority (ptable s p))) s"
    using insert_ok [OF a(1) _ a(2-4)] by (auto simp: wpM_iff lp_frame_def)
next
  fix s :: "'a pstate_scheme" and q p i
  assume "prio_rep R s q"
  then show "wpM (upd_proc p (\<lambda>q. q\<lparr>priority := i\<rparr>)) (\<lambda>_ t. prio_rep R t q \<and>
     (\<lambda>p. priority (ptable t p)) = (\<lambda>p. priority (ptable s p))(p := i) \<and> (room s \<longrightarrow> room t)) s"
    by (simp add: upd_proc_def wp fun_eq_iff)
qed

section \<open>Choosing a process\<close>

lemma lp_runnable_eq:
  "lpath N h ns \<Longrightarrow> lp_runnable N P tab h = Some (find (\<lambda>p. p_state (tab p) = RUNNABLE) (map P ns))"
proof (induction ns arbitrary: h)
  case Nil
  then show ?case by (subst lp_runnable.simps) simp
next
  case (Cons n ns)
  then show ?case by (subst lp_runnable.simps) auto
qed

lemma find_append: "find P (xs @ ys) = (case find P xs of None \<Rightarrow> find P ys | Some x \<Rightarrow> Some x)"
  by (induction xs) auto

text \<open>The processes on the queues in the order the scheduler looks at them.\<close>

definition queued :: "(int \<Rightarrow> nat list) \<Rightarrow> nat list" where
  "queued q = concat (map q [0..NPRIO - 1])"

lemma pick_loop_eq:
  assumes "nodes R s Q" and "\<forall>i\<in>set is. 0 \<le> i \<and> i < NPRIO"
  shows "pick_loop is s = (case find (\<lambda>p. p_state (ptable s p) = RUNNABLE) (concat (map (\<lambda>i. map (lp_p s) (Q i)) is)) of
     None \<Rightarrow> Inr (None, s) | Some p \<Rightarrow> thenM (acquire (ProcLock p)) (ret (Some p)) s)"
  using assms(2)
proof (induction "is")
  case (Cons i js)
  have "lpath (lp_next s) (prio s i) (Q i)" using assms(1) Cons.prems by (simp add: nodes_def)
  note lp_runnable_eq [OF this, of "lp_p s" "ptable s"]
  then show ?case using Cons by (simp add: bindM_run gets_run find_append split: option.split)
qed (simp add: monad_simps)

lemma pick_eq:
  assumes rep: "prio_rep R s q" and l: "lock_free PrioLock s" and pl: "\<And>p. lock_free (ProcLock p) s"
  shows "pick_highest_priority_runnable_proc s =
    (case find (\<lambda>p. p_state (ptable s p) = RUNNABLE) (queued q) of
       None \<Rightarrow> Inr (None, settle s)
     | Some p \<Rightarrow> Inr (Some p, lock_st (ProcLock p) (lock_st PrioLock s)))"
proof -
  obtain Q where inv: "bd_inv R s" and Q: "nodes R s Q" and q: "q = (\<lambda>i. map (lp_p s) (Q i))"
    using rep by (auto simp: prio_rep_def)
  have Q': "nodes R (lock_st PrioLock s) Q" using Q by (simp add: nodes_def)
  have h: "hart_ok s" using inv by (simp add: bd_inv_def)
  note pick = pick_loop_eq [OF Q', of "[0..NPRIO - 1]"]
  have "release PrioLock (lock_st PrioLock s) = Inr ((), settle s)"
    using h l release_ok [of PrioLock "lock_st PrioLock s"] by (simp add: unlock_lock_st hart_ok_def)
  moreover have "acquire (ProcLock p) (lock_st PrioLock s) = Inr ((), lock_st (ProcLock p) (lock_st PrioLock s))" for p
    by (rule acquire_eq) (simp add: pl)
  ultimately show ?thesis
    using pick acquire_eq [OF l] unfolding pick_highest_priority_runnable_proc_def queued_def q
    by (cases "find (\<lambda>p. p_state (ptable s p) = RUNNABLE) (concat (map (\<lambda>i. map (lp_p s) (Q i)) [0..NPRIO - 1]))")
      (simp_all add: thenM_run bindM_run ret_run)
qed

end
