(* ===== verification/Proc_Sched.thy ===== *)
theory Proc_Sched
  imports Proc_Queue
begin

text \<open>
  What scheduling, sleeping, waking, killing and changing the priority of a process do to the
  process table and the queues, on every branch.
\<close>

section \<open>States that differ in the machine only\<close>

lemma pstate_mach:
  fixes s :: "'a pstate_scheme"
  assumes "mach.more t = mach.more s"
  shows "nxt t = nxt s" "prv t = prv s" "nsizes t = nsizes s" "bd_base t = bd_base s"
    "bd_sizes_ptr t = bd_sizes_ptr s" "bd_sizes t = bd_sizes s" "mem t = mem s"
    "ptable t = ptable s" "prio t = prio s" "lp_p t = lp_p s" "lp_next t = lp_next s"
  using assms by (cases s; cases t; simp)+

lemma prio_rep_cong:
  assumes "prio_rep R s q" and "mach.more t = mach.more s" and "hart_ok t" and "lock_free BdLock t"
  shows "prio_rep R t q"
proof -
  note same = pstate_mach [OF assms(2)]
  note bd = bd_cong [OF same(3,4,5,6,1,2)]
  have h: "handed R t = handed R s" by (simp add: handed_def bd)
  have "bd_inv R t" using assms(1,3,4) by (auto simp: prio_rep_def bd_inv_def bd)
  then show ?thesis using assms(1) unfolding prio_rep_def nodes_def h same by blast
qed

lemma lp_frame_noff:
  assumes "lp_frame s t"
  shows "noff (cpus t (hart s)) = noff (cpus s (hart s))" "c_proc (cpus t (hart s)) = c_proc (cpus s (hart s))"
proof -
  have "cpus (settle t) (hart s) = cpus (settle s) (hart s)" using assms by (simp add: lp_frame_def)
  moreover have "hart t = hart s" using assms by (simp add: lp_frame_def)
  ultimately show "noff (cpus t (hart s)) = noff (cpus s (hart s))"
    "c_proc (cpus t (hart s)) = c_proc (cpus s (hart s))"
    by (auto simp: cpus_settle_eq dest: arg_cong [where f = noff] arg_cong [where f = c_proc])
qed

section \<open>One round of the scheduler\<close>

text \<open>Each process on a queue has the priority of the queue.\<close>

definition coherent :: "(nat \<Rightarrow> proc) \<Rightarrow> (int \<Rightarrow> nat list) \<Rightarrow> bool" where
  "coherent tab q \<longleftrightarrow> (\<forall>i. \<forall>p\<in>set (q i). priority (tab p) = i \<and> 0 \<le> i \<and> i < NPRIO)"

lemma queued_coherent: "coherent tab q \<Longrightarrow> p \<in> set (queued q) \<Longrightarrow>
    p \<in> set (q (priority (tab p))) \<and> 0 \<le> priority (tab p) \<and> priority (tab p) < NPRIO"
  by (auto simp: coherent_def queued_def)

lemma find_in: "find P xs = Some x \<Longrightarrow> x \<in> set xs \<and> P x"
  by (induction xs) (auto split: if_splits)

lemma rotate_run:
  assumes rep: "prio_rep R s q" and pr: "pr = priority (ptable s p)" "0 \<le> pr" "pr < NPRIO" and p: "p \<in> set (q pr)"
  obtains t u where "remove_from_prio_queue p s = Inr ((), t)" and "insert_into_prio_queue p t = Inr ((), u)"
    and "prio_rep R u (q(pr := remove1 p (q pr) @ [p]))" and "lp_frame s u"
proof -
  from remove_ok [OF rep pr] p obtain t where t: "remove_from_prio_queue p s = Inr ((), t)"
    "prio_rep R t (q(pr := remove1 p (q pr)))" "lp_frame s t" "room t" by blast
  have "pr = priority (ptable t p)" using t(3) pr by (simp add: lp_frame_def)
  from insert_ok [OF t(2,4) this pr(2,3)] obtain u where u: "insert_into_prio_queue p t = Inr ((), u)"
    "prio_rep R u ((q(pr := remove1 p (q pr)))(pr := (q(pr := remove1 p (q pr))) pr @ [p]))" "lp_frame t u" by blast
  show thesis using that [OF t(1) u(1)] u(2) lp_frame_trans [OF t(3) u(3)] by simp
qed

lemma scheduler_round_none:
  assumes rep: "prio_rep R s q" and l: "lock_free PrioLock s" and pl: "\<And>p. lock_free (ProcLock p) s"
    and h: "noff (cpus s (hart s)) = 0" and none: "find (\<lambda>p. p_state (ptable s p) = RUNNABLE) (queued q) = None"
  shows "scheduler_round s = Inr (None, settle (s\<lparr>sie := (sie s)(hart s := False)\<rparr>))"
proof -
  let ?s = "s\<lparr>sie := (sie s)(hart s := False)\<rparr>"
  have "prio_rep R ?s q"
    by (rule prio_rep_cong [OF rep]) (use rep h in \<open>simp_all add: hart_ok_def lock_free_def prio_rep_def bd_inv_def\<close>)
  from pick_eq [OF this] none have "pick_highest_priority_runnable_proc ?s = Inr (None, settle ?s)"
    using l pl by (simp add: lock_free_def)
  then show ?thesis
    by (simp add: scheduler_round_def monad_simps intr_on_def intr_off_def)
qed

lemma scheduler_round_some:
  assumes rep: "prio_rep R s q" and l: "lock_free PrioLock s" and pl: "\<And>p. lock_free (ProcLock p) s"
    and h: "noff (cpus s (hart s)) = 0" and co: "coherent (ptable s) q"
    and some: "find (\<lambda>p. p_state (ptable s p) = RUNNABLE) (queued q) = Some p" and pr: "pr = priority (ptable s p)"
  shows "\<exists>t. scheduler_round s = Inr (Some p, t) \<and> prio_rep R t (q(pr := remove1 p (q pr) @ [p])) \<and>
    ptable t = (ptable s)(p := (ptable s p)\<lparr>p_state := RUNNING\<rparr>) \<and>
    c_proc (cpus t (hart t)) = Some p \<and> hart t = hart s \<and> noff (cpus t (hart t)) = 1 \<and>
    lks t = (lks s)(ProcLock p := \<lparr>locked = True, lk_cpu = Some (hart s)\<rparr>)"
proof -
  let ?s = "s\<lparr>sie := (sie s)(hart s := False)\<rparr>"
  have inv: "lock_free BdLock s" using rep by (simp add: prio_rep_def bd_inv_def)
  have rep': "prio_rep R ?s q"
    by (rule prio_rep_cong [OF rep]) (use inv h in \<open>simp_all add: hart_ok_def lock_free_def\<close>)
  let ?u = "lock_st (ProcLock p) (lock_st PrioLock ?s)"
  have pick: "pick_highest_priority_runnable_proc ?s = Inr (Some p, ?u)"
    using pick_eq [OF rep'] some l pl by (simp add: lock_free_def)
  let ?v = "?u\<lparr>ptable := (ptable s)(p := (ptable s p)\<lparr>p_state := RUNNING\<rparr>)\<rparr>"
  let ?w = "?v\<lparr>cpus := (cpus ?v)(hart s := (cpus ?v (hart s))\<lparr>c_proc := Some p\<rparr>)\<rparr>"
  have nu: "noff (cpus ?u (hart s)) = 2" using h noff_lock_st(1) [of "ProcLock p" "lock_st PrioLock ?s"]
      noff_lock_st(1) [of PrioLock ?s] by simp
  have "prio_rep R ?u q"
    by (rule prio_rep_cong [OF rep']) (use inv nu in \<open>simp_all add: hart_ok_def lock_free_def\<close>)
  then have "prio_rep R ?v q" by simp
  then have repw: "prio_rep R ?w q"
    by (rule prio_rep_cong) (use inv nu in \<open>simp_all add: hart_ok_def lock_free_def\<close>)
  have q: "p \<in> set (q pr)" "0 \<le> pr" "pr < NPRIO" using queued_coherent [OF co] find_in [OF some] pr by auto
  have prw: "pr = priority (ptable ?w p)" using pr by simp
  from rotate_run [OF repw prw q(2,3,1)] obtain t1 t where
    t: "remove_from_prio_queue p ?w = Inr ((), t1)" "insert_into_prio_queue p t1 = Inr ((), t)"
    "prio_rep R t (q(pr := remove1 p (q pr) @ [p]))" "lp_frame ?w t" by blast
  have nt: "noff (cpus t (hart s)) = 2" "c_proc (cpus t (hart s)) = Some p"
    using lp_frame_noff [OF t(4)] nu by simp_all
  have ht: "hart t = hart s" and lt: "lks t = lks ?w" and tt: "ptable t = ptable ?w" using t(4) by (simp_all add: lp_frame_def)
  have hok: "hart_ok t" using t(3) by (simp add: prio_rep_def bd_inv_def)
  have "release PrioLock t = Inr ((), unlock_st PrioLock t)"
    by (rule release_ok) (use hok nt ht lt in \<open>simp_all add: holds_lock_def\<close>)
  then have "scheduler_round s = Inr (Some p, unlock_st PrioLock t)"
    using pick t(1,2) by (simp add: scheduler_round_def monad_simps intr_on_def intr_off_def upd_proc_def upd_mycpu_def)
  moreover have "prio_rep R (unlock_st PrioLock t) (q(pr := remove1 p (q pr) @ [p]))"
    by (rule prio_rep_cong [OF t(3)])
       (use hok nt ht t(3) in \<open>simp_all add: hart_ok_unlock_st prio_rep_def bd_inv_def\<close>)
  moreover have "c_proc (cpus (unlock_st PrioLock t) (hart s)) = Some p"
    using nt ht by (simp add: unlock_st_def pop_st_def)
  moreover have "noff (cpus (unlock_st PrioLock t) (hart s)) = 1"
    using noff_lock_st(2) [of PrioLock t] nt ht by simp
  moreover have "lks (unlock_st PrioLock t) = (lks s)(ProcLock p := \<lparr>locked = True, lk_cpu = Some (hart s)\<rparr>)"
    using lt l by (auto simp: lock_free_def fun_eq_iff)
  ultimately show ?thesis using ht tt by auto
qed


section \<open>The current process\<close>

lemma settle_id: "noff (cpus s (hart s)) \<noteq> 0 \<Longrightarrow> settle s = s"
  by (simp add: settle_def)

lemma settle_settle [simp]: "settle (settle s) = settle s"
  by (simp add: settle_def)

lemma pop_push_st: "hart_ok s \<Longrightarrow> pop_st (push_st s) = settle s"
  by (auto simp: pop_st_def push_st_def settle_def hart_ok_def fun_upd_idem)

lemma the_proc_eq:
  assumes "hart_ok s" and "c_proc (cpus s (hart s)) = Some p"
  shows "the_proc s = Inr (p, settle s)"
proof -
  have "pop_off (push_st s) = Inr ((), pop_st (push_st s))"
    by (rule pop_off_eq) (use assms(1) in \<open>simp_all add: push_st_def hart_ok_def\<close>)
  then show ?thesis
    using assms by (simp add: the_proc_def myproc_def monad_simps push_off_eq pop_push_st mycpu_def cpuid_def)
      (simp add: push_st_def monad_simps)
qed

section \<open>Waking\<close>

definition wake :: "chan \<Rightarrow> proc \<Rightarrow> proc" where
  "wake ch pr = (if p_state pr = SLEEPING \<and> chan pr = Some ch then pr\<lparr>p_state := RUNNABLE\<rparr> else pr)"

lemma release_lock_st:
  assumes "hart_ok t" and "lock_free l t"
  shows "release l (lock_st l t) = Inr ((), settle t)"
proof -
  have "0 < noff (cpus (lock_st l t) (hart (lock_st l t)))" using assms(1) by (simp add: hart_ok_def)
  from release_ok [OF holds_lock_lock_st hart_ok_lock_st [OF assms(1)] this]
  show ?thesis by (simp add: unlock_lock_st [OF assms])
qed

lemma lock_st_ptable: "(lock_st l s)\<lparr>ptable := f\<rparr> = lock_st l (s\<lparr>ptable := f\<rparr>)"
  and unlock_st_ptable: "(unlock_st l s)\<lparr>ptable := f\<rparr> = unlock_st l (s\<lparr>ptable := f\<rparr>)"
  and settle_ptable: "(settle s)\<lparr>ptable := f\<rparr> = settle (s\<lparr>ptable := f\<rparr>)"
  by (simp_all add: lock_st_def push_st_def unlock_st_def pop_st_def settle_def)

lemma hart_ok_ptable [simp]: "hart_ok (s\<lparr>ptable := f\<rparr>) = hart_ok s"
  and lock_free_ptable [simp]: "lock_free l (s\<lparr>ptable := f\<rparr>) = lock_free l s"
  and holds_lock_ptable [simp]: "holds_lock l (s\<lparr>ptable := f\<rparr>) = holds_lock l s"
  by (simp_all add: hart_ok_def lock_free_def holds_lock_def)

lemma wakeup_step:
  assumes "hart_ok s" and "lock_free (ProcLock p) s"
  shows "thenM (acquire (ProcLock p)) (bindM (get_proc p) (\<lambda>pr.
     thenM (whenM (p_state pr = SLEEPING \<and> chan pr = Some ch) (upd_proc p (\<lambda>q. q\<lparr>p_state := RUNNABLE\<rparr>)))
    (release (ProcLock p)))) s = Inr ((), settle (s\<lparr>ptable := (ptable s)(p := wake ch (ptable s p))\<rparr>))"
  (is "?m s = _")
proof -
  let ?t = "s\<lparr>ptable := (ptable s)(p := wake ch (ptable s p))\<rparr>"
  have r: "release (ProcLock p) (lock_st (ProcLock p) ?t) = Inr ((), settle ?t)"
    by (rule release_lock_st) (use assms in simp_all)
  show ?thesis
  proof (cases "p_state (ptable s p) = SLEEPING \<and> chan (ptable s p) = Some ch")
    case True
    then show ?thesis using assms r
      by (simp add: monad_simps acquire_eq get_proc_def upd_proc_def whenM_def wake_def lock_st_ptable)
  next
    case False
    then have "wake ch (ptable s p) = ptable s p" by (auto simp: wake_def)
    then have "?t = s" by simp
    then show ?thesis using assms r False
      by (auto simp: monad_simps acquire_eq get_proc_def whenM_def)
  qed
qed

lemma wakeup_loop:
  assumes "hart_ok s" and "\<forall>p\<in>set ps. lock_free (ProcLock p) s" and "distinct ps"
  shows "forM ps (\<lambda>p. thenM (acquire (ProcLock p)) (bindM (get_proc p) (\<lambda>pr.
     thenM (whenM (p_state pr = SLEEPING \<and> chan pr = Some ch) (upd_proc p (\<lambda>q. q\<lparr>p_state := RUNNABLE\<rparr>)))
    (release (ProcLock p))))) (settle s) =
    Inr ((), settle (s\<lparr>ptable := (\<lambda>p. if p \<in> set ps then wake ch (ptable s p) else ptable s p)\<rparr>))"
  using assms
proof (induction ps arbitrary: s)
  case (Cons p ps)
  let ?t = "s\<lparr>ptable := (ptable s)(p := wake ch (ptable s p))\<rparr>"
  have "(\<lambda>r. if r \<in> set ps then wake ch (ptable ?t r) else ptable ?t r) =
      (\<lambda>r. if r \<in> set (p # ps) then wake ch (ptable s r) else ptable s r)"
    using Cons.prems(3) by (auto simp: fun_eq_iff)
  moreover have "settle ((settle s)\<lparr>ptable := (ptable s)(p := wake ch (ptable s p))\<rparr>) = settle ?t"
    by (simp add: settle_ptable)
  ultimately show ?case
    using Cons.IH [of ?t] Cons.prems wakeup_step [of "settle s" p ch] by (simp add: thenM_run)
qed (simp add: monad_simps)

lemma wakeup_eq:
  assumes "hart_ok s" and "\<And>p. p < NPROC \<Longrightarrow> lock_free (ProcLock p) s"
  shows "wakeup ch s = Inr ((), settle (s\<lparr>ptable := (\<lambda>p. if p < NPROC then wake ch (ptable s p) else ptable s p)\<rparr>))"
proof -
  have ps: "[0..<NPROC] = 0 # [1..<NPROC]" by (subst upt_rec) (simp add: NPROC_def)
  let ?t = "s\<lparr>ptable := (ptable s)(0 := wake ch (ptable s 0))\<rparr>"
  have l: "\<forall>p\<in>set [1..<NPROC]. lock_free (ProcLock p) ?t" using assms(2) by simp
  have "(\<lambda>r. if r \<in> set [1..<NPROC] then wake ch (ptable ?t r) else ptable ?t r) =
      (\<lambda>p. if p < NPROC then wake ch (ptable s p) else ptable s p)"
    by (auto simp: fun_eq_iff NPROC_def Suc_le_eq)
  then show ?thesis unfolding wakeup_def ps
    using wakeup_step [OF assms(1), of 0 ch] wakeup_loop [OF _ l, of ch] assms by (simp add: thenM_run NPROC_def)
qed


section \<open>Giving up the processor\<close>

text \<open>
  \<open>running p s\<close>: the calling hart runs \<open>p\<close> and holds no lock, \<open>p\<close>'s lock is free.  Every
  blocking operation starts and ends there.
\<close>

definition running :: "nat \<Rightarrow> 'a pstate_scheme \<Rightarrow> bool" where
  "running p s \<longleftrightarrow> c_proc (cpus s (hart s)) = Some p \<and> noff (cpus s (hart s)) = 0 \<and>
     lock_free (ProcLock p) s"

text \<open>The hart after the scheduler has taken over from a process that held only its own lock.\<close>

definition switched :: "'a pstate_scheme \<Rightarrow> 'a pstate_scheme \<Rightarrow> bool" where
  "switched s t \<longleftrightarrow> hart t = hart s \<and> c_proc (cpus t (hart s)) = None \<and> noff (cpus t (hart s)) = 0 \<and>
     \<not> sie t (hart s) \<and> lktab t = lktab s"

lemma more_ptable:
  fixes s :: "'a pstate_scheme"
  shows "mach.more t = mach.more s \<Longrightarrow> mach.more (t\<lparr>ptable := f\<rparr>) = mach.more (s\<lparr>ptable := f\<rparr>)"
  by (cases s; cases t; simp)

lemma sched_eq:
  assumes "c_proc (cpus s (hart s)) = Some p" and "noff (cpus s (hart s)) = 1" and "\<not> sie s (hart s)"
    and "holds_lock (ProcLock p) s" and "p_state (ptable s p) \<noteq> RUNNING"
  shows "sched s = Inr (intena (cpus s (hart s)), s)"
proof -
  have "hart_ok s" using assms by (simp add: hart_ok_def)
  then show ?thesis using assms
    by (simp add: sched_def monad_simps the_proc_eq settle_id holding_def holds_lock_def mycpu_def cpuid_def
        get_proc_def intr_get_def)
qed

lemma scheduler_back_ok:
  assumes "noff (cpus s (hart s)) = 1" and "\<not> sie s (hart s)" and "holds_lock (ProcLock p) s"
  shows "\<exists>t. scheduler_back p s = Inr ((), t) \<and> switched s t \<and> mach.more t = mach.more s \<and>
    lks t = (lks s)(ProcLock p := \<lparr>locked = False, lk_cpu = None\<rparr>)"
proof -
  let ?t = "s\<lparr>cpus := (cpus s)(hart s := (cpus s (hart s))\<lparr>c_proc := None, intena := False\<rparr>)\<rparr>"
  have "release (ProcLock p) ?t = Inr ((), unlock_st (ProcLock p) ?t)"
    by (rule release_eq) (use assms in \<open>simp_all add: holds_lock_def\<close>)
  then have "scheduler_back p s = Inr ((), unlock_st (ProcLock p) ?t)"
    by (simp add: scheduler_back_def monad_simps upd_mycpu_def)
  moreover have "switched s (unlock_st (ProcLock p) ?t)"
    using assms by (simp add: switched_def unlock_st_def pop_st_def)
  ultimately show ?thesis by simp
qed

lemma yield_begin_ok:
  assumes "running p s"
  shows "\<exists>ie t. yield_begin s = Inr (ie, t) \<and> switched s t \<and> lks t = lks s \<and>
    mach.more t = mach.more (s\<lparr>ptable := (ptable s)(p := (ptable s p)\<lparr>p_state := RUNNABLE\<rparr>)\<rparr>)"
proof -
  have h: "hart_ok s" using assms by (simp add: hart_ok_def running_def)
  let ?u = "(lock_st (ProcLock p) (settle s))\<lparr>ptable := (ptable s)(p := (ptable s p)\<lparr>p_state := RUNNABLE\<rparr>)\<rparr>"
  have u: "c_proc (cpus ?u (hart ?u)) = Some p" "noff (cpus ?u (hart ?u)) = 1" "\<not> sie ?u (hart ?u)"
    "holds_lock (ProcLock p) ?u" "p_state (ptable ?u p) \<noteq> RUNNING"
    using assms by (simp_all add: running_def lock_st_def push_st_def settle_def holds_lock_def)
  from scheduler_back_ok [OF u(2,3,4)] obtain t where t: "scheduler_back p ?u = Inr ((), t)" "switched ?u t"
    "mach.more t = mach.more ?u" "lks t = (lks ?u)(ProcLock p := \<lparr>locked = False, lk_cpu = None\<rparr>)" by blast
  have "yield_begin s = Inr (intena (cpus ?u (hart ?u)), t)"
    using assms the_proc_eq [OF h, of p] acquire_eq [of "ProcLock p" "settle s"] sched_eq [OF u] t(1)
    by (simp add: yield_begin_def bindM_run thenM_run ret_run upd_proc_def modify_apply running_def)
  moreover have "lks t = lks s" using t(4) assms by (auto simp: running_def lock_free_def fun_eq_iff)
  moreover have "mach.more ?u = mach.more (s\<lparr>ptable := (ptable s)(p := (ptable s p)\<lparr>p_state := RUNNABLE\<rparr>)\<rparr>)"
    by (rule more_ptable) simp
  moreover have "switched s t" using t(2) by (simp add: switched_def)
  ultimately show ?thesis using t(3) by simp
qed

text \<open>\<open>sleep\<close> with a lock that is not the process's own: the lock is free again afterwards.\<close>

lemma sleep_begin_ok:
  assumes "c_proc (cpus s (hart s)) = Some p" and "noff (cpus s (hart s)) = 1" and "\<not> sie s (hart s)"
    and "holds_lock lk s" and "lock_free (ProcLock p) s"
  shows "\<exists>ie t. sleep_begin ch lk s = Inr (ie, t) \<and> switched s t \<and>
    lks t = (lks s)(lk := \<lparr>locked = False, lk_cpu = None\<rparr>) \<and>
    mach.more t = mach.more (s\<lparr>ptable := (ptable s)(p := (ptable s p)\<lparr>chan := Some ch, p_state := SLEEPING\<rparr>)\<rparr>)"
proof -
  have h: "hart_ok s" using assms by (simp add: hart_ok_def)
  have ne: "lk \<noteq> ProcLock p" using assms(4,5) by (auto simp: holds_lock_def lock_free_def)
  let ?v = "lock_st (ProcLock p) s"
  have nv: "noff (cpus ?v (hart ?v)) = 2" using assms(2) by simp
  have rel: "release lk ?v = Inr ((), unlock_st lk ?v)"
    by (rule release_eq) (use assms ne nv in simp_all)
  let ?u = "(unlock_st lk ?v)\<lparr>ptable := (ptable s)(p := (ptable s p)\<lparr>chan := Some ch, p_state := SLEEPING\<rparr>)\<rparr>"
  have u: "c_proc (cpus ?u (hart ?u)) = Some p" "noff (cpus ?u (hart ?u)) = 1" "\<not> sie ?u (hart ?u)"
    "holds_lock (ProcLock p) ?u" "p_state (ptable ?u p) \<noteq> RUNNING"
    using assms ne by (simp_all add: lock_st_def push_st_def unlock_st_def pop_st_def holds_lock_def)
  from scheduler_back_ok [OF u(2,3,4)] obtain t where t: "scheduler_back p ?u = Inr ((), t)" "switched ?u t"
    "mach.more t = mach.more ?u" "lks t = (lks ?u)(ProcLock p := \<lparr>locked = False, lk_cpu = None\<rparr>)" by blast
  have "sleep_begin ch lk s = Inr (intena (cpus ?u (hart ?u)), t)"
    using the_proc_eq [OF h assms(1)] settle_id [of s] assms(2) ne acquire_eq [OF assms(5)] rel sched_eq [OF u] t(1)
    by (simp add: sleep_begin_def whenM_def bindM_run thenM_run ret_run upd_proc_def modify_apply)
  moreover have "lks t = (lks s)(lk := \<lparr>locked = False, lk_cpu = None\<rparr>)"
    using t(4) assms(5) ne by (auto simp: lock_free_def fun_eq_iff)
  moreover have "mach.more ?u = mach.more (s\<lparr>ptable := (ptable s)(p := (ptable s p)\<lparr>chan := Some ch, p_state := SLEEPING\<rparr>)\<rparr>)"
    by (rule more_ptable) simp
  moreover have "switched s t" using t(2) by (simp add: switched_def)
  ultimately show ?thesis using t(3) by simp
qed

end
