(* ===== verification/Proc_Theorems.thy ===== *)
theory Proc_Theorems
  imports Proc_Sched Buddy_Theorems
begin

text \<open>
  The properties of processes and scheduling, and a machine on which they are applied.
\<close>

section \<open>A machine with an empty process table\<close>

definition no_proc :: proc where
  "no_proc = \<lparr>p_state = UNUSED, parent = None, chan = None, killed = False, xstate = 0, pid = 0,
     priority = DEF_PRIO, kstack = 0, psz = 0, pagetable = 0, tf = 0,
     p_context = \<lparr>ctx_ra = Forkret, ctx_sp = 0\<rparr>, ofile = (\<lambda>_. None), cwd = None, p_name = [], cmd = 0\<rparr>"

definition boot_proc :: "(nat \<Rightarrow> proc) \<Rightarrow> pstate" where
  "boot_proc tab = \<lparr>hart = 0, cpus = (\<lambda>_. \<lparr>c_proc = None, noff = 0, intena = False\<rparr>),
     sie = (\<lambda>_. False), lks = (\<lambda>_. \<lparr>locked = False, lk_cpu = None\<rparr>), lktab = [],
     nxt = (\<lambda>_. 0), prv = (\<lambda>_. 0), nsizes = 0, bd_base = 0, bd_sizes_ptr = 0, bd_sizes = [],
     mem = (\<lambda>_. 0), kernel_pagetable = 0, satp = 0, ptable = tab, prio = (\<lambda>_. 0), lp_p = (\<lambda>_. 0),
     lp_next = (\<lambda>_. 0), initproc = None, nextpid = 1\<rparr>"

text \<open>The allocator is initialised, the queues are empty; the harts may be in any state.\<close>

lemma boot_queues:
  fixes tab c e l
  obtains s :: pstate where "prio_rep (boot_leaves 6 62) s (\<lambda>_. [])" and "room s" and "ptable s = tab"
    and "hart s = 0" and "cpus s = (\<lambda>_. \<lparr>c_proc = c, noff = 0, intena = False\<rparr>)" and "sie s = (\<lambda>_. False)"
    and "lks s = (\<lambda>_. \<lparr>locked = False, lk_cpu = None\<rparr>)"
proof -
  let ?b = "boot_proc tab"
  have ok: "length (lktab ?b) < NLOCK" "hart_ok ?b" by (simp_all add: boot_proc_def NLOCK_def hart_ok_def)
  obtain t where t: "bd_inv (boot_leaves 6 62) t" "free_blk t 1 30" "bd_state.more t = bd_state.more ?b"
    using bd_init_ok [OF ok boot_heap_fits] by (auto simp: init_free_def)
  note same = pstate_more [OF t(3)]
  have "nodes (boot_leaves 6 62) t (\<lambda>_. [])" using same by (simp add: nodes_def boot_proc_def)
  then have "prio_rep (boot_leaves 6 62) t (\<lambda>_. [])" using t(1) by (auto simp: prio_rep_def)
  then have "prio_rep (boot_leaves 6 62) (t\<lparr>hart := 0, cpus := (\<lambda>_. \<lparr>c_proc = c, noff = 0, intena = False\<rparr>),
      sie := (\<lambda>_. False), lks := (\<lambda>_. \<lparr>locked = False, lk_cpu = None\<rparr>)\<rparr>) (\<lambda>_. [])" (is "prio_rep _ ?s _")
    by (rule prio_rep_cong) (simp_all add: hart_ok_def lock_free_def)
  moreover have "room ?s" unfolding room_def using t(2) by (subst bd_cong(7) [of _ t]) auto
  moreover have "ptable ?s = tab" using same by (simp add: boot_proc_def)
  ultimately show thesis by (rule that) simp_all
qed

section \<open>The queues\<close>

text \<open>
  C23: the linked lists of processes implement a queue.  \<open>insert_into_prio_queue\<close> appends the
  process to the queue of its priority and leaves the other queues, the process table and the
  memory alone; when the allocator is exhausted it writes through the null pointer.
\<close>

theorem prio_queue_insert:
  assumes "prio_rep R s q" and "pr = priority (ptable s p)" and "0 \<le> pr" and "pr < NPRIO"
  shows "if room s then \<exists>t. insert_into_prio_queue p s = Inr ((), t) \<and>
      prio_rep R t (q(pr := q pr @ [p])) \<and> lp_frame s t
    else insert_into_prio_queue p s = Inl Null_Deref"
  using insert_ok [OF assms(1) _ assms(2-4)] insert_no_memory [of R s p] assms(1)
  by (auto simp: prio_rep_def)

theorem prio_queue_insert_witness:
  "\<exists>s t. prio_rep (boot_leaves 6 62) (s :: pstate) (\<lambda>_. []) \<and> insert_into_prio_queue 3 s = Inr ((), t) \<and>
    prio_rep (boot_leaves 6 62) t ((\<lambda>_. [])(5 := [3]))"
proof -
  obtain s :: pstate where s: "prio_rep (boot_leaves 6 62) s (\<lambda>_. [])" "room s" "ptable s = (\<lambda>_. no_proc)"
    by (rule boot_queues)
  have "5 = priority (ptable s 3)" using s(3) by (simp add: no_proc_def DEF_PRIO_def)
  from prio_queue_insert [OF s(1) this] s(1,2) show ?thesis by (auto simp: NPRIO_def)
qed

text \<open>
  C24: \<open>remove_from_prio_queue\<close> takes the first occurrence of the process out of the queue of its
  priority and gives the node back; it does nothing if there is none.  After a removal there is
  memory for a node.
\<close>

theorem prio_queue_remove:
  assumes "prio_rep R s q" and "pr = priority (ptable s p)" and "0 \<le> pr" and "pr < NPRIO"
  shows "\<exists>t. remove_from_prio_queue p s = Inr ((), t) \<and> prio_rep R t (q(pr := remove1 p (q pr))) \<and>
    lp_frame s t \<and> (room s \<or> p \<in> set (q pr) \<longrightarrow> room t)"
  by (rule remove_ok [OF assms])

theorem prio_queue_remove_witness:
  "\<exists>s t. prio_rep (boot_leaves 6 62) (s :: pstate) ((\<lambda>_. [])(5 := [3])) \<and>
    remove_from_prio_queue 3 s = Inr ((), t) \<and> prio_rep (boot_leaves 6 62) t (\<lambda>_. [])"
proof -
  obtain s0 :: pstate where s0: "prio_rep (boot_leaves 6 62) s0 (\<lambda>_. [])" "room s0" "ptable s0 = (\<lambda>_. no_proc)"
    by (rule boot_queues)
  have p0: "5 = priority (ptable s0 3)" using s0(3) by (simp add: no_proc_def DEF_PRIO_def)
  from insert_ok [OF s0(1,2) this] obtain s where
    s: "prio_rep (boot_leaves 6 62) s ((\<lambda>_. [])(5 := [3]))" "lp_frame s0 s" by (auto simp: NPRIO_def)
  have "5 = priority (ptable s 3)" using p0 s(2) by (simp add: lp_frame_def)
  from prio_queue_remove [OF s(1) this] s(1) show ?thesis by (auto simp: NPRIO_def fun_upd_idem)
qed

section \<open>Scheduling\<close>



section \<open>Killing and changing the priority\<close>

lemma nice_loop_eq: "nice_loop n i ps s = (case find (\<lambda>p. pid (ptable s p) = n) ps of None \<Rightarrow> Inr (0, s)
    | Some p \<Rightarrow> thenM (remove_from_prio_queue p) (thenM (upd_proc p (\<lambda>q. q\<lparr>priority := i\<rparr>))
        (thenM (insert_into_prio_queue p) (ret 1))) s)"
  by (induction ps) (simp_all add: bindM_apply get_proc_def gets_apply ret_apply)

text \<open>
  C25: \<open>nice\<close> moves the process to the end of the queue of its new priority, if there is memory for a node
  of a queue and the priorities in the table and the new one are in range.  It takes the first
  slot of the table with the given pid, in whatever state the slot is, removes it from the queue
  of its old priority if it is on it, and appends it to the queue of the new one; with no such
  slot it changes nothing and returns 0.  (A slot that is on no queue, such as an unused one, is
  put on a queue too.)
\<close>

theorem nice_requeues:
  assumes "prio_rep R s q" and "room s" and "\<And>p. 0 \<le> priority (ptable s p) \<and> priority (ptable s p) < NPRIO"
    and "0 \<le> i" and "i < NPRIO"
  shows "case find (\<lambda>p. pid (ptable s p) = n) [0..<NPROC] of
      None \<Rightarrow> nice n i s = Inr (0, s)
    | Some p \<Rightarrow> \<exists>t. nice n i s = Inr (1, t) \<and>
        ptable t = (ptable s)(p := (ptable s p)\<lparr>priority := i\<rparr>) \<and>
        prio_rep R t (let pr = priority (ptable s p); r = q(pr := remove1 p (q pr)) in r(i := r i @ [p]))"
proof (cases "find (\<lambda>p. pid (ptable s p) = n) [0..<NPROC]")
  case None
  then show ?thesis by (simp add: nice_def nice_loop_eq)
next
  case (Some p)
  let ?pr = "priority (ptable s p)"
  from remove_ok [OF assms(1) refl, of p] assms(2,3) obtain t where
    t: "remove_from_prio_queue p s = Inr ((), t)" "prio_rep R t (q(?pr := remove1 p (q ?pr)))" "lp_frame s t" "room t"
    by blast
  let ?u = "t\<lparr>ptable := (ptable t)(p := (ptable t p)\<lparr>priority := i\<rparr>)\<rparr>"
  have "prio_rep R ?u (q(?pr := remove1 p (q ?pr)))" "room ?u" "i = priority (ptable ?u p)" using t by simp_all
  from insert_ok [OF this assms(4,5)] obtain v where
    v: "insert_into_prio_queue p ?u = Inr ((), v)" "lp_frame ?u v"
    "prio_rep R v ((q(?pr := remove1 p (q ?pr)))(i := (q(?pr := remove1 p (q ?pr))) i @ [p]))" by blast
  have "nice n i s = Inr (1, v)"
    using Some t(1) v(1) by (simp add: nice_def nice_loop_eq thenM_run upd_proc_def modify_apply ret_apply)
  moreover have "ptable v = (ptable s)(p := (ptable s p)\<lparr>priority := i\<rparr>)" using t(3) v(2) by (simp add: lp_frame_def)
  ultimately show ?thesis using Some v(3) by (simp add: Let_def)
qed

theorem nice_requeues_witness:
  "\<exists>s t. ptable (s :: pstate) = (\<lambda>_. no_proc) \<and> prio_rep (boot_leaves 6 62) s (\<lambda>_. []) \<and>
    nice 0 2 s = Inr (1, t) \<and> p_state (ptable t 0) = UNUSED \<and> prio_rep (boot_leaves 6 62) t ((\<lambda>_. [])(2 := [0]))"
proof -
  obtain s :: pstate where s: "prio_rep (boot_leaves 6 62) s (\<lambda>_. [])" "room s" "ptable s = (\<lambda>_. no_proc)"
    by (rule boot_queues)
  have f: "find (\<lambda>p. pid (ptable s p) = 0) [0..<NPROC] = Some 0"
    by (subst upt_rec) (simp add: s(3) no_proc_def NPROC_def)
  have pr: "0 \<le> priority (ptable s p) \<and> priority (ptable s p) < NPRIO" for p
    by (simp add: s(3) no_proc_def DEF_PRIO_def NPRIO_def)
  have "(0::int) \<le> 2" "(2::int) < NPRIO" by (simp_all add: NPRIO_def)
  from nice_requeues [OF s(1,2) pr this, of 0, unfolded f] s show ?thesis
    by (auto simp: no_proc_def DEF_PRIO_def Let_def fun_upd_idem)
qed

lemma kill_step:
  assumes "hart_ok s" and "lock_free (ProcLock p) s"
  shows "kill_loop n (p # ps) s = (if pid (ptable s p) = n
    then Inr (0, settle (s\<lparr>ptable := (ptable s)(p := (ptable s p)\<lparr>killed := True,
      p_state := (if p_state (ptable s p) = SLEEPING then RUNNABLE else p_state (ptable s p))\<rparr>)\<rparr>))
    else kill_loop n ps (settle s))"
proof -
  let ?f = "(ptable s)(p := (ptable s p)\<lparr>killed := True,
      p_state := (if p_state (ptable s p) = SLEEPING then RUNNABLE else p_state (ptable s p))\<rparr>)"
  have "release (ProcLock p) (lock_st (ProcLock p) (s\<lparr>ptable := ?f\<rparr>)) = Inr ((), settle (s\<lparr>ptable := ?f\<rparr>))"
    by (rule release_lock_st) (use assms in simp_all)
  then show ?thesis
    using assms release_lock_st [OF assms]
    by (auto simp: bindM_apply thenM_apply acquire_eq get_proc_def gets_apply upd_proc_def modify_apply whenM_def
        ret_apply lock_st_ptable)
qed

lemma kill_loop_eq:
  assumes "hart_ok s" and "\<And>p. lock_free (ProcLock p) s"
  shows "kill_loop n ps (settle s) = (case find (\<lambda>p. pid (ptable s p) = n) ps of None \<Rightarrow> Inr (- 1, settle s)
    | Some p \<Rightarrow> Inr (0, settle (s\<lparr>ptable := (ptable s)(p := (ptable s p)\<lparr>killed := True,
        p_state := (if p_state (ptable s p) = SLEEPING then RUNNABLE else p_state (ptable s p))\<rparr>)\<rparr>)))"
proof (induction ps)
  case Nil
  then show ?case by (simp add: ret_apply)
next
  case (Cons p ps)
  then show ?case using kill_step [of "settle s" p n ps] assms by (simp add: settle_ptable)
qed

text \<open>
  C26: \<open>kill\<close> marks the first slot of the table with the given pid and wakes it if it sleeps; the
  other slots are left alone, and without such a slot it returns -1.  The state of the slot is
  not looked at: \<open>kill(0)\<close> marks an unused slot, and \<open>allocproc\<close> does not clear the mark.
\<close>

theorem kill_marks:
  assumes "hart_ok s" and "\<And>p. lock_free (ProcLock p) s"
  shows "kill n s = (case find (\<lambda>p. pid (ptable s p) = n) [0..<NPROC] of None \<Rightarrow> Inr (- 1, settle s)
    | Some p \<Rightarrow> Inr (0, settle (s\<lparr>ptable := (ptable s)(p := (ptable s p)\<lparr>killed := True,
        p_state := (if p_state (ptable s p) = SLEEPING then RUNNABLE else p_state (ptable s p))\<rparr>)\<rparr>)))"
proof -
  have ps: "[0..<NPROC] = 0 # [1..<NPROC]" by (subst upt_rec) (simp add: NPROC_def)
  show ?thesis unfolding kill_def ps using kill_step [OF assms(1) assms(2)] kill_loop_eq [OF assms] by simp
qed

theorem kill_marks_witness:
  "\<exists>t. kill 0 (boot_proc (\<lambda>_. no_proc)) = Inr (0, t) \<and> p_state (ptable t 0) = UNUSED \<and> killed (ptable t 0)"
proof -
  let ?s = "boot_proc (\<lambda>_. no_proc)"
  have "find (\<lambda>p. pid (ptable ?s p) = 0) [0..<NPROC] = Some 0"
    by (subst upt_rec) (simp add: boot_proc_def no_proc_def NPROC_def)
  moreover have "hart_ok ?s" "\<And>p. lock_free (ProcLock p) ?s" by (simp_all add: boot_proc_def hart_ok_def lock_free_def)
  ultimately show ?thesis using kill_marks [of ?s 0] by (simp add: boot_proc_def no_proc_def)
qed

end
