(* ===== verification/Sleep_Steps.thy ===== *)
theory Sleep_Steps
  imports Proc_Theorems "HOL-Library.Sublist"
begin

text \<open>
  \<open>sleep\<close> and \<open>wakeup\<close> of kernel/proc.c on several harts at the same time.  The two functions
  are cut at their lock operations and at their stores: the actions of \<open>sleep_acts\<close> and of
  \<open>wakeup_acts\<close>, run one after the other, are \<open>sleep_begin\<close> and \<open>wakeup\<close> (theory Proc).  A
  configuration holds what each hart still has to do and the state of the kernel; a step runs
  the next action of any one hart, with the model's own \<open>acquire\<close>, \<open>release\<close>, \<open>sched\<close> and
  \<open>scheduler_back\<close>.  A hart whose \<open>acquire\<close> finds the lock taken does not move.

  The lemmas on locks hold for every program whose locks are properly nested: \<open>needs\<close> reads off
  the rest of a program the locks its hart holds.
\<close>

section \<open>The actions\<close>

datatype sched_act = Acquire lockid | Release lockid | Set_Chan nat chan | Set_State nat procstate
  | Wake nat chan | Switch nat

fun run_act :: "sched_act \<Rightarrow> ('a pstate_scheme, unit) kmon" where
  "run_act (Acquire l) = acquire l"
| "run_act (Release l) = release l"
| "run_act (Set_Chan p ch) = upd_proc p (\<lambda>q. q\<lparr>chan := Some ch\<rparr>)"
| "run_act (Set_State p st) = upd_proc p (\<lambda>q. q\<lparr>p_state := st\<rparr>)"
| "run_act (Wake p ch) = bindM (get_proc p) (\<lambda>pr.
     whenM (p_state pr = SLEEPING \<and> chan pr = Some ch) (upd_proc p (\<lambda>q. q\<lparr>p_state := RUNNABLE\<rparr>)))"
| "run_act (Switch p) = bindM sched (\<lambda>ie. scheduler_back p)"

definition sleep_acts :: "nat \<Rightarrow> chan \<Rightarrow> lockid \<Rightarrow> sched_act list" where
  "sleep_acts p ch lk =
     (if lk \<noteq> ProcLock p then [Acquire (ProcLock p), Release lk] else []) @
     [Set_Chan p ch, Set_State p SLEEPING, Switch p]"

definition wakeup_acts :: "chan \<Rightarrow> sched_act list" where
  "wakeup_acts ch =
     concat (map (\<lambda>p. [Acquire (ProcLock p), Wake p ch, Release (ProcLock p)]) [0..<NPROC])"

text \<open>A caller of \<open>wakeup\<close>: it holds the lock the sleepers pass to \<open>sleep\<close>.\<close>

definition waker :: "lockid \<Rightarrow> chan \<Rightarrow> sched_act list" where
  "waker lk ch = [Acquire lk] @ wakeup_acts ch @ [Release lk]"

type_synonym harts = "(nat \<Rightarrow> sched_act list) \<times> pstate"

inductive harts_step :: "harts \<Rightarrow> harts \<Rightarrow> bool" where
  move: "todo h = a # as \<Longrightarrow> run_act a (s\<lparr>hart := h\<rparr>) = Inr ((), t) \<Longrightarrow>
    harts_step (todo, s) (todo(h := as), t)"

inductive_cases harts_stepE: "harts_step (todo, s) c"

text \<open>
  Process \<open>p\<close> runs on hart \<open>h0\<close>, holds \<open>lk\<close> and is about to sleep on \<open>ch\<close>; every other hart
  \<open>h\<close> is about to wake the sleepers on each of the channels \<open>cs h\<close>.
\<close>

definition sleep_boot :: "nat \<Rightarrow> nat \<Rightarrow> chan \<Rightarrow> lockid \<Rightarrow> (nat \<Rightarrow> chan list) \<Rightarrow> harts \<Rightarrow> bool" where
  "sleep_boot h0 p ch lk cs = (\<lambda>(todo, s).
     todo = (\<lambda>h. if h = h0 then sleep_acts p ch lk else concat (map (waker lk) (cs h))) \<and>
     c_proc (cpus s h0) = Some p \<and> noff (cpus s h0) = 1 \<and>
     lks s lk = \<lparr>locked = True, lk_cpu = Some h0\<rparr> \<and>
     (\<forall>q. lks s (ProcLock q) = \<lparr>locked = False, lk_cpu = None\<rparr>) \<and>
     (\<forall>h. 0 \<le> noff (cpus s h) \<and> (0 < noff (cpus s h) \<longrightarrow> \<not> sie s h)))"

section \<open>The actions are the functions\<close>

lemma wakeup_eq_acts: "wakeup ch = forM (wakeup_acts ch) run_act"
proof -
  have "forM (concat (map (\<lambda>p. [Acquire (ProcLock p), Wake p ch, Release (ProcLock p)]) ps)) run_act =
    forM ps (\<lambda>p. thenM (acquire (ProcLock p)) (bindM (get_proc p) (\<lambda>pr.
       thenM (whenM (p_state pr = SLEEPING \<and> chan pr = Some ch) (upd_proc p (\<lambda>q. q\<lparr>p_state := RUNNABLE\<rparr>)))
      (release (ProcLock p)))))" for ps
    by (induction ps) (auto simp: fun_eq_iff bindM_apply thenM_apply split: sum.splits prod.splits)
  then show ?thesis unfolding wakeup_def wakeup_acts_def by (rule sym)
qed

lemma sleep_eq_acts:
  "bindM (sleep_begin ch lk) (\<lambda>ie. ret ()) = bindM the_proc (\<lambda>p. forM (sleep_acts p ch lk) run_act)"
  by (auto simp: fun_eq_iff sleep_begin_def sleep_acts_def whenM_def bindM_apply thenM_apply ret_apply
      split: sum.splits prod.splits)

section \<open>Locks of nested programs\<close>

fun needs :: "sched_act list \<Rightarrow> lockid set" where
  "needs [] = {}"
| "needs (Acquire l # as) = needs as - {l}"
| "needs (Release l # as) = insert l (needs as)"
| "needs (Switch p # as) = insert (ProcLock p) (needs as)"
| "needs (a # as) = needs as"

lemma finite_needs [simp]: "finite (needs as)"
  by (induction as rule: needs.induct) auto

definition lock_ok :: "lockid set \<Rightarrow> nat \<Rightarrow> harts \<Rightarrow> bool" where
  "lock_ok L h0 = (\<lambda>(todo, s).
     (\<forall>h. \<forall>l \<in> needs (todo h). lks s l = \<lparr>locked = True, lk_cpu = Some h\<rparr>) \<and>
     (\<forall>l \<in> L. (\<forall>h. l \<notin> needs (todo h)) \<longrightarrow> lks s l = \<lparr>locked = False, lk_cpu = None\<rparr>) \<and>
     (\<forall>h. int (card (needs (todo h))) \<le> noff (cpus s h) \<and> (0 < noff (cpus s h) \<longrightarrow> \<not> sie s h)) \<and>
     noff (cpus s h0) = int (card (needs (todo h0))))"

lemma lock_okD:
  assumes "lock_ok L h0 (todo, s)"
  shows "l \<in> needs (todo h) \<Longrightarrow> lks s l = \<lparr>locked = True, lk_cpu = Some h\<rparr>"
    and "l \<in> L \<Longrightarrow> (\<And>h. l \<notin> needs (todo h)) \<Longrightarrow> lks s l = \<lparr>locked = False, lk_cpu = None\<rparr>"
    and "int (card (needs (todo h))) \<le> noff (cpus s h)"
    and "0 < noff (cpus s h) \<Longrightarrow> \<not> sie s h"
    and "noff (cpus s h0) = int (card (needs (todo h0)))"
  using assms by (auto simp: lock_ok_def)

lemma lock_okI:
  assumes "\<And>h l. l \<in> needs (todo h) \<Longrightarrow> lks s l = \<lparr>locked = True, lk_cpu = Some h\<rparr>"
    and "\<And>l. l \<in> L \<Longrightarrow> (\<And>h. l \<notin> needs (todo h)) \<Longrightarrow> lks s l = \<lparr>locked = False, lk_cpu = None\<rparr>"
    and "\<And>h. int (card (needs (todo h))) \<le> noff (cpus s h)"
    and "\<And>h. 0 < noff (cpus s h) \<Longrightarrow> \<not> sie s h"
    and "noff (cpus s h0) = int (card (needs (todo h0)))"
  shows "lock_ok L h0 (todo, s)"
  using assms by (simp add: lock_ok_def)

lemma lock_ok_unique:
  assumes "lock_ok L h0 (todo, s)" and "l \<in> needs (todo h)" and "l \<in> needs (todo k)"
  shows "h = k"
  using lock_okD(1) [OF assms(1,2)] lock_okD(1) [OF assms(1,3)] by simp

lemma lock_ok_hart: "lock_ok L h0 (todo, s) \<Longrightarrow> hart_ok (s\<lparr>hart := h\<rparr>)"
  using lock_okD(3,4) [of L h0 todo s h] by (simp add: hart_ok_def)

lemma lock_ok_noff:
  assumes "lock_ok L h0 (todo, s)" and "l \<in> needs (todo h)"
  shows "0 < noff (cpus s h)" and "\<not> sie s h"
proof -
  have "0 < card (needs (todo h))" using assms(2) by (auto simp: card_gt_0_iff)
  then show n: "0 < noff (cpus s h)" using lock_okD(3) [OF assms(1), of h] by linarith
  then show "\<not> sie s h" by (rule lock_okD(4) [OF assms(1)])
qed

lemma acquire_runs:
  assumes "lock_ok L h0 (todo, s)" and "l \<in> L" and "\<And>h. l \<notin> needs (todo h)"
  shows "acquire l (s\<lparr>hart := h\<rparr>) = Inr ((), lock_st l (s\<lparr>hart := h\<rparr>))"
  using assms by (intro acquire_eq) (simp add: lock_free_def lock_ok_def)

lemma acquire_waits:
  assumes "lock_ok L h0 (todo, s)" and "l \<in> needs (todo k)"
  shows "acquire l (s\<lparr>hart := h\<rparr>) \<noteq> Inr ((), t)"
proof -
  have "lks s l = \<lparr>locked = True, lk_cpu = Some k\<rparr>" using assms by (simp add: lock_ok_def)
  then show ?thesis
    using acquire_busy [of "s\<lparr>hart := h\<rparr>" l] acquire_held [of l "s\<lparr>hart := h\<rparr>"]
    by (cases "k = h") (simp_all add: holds_lock_def)
qed

lemma release_runs:
  assumes "lock_ok L h0 (todo, s)" and "l \<in> needs (todo h)"
  shows "release l (s\<lparr>hart := h\<rparr>) = Inr ((), unlock_st l (s\<lparr>hart := h\<rparr>))"
  using lock_ok_noff [OF assms] assms
  by (intro release_eq) (simp_all add: holds_lock_def lock_ok_def)

lemma card_needs_acquire:
  "l \<in> needs as \<Longrightarrow> int (card (needs as)) = int (card (needs (Acquire l # as))) + 1"
  using card.remove [of "needs as" l] by simp

lemma lock_ok_acquire:
  assumes ok: "lock_ok L h0 (todo, s)" and h: "todo h = Acquire l # as" and l: "l \<in> needs as"
    and free: "\<And>k. l \<notin> needs (todo k)"
  shows "lock_ok L h0 (todo(h := as), lock_st l (s\<lparr>hart := h\<rparr>))"
proof (rule lock_okI)
  have n: "needs (todo h) = needs as - {l}" using h by simp
  note c = card_needs_acquire [OF l]
  show "lks (lock_st l (s\<lparr>hart := h\<rparr>)) m = \<lparr>locked = True, lk_cpu = Some k\<rparr>"
    if "m \<in> needs ((todo(h := as)) k)" for k m
    using that lock_okD(1) [OF ok, of m k] free n by (auto split: if_splits)
  show "lks (lock_st l (s\<lparr>hart := h\<rparr>)) m = \<lparr>locked = False, lk_cpu = None\<rparr>"
    if "m \<in> L" and "\<And>k. m \<notin> needs ((todo(h := as)) k)" for m
  proof -
    have "m \<noteq> l" using that(2) [of h] l by auto
    moreover have "m \<notin> needs (todo k)" for k using that(2) [of k] that(2) [of h] n by (cases "k = h") auto
    ultimately show ?thesis using lock_okD(2) [OF ok that(1)] by simp
  qed
  show "int (card (needs ((todo(h := as)) k))) \<le> noff (cpus (lock_st l (s\<lparr>hart := h\<rparr>)) k)" for k
    using lock_okD(3) [OF ok, of k] c h by (auto simp: lock_st_def push_st_def)
  show "\<not> sie (lock_st l (s\<lparr>hart := h\<rparr>)) k" if "0 < noff (cpus (lock_st l (s\<lparr>hart := h\<rparr>)) k)" for k
    using that lock_okD(4) [OF ok, of k] by (simp add: lock_st_def push_st_def split: if_splits)
  show "noff (cpus (lock_st l (s\<lparr>hart := h\<rparr>)) h0) = int (card (needs ((todo(h := as)) h0)))"
    using lock_okD(5) [OF ok] c h by (auto simp: lock_st_def push_st_def)
qed

lemma lock_ok_release:
  assumes ok: "lock_ok L h0 (todo, s)" and h: "todo h = Release l # as" and l: "l \<notin> needs as"
  shows "lock_ok L h0 (todo(h := as), unlock_st l (s\<lparr>hart := h\<rparr>))"
proof (rule lock_okI)
  have n: "needs (todo h) = insert l (needs as)" using h by simp
  have other: "l \<notin> needs (todo k)" if "k \<noteq> h" for k
    using lock_ok_unique [OF ok, of l h k] that n by auto
  have c: "int (card (needs (todo h))) = int (card (needs as)) + 1" using l by (simp add: n)
  note d = lock_ok_noff [OF ok, of l h, unfolded n, simplified]
  show "lks (unlock_st l (s\<lparr>hart := h\<rparr>)) m = \<lparr>locked = True, lk_cpu = Some k\<rparr>"
    if "m \<in> needs ((todo(h := as)) k)" for k m
    using that lock_okD(1) [OF ok, of m k] l other n by (auto split: if_splits)
  show "lks (unlock_st l (s\<lparr>hart := h\<rparr>)) m = \<lparr>locked = False, lk_cpu = None\<rparr>"
    if "m \<in> L" and "\<And>k. m \<notin> needs ((todo(h := as)) k)" for m
  proof (cases "m = l")
    case False
    then have "m \<notin> needs (todo k)" for k using that(2) [of k] n by (cases "k = h") auto
    then show ?thesis using lock_okD(2) [OF ok that(1)] False by simp
  qed simp
  show "int (card (needs ((todo(h := as)) k))) \<le> noff (cpus (unlock_st l (s\<lparr>hart := h\<rparr>)) k)" for k
    using lock_okD(3) [OF ok, of k] c by (auto simp: unlock_st_def pop_st_def)
  show "\<not> sie (unlock_st l (s\<lparr>hart := h\<rparr>)) k" if "0 < noff (cpus (unlock_st l (s\<lparr>hart := h\<rparr>)) k)" for k
    using that lock_okD(4) [OF ok, of k] by (simp add: unlock_st_def pop_st_def split: if_splits)
  show "noff (cpus (unlock_st l (s\<lparr>hart := h\<rparr>)) h0) = int (card (needs ((todo(h := as)) h0)))"
    using lock_okD(5) [OF ok] c by (auto simp: unlock_st_def pop_st_def)
qed

lemma lock_ok_table:
  assumes "lock_ok L h0 (todo, s)" and "needs as = needs (todo h)"
  shows "lock_ok L h0 (todo(h := as), s\<lparr>hart := h, ptable := f\<rparr>)"
proof -
  have "needs ((todo(h := as)) k) = needs (todo k)" for k using assms(2) by simp
  then show ?thesis using assms(1) by (simp only: lock_ok_def prod.case) simp
qed

section \<open>The invariant\<close>

text \<open>
  What is left of a program of wakers: it takes the locks in the order \<open>lk\<close>, then one \<open>p->lock\<close>
  at a time, and looks at a process only with both held.
\<close>

fun waker_ok :: "lockid \<Rightarrow> sched_act list \<Rightarrow> bool" where
  "waker_ok lk [] = True"
| "waker_ok lk (Acquire l # as) \<longleftrightarrow> l \<in> needs as \<and> waker_ok lk as \<and>
     (if l = lk then needs as = {lk} else (\<exists>q. l = ProcLock q) \<and> needs as \<subseteq> {lk, l})"
| "waker_ok lk (Release l # as) \<longleftrightarrow> l \<notin> needs as \<and> waker_ok lk as"
| "waker_ok lk (Wake q c # as) \<longleftrightarrow> lk \<in> needs as \<and> ProcLock q \<in> needs as \<and> waker_ok lk as"
| "waker_ok lk (a # as) = False"

lemma wakeup_part:
  assumes "waker_ok lk as" and "needs as = {lk}" and "\<forall>q. lk \<noteq> ProcLock q"
  shows "waker_ok lk (concat (map (\<lambda>p. [Acquire (ProcLock p), Wake p ch, Release (ProcLock p)]) ps) @ as) \<and>
    needs (concat (map (\<lambda>p. [Acquire (ProcLock p), Wake p ch, Release (ProcLock p)]) ps) @ as) = {lk}"
  using assms by (induction ps) auto

lemma wakers_ok:
  assumes "\<forall>q. lk \<noteq> ProcLock q"
  shows "waker_ok lk (concat (map (waker lk) cs)) \<and> needs (concat (map (waker lk) cs)) = {}"
proof (induction cs)
  case (Cons c cs)
  then have "waker_ok lk (Release lk # concat (map (waker lk) cs))"
    and "needs (Release lk # concat (map (waker lk) cs)) = {lk}" by simp_all
  from wakeup_part [OF this assms, of c "[0..<NPROC]"]
  have "waker_ok lk (wakeup_acts c @ Release lk # concat (map (waker lk) cs)) \<and>
    needs (wakeup_acts c @ Release lk # concat (map (waker lk) cs)) = {lk}"
    unfolding wakeup_acts_def .
  moreover have "concat (map (waker lk) (c # cs)) =
    Acquire lk # wakeup_acts c @ Release lk # concat (map (waker lk) cs)" by (simp add: waker_def)
  ultimately show ?case by simp
qed simp

lemma wake_in_wakers: "p < NPROC \<Longrightarrow> ch \<in> set cs \<Longrightarrow> Wake p ch \<in> set (concat (map (waker lk) cs))"
  by (force simp: waker_def wakeup_acts_def)

abbreviation sleep_locks :: "lockid \<Rightarrow> lockid set" where
  "sleep_locks lk \<equiv> insert lk (range ProcLock)"

text \<open>
  A process that is going to sleep, or sleeps, on \<open>ch\<close> has its wakers before it; the only other
  state is that it has been woken.
\<close>

definition sleep_inv :: "nat \<Rightarrow> nat \<Rightarrow> chan \<Rightarrow> lockid \<Rightarrow> (nat \<Rightarrow> chan list) \<Rightarrow> harts \<Rightarrow> bool" where
  "sleep_inv h0 p ch lk cs = (\<lambda>(todo, s).
     lock_ok (sleep_locks lk) h0 (todo, s) \<and> (\<forall>h. h \<noteq> h0 \<longrightarrow> waker_ok lk (todo h)) \<and>
     suffix (todo h0) (sleep_acts p ch lk) \<and> (todo h0 \<noteq> [] \<longrightarrow> c_proc (cpus s h0) = Some p) \<and>
     (if todo h0 = [] \<and> p_state (ptable s p) = RUNNABLE then True
      else (\<forall>h. h \<noteq> h0 \<longrightarrow> ch \<in> set (cs h) \<longrightarrow> Wake p ch \<in> set (todo h)) \<and>
        (length (todo h0) \<le> 2 \<longrightarrow> chan (ptable s p) = Some ch) \<and>
        (length (todo h0) \<le> 1 \<longrightarrow> p_state (ptable s p) = SLEEPING)))"

lemma sleep_inv_waker: "sleep_inv h0 p ch lk cs (todo, s) \<Longrightarrow> h \<noteq> h0 \<Longrightarrow> waker_ok lk (todo h)"
  by (simp add: sleep_inv_def)

lemma sleep_boot_inv:
  assumes "sleep_boot h0 p ch lk cs c" and "p < NPROC" and "\<forall>q. lk \<noteq> ProcLock q"
  shows "sleep_inv h0 p ch lk cs c"
proof -
  obtain todo s where c: "c = (todo, s)" by (cases c)
  have n: "needs (todo h) = (if h = h0 then {lk} else {})" for h
    using assms(1,3) wakers_ok [OF assms(3), of "cs h"] by (auto simp: c sleep_boot_def sleep_acts_def)
  have "lks s lk = \<lparr>locked = True, lk_cpu = Some h0\<rparr>" "noff (cpus s h0) = 1"
    "\<And>q. lks s (ProcLock q) = \<lparr>locked = False, lk_cpu = None\<rparr>"
    "\<And>h. 0 \<le> noff (cpus s h) \<and> (0 < noff (cpus s h) \<longrightarrow> \<not> sie s h)"
    using assms(1) by (simp_all add: c sleep_boot_def)
  then have "lock_ok (sleep_locks lk) h0 (todo, s)"
    by (intro lock_okI) (auto simp: n split: if_split_asm dest: meta_spec [of _ h0])
  moreover have "\<forall>h. h \<noteq> h0 \<longrightarrow> waker_ok lk (todo h)"
    using assms(1) wakers_ok [OF assms(3)] by (simp add: c sleep_boot_def)
  ultimately show ?thesis using assms wake_in_wakers [OF assms(2)]
    by (auto simp: c sleep_inv_def sleep_boot_def sleep_acts_def)
qed

text \<open>As long as the sleeper has something left to do, it holds \<open>lk\<close> or its own lock.\<close>

lemma sleeper_holds:
  "suffix as (sleep_acts p ch lk) \<Longrightarrow> as \<noteq> [] \<Longrightarrow> lk \<in> needs as \<or> ProcLock p \<in> needs as"
  by (auto simp: sleep_acts_def suffix_Cons split: if_splits)

lemma acquire_inv:
  assumes ok: "lock_ok (sleep_locks lk) h0 (todo, s)" and h: "todo h = Acquire l # as"
    and l: "l \<in> needs as" "l \<in> sleep_locks lk" and r: "acquire l (s\<lparr>hart := h\<rparr>) = Inr ((), t)"
  shows "lock_ok (sleep_locks lk) h0 (todo(h := as), t) \<and> ptable t = ptable s \<and>
    (\<forall>k. c_proc (cpus t k) = c_proc (cpus s k))"
proof -
  have free: "l \<notin> needs (todo k)" for k using acquire_waits [OF ok, of l k h t] r by blast
  have t: "t = lock_st l (s\<lparr>hart := h\<rparr>)" using acquire_runs [OF ok l(2) free, of h] r by simp
  have "mach.more t = mach.more s" by (simp add: t)
  then have "ptable t = ptable s" by (rule pstate_mach(8))
  then show ?thesis using lock_ok_acquire [OF ok h l(1) free] by (simp add: t lock_st_def push_st_def)
qed

lemma release_inv:
  assumes ok: "lock_ok (sleep_locks lk) h0 (todo, s)" and h: "todo h = Release l # as"
    and l: "l \<notin> needs as" and r: "release l (s\<lparr>hart := h\<rparr>) = Inr ((), t)"
  shows "lock_ok (sleep_locks lk) h0 (todo(h := as), t) \<and> ptable t = ptable s \<and>
    (\<forall>k. c_proc (cpus t k) = c_proc (cpus s k))"
proof -
  have t: "t = unlock_st l (s\<lparr>hart := h\<rparr>)" using release_runs [OF ok, of l h] r h by simp
  have "mach.more t = mach.more s" by (simp add: t)
  then have "ptable t = ptable s" by (rule pstate_mach(8))
  then show ?thesis using lock_ok_release [OF ok h l] by (simp add: t unlock_st_def pop_st_def)
qed

lemma wake_run:
  "run_act (Wake q c) s = Inr ((), s\<lparr>ptable := (ptable s)(q := wake c (ptable s q))\<rparr>)"
  by (simp add: wake_def get_proc_def upd_proc_def whenM_def monad_simps)

lemma sleep_inv_other:
  assumes inv: "sleep_inv h0 p ch lk cs (todo, s)" and ne: "h \<noteq> h0" and h: "todo h = a # as"
    and a: "a \<noteq> Wake p ch" and w: "waker_ok lk as" and l: "lock_ok (sleep_locks lk) h0 (todo(h := as), t)"
    and same: "ptable t p = ptable s p" "c_proc (cpus t h0) = c_proc (cpus s h0)"
  shows "sleep_inv h0 p ch lk cs (todo(h := as), t)"
proof -
  have "Wake p ch \<in> set ((todo(h := as)) k)" if "Wake p ch \<in> set (todo k)" for k
    using that h a by (cases "k = h") auto
  moreover have "(todo(h := as)) h0 = todo h0" using ne by simp
  ultimately show ?thesis using inv w l same by (simp add: sleep_inv_def del: fun_upd_apply) auto
qed

lemma waker_step_inv:
  assumes inv: "sleep_inv h0 p ch lk cs (todo, s)" and ne: "h \<noteq> h0" and h: "todo h = a # as"
    and r: "run_act a (s\<lparr>hart := h\<rparr>) = Inr ((), t)"
  shows "sleep_inv h0 p ch lk cs (todo(h := as), t)"
proof -
  have ok: "lock_ok (sleep_locks lk) h0 (todo, s)" and w: "waker_ok lk (a # as)"
    using inv ne h by (auto simp: sleep_inv_def dest: spec [of _ h])
  note other = sleep_inv_other [OF inv ne h]
  show ?thesis
  proof (cases a)
    case (Acquire l)
    then have l: "l \<in> needs as" "l \<in> sleep_locks lk" using w by (auto split: if_splits)
    show ?thesis using acquire_inv [OF ok h [unfolded Acquire] l] r w by (intro other) (simp_all add: Acquire)
  next
    case (Release l)
    then show ?thesis using release_inv [OF ok h [unfolded Release]] r w by (intro other) simp_all
  next
    case (Wake q c)
    have t: "t = s\<lparr>hart := h, ptable := (ptable s)(q := wake c (ptable s q))\<rparr>"
      using r by (simp add: Wake wake_run del: run_act.simps)
    have l: "lock_ok (sleep_locks lk) h0 (todo(h := as), t)"
      unfolding t by (rule lock_ok_table [OF ok]) (simp add: h Wake)
    have e: "todo h0 = []" if "q = p"
    proof (rule ccontr)
      assume "todo h0 \<noteq> []"
      then have "lk \<in> needs (todo h0) \<or> ProcLock p \<in> needs (todo h0)"
        using sleeper_holds inv by (auto simp: sleep_inv_def)
      moreover have "lk \<in> needs (todo h)" "ProcLock p \<in> needs (todo h)" using w h that by (auto simp: Wake)
      ultimately show False using lock_ok_unique [OF ok, of _ h h0] ne by blast
    qed
    show ?thesis
    proof (cases "q = p \<and> c = ch")
      case True
      then have "p_state (ptable t p) = RUNNABLE"
        using inv e by (auto simp: sleep_inv_def t wake_def split: if_splits)
      then show ?thesis using inv l w ne e True by (auto simp: sleep_inv_def Wake)
    next
      case False
      have "p_state (ptable s p) = SLEEPING \<Longrightarrow> chan (ptable s p) = Some ch \<or> todo h0 \<noteq> []"
        using inv by (auto simp: sleep_inv_def split: if_splits)
      then show ?thesis using l w False e by (intro other) (auto simp: Wake t wake_def)
    qed
  qed (use w in simp_all)
qed

lemma switch_inv:
  assumes ok: "lock_ok (sleep_locks lk) h0 (todo, s)" and h: "todo h0 = [Switch p]"
    and c: "c_proc (cpus s h0) = Some p" and st: "p_state (ptable s p) \<noteq> RUNNING"
  shows "\<exists>t. run_act (Switch p) (s\<lparr>hart := h0\<rparr>) = Inr ((), t) \<and>
    lock_ok (sleep_locks lk) h0 (todo(h0 := []), t) \<and> ptable t = ptable s"
proof -
  let ?s = "s\<lparr>hart := h0\<rparr>"
  let ?u = "?s\<lparr>cpus := (cpus s)(h0 := (cpus s h0)\<lparr>c_proc := None, intena := False\<rparr>)\<rparr>"
  have hold: "holds_lock (ProcLock p) ?s" using lock_okD(1) [OF ok, of "ProcLock p" h0] h by (simp add: holds_lock_def)
  have n: "noff (cpus s h0) = 1" using lock_okD(5) [OF ok] h by simp
  have i: "\<not> sie s h0" using lock_okD(4) [OF ok, of h0] n by simp
  have "sched ?s = Inr (intena (cpus s h0), ?s)" using sched_eq [of ?s p] c n i hold st by simp
  moreover have "lock_ok (sleep_locks lk) h0 (todo(h0 := [Release (ProcLock p)]), ?u)"
  proof -
    have "needs ((todo(h0 := [Release (ProcLock p)])) k) = needs (todo k)" for k using h by simp
    then show ?thesis using ok by (simp only: lock_ok_def prod.case) simp
  qed
  note r = release_runs [OF this, of "ProcLock p" h0] lock_ok_release [OF this, of h0 "ProcLock p" "[]"]
  have same: "?u\<lparr>hart := h0\<rparr> = ?u" by (rule pstate.equality) simp_all
  have "scheduler_back p ?s = Inr ((), unlock_st (ProcLock p) ?u)"
    using r(1) [unfolded same] by (simp add: scheduler_back_def thenM_apply upd_mycpu_def modify_apply)
  moreover have "ptable (unlock_st (ProcLock p) ?u) = ptable s" by (rule pstate_mach(8)) simp
  ultimately show ?thesis using r(2) [unfolded same] by (simp add: bindM_apply)
qed

lemma sleeper_step_inv:
  assumes inv: "sleep_inv h0 p ch lk cs (todo, s)" and ne: "\<forall>q. lk \<noteq> ProcLock q" and h: "todo h0 = a # as"
    and r: "run_act a (s\<lparr>hart := h0\<rparr>) = Inr ((), t)"
  shows "sleep_inv h0 p ch lk cs (todo(h0 := as), t)"
proof -
  have ok: "lock_ok (sleep_locks lk) h0 (todo, s)" and sf: "suffix (a # as) (sleep_acts p ch lk)"
    and c: "c_proc (cpus s h0) = Some p"
    using inv h by (auto simp: sleep_inv_def)
  have sf': "suffix as (sleep_acts p ch lk)" using sf by (rule suffix_ConsD)
  consider "a = Acquire (ProcLock p)" "as = [Release lk, Set_Chan p ch, Set_State p SLEEPING, Switch p]"
    | "a = Release lk" "as = [Set_Chan p ch, Set_State p SLEEPING, Switch p]"
    | "a = Set_Chan p ch" "as = [Set_State p SLEEPING, Switch p]"
    | "a = Set_State p SLEEPING" "as = [Switch p]" | "a = Switch p" "as = []"
    using sf ne by (auto simp: sleep_acts_def suffix_Cons split: if_splits)
  then show ?thesis
  proof cases
    case 1
    from acquire_inv [OF ok h [unfolded 1(1)], of t] r inv sf' h 1 ne show ?thesis by (simp add: sleep_inv_def)
  next
    case 2
    from release_inv [OF ok h [unfolded 2(1)], of t] r inv sf' h 2 ne show ?thesis by (simp add: sleep_inv_def)
  next
    case 3
    then have t: "t = s\<lparr>hart := h0, ptable := (ptable s)(p := (ptable s p)\<lparr>chan := Some ch\<rparr>)\<rparr>"
      using r by (simp add: upd_proc_def modify_apply)
    have "lock_ok (sleep_locks lk) h0 (todo(h0 := as), t)"
      unfolding t by (rule lock_ok_table [OF ok]) (simp add: h 3)
    then show ?thesis using inv sf' h 3 by (simp add: sleep_inv_def t)
  next
    case 4
    then have t: "t = s\<lparr>hart := h0, ptable := (ptable s)(p := (ptable s p)\<lparr>p_state := SLEEPING\<rparr>)\<rparr>"
      using r by (simp add: upd_proc_def modify_apply)
    have "lock_ok (sleep_locks lk) h0 (todo(h0 := as), t)"
      unfolding t by (rule lock_ok_table [OF ok]) (simp add: h 4)
    then show ?thesis using inv sf' h 4 by (simp add: sleep_inv_def t)
  next
    case 5
    then have "p_state (ptable s p) \<noteq> RUNNING" using inv h by (simp add: sleep_inv_def)
    from switch_inv [OF ok h [unfolded 5] c this] r inv sf' h 5 show ?thesis by (auto simp: sleep_inv_def)
  qed
qed

lemma harts_step_inv:
  assumes "sleep_inv h0 p ch lk cs c" and "harts_step c d" and "\<forall>q. lk \<noteq> ProcLock q"
  shows "sleep_inv h0 p ch lk cs d"
  using assms(2)
proof cases
  case (move todo h a as s t)
  then show ?thesis using assms(1,3) waker_step_inv sleeper_step_inv by (cases "h = h0") auto
qed

section \<open>No deadlock\<close>

text \<open>A hart moves unless it waits for a lock that some hart holds.\<close>

lemma moves_or_waits:
  assumes inv: "sleep_inv h0 p ch lk cs (todo, s)" and ne: "\<forall>q. lk \<noteq> ProcLock q" and h: "todo h = a # as"
  shows "(\<exists>t. run_act a (s\<lparr>hart := h\<rparr>) = Inr ((), t)) \<or>
    (\<exists>l k. a = Acquire l \<and> l \<in> sleep_locks lk \<and> l \<in> needs (todo k))"
proof -
  have ok: "lock_ok (sleep_locks lk) h0 (todo, s)" using inv by (simp add: sleep_inv_def)
  have l: "l \<in> sleep_locks lk" if "a = Acquire l" for l
  proof (cases "h = h0")
    case True
    then have "suffix (Acquire l # as) (sleep_acts p ch lk)" using inv h that by (simp add: sleep_inv_def)
    then show ?thesis by (auto simp: sleep_acts_def suffix_Cons split: if_splits)
  next
    case False
    then have "waker_ok lk (Acquire l # as)" using sleep_inv_waker [OF inv, of h] h that by simp
    then show ?thesis by (auto split: if_splits)
  qed
  show ?thesis
  proof (cases a)
    case (Acquire l)
    then show ?thesis using acquire_runs [OF ok l [OF Acquire], of h] l [OF Acquire]
      by (cases "\<exists>k. l \<in> needs (todo k)") auto
  next
    case (Release l)
    then show ?thesis using release_runs [OF ok, of l h] h by simp
  next
    case (Switch q)
    have "h = h0" using inv h Switch by (cases "h = h0") (auto simp: sleep_inv_def dest: spec [of _ h])
    moreover from this have "suffix (Switch q # as) (sleep_acts p ch lk)" using inv h Switch by (simp add: sleep_inv_def)
    then have "q = p" "as = []" by (auto simp: sleep_acts_def suffix_Cons split: if_splits)
    moreover have "p_state (ptable s p) \<noteq> RUNNING" "c_proc (cpus s h0) = Some p"
      using inv h Switch calculation by (auto simp: sleep_inv_def)
    ultimately show ?thesis using switch_inv [OF ok, of p] h Switch by auto
  qed (auto simp: upd_proc_def modify_apply wake_run simp del: run_act.simps(5))
qed

lemma proc_holder_moves:
  assumes inv: "sleep_inv h0 p ch lk cs (todo, s)" and ne: "\<forall>q. lk \<noteq> ProcLock q"
    and k: "ProcLock q \<in> needs (todo k)"
  shows "\<exists>d. harts_step (todo, s) d"
proof -
  obtain a as where a: "todo k = a # as" using k by (cases "todo k") auto
  have "a \<noteq> Acquire l" for l
  proof (cases "k = h0")
    case True
    then have "suffix (a # as) (sleep_acts p ch lk)" using inv a by (simp add: sleep_inv_def)
    then show ?thesis using k ne a by (auto simp: sleep_acts_def suffix_Cons split: if_splits)
  next
    case False
    then have w: "waker_ok lk (a # as)" using sleep_inv_waker [OF inv, of k] a by simp
    show ?thesis
    proof
      assume l: "a = Acquire l"
      then have "needs as \<subseteq> {lk, l}" "ProcLock q \<in> needs as - {l}" using w k a by (auto split: if_splits)
      then show False using ne by auto
    qed
  qed
  then show ?thesis using moves_or_waits [OF inv ne a] harts_step.move [of todo k a as s] a by blast
qed

lemma harts_progress:
  assumes inv: "sleep_inv h0 p ch lk cs (todo, s)" and ne: "\<forall>q. lk \<noteq> ProcLock q" and h: "todo h \<noteq> []"
  shows "\<exists>d. harts_step (todo, s) d"
proof -
  have lk: "\<exists>d. harts_step (todo, s) d" if k: "lk \<in> needs (todo k)" for k
  proof -
    obtain a as where a: "todo k = a # as" using k by (cases "todo k") auto
    have "a \<noteq> Acquire lk" using k a inv by auto
    then show ?thesis using moves_or_waits [OF inv ne a] harts_step.move [of todo k a as s] a
        proc_holder_moves [OF inv ne] by blast
  qed
  obtain a as where a: "todo h = a # as" using h by (cases "todo h") auto
  show ?thesis using moves_or_waits [OF inv ne a] harts_step.move [of todo h a as s] a
      proc_holder_moves [OF inv ne] lk by blast
qed

interpretation sleep_system: invariant_of
  "\<lambda>c. p < NPROC \<and> (\<forall>q. lk \<noteq> ProcLock q) \<and> sleep_boot h0 p ch lk cs c" harts_step
  "\<lambda>c. (\<forall>q. lk \<noteq> ProcLock q) \<and> sleep_inv h0 p ch lk cs c" for h0 p ch lk cs
  by unfold_locales (auto intro: sleep_boot_inv harts_step_inv)

lemma reachable_sleep_inv:
  assumes "p < NPROC" and "\<And>q. lk \<noteq> ProcLock q" and "reachable (sleep_boot h0 p ch lk cs) harts_step c"
  shows "sleep_inv h0 p ch lk cs c"
proof -
  have "reachable (\<lambda>c. p < NPROC \<and> (\<forall>q. lk \<noteq> ProcLock q) \<and> sleep_boot h0 p ch lk cs c) harts_step c"
    using assms by simp
  then show ?thesis using sleep_system.reachable_inv by blast
qed

text \<open>Every step shortens what is left, so finitely many busy harts come to an end.\<close>

lemma harts_finish:
  assumes "p < NPROC" and "\<And>q. lk \<noteq> ProcLock q" and H: "finite H"
  shows "reachable (sleep_boot h0 p ch lk cs) harts_step (todo, s) \<Longrightarrow> (\<And>h. h \<notin> H \<Longrightarrow> todo h = []) \<Longrightarrow>
    \<exists>t. reachable (sleep_boot h0 p ch lk cs) harts_step ((\<lambda>_. []), t)"
proof (induction "\<Sum>h\<in>H. length (todo h)" arbitrary: todo s rule: less_induct)
  case less
  show ?case
  proof (cases "\<exists>h. todo h \<noteq> []")
    case True
    then obtain d where d: "harts_step (todo, s) d"
      using harts_progress [OF reachable_sleep_inv [OF assms(1,2) less(2)]] assms(2) by blast
    then obtain h a as t where h: "todo h = a # as" "d = (todo(h := as), t)" by (auto elim: harts_stepE)
    have hH: "h \<in> H" using less(3) [of h] h(1) by auto
    have "(\<Sum>k\<in>H. length ((todo(h := as)) k)) < (\<Sum>k\<in>H. length (todo k))"
      using H hH h(1) by (intro sum_strict_mono_ex1) auto
    moreover have "reachable (sleep_boot h0 p ch lk cs) harts_step (todo(h := as), t)"
      using reachable.reach_step [OF less(2) d] h(2) by simp
    moreover have "(todo(h := as)) k = []" if "k \<notin> H" for k using less(3) [OF that] that hH by auto
    ultimately show ?thesis using less(1) by blast
  next
    case False
    then have "todo = (\<lambda>_. [])" by auto
    then show ?thesis using less(2) by blast
  qed
qed

section \<open>Properties\<close>

text \<open>
  C22: no wakeup is lost between \<open>sleep\<close> and \<open>wakeup\<close>, whatever the order in which the harts
  move.  Process \<open>p\<close> holds \<open>lk\<close> and calls \<open>sleep ch lk\<close> on hart \<open>h0\<close>; every other hart \<open>h\<close>
  takes \<open>lk\<close>, calls \<open>wakeup\<close> and gives \<open>lk\<close> back, for each of the channels \<open>cs h\<close> in turn; \<open>lk\<close>
  is not the lock of a process.  In every reachable configuration, once a hart with \<open>ch\<close> among
  its channels is through, the process has gone to sleep and is runnable again; until one of
  them has reached it, a process that has given up its hart is asleep on \<open>ch\<close>.  The harts never
  block each other: as long as one has something left to do, one of them can move.  The steps
  are those of the code: run without interruption, they are \<open>sleep\<close> (up to the switch to the
  scheduler and its release of the lock) and \<open>wakeup\<close>.
\<close>

theorem sleep_wakeup:
  assumes "p < NPROC" and "\<And>q. lk \<noteq> ProcLock q"
    and "reachable (sleep_boot h0 p ch lk cs) harts_step (todo, s)"
  shows "(\<forall>h. h \<noteq> h0 \<and> ch \<in> set (cs h) \<and> todo h = [] \<longrightarrow>
        todo h0 = [] \<and> p_state (ptable s p) = RUNNABLE) \<and>
    (todo h0 = [] \<longrightarrow> p_state (ptable s p) = RUNNABLE \<or>
        p_state (ptable s p) = SLEEPING \<and> chan (ptable s p) = Some ch) \<and>
    ((\<exists>h. todo h \<noteq> []) \<longrightarrow> (\<exists>d. harts_step (todo, s) d)) \<and>
    bindM (sleep_begin ch lk) (\<lambda>ie. ret ()) =
      bindM the_proc (\<lambda>p. forM (sleep_acts p ch lk) run_act :: (pstate, unit) kmon) \<and>
    wakeup ch = (forM (wakeup_acts ch) run_act :: (pstate, unit) kmon)"
proof -
  note inv = reachable_sleep_inv [OF assms]
  have "todo h0 = [] \<and> p_state (ptable s p) = RUNNABLE" if "h \<noteq> h0" "ch \<in> set (cs h)" "todo h = []" for h
    using inv that by (auto simp: sleep_inv_def split: if_splits)
  moreover have "p_state (ptable s p) = RUNNABLE \<or> p_state (ptable s p) = SLEEPING \<and> chan (ptable s p) = Some ch"
    if "todo h0 = []" using inv that by (auto simp: sleep_inv_def split: if_splits)
  moreover have "\<exists>d. harts_step (todo, s) d" if "todo h \<noteq> []" for h
    using harts_progress [OF inv _ that] assms(2) by blast
  ultimately show ?thesis using sleep_eq_acts wakeup_eq_acts by blast
qed

theorem sleep_wakeup_witness:
  "\<exists>s t. sleep_boot 0 3 TicksChan TicksLock ((\<lambda>_. [])(1 := [TicksChan]))
      (\<lambda>h. if h = 0 then sleep_acts 3 TicksChan TicksLock
           else concat (map (waker TicksLock) (((\<lambda>_. [])(1 := [TicksChan])) h)), s) \<and>
    reachable (sleep_boot 0 3 TicksChan TicksLock ((\<lambda>_. [])(1 := [TicksChan]))) harts_step ((\<lambda>_. []), t) \<and>
    p_state (ptable t 3) = RUNNABLE"
  (is "\<exists>s t. ?boot (?todo, s) \<and> _")
proof -
  let ?s = "(boot_proc (\<lambda>_. no_proc))\<lparr>cpus := (\<lambda>_. \<lparr>c_proc = None, noff = 0, intena = False\<rparr>)
      (0 := \<lparr>c_proc = Some 3, noff = 1, intena = True\<rparr>),
    lks := (\<lambda>_. \<lparr>locked = False, lk_cpu = None\<rparr>)(TicksLock := \<lparr>locked = True, lk_cpu = Some 0\<rparr>)\<rparr>"
  have boot: "?boot (?todo, ?s)" by (simp add: sleep_boot_def boot_proc_def fun_eq_iff)
  then have "reachable ?boot harts_step (?todo, ?s)" by (rule reachable.reach_init)
  note fin = harts_finish [OF _ _ _ this, of "{0, 1}"]
  have p: "3 < NPROC" by (simp add: NPROC_def)
  have "?todo h = []" if "h \<notin> {0, 1}" for h using that by simp
  then obtain t where t: "reachable ?boot harts_step ((\<lambda>_. []), t)"
    using fin p by auto
  have "p_state (ptable t 3) = RUNNABLE" using sleep_wakeup [OF p _ t] by auto
  then show ?thesis using boot t by blast
qed

end
