(* ===== verification/Pipe.thy ===== *)
theory Pipe
  imports Proc
begin

text \<open>
  Pipes: kernel/pipe.c but for \<open>pipealloc\<close>, which is in the theory of open files.  A pipe is the
  address of the page it lives in; a page that holds no pipe, or no longer, is \<open>None\<close>.  Reading
  and writing are split where they sleep: the result is \<open>Done\<close> with the value returned, or
  \<open>Asleep\<close> with the number of bytes transferred so far and the interrupt state to restore.
\<close>

section \<open>State\<close>

definition PIPESIZE :: nat where "PIPESIZE = 512"

record pipe =
  pi_data :: "nat \<Rightarrow> byte"
  nread :: "32 word"
  nwrite :: "32 word"
  readopen :: bool
  writeopen :: bool

record pipe_state = pstate +
  pipes :: "int \<Rightarrow> pipe option"

datatype progress = Done int | Asleep int bool

definition get_pipe :: "int \<Rightarrow> ('a pipe_state_scheme, pipe) kmon" where
  "get_pipe pi = bindM (gets (\<lambda>s. pipes s pi)) (\<lambda>r. case r of None \<Rightarrow> failM Dangling | Some x \<Rightarrow> ret x)"

definition upd_pipe :: "int \<Rightarrow> (pipe \<Rightarrow> pipe) \<Rightarrow> ('a pipe_state_scheme, unit) kmon" where
  "upd_pipe pi f = bindM (get_pipe pi) (\<lambda>x. modify (\<lambda>s. s\<lparr>pipes := (pipes s)(pi := Some (f x))\<rparr>))"

section \<open>Closing\<close>

definition pipeclose :: "int \<Rightarrow> bool \<Rightarrow> ('a pipe_state_scheme, unit) kmon" where
  "pipeclose pi writable =
     thenM (acquire (PipeLock pi))
    (thenM (if writable
            then thenM (upd_pipe pi (\<lambda>x. x\<lparr>writeopen := False\<rparr>)) (wakeup (PipeRead pi))
            else thenM (upd_pipe pi (\<lambda>x. x\<lparr>readopen := False\<rparr>)) (wakeup (PipeWrite pi)))
    (bindM (get_pipe pi) (\<lambda>x.
     if \<not> readopen x \<and> \<not> writeopen x
     then thenM (release (PipeLock pi))
         (thenM (modify (\<lambda>s. s\<lparr>pipes := (pipes s)(pi := None)\<rparr>)) (kfree pi))
     else release (PipeLock pi))))"

section \<open>Writing\<close>

definition pipe_full :: "pipe \<Rightarrow> bool" where
  "pipe_full x \<longleftrightarrow> nwrite x = nread x + of_nat PIPESIZE"

definition pipe_put :: "byte \<Rightarrow> pipe \<Rightarrow> pipe" where
  "pipe_put ch x = x\<lparr>pi_data := (pi_data x)(unat (nwrite x) mod PIPESIZE := ch), nwrite := nwrite x + 1\<rparr>"

definition pipewrite_end :: "int \<Rightarrow> int \<Rightarrow> ('a pipe_state_scheme, progress) kmon" where
  "pipewrite_end pi n = thenM (wakeup (PipeRead pi)) (thenM (release (PipeLock pi)) (ret (Done n)))"

fun pipewrite_loop :: "nat \<Rightarrow> int \<Rightarrow> 64 word \<Rightarrow> int \<Rightarrow> int list \<Rightarrow> ('a pipe_state_scheme, progress) kmon" where
  "pipewrite_loop pr pi ua n [] = pipewrite_end pi n"
| "pipewrite_loop pr pi ua n (i # is) =
     bindM (get_pipe pi) (\<lambda>x.
     if pipe_full x
     then bindM the_proc (\<lambda>p.
       bindM (get_proc p) (\<lambda>q.
       if \<not> readopen x \<or> killed q then thenM (release (PipeLock pi)) (ret (Done (- 1)))
       else thenM (wakeup (PipeRead pi))
           (bindM (sleep_begin (PipeWrite pi) (PipeLock pi)) (\<lambda>ie. ret (Asleep i ie)))))
     else bindM (get_proc pr) (\<lambda>q.
       bindM (gets (\<lambda>s. copyin (mem s) (pagetable q) (ua + word_of_int i) 1)) (\<lambda>(r, bs).
       if r = - 1 then pipewrite_end pi n
       else thenM (upd_pipe pi (pipe_put (hd bs))) (pipewrite_loop pr pi ua n is))))"

definition pipewrite_begin :: "int \<Rightarrow> 64 word \<Rightarrow> int \<Rightarrow> ('a pipe_state_scheme, progress) kmon" where
  "pipewrite_begin pi ua n =
     bindM the_proc (\<lambda>pr. thenM (acquire (PipeLock pi)) (pipewrite_loop pr pi ua n [0..n - 1]))"

definition pipewrite_again :: "int \<Rightarrow> 64 word \<Rightarrow> int \<Rightarrow> int \<Rightarrow> bool \<Rightarrow> ('a pipe_state_scheme, progress) kmon" where
  "pipewrite_again pi ua n i ie =
     thenM (sleep_end (PipeLock pi) ie)
    (bindM the_proc (\<lambda>pr. pipewrite_loop pr pi ua n [i..n - 1]))"

section \<open>Reading\<close>

definition pipe_empty :: "pipe \<Rightarrow> bool" where
  "pipe_empty x \<longleftrightarrow> nread x = nwrite x"

definition pipe_get :: "pipe \<Rightarrow> byte" where
  "pipe_get x = pi_data x (unat (nread x) mod PIPESIZE)"

fun piperead_loop :: "nat \<Rightarrow> int \<Rightarrow> 64 word \<Rightarrow> int \<Rightarrow> int list \<Rightarrow> ('a pipe_state_scheme, int) kmon" where
  "piperead_loop pr pi ua n [] = ret (max 0 n)"
| "piperead_loop pr pi ua n (i # is) =
     bindM (get_pipe pi) (\<lambda>x.
     if pipe_empty x then ret i
     else thenM (upd_pipe pi (\<lambda>x. x\<lparr>nread := nread x + 1\<rparr>))
      (bindM (get_proc pr) (\<lambda>q.
       bindM (copyoutM (pagetable q) (ua + word_of_int i) [pipe_get x]) (\<lambda>r.
       if r = - 1 then ret i else piperead_loop pr pi ua n is))))"

definition piperead_round :: "nat \<Rightarrow> int \<Rightarrow> 64 word \<Rightarrow> int \<Rightarrow> ('a pipe_state_scheme, progress) kmon" where
  "piperead_round pr pi ua n =
     bindM (get_pipe pi) (\<lambda>x.
     if pipe_empty x \<and> writeopen x
     then bindM the_proc (\<lambda>p.
       bindM (get_proc p) (\<lambda>q.
       if killed q then thenM (release (PipeLock pi)) (ret (Done (- 1)))
       else bindM (sleep_begin (PipeRead pi) (PipeLock pi)) (\<lambda>ie. ret (Asleep 0 ie))))
     else bindM (piperead_loop pr pi ua n [0..n - 1]) (\<lambda>i.
       thenM (wakeup (PipeWrite pi)) (thenM (release (PipeLock pi)) (ret (Done i)))))"

definition piperead_begin :: "int \<Rightarrow> 64 word \<Rightarrow> int \<Rightarrow> ('a pipe_state_scheme, progress) kmon" where
  "piperead_begin pi ua n =
     bindM the_proc (\<lambda>pr. thenM (acquire (PipeLock pi)) (piperead_round pr pi ua n))"

definition piperead_again :: "int \<Rightarrow> 64 word \<Rightarrow> int \<Rightarrow> bool \<Rightarrow> ('a pipe_state_scheme, progress) kmon" where
  "piperead_again pi ua n ie =
     thenM (sleep_end (PipeLock pi) ie) (bindM the_proc (\<lambda>pr. piperead_round pr pi ua n))"

section \<open>The calls made with the file layer\<close>

text \<open>A transfer that does not sleep; otherwise its outcome is \<open>Sleeps\<close>.\<close>

definition awake :: "('s, progress) kmon \<Rightarrow> ('s, int) kmon" where
  "awake m = bindM m (\<lambda>r. case r of Done n \<Rightarrow> ret n | Asleep i ie \<Rightarrow> failM Sleeps)"

definition pipewrite :: "int \<Rightarrow> 64 word \<Rightarrow> int \<Rightarrow> ('a pipe_state_scheme, int) kmon" where
  "pipewrite pi ua n = awake (pipewrite_begin pi ua n)"

definition piperead :: "int \<Rightarrow> 64 word \<Rightarrow> int \<Rightarrow> ('a pipe_state_scheme, int) kmon" where
  "piperead pi ua n = awake (piperead_begin pi ua n)"

end
