(* ===== verification/Sleeplock.thy ===== *)
theory Sleeplock
  imports Pipe
begin

text \<open>
  Locks that are held across a sleep: kernel/sleeplock.c.  The sleep locks of the kernel are those
  of the buffers and of the in-memory inodes.  \<open>acquiresleep\<close> is split where it sleeps; the
  version the rest of the kernel calls has the outcome \<open>Sleeps\<close> when the lock is taken.
\<close>

section \<open>State\<close>

datatype slid = BufLock nat | InodeLock nat

record sleeplock =
  sl_locked :: bool
  sl_pid :: int

record sl_state = pipe_state +
  slks :: "slid \<Rightarrow> sleeplock"

text \<open>The spinlock inside a sleep lock, and the channel its waiters sleep on.\<close>

fun inner :: "slid \<Rightarrow> lockid" where
  "inner (BufLock b) = BufInner b"
| "inner (InodeLock i) = InodeInner i"

fun sl_chan :: "slid \<Rightarrow> chan" where
  "sl_chan (BufLock b) = BufChan b"
| "sl_chan (InodeLock i) = InodeChan i"

section \<open>Operations\<close>

definition upd_sl :: "slid \<Rightarrow> sleeplock \<Rightarrow> ('a sl_state_scheme, unit) kmon" where
  "upd_sl lk v = modify (\<lambda>s. s\<lparr>slks := (slks s)(lk := v)\<rparr>)"

definition initsleeplock :: "slid \<Rightarrow> ('a sl_state_scheme, unit) kmon" where
  "initsleeplock lk = thenM (initlock (inner lk)) (upd_sl lk \<lparr>sl_locked = False, sl_pid = 0\<rparr>)"

definition acquiresleep_round :: "slid \<Rightarrow> ('a sl_state_scheme, unit outcome) kmon" where
  "acquiresleep_round lk =
     bindM (gets (\<lambda>s. sl_locked (slks s lk))) (\<lambda>l.
     if l then bindM (sleep_begin (sl_chan lk) (inner lk)) (\<lambda>ie. ret (Slept ie))
     else thenM (modify (\<lambda>s. s\<lparr>slks := (slks s)(lk := (slks s lk)\<lparr>sl_locked := True\<rparr>)\<rparr>))
      (bindM the_proc (\<lambda>p.
       bindM (get_proc p) (\<lambda>pr.
       thenM (modify (\<lambda>s. s\<lparr>slks := (slks s)(lk := (slks s lk)\<lparr>sl_pid := pid pr\<rparr>)\<rparr>))
      (thenM (release (inner lk)) (ret (Returned ())))))))"

definition acquiresleep_begin :: "slid \<Rightarrow> ('a sl_state_scheme, unit outcome) kmon" where
  "acquiresleep_begin lk = thenM (acquire (inner lk)) (acquiresleep_round lk)"

definition acquiresleep_again :: "slid \<Rightarrow> bool \<Rightarrow> ('a sl_state_scheme, unit outcome) kmon" where
  "acquiresleep_again lk ie = thenM (sleep_end (inner lk) ie) (acquiresleep_round lk)"

definition acquiresleep :: "slid \<Rightarrow> ('a sl_state_scheme, unit) kmon" where
  "acquiresleep lk = bindM (acquiresleep_begin lk) (\<lambda>r.
     case r of Returned u \<Rightarrow> ret u | Slept ie \<Rightarrow> failM Sleeps)"

definition releasesleep :: "slid \<Rightarrow> ('a sl_state_scheme, unit) kmon" where
  "releasesleep lk =
     thenM (acquire (inner lk))
    (thenM (upd_sl lk \<lparr>sl_locked = False, sl_pid = 0\<rparr>)
    (thenM (wakeup (sl_chan lk))
    (release (inner lk))))"

definition holdingsleep :: "slid \<Rightarrow> ('a sl_state_scheme, bool) kmon" where
  "holdingsleep lk =
     thenM (acquire (inner lk))
    (bindM (gets (\<lambda>s. slks s lk)) (\<lambda>l.
     bindM (if sl_locked l
            then bindM the_proc (\<lambda>p. bindM (get_proc p) (\<lambda>pr. ret (sl_pid l = pid pr)))
            else ret False) (\<lambda>r.
     thenM (release (inner lk)) (ret r))))"

end
