(* ===== verification/Bio.thy ===== *)
theory Bio
  imports Sleeplock
begin

text \<open>
  The buffer cache: kernel/bio.c.  A buffer is its index in \<open>bcache.buf\<close>; the index \<open>NBUF\<close> stands
  for \<open>bcache.head\<close>.  The contents of the disks are part of the state; a transfer is what the
  driver of kernel/virtio_disk.c and the device do together.
\<close>

section \<open>State\<close>

definition MAXOPBLOCKS :: nat where "MAXOPBLOCKS = 10"

definition NBUF :: nat where "NBUF = MAXOPBLOCKS * 3"

definition BSIZE :: nat where "BSIZE = 1024"

record buf =
  valid :: bool
  b_disk :: bool
  dev :: "32 word"
  blockno :: "32 word"
  refcnt :: "32 word"
  b_prev :: nat
  b_next :: nat
  data :: "byte list"

record bstate = sl_state +
  bufs :: "nat \<Rightarrow> buf"
  disk :: "32 word \<Rightarrow> 32 word \<Rightarrow> byte list"

definition upd_buf :: "nat \<Rightarrow> (buf \<Rightarrow> buf) \<Rightarrow> ('a bstate_scheme, unit) kmon" where
  "upd_buf b f = modify (\<lambda>s. s\<lparr>bufs := (bufs s)(b := f (bufs s b))\<rparr>)"

definition get_buf :: "nat \<Rightarrow> ('a bstate_scheme, buf) kmon" where
  "get_buf b = gets (\<lambda>s. bufs s b)"

text \<open>
  A completed transfer between buffer \<open>b\<close> and its block on disk \<open>n\<close>: what \<open>virtio_disk_rw\<close> (theory Virtio) and the interrupt
  that ends it do to the buffer and the disk.  The driver has an entry for each of the \<open>NDISK\<close> disks and computes the
  number of the first sector, \<open>blockno * (BSIZE / 512)\<close>, with 32 bits, so this holds for disks below \<open>NDISK\<close> and blocks below \<open>2 ^ 31\<close>.
\<close>

definition disk_rw :: "32 word \<Rightarrow> nat \<Rightarrow> bool \<Rightarrow> ('a bstate_scheme, unit) kmon" where
  "disk_rw n b wr = modify (\<lambda>s.
     if wr then s\<lparr>disk := (disk s)(n := (disk s n)(blockno (bufs s b) := data (bufs s b)))\<rparr>
     else s\<lparr>bufs := (bufs s)(b := (bufs s b)\<lparr>data := disk s n (blockno (bufs s b))\<rparr>)\<rparr>)"

section \<open>The list of buffers\<close>

text \<open>\<open>bcache.head.next->prev = b; bcache.head.next = b\<close>, after \<open>b\<close>'s own links are set.\<close>

definition link_front :: "nat \<Rightarrow> ('a bstate_scheme, unit) kmon" where
  "link_front b =
     bindM (get_buf NBUF) (\<lambda>h.
     thenM (upd_buf (b_next h) (\<lambda>x. x\<lparr>b_prev := b\<rparr>))
     (upd_buf NBUF (\<lambda>x. x\<lparr>b_next := b\<rparr>)))"

definition binit :: "('a bstate_scheme, unit) kmon" where
  "binit =
     thenM (initlock BcacheLock)
    (thenM (upd_buf NBUF (\<lambda>x. x\<lparr>b_prev := NBUF\<rparr>))
    (thenM (upd_buf NBUF (\<lambda>x. x\<lparr>b_next := NBUF\<rparr>))
    (forM [0..<NBUF] (\<lambda>b.
       bindM (get_buf NBUF) (\<lambda>h.
       thenM (upd_buf b (\<lambda>x. x\<lparr>b_next := b_next h\<rparr>))
      (thenM (upd_buf b (\<lambda>x. x\<lparr>b_prev := NBUF\<rparr>))
      (thenM (initsleeplock (BufLock b))
      (link_front b))))))))"

partial_function (option) bcache_find ::
    "(nat \<Rightarrow> buf) \<Rightarrow> (buf \<Rightarrow> bool) \<Rightarrow> (buf \<Rightarrow> nat) \<Rightarrow> nat \<Rightarrow> nat option option" where
  "bcache_find B P step b =
     (if b = NBUF then Some None
      else if P (B b) then Some (Some b) else bcache_find B P step (step (B b)))"

definition bget :: "32 word \<Rightarrow> 32 word \<Rightarrow> ('a bstate_scheme, nat) kmon" where
  "bget d n =
     thenM (acquire BcacheLock)
    (bindM (gets (\<lambda>s. bcache_find (bufs s) (\<lambda>x. dev x = d \<and> blockno x = n) b_next (b_next (bufs s NBUF)))) (\<lambda>r.
     case r of None \<Rightarrow> failM Diverges
     | Some (Some b) \<Rightarrow>
         thenM (upd_buf b (\<lambda>x. x\<lparr>refcnt := refcnt x + 1\<rparr>))
        (thenM (release BcacheLock)
        (thenM (acquiresleep (BufLock b)) (ret b)))
     | Some None \<Rightarrow>
         bindM (gets (\<lambda>s. bcache_find (bufs s) (\<lambda>x. refcnt x = 0) b_prev (b_prev (bufs s NBUF)))) (\<lambda>r.
         case r of None \<Rightarrow> failM Diverges
         | Some None \<Rightarrow> panic ''bget: no buffers''
         | Some (Some b) \<Rightarrow>
             thenM (upd_buf b (\<lambda>x. x\<lparr>dev := d, blockno := n, valid := False, refcnt := 1\<rparr>))
            (thenM (release BcacheLock)
            (thenM (acquiresleep (BufLock b)) (ret b))))))"

definition bread :: "32 word \<Rightarrow> 32 word \<Rightarrow> ('a bstate_scheme, nat) kmon" where
  "bread d n =
     bindM (bget d n) (\<lambda>b.
     bindM (get_buf b) (\<lambda>x.
     thenM (whenM (\<not> valid x)
       (thenM (disk_rw (dev x) b False) (upd_buf b (\<lambda>x. x\<lparr>valid := True\<rparr>))))
     (ret b)))"

definition bwrite :: "nat \<Rightarrow> ('a bstate_scheme, unit) kmon" where
  "bwrite b =
     bindM (holdingsleep (BufLock b)) (\<lambda>h.
     if \<not> h then panic ''bwrite''
     else bindM (get_buf b) (\<lambda>x. disk_rw (dev x) b True))"

definition brelse :: "nat \<Rightarrow> ('a bstate_scheme, unit) kmon" where
  "brelse b =
     bindM (holdingsleep (BufLock b)) (\<lambda>h.
     if \<not> h then panic ''brelse''
     else thenM (releasesleep (BufLock b))
    (thenM (acquire BcacheLock)
    (thenM (upd_buf b (\<lambda>x. x\<lparr>refcnt := refcnt x - 1\<rparr>))
    (bindM (get_buf b) (\<lambda>x.
     thenM (whenM (refcnt x = 0)
       (thenM (upd_buf (b_next x) (\<lambda>y. y\<lparr>b_prev := b_prev x\<rparr>))
       (thenM (upd_buf (b_prev x) (\<lambda>y. y\<lparr>b_next := b_next x\<rparr>))
       (bindM (get_buf NBUF) (\<lambda>h.
        thenM (upd_buf b (\<lambda>y. y\<lparr>b_next := b_next h\<rparr>))
       (thenM (upd_buf b (\<lambda>y. y\<lparr>b_prev := NBUF\<rparr>))
       (link_front b)))))))
    (release BcacheLock))))))"

definition bpin :: "nat \<Rightarrow> ('a bstate_scheme, unit) kmon" where
  "bpin b =
     thenM (acquire BcacheLock)
    (thenM (upd_buf b (\<lambda>x. x\<lparr>refcnt := refcnt x + 1\<rparr>)) (release BcacheLock))"

definition bunpin :: "nat \<Rightarrow> ('a bstate_scheme, unit) kmon" where
  "bunpin b =
     thenM (acquire BcacheLock)
    (thenM (upd_buf b (\<lambda>x. x\<lparr>refcnt := refcnt x - 1\<rparr>)) (release BcacheLock))"

end
