(* ===== verification/Virtio.thy ===== *)
theory Virtio
  imports Bio
begin

text \<open>
  The disk driver, kernel/virtio_disk.c; \<open>virtio_disk_init\<close>, which prints, is in the theory of the
  boot.  The writes to device registers are kept, in their order, in the state.
  What a descriptor points to is a value: the request header on the kernel stack, the data of a
  buffer, or the status byte of a request.  \<open>virtio_disk_rw\<close> is split where it sleeps: for want of
  descriptors, and until the device has done the request.
\<close>

section \<open>State\<close>

definition NUM :: nat where "NUM = 8"

definition VRING_DESC_F_NEXT :: "16 word" where "VRING_DESC_F_NEXT = 1"

definition VRING_DESC_F_WRITE :: "16 word" where "VRING_DESC_F_WRITE = 2"

definition VIRTIO_BLK_T_IN :: "32 word" where "VIRTIO_BLK_T_IN = 0"

definition VIRTIO_BLK_T_OUT :: "32 word" where "VIRTIO_BLK_T_OUT = 1"

record virtio_blk_outhdr =
  oh_type :: "32 word"
  oh_reserved :: "32 word"
  oh_sector :: "64 word"

datatype daddr = NoAddr | HdrAt virtio_blk_outhdr | DataOf nat | StatusOf nat

record vring_desc =
  vd_addr :: daddr
  vd_len :: "32 word"
  vd_flags :: "16 word"
  vd_next :: "16 word"

record vdisk =
  vdesc :: "nat \<Rightarrow> vring_desc"
  avail_idx :: "16 word"
  avail_ring :: "nat \<Rightarrow> 16 word"
  used_id :: "16 word"
  used_elems :: "nat \<Rightarrow> 32 word"
  vfree :: "nat \<Rightarrow> bool"
  used_idx :: "16 word"
  info_b :: "nat \<Rightarrow> nat option"
  info_status :: "nat \<Rightarrow> byte"
  vd_init :: bool

record vd_state = bstate +
  vdisks :: "nat \<Rightarrow> vdisk"
  mmio :: "(64 word \<times> 32 word) list"

definition mmio_write :: "64 word \<Rightarrow> 32 word \<Rightarrow> ('a vd_state_scheme, unit) kmon" where
  "mmio_write a v = modify (\<lambda>s. s\<lparr>mmio := mmio s @ [(a, v)]\<rparr>)"

definition VIRTIO_MMIO_QUEUE_NOTIFY :: "64 word" where "VIRTIO_MMIO_QUEUE_NOTIFY = 0x50"

definition get_vd :: "nat \<Rightarrow> ('a vd_state_scheme, vdisk) kmon" where
  "get_vd n = gets (\<lambda>s. vdisks s n)"

definition upd_vd :: "nat \<Rightarrow> (vdisk \<Rightarrow> vdisk) \<Rightarrow> ('a vd_state_scheme, unit) kmon" where
  "upd_vd n f = modify (\<lambda>s. s\<lparr>vdisks := (vdisks s)(n := f (vdisks s n))\<rparr>)"

definition upd_desc :: "nat \<Rightarrow> nat \<Rightarrow> (vring_desc \<Rightarrow> vring_desc) \<Rightarrow> ('a vd_state_scheme, unit) kmon" where
  "upd_desc n i f = upd_vd n (\<lambda>v. v\<lparr>vdesc := (vdesc v)(i := f (vdesc v i))\<rparr>)"

section \<open>Descriptors\<close>

definition alloc_desc :: "nat \<Rightarrow> ('a vd_state_scheme, nat option) kmon" where
  "alloc_desc n =
     bindM (get_vd n) (\<lambda>v.
     case find (vfree v) [0..<NUM] of
       None \<Rightarrow> ret None
     | Some i \<Rightarrow> thenM (upd_vd n (\<lambda>v. v\<lparr>vfree := (vfree v)(i := False)\<rparr>)) (ret (Some i)))"

definition free_desc :: "nat \<Rightarrow> nat \<Rightarrow> ('a vd_state_scheme, unit) kmon" where
  "free_desc n i =
     (if NUM \<le> i then panic ''virtio_disk_intr 1''
      else bindM (get_vd n) (\<lambda>v.
       if vfree v i then panic ''virtio_disk_intr 2''
       else thenM (upd_desc n i (\<lambda>d. d\<lparr>vd_addr := NoAddr\<rparr>))
           (thenM (upd_vd n (\<lambda>v. v\<lparr>vfree := (vfree v)(i := True)\<rparr>))
           (wakeup (DiskFree n)))))"

text \<open>
  Each round of \<open>free_chain\<close> frees a descriptor that was not free, so that \<open>NUM + 1\<close> rounds are
  always enough.
\<close>

fun free_chain_loop :: "nat \<Rightarrow> nat \<Rightarrow> nat \<Rightarrow> ('a vd_state_scheme, unit) kmon" where
  "free_chain_loop 0 n i = failM Diverges"
| "free_chain_loop (Suc k) n i =
     thenM (free_desc n i)
    (bindM (get_vd n) (\<lambda>v.
     if vd_flags (vdesc v i) AND VRING_DESC_F_NEXT \<noteq> 0
     then free_chain_loop k n (unat (vd_next (vdesc v i))) else ret ()))"

definition free_chain :: "nat \<Rightarrow> nat \<Rightarrow> ('a vd_state_scheme, unit) kmon" where
  "free_chain n i = free_chain_loop (Suc NUM) n i"

text \<open>\<open>alloc3_desc\<close>: the descriptors found so far are given back when there are not enough.\<close>

fun alloc_descs :: "nat \<Rightarrow> nat \<Rightarrow> nat list \<Rightarrow> ('a vd_state_scheme, nat list option) kmon" where
  "alloc_descs 0 n idx = ret (Some idx)"
| "alloc_descs (Suc k) n idx =
     bindM (alloc_desc n) (\<lambda>r.
     case r of Some i \<Rightarrow> alloc_descs k n (idx @ [i])
     | None \<Rightarrow> thenM (forM idx (free_desc n)) (ret None))"

definition alloc3_desc :: "nat \<Rightarrow> ('a vd_state_scheme, nat list option) kmon" where
  "alloc3_desc n = alloc_descs 3 n []"

section \<open>Requests\<close>

datatype vprogress = VDone | VNoDesc bool | VWait nat bool

text \<open>The wait for the completion, and what follows it.\<close>

definition virtio_wait :: "nat \<Rightarrow> nat \<Rightarrow> nat \<Rightarrow> ('a vd_state_scheme, vprogress) kmon" where
  "virtio_wait n b i0 =
     bindM (get_buf b) (\<lambda>x.
     if b_disk x then bindM (sleep_begin (DiskBuf b) (VdiskLock n)) (\<lambda>ie. ret (VWait i0 ie))
     else thenM (upd_vd n (\<lambda>v. v\<lparr>info_b := (info_b v)(i0 := None)\<rparr>))
         (thenM (free_chain n i0)
         (thenM (release (VdiskLock n)) (ret VDone))))"

text \<open>Formatting the three descriptors and telling the device.\<close>

definition virtio_submit :: "nat \<Rightarrow> nat \<Rightarrow> bool \<Rightarrow> 64 word \<Rightarrow> nat \<Rightarrow> nat \<Rightarrow> nat \<Rightarrow> ('a vd_state_scheme, unit) kmon" where
  "virtio_submit n b wr sector i0 i1 i2 =
     thenM (upd_desc n i0 (\<lambda>d. \<lparr>vd_addr = HdrAt \<lparr>oh_type = (if wr then VIRTIO_BLK_T_OUT else VIRTIO_BLK_T_IN),
          oh_reserved = 0, oh_sector = sector\<rparr>, vd_len = 16, vd_flags = VRING_DESC_F_NEXT, vd_next = of_nat i1\<rparr>))
    (thenM (upd_desc n i1 (\<lambda>d. \<lparr>vd_addr = DataOf b, vd_len = of_nat BSIZE,
          vd_flags = (if wr then 0 else VRING_DESC_F_WRITE) OR VRING_DESC_F_NEXT, vd_next = of_nat i2\<rparr>))
    (thenM (upd_vd n (\<lambda>v. v\<lparr>info_status := (info_status v)(i0 := 0)\<rparr>))
    (thenM (upd_desc n i2 (\<lambda>d. \<lparr>vd_addr = StatusOf i0, vd_len = 1, vd_flags = VRING_DESC_F_WRITE, vd_next = 0\<rparr>))
    (thenM (upd_buf b (\<lambda>x. x\<lparr>b_disk := True\<rparr>))
    (thenM (upd_vd n (\<lambda>v. v\<lparr>info_b := (info_b v)(i0 := Some b)\<rparr>))
    (thenM (upd_vd n (\<lambda>v. v\<lparr>avail_ring := (avail_ring v)(unat (avail_idx v) mod NUM := of_nat i0)\<rparr>))
    (thenM (upd_vd n (\<lambda>v. v\<lparr>avail_idx := avail_idx v + 1\<rparr>))
    (mmio_write (VIRTION (of_nat n) + VIRTIO_MMIO_QUEUE_NOTIFY) 0))))))))"

definition virtio_try :: "nat \<Rightarrow> nat \<Rightarrow> bool \<Rightarrow> ('a vd_state_scheme, vprogress) kmon" where
  "virtio_try n b wr =
     bindM (get_buf b) (\<lambda>x.
     bindM (alloc3_desc n) (\<lambda>r.
     case r of None \<Rightarrow> bindM (sleep_begin (DiskFree n) (VdiskLock n)) (\<lambda>ie. ret (VNoDesc ie))
     | Some idx \<Rightarrow>
         thenM (virtio_submit n b wr (ucast (blockno x * of_nat (BSIZE div 512))) (idx ! 0) (idx ! 1) (idx ! 2))
         (virtio_wait n b (idx ! 0))))"

definition virtio_disk_rw_begin :: "nat \<Rightarrow> nat \<Rightarrow> bool \<Rightarrow> ('a vd_state_scheme, vprogress) kmon" where
  "virtio_disk_rw_begin n b wr = thenM (acquire (VdiskLock n)) (virtio_try n b wr)"

definition virtio_disk_rw_retry :: "nat \<Rightarrow> nat \<Rightarrow> bool \<Rightarrow> bool \<Rightarrow> ('a vd_state_scheme, vprogress) kmon" where
  "virtio_disk_rw_retry n b wr ie = thenM (sleep_end (VdiskLock n) ie) (virtio_try n b wr)"

definition virtio_disk_rw_more :: "nat \<Rightarrow> nat \<Rightarrow> nat \<Rightarrow> bool \<Rightarrow> ('a vd_state_scheme, vprogress) kmon" where
  "virtio_disk_rw_more n b i0 ie = thenM (sleep_end (VdiskLock n) ie) (virtio_wait n b i0)"

section \<open>Completion\<close>

text \<open>
  Each round moves \<open>used_idx\<close> one step around the ring towards \<open>used->id\<close>: fewer than \<open>NUM\<close> rounds
  are needed.
\<close>

fun virtio_intr_loop :: "nat \<Rightarrow> nat \<Rightarrow> ('a vd_state_scheme, unit) kmon" where
  "virtio_intr_loop 0 n = failM Diverges"
| "virtio_intr_loop (Suc k) n =
     bindM (get_vd n) (\<lambda>v.
     if unat (used_idx v) mod NUM = unat (used_id v) mod NUM then ret ()
     else let i = unat (used_elems v (unat (used_idx v))) in
      if info_status v i \<noteq> 0 then panic ''virtio_disk_intr status''
      else case info_b v i of None \<Rightarrow> failM Null_Deref
        | Some b \<Rightarrow>
            thenM (upd_buf b (\<lambda>x. x\<lparr>b_disk := False\<rparr>))
           (thenM (wakeup (DiskBuf b))
           (thenM (upd_vd n (\<lambda>v. v\<lparr>used_idx := (used_idx v + 1) mod of_nat NUM\<rparr>))
           (virtio_intr_loop k n))))"

definition virtio_disk_intr :: "nat \<Rightarrow> ('a vd_state_scheme, unit) kmon" where
  "virtio_disk_intr n =
     thenM (acquire (VdiskLock n))
    (thenM (virtio_intr_loop NUM n)
    (release (VdiskLock n)))"

end
