(* ===== verification/Log.thy ===== *)
theory Log
  imports Virtio
begin

text \<open>
  The redo log: kernel/log.c.  The header of the log is the array of words at the start of the
  block \<open>start\<close>; the blocks of a transaction follow it.  \<open>begin_op\<close> is split where it sleeps, like
  \<open>acquiresleep\<close>.
\<close>

section \<open>State\<close>

definition LOGSIZE :: nat where "LOGSIZE = MAXOPBLOCKS * 3"

definition NDISK :: nat where "NDISK = 2"

record log =
  l_start :: int
  l_size :: int
  outstanding :: int
  committing :: bool
  l_dev :: nat
  lh_n :: int
  lh_block :: "nat \<Rightarrow> int"

record lstate = vd_state +
  logs :: "nat \<Rightarrow> log"

record superblock =
  magic :: "32 word"
  sb_size :: "32 word"
  nblocks :: "32 word"
  ninodes :: "32 word"
  nlog :: "32 word"
  logstart :: "32 word"
  inodestart :: "32 word"
  bmapstart :: "32 word"

definition get_log :: "nat \<Rightarrow> ('a lstate_scheme, log) kmon" where
  "get_log d = (if d < NDISK then gets (\<lambda>s. logs s d) else failM Out_Of_Bounds)"

definition upd_log :: "nat \<Rightarrow> (log \<Rightarrow> log) \<Rightarrow> ('a lstate_scheme, unit) kmon" where
  "upd_log d f = (if d < NDISK then modify (\<lambda>s. s\<lparr>logs := (logs s)(d := f (logs s d))\<rparr>)
     else failM Out_Of_Bounds)"

text \<open>Element \<open>i\<close> of \<open>lh.block\<close>, and setting it.\<close>

definition log_block :: "nat \<Rightarrow> nat \<Rightarrow> ('a lstate_scheme, int) kmon" where
  "log_block d i = (if i < LOGSIZE then bindM (get_log d) (\<lambda>l. ret (lh_block l i)) else failM Out_Of_Bounds)"

definition set_log_block :: "nat \<Rightarrow> nat \<Rightarrow> int \<Rightarrow> ('a lstate_scheme, unit) kmon" where
  "set_log_block d i v = (if i < LOGSIZE then upd_log d (\<lambda>l. l\<lparr>lh_block := (lh_block l)(i := v)\<rparr>)
     else failM Out_Of_Bounds)"

text \<open>The 32-bit words of a block, and the data of a buffer seen as such.\<close>

definition get32 :: "byte list \<Rightarrow> nat \<Rightarrow> 32 word" where
  "get32 bs i = of_le (take 4 (drop (4 * i) bs))"

definition put32 :: "byte list \<Rightarrow> nat \<Rightarrow> 32 word \<Rightarrow> byte list" where
  "put32 bs i v = take (4 * i) bs @ le_bytes 4 v @ drop (4 * i + 4) bs"

definition buf_word :: "nat \<Rightarrow> nat \<Rightarrow> ('a bstate_scheme, 32 word) kmon" where
  "buf_word b i = (if 4 * i + 4 \<le> BSIZE then bindM (get_buf b) (\<lambda>x. ret (get32 (data x) i)) else failM Out_Of_Bounds)"

definition set_buf_word :: "nat \<Rightarrow> nat \<Rightarrow> 32 word \<Rightarrow> ('a bstate_scheme, unit) kmon" where
  "set_buf_word b i v = (if 4 * i + 4 \<le> BSIZE then upd_buf b (\<lambda>x. x\<lparr>data := put32 (data x) i v\<rparr>) else failM Out_Of_Bounds)"

definition wrd :: "int \<Rightarrow> 32 word" where
  "wrd = word_of_int"

section \<open>The header and the blocks\<close>

text \<open>The bodies of the loops over the log have names of their own: each writes one block.\<close>

definition install_step :: "nat \<Rightarrow> int \<Rightarrow> nat \<Rightarrow> ('a lstate_scheme, unit) kmon" where
  "install_step d start tail =
     bindM (bread (of_nat d) (wrd (start + int tail + 1))) (\<lambda>lbuf.
     bindM (log_block d tail) (\<lambda>n.
     bindM (bread (of_nat d) (wrd n)) (\<lambda>dbuf.
     bindM (get_buf lbuf) (\<lambda>x.
     thenM (upd_buf dbuf (\<lambda>y. y\<lparr>data := data x\<rparr>))
    (thenM (bwrite dbuf)
    (thenM (bunpin dbuf)
    (thenM (brelse lbuf)
    (brelse dbuf))))))))"

definition install_trans :: "nat \<Rightarrow> ('a lstate_scheme, unit) kmon" where
  "install_trans d = bindM (get_log d) (\<lambda>l. forM [0..<nat (lh_n l)] (install_step d (l_start l)))"

definition read_head :: "nat \<Rightarrow> ('a lstate_scheme, unit) kmon" where
  "read_head d =
     bindM (get_log d) (\<lambda>l.
     bindM (bread (of_nat d) (wrd (l_start l))) (\<lambda>b.
     bindM (buf_word b 0) (\<lambda>n.
     thenM (upd_log d (\<lambda>l. l\<lparr>lh_n := sint n\<rparr>))
    (thenM (forM [0..<nat (sint n)] (\<lambda>i.
       bindM (buf_word b (i + 1)) (\<lambda>v. set_log_block d i (sint v))))
    (brelse b)))))"

definition write_head :: "nat \<Rightarrow> ('a lstate_scheme, unit) kmon" where
  "write_head d =
     bindM (get_log d) (\<lambda>l.
     bindM (bread (of_nat d) (wrd (l_start l))) (\<lambda>b.
     thenM (set_buf_word b 0 (wrd (lh_n l)))
    (thenM (forM [0..<nat (lh_n l)] (\<lambda>i.
       bindM (log_block d i) (\<lambda>v. set_buf_word b (i + 1) (wrd v))))
    (thenM (bwrite b)
    (brelse b)))))"

definition recover_from_log :: "nat \<Rightarrow> ('a lstate_scheme, unit) kmon" where
  "recover_from_log d =
     thenM (read_head d)
    (thenM (install_trans d)
    (thenM (upd_log d (\<lambda>l. l\<lparr>lh_n := 0\<rparr>))
    (write_head d)))"

text \<open>The first test of \<open>initlog\<close>, on the size of the header, is on constants and does not fire.\<close>

definition sizeof_logheader :: nat where
  "sizeof_logheader = 4 * (LOGSIZE + 1)"

definition initlog :: "nat \<Rightarrow> superblock \<Rightarrow> ('a lstate_scheme, unit) kmon" where
  "initlog d sb =
     (if BSIZE \<le> sizeof_logheader then panic ''initlog: too big logheader''
      else thenM (initlock (LogLock d))
     (thenM (upd_log d (\<lambda>l. l\<lparr>l_start := sint (logstart sb)\<rparr>))
     (thenM (upd_log d (\<lambda>l. l\<lparr>l_size := sint (nlog sb)\<rparr>))
     (thenM (upd_log d (\<lambda>l. l\<lparr>l_dev := d\<rparr>))
     (recover_from_log d)))))"

section \<open>Transactions\<close>

definition begin_op_round :: "nat \<Rightarrow> ('a lstate_scheme, unit outcome) kmon" where
  "begin_op_round d =
     bindM (get_log d) (\<lambda>l.
     if committing l \<or> lh_n l + (outstanding l + 1) * int MAXOPBLOCKS > int LOGSIZE
     then bindM (sleep_begin (LogChan 0) (LogLock d)) (\<lambda>ie. ret (Slept ie))
     else thenM (upd_log d (\<lambda>l. l\<lparr>outstanding := outstanding l + 1\<rparr>))
         (thenM (release (LogLock d)) (ret (Returned ()))))"

definition begin_op_begin :: "nat \<Rightarrow> ('a lstate_scheme, unit outcome) kmon" where
  "begin_op_begin d = thenM (acquire (LogLock d)) (begin_op_round d)"

definition begin_op_again :: "nat \<Rightarrow> bool \<Rightarrow> ('a lstate_scheme, unit outcome) kmon" where
  "begin_op_again d ie = thenM (sleep_end (LogLock d) ie) (begin_op_round d)"

definition begin_op :: "nat \<Rightarrow> ('a lstate_scheme, unit) kmon" where
  "begin_op d = bindM (begin_op_begin d) (\<lambda>r.
     case r of Returned u \<Rightarrow> ret u | Slept ie \<Rightarrow> failM Sleeps)"

definition write_log_step :: "nat \<Rightarrow> int \<Rightarrow> nat \<Rightarrow> ('a lstate_scheme, unit) kmon" where
  "write_log_step d start tail =
     bindM (bread (of_nat d) (wrd (start + int tail + 1))) (\<lambda>to.
     bindM (log_block d tail) (\<lambda>n.
     bindM (bread (of_nat d) (wrd n)) (\<lambda>from.
     bindM (get_buf from) (\<lambda>x.
     thenM (upd_buf to (\<lambda>y. y\<lparr>data := data x\<rparr>))
    (thenM (bwrite to)
    (thenM (brelse from)
    (brelse to)))))))"

definition write_log :: "nat \<Rightarrow> ('a lstate_scheme, unit) kmon" where
  "write_log d = bindM (get_log d) (\<lambda>l. forM [0..<nat (lh_n l)] (write_log_step d (l_start l)))"

definition commit :: "nat \<Rightarrow> ('a lstate_scheme, unit) kmon" where
  "commit d =
     bindM (get_log d) (\<lambda>l.
     whenM (lh_n l > 0)
      (thenM (write_log d)
      (thenM (write_head d)
      (thenM (install_trans d)
      (thenM (upd_log d (\<lambda>l. l\<lparr>lh_n := 0\<rparr>))
      (write_head d))))))"

definition end_op :: "nat \<Rightarrow> ('a lstate_scheme, unit) kmon" where
  "end_op d =
     thenM (acquire (LogLock d))
    (thenM (upd_log d (\<lambda>l. l\<lparr>outstanding := outstanding l - 1\<rparr>))
    (bindM (get_log d) (\<lambda>l.
     if committing l then panic ''log[dev].committing''
     else bindM (if outstanding l = 0
            then thenM (upd_log d (\<lambda>l. l\<lparr>committing := True\<rparr>)) (ret True)
            else thenM (wakeup (LogChan 0)) (ret False)) (\<lambda>do_commit.
     thenM (release (LogLock d))
    (whenM do_commit
      (thenM (commit d)
      (thenM (acquire (LogLock d))
      (thenM (upd_log d (\<lambda>l. l\<lparr>committing := False\<rparr>))
      (thenM (wakeup (LogChan 0))
      (release (LogLock d)))))))))))"

text \<open>The search of \<open>log_write\<close>: the index of the block if it is in the log, or \<open>lh.n\<close>.\<close>

fun log_find :: "nat \<Rightarrow> int \<Rightarrow> nat \<Rightarrow> nat \<Rightarrow> ('a lstate_scheme, nat) kmon" where
  "log_find d n i 0 = ret i"
| "log_find d n i (Suc k) =
     bindM (log_block d i) (\<lambda>v. if v = n then ret i else log_find d n (Suc i) k)"

definition log_write :: "nat \<Rightarrow> ('a lstate_scheme, unit) kmon" where
  "log_write b =
     bindM (get_buf b) (\<lambda>x. let d = unat (dev x) in
     bindM (get_log d) (\<lambda>l.
     if int LOGSIZE \<le> lh_n l \<or> l_size l - 1 \<le> lh_n l then panic ''too big a transaction''
     else if outstanding l < 1 then panic ''log_write outside of trans''
     else thenM (acquire (LogLock d))
    (bindM (get_log d) (\<lambda>l.
     bindM (log_find d (sint (blockno x)) 0 (nat (lh_n l))) (\<lambda>i.
     thenM (set_log_block d i (sint (blockno x)))
    (thenM (whenM (int i = lh_n l)
       (thenM (bpin b) (upd_log d (\<lambda>l. l\<lparr>lh_n := lh_n l + 1\<rparr>))))
    (release (LogLock d))))))))"

end
