(* ===== verification/Fs.thy ===== *)
theory Fs
  imports Log
begin

text \<open>
  Blocks, inodes and their content: the first three layers of kernel/fs.c.  An in-memory inode is
  its index in \<open>icache.inode\<close>; a pointer that may be null is an option.  On-disk inodes are
  decoded from and encoded into the bytes of a block.  As in the theory of virtual memory, the
  kernel's side of a copy is the list of bytes copied.
\<close>

section \<open>Constants and layout\<close>

definition NINODE :: nat where "NINODE = 50"

definition ROOTINO :: "32 word" where "ROOTINO = 1"

definition ROOTDEV :: "32 word" where "ROOTDEV = 0"

definition FSMAGIC :: "32 word" where "FSMAGIC = 0x10203040"

definition NDIRECT :: nat where "NDIRECT = 12"

definition NINDIRECT :: nat where "NINDIRECT = BSIZE div 4"

definition MAXFILE :: nat where "MAXFILE = NDIRECT + NINDIRECT"

definition IPB :: nat where "IPB = BSIZE div 64"

definition BPB :: nat where "BPB = BSIZE * 8"

definition T_DIR :: "16 word" where "T_DIR = 1"

definition T_FILE :: "16 word" where "T_FILE = 2"

definition T_DEVICE :: "16 word" where "T_DEVICE = 3"

record dinode =
  d_type :: "16 word"
  d_major :: "16 word"
  d_minor :: "16 word"
  d_nlink :: "16 word"
  d_size :: "32 word"
  d_addrs :: "32 word list"

record inode =
  i_dev :: "32 word"
  inum :: "32 word"
  iref :: int
  i_valid :: bool
  i_type :: "16 word"
  i_major :: "16 word"
  i_minor :: "16 word"
  i_nlink :: "16 word"
  i_size :: "32 word"
  i_addrs :: "32 word list"

record fs_state = lstate +
  sblk :: superblock
  icache :: "nat \<Rightarrow> inode"

definition IBLOCK :: "32 word \<Rightarrow> superblock \<Rightarrow> 32 word" where
  "IBLOCK i sb = i div of_nat IPB + inodestart sb"

definition BBLOCK :: "32 word \<Rightarrow> superblock \<Rightarrow> 32 word" where
  "BBLOCK b sb = b div of_nat BPB + bmapstart sb"

text \<open>The bytes of an on-disk inode: four shorts, the size, and 13 block numbers.\<close>

definition put_at :: "byte list \<Rightarrow> nat \<Rightarrow> byte list \<Rightarrow> byte list" where
  "put_at bs i cs = take i bs @ cs @ drop (i + length cs) bs"

definition encode_dinode :: "dinode \<Rightarrow> byte list" where
  "encode_dinode d = le_bytes 2 (d_type d) @ le_bytes 2 (d_major d) @ le_bytes 2 (d_minor d) @
     le_bytes 2 (d_nlink d) @ le_bytes 4 (d_size d) @ concat (map (le_bytes 4) (d_addrs d))"

definition decode_dinode :: "byte list \<Rightarrow> dinode" where
  "decode_dinode bs = \<lparr>d_type = of_le (take 2 bs), d_major = of_le (take 2 (drop 2 bs)),
     d_minor = of_le (take 2 (drop 4 bs)), d_nlink = of_le (take 2 (drop 6 bs)),
     d_size = of_le (take 4 (drop 8 bs)), d_addrs = map (\<lambda>i. get32 bs (i + 3)) [0..<NDIRECT + 1]\<rparr>"

definition get_dinode :: "byte list \<Rightarrow> nat \<Rightarrow> dinode" where
  "get_dinode bs k = decode_dinode (take 64 (drop (64 * k) bs))"

definition put_dinode :: "byte list \<Rightarrow> nat \<Rightarrow> dinode \<Rightarrow> byte list" where
  "put_dinode bs k d = put_at bs (64 * k) (encode_dinode d)"

definition decode_sb :: "byte list \<Rightarrow> superblock" where
  "decode_sb bs = \<lparr>magic = get32 bs 0, sb_size = get32 bs 1, nblocks = get32 bs 2, ninodes = get32 bs 3,
     nlog = get32 bs 4, logstart = get32 bs 5, inodestart = get32 bs 6, bmapstart = get32 bs 7\<rparr>"

definition get_inode :: "nat \<Rightarrow> ('a fs_state_scheme, inode) kmon" where
  "get_inode ip = gets (\<lambda>s. icache s ip)"

definition upd_inode :: "nat \<Rightarrow> (inode \<Rightarrow> inode) \<Rightarrow> ('a fs_state_scheme, unit) kmon" where
  "upd_inode ip f = modify (\<lambda>s. s\<lparr>icache := (icache s)(ip := f (icache s ip))\<rparr>)"

section \<open>Blocks\<close>

definition readsb :: "32 word \<Rightarrow> ('a bstate_scheme, superblock) kmon" where
  "readsb d =
     bindM (bread d 1) (\<lambda>bp.
     bindM (get_buf bp) (\<lambda>x.
     thenM (brelse bp) (ret (decode_sb (data x)))))"

definition fsinit :: "nat \<Rightarrow> ('a fs_state_scheme, unit) kmon" where
  "fsinit d =
     bindM (readsb (of_nat d)) (\<lambda>sb.
     thenM (modify (\<lambda>s. s\<lparr>sblk := sb\<rparr>))
     (if magic sb \<noteq> FSMAGIC then panic ''invalid file system'' else initlog d sb))"

definition bzero :: "32 word \<Rightarrow> 32 word \<Rightarrow> ('a lstate_scheme, unit) kmon" where
  "bzero d bno =
     bindM (bread d bno) (\<lambda>bp.
     thenM (upd_buf bp (\<lambda>x. x\<lparr>data := replicate BSIZE 0\<rparr>))
    (thenM (log_write bp) (brelse bp)))"

text \<open>The inner loop of \<open>balloc\<close>: the first clear bit among the first \<open>n\<close> of a bitmap block.\<close>

definition free_bit :: "byte list \<Rightarrow> nat \<Rightarrow> nat option" where
  "free_bit bs n = find (\<lambda>bi. \<not> bit (bs ! (bi div 8)) (bi mod 8)) [0..<n]"

fun balloc_loop :: "32 word \<Rightarrow> nat \<Rightarrow> nat list \<Rightarrow> ('a fs_state_scheme, 32 word) kmon" where
  "balloc_loop d sz [] = panic ''balloc: out of blocks''"
| "balloc_loop d sz (b # bs) =
     bindM (gets sblk) (\<lambda>sb.
     bindM (bread d (BBLOCK (of_nat b) sb)) (\<lambda>bp.
     bindM (get_buf bp) (\<lambda>x.
     case free_bit (data x) (min BPB (sz - b)) of
       Some bi \<Rightarrow>
         thenM (upd_buf bp (\<lambda>x. x\<lparr>data := (data x)[bi div 8 := set_bit (bi mod 8) (data x ! (bi div 8))]\<rparr>))
        (thenM (log_write bp)
        (thenM (brelse bp)
        (thenM (bzero d (of_nat (b + bi))) (ret (of_nat (b + bi))))))
     | None \<Rightarrow> thenM (brelse bp) (balloc_loop d sz bs))))"

definition balloc :: "32 word \<Rightarrow> ('a fs_state_scheme, 32 word) kmon" where
  "balloc d =
     bindM (gets (\<lambda>s. unat (sb_size (sblk s)))) (\<lambda>sz.
     balloc_loop d sz (map (\<lambda>i. i * BPB) [0..<(sz + BPB - 1) div BPB]))"

definition bfree :: "32 word \<Rightarrow> 32 word \<Rightarrow> ('a fs_state_scheme, unit) kmon" where
  "bfree d b =
     bindM (gets sblk) (\<lambda>sb.
     bindM (bread d (BBLOCK b sb)) (\<lambda>bp.
     bindM (get_buf bp) (\<lambda>x. let bi = unat b mod BPB in
     if \<not> bit (data x ! (bi div 8)) (bi mod 8) then panic ''freeing free block''
     else thenM (upd_buf bp (\<lambda>x. x\<lparr>data := (data x)[bi div 8 := unset_bit (bi mod 8) (data x ! (bi div 8))]\<rparr>))
         (thenM (log_write bp) (brelse bp)))))"

section \<open>Inodes\<close>

definition iinit :: "('a fs_state_scheme, unit) kmon" where
  "iinit = thenM (initlock IcacheLock) (forM [0..<NINODE] (\<lambda>i. initsleeplock (InodeLock i)))"

text \<open>The scan of \<open>iget\<close>: the cached entry, or the first empty one.\<close>

fun iget_scan :: "(nat \<Rightarrow> inode) \<Rightarrow> 32 word \<Rightarrow> 32 word \<Rightarrow> nat option \<Rightarrow> nat list \<Rightarrow> nat option \<times> nat option" where
  "iget_scan I d n emp [] = (None, emp)"
| "iget_scan I d n emp (ip # ips) =
     (if iref (I ip) > 0 \<and> i_dev (I ip) = d \<and> inum (I ip) = n then (Some ip, emp)
      else iget_scan I d n (if emp = None \<and> iref (I ip) = 0 then Some ip else emp) ips)"

definition iget :: "32 word \<Rightarrow> 32 word \<Rightarrow> ('a fs_state_scheme, nat) kmon" where
  "iget d n =
     thenM (acquire IcacheLock)
    (bindM (gets (\<lambda>s. iget_scan (icache s) d n None [0..<NINODE])) (\<lambda>(cached, emp).
     case cached of
       Some ip \<Rightarrow> thenM (upd_inode ip (\<lambda>x. x\<lparr>iref := iref x + 1\<rparr>)) (thenM (release IcacheLock) (ret ip))
     | None \<Rightarrow> (case emp of
         None \<Rightarrow> panic ''iget: no inodes''
       | Some ip \<Rightarrow>
           thenM (upd_inode ip (\<lambda>x. x\<lparr>i_dev := d, inum := n, iref := 1, i_valid := False\<rparr>))
          (thenM (release IcacheLock) (ret ip)))))"

fun ialloc_loop :: "32 word \<Rightarrow> 16 word \<Rightarrow> nat list \<Rightarrow> ('a fs_state_scheme, nat) kmon" where
  "ialloc_loop d ty [] = panic ''ialloc: no inodes''"
| "ialloc_loop d ty (i # is) =
     bindM (gets sblk) (\<lambda>sb.
     bindM (bread d (IBLOCK (of_nat i) sb)) (\<lambda>bp.
     bindM (get_buf bp) (\<lambda>x.
     if d_type (get_dinode (data x) (i mod IPB)) = 0
     then thenM (upd_buf bp (\<lambda>x. x\<lparr>data := put_dinode (data x) (i mod IPB)
            \<lparr>d_type = ty, d_major = 0, d_minor = 0, d_nlink = 0, d_size = 0, d_addrs = replicate (NDIRECT + 1) 0\<rparr>\<rparr>))
         (thenM (log_write bp)
         (thenM (brelse bp)
         (iget d (of_nat i))))
     else thenM (brelse bp) (ialloc_loop d ty is))))"

definition ialloc :: "32 word \<Rightarrow> 16 word \<Rightarrow> ('a fs_state_scheme, nat) kmon" where
  "ialloc d ty = bindM (gets (\<lambda>s. unat (ninodes (sblk s)))) (\<lambda>n. ialloc_loop d ty [1..<n])"

definition iupdate :: "nat \<Rightarrow> ('a fs_state_scheme, unit) kmon" where
  "iupdate ip =
     bindM (get_inode ip) (\<lambda>i.
     bindM (gets sblk) (\<lambda>sb.
     bindM (bread (i_dev i) (IBLOCK (inum i) sb)) (\<lambda>bp.
     thenM (upd_buf bp (\<lambda>x. x\<lparr>data := put_dinode (data x) (unat (inum i) mod IPB)
        \<lparr>d_type = i_type i, d_major = i_major i, d_minor = i_minor i, d_nlink = i_nlink i,
         d_size = i_size i, d_addrs = i_addrs i\<rparr>\<rparr>))
    (thenM (log_write bp) (brelse bp)))))"

definition idup :: "nat \<Rightarrow> ('a fs_state_scheme, nat) kmon" where
  "idup ip =
     thenM (acquire IcacheLock)
    (thenM (upd_inode ip (\<lambda>x. x\<lparr>iref := iref x + 1\<rparr>))
    (thenM (release IcacheLock) (ret ip)))"

definition ilock :: "nat option \<Rightarrow> ('a fs_state_scheme, unit) kmon" where
  "ilock p = (case p of None \<Rightarrow> panic ''ilock'' | Some ip \<Rightarrow>
     bindM (get_inode ip) (\<lambda>i.
     if iref i < 1 then panic ''ilock''
     else thenM (acquiresleep (InodeLock ip))
    (bindM (get_inode ip) (\<lambda>i.
     whenM (\<not> i_valid i)
      (bindM (gets sblk) (\<lambda>sb.
       bindM (bread (i_dev i) (IBLOCK (inum i) sb)) (\<lambda>bp.
       bindM (get_buf bp) (\<lambda>x. let d = get_dinode (data x) (unat (inum i) mod IPB) in
       thenM (upd_inode ip (\<lambda>i. i\<lparr>i_type := d_type d, i_major := d_major d, i_minor := d_minor d,
          i_nlink := d_nlink d, i_size := d_size d, i_addrs := d_addrs d\<rparr>))
      (thenM (brelse bp)
      (thenM (upd_inode ip (\<lambda>i. i\<lparr>i_valid := True\<rparr>))
      (whenM (d_type d = 0) (panic ''ilock: no type''))))))))))))"

definition iunlock :: "nat option \<Rightarrow> ('a fs_state_scheme, unit) kmon" where
  "iunlock p = (case p of None \<Rightarrow> panic ''iunlock'' | Some ip \<Rightarrow>
     bindM (holdingsleep (InodeLock ip)) (\<lambda>h.
     bindM (get_inode ip) (\<lambda>i.
     if \<not> h \<or> iref i < 1 then panic ''iunlock'' else releasesleep (InodeLock ip))))"


section \<open>Content\<close>

definition bmap :: "nat \<Rightarrow> 32 word \<Rightarrow> ('a fs_state_scheme, 32 word) kmon" where
  "bmap ip bn =
     bindM (get_inode ip) (\<lambda>i.
     if unat bn < NDIRECT
     then if i_addrs i ! unat bn = 0
          then bindM (balloc (i_dev i)) (\<lambda>a.
            thenM (upd_inode ip (\<lambda>i. i\<lparr>i_addrs := (i_addrs i)[unat bn := a]\<rparr>)) (ret a))
          else ret (i_addrs i ! unat bn)
     else let k = unat bn - NDIRECT in
     if k < NINDIRECT
     then bindM (if i_addrs i ! NDIRECT = 0
            then bindM (balloc (i_dev i)) (\<lambda>a.
              thenM (upd_inode ip (\<lambda>i. i\<lparr>i_addrs := (i_addrs i)[NDIRECT := a]\<rparr>)) (ret a))
            else ret (i_addrs i ! NDIRECT)) (\<lambda>a.
          bindM (bread (i_dev i) a) (\<lambda>bp.
          bindM (buf_word bp k) (\<lambda>v.
          bindM (if v = 0
            then bindM (balloc (i_dev i)) (\<lambda>a.
              thenM (set_buf_word bp k a) (thenM (log_write bp) (ret a)))
            else ret v) (\<lambda>a.
          thenM (brelse bp) (ret a)))))
     else panic ''bmap: out of range'')"

definition itrunc :: "nat \<Rightarrow> ('a fs_state_scheme, unit) kmon" where
  "itrunc ip =
     thenM (forM [0..<NDIRECT] (\<lambda>k.
       bindM (get_inode ip) (\<lambda>i.
       whenM (i_addrs i ! k \<noteq> 0)
        (thenM (bfree (i_dev i) (i_addrs i ! k))
        (upd_inode ip (\<lambda>i. i\<lparr>i_addrs := (i_addrs i)[k := 0]\<rparr>))))))
    (bindM (get_inode ip) (\<lambda>i.
     thenM (whenM (i_addrs i ! NDIRECT \<noteq> 0)
      (bindM (bread (i_dev i) (i_addrs i ! NDIRECT)) (\<lambda>bp.
       thenM (forM [0..<NINDIRECT] (\<lambda>j.
         bindM (buf_word bp j) (\<lambda>a. whenM (a \<noteq> 0) (bfree (i_dev i) a))))
      (thenM (brelse bp)
      (thenM (bfree (i_dev i) (i_addrs i ! NDIRECT))
      (upd_inode ip (\<lambda>i. i\<lparr>i_addrs := (i_addrs i)[NDIRECT := 0]\<rparr>)))))))
    (thenM (upd_inode ip (\<lambda>i. i\<lparr>i_size := 0\<rparr>))
    (iupdate ip))))"

definition iput :: "nat \<Rightarrow> ('a fs_state_scheme, unit) kmon" where
  "iput ip =
     thenM (acquire IcacheLock)
    (bindM (get_inode ip) (\<lambda>i.
     thenM (whenM (iref i = 1 \<and> i_valid i \<and> i_nlink i = 0)
      (thenM (acquiresleep (InodeLock ip))
      (thenM (release IcacheLock)
      (thenM (itrunc ip)
      (thenM (upd_inode ip (\<lambda>i. i\<lparr>i_type := 0\<rparr>))
      (thenM (iupdate ip)
      (thenM (upd_inode ip (\<lambda>i. i\<lparr>i_valid := False\<rparr>))
      (thenM (releasesleep (InodeLock ip))
      (acquire IcacheLock)))))))))
    (thenM (upd_inode ip (\<lambda>i. i\<lparr>iref := iref i - 1\<rparr>))
    (release IcacheLock))))"

definition iunlockput :: "nat \<Rightarrow> ('a fs_state_scheme, unit) kmon" where
  "iunlockput ip = thenM (iunlock (Some ip)) (iput ip)"

record stat =
  st_dev :: "32 word"
  st_ino :: "32 word"
  st_type :: "16 word"
  st_nlink :: "16 word"
  st_size :: "64 word"

definition stati :: "nat \<Rightarrow> ('a fs_state_scheme, stat) kmon" where
  "stati ip = bindM (get_inode ip) (\<lambda>i. ret \<lparr>st_dev = i_dev i, st_ino = inum i, st_type = i_type i,
     st_nlink = i_nlink i, st_size = ucast (i_size i)\<rparr>)"

text \<open>Where a read puts its bytes: at a user address, or in an object of the kernel.\<close>

datatype dest = User "64 word" | Kernel

fun dest_plus :: "dest \<Rightarrow> nat \<Rightarrow> dest" where
  "dest_plus (User a) m = User (a + of_nat m)"
| "dest_plus Kernel m = Kernel"

definition copy_to :: "dest \<Rightarrow> byte list \<Rightarrow> ('a pstate_scheme, int) kmon" where
  "copy_to dst bs = (case dst of User a \<Rightarrow> either_copyout True a bs | Kernel \<Rightarrow> ret 0)"

text \<open>The loop of \<open>readi\<close>, with \<open>rem\<close> bytes left to read; it returns the bytes read.\<close>

function readi_loop :: "nat \<Rightarrow> dest \<Rightarrow> 32 word \<Rightarrow> nat \<Rightarrow> ('a fs_state_scheme, byte list) kmon" where
  "readi_loop ip dst off rem =
     (if rem = 0 then ret []
      else bindM (get_inode ip) (\<lambda>i.
       bindM (bmap ip (off div of_nat BSIZE)) (\<lambda>a.
       bindM (bread (i_dev i) a) (\<lambda>bp.
       bindM (get_buf bp) (\<lambda>x.
       let o1 = unat off mod BSIZE; m = min rem (BSIZE - o1); bs = take m (drop o1 (data x)) in
       bindM (copy_to dst bs) (\<lambda>r.
       if r = - 1 then thenM (brelse bp) (ret [])
       else thenM (brelse bp)
         (bindM (readi_loop ip (dest_plus dst m) (off + of_nat m) (rem - m)) (\<lambda>cs. ret (bs @ cs)))))))))"
  by pat_completeness auto
termination by (relation "measure (\<lambda>(ip, dst, off, rem). rem)") (auto simp: BSIZE_def)

declare readi_loop.simps [simp del]

definition readi :: "nat \<Rightarrow> dest \<Rightarrow> 32 word \<Rightarrow> 32 word \<Rightarrow> ('a fs_state_scheme, int \<times> byte list) kmon" where
  "readi ip dst off n =
     bindM (get_inode ip) (\<lambda>i.
     if off > i_size i \<or> off + n < off then ret (- 1, [])
     else let n = (if off + n > i_size i then i_size i - off else n) in
     bindM (readi_loop ip dst off (unat n)) (\<lambda>bs. ret (sint n, bs)))"

datatype source = UserSrc "64 word" | KernelSrc "byte list"

fun src_plus :: "source \<Rightarrow> nat \<Rightarrow> source" where
  "src_plus (UserSrc a) m = UserSrc (a + of_nat m)"
| "src_plus (KernelSrc bs) m = KernelSrc (drop m bs)"

definition copy_from :: "source \<Rightarrow> nat \<Rightarrow> ('a pstate_scheme, int \<times> byte list) kmon" where
  "copy_from src m = (case src of UserSrc a \<Rightarrow> either_copyin True a m | KernelSrc bs \<Rightarrow> ret (0, take m bs))"

text \<open>The loop of \<open>writei\<close>; it returns the offset it reached.\<close>

function writei_loop :: "nat \<Rightarrow> source \<Rightarrow> 32 word \<Rightarrow> nat \<Rightarrow> ('a fs_state_scheme, 32 word) kmon" where
  "writei_loop ip src off rem =
     (if rem = 0 then ret off
      else bindM (get_inode ip) (\<lambda>i.
       bindM (bmap ip (off div of_nat BSIZE)) (\<lambda>a.
       bindM (bread (i_dev i) a) (\<lambda>bp.
       let o1 = unat off mod BSIZE; m = min rem (BSIZE - o1) in
       bindM (copy_from src m) (\<lambda>(r, bs).
       thenM (upd_buf bp (\<lambda>x. x\<lparr>data := put_at (data x) o1 bs\<rparr>))
       (if r = - 1 then thenM (brelse bp) (ret off)
        else thenM (log_write bp)
          (thenM (brelse bp) (writei_loop ip (src_plus src m) (off + of_nat m) (rem - m)))))))))"
  by pat_completeness auto
termination by (relation "measure (\<lambda>(ip, src, off, rem). rem)") (auto simp: BSIZE_def)

declare writei_loop.simps [simp del]

definition writei :: "nat \<Rightarrow> source \<Rightarrow> 32 word \<Rightarrow> 32 word \<Rightarrow> ('a fs_state_scheme, int) kmon" where
  "writei ip src off n =
     bindM (get_inode ip) (\<lambda>i.
     if off > i_size i \<or> off + n < off then ret (- 1)
     else if unat (off + n) > MAXFILE * BSIZE then ret (- 1)
     else bindM (writei_loop ip src off (unat n)) (\<lambda>off.
      thenM (whenM (n > 0)
       (bindM (get_inode ip) (\<lambda>i.
        thenM (whenM (off > i_size i) (upd_inode ip (\<lambda>i. i\<lparr>i_size := off\<rparr>)))
        (iupdate ip))))
      (ret (sint n))))"

end
