(* ===== verification/Fs_Dir.thy ===== *)
theory Fs_Dir
  imports Fs
begin

text \<open>
  Directories and path names: the last two layers of kernel/fs.c.  Names and paths are the bytes
  of the string without its NUL; a directory entry is a 16-bit inode number and a name of 14
  bytes, padded with NULs.
\<close>

section \<open>Directories\<close>

definition DIRSIZ :: nat where "DIRSIZ = 14"

definition sizeof_dirent :: nat where "sizeof_dirent = 16"

record dirent =
  de_inum :: "16 word"
  de_name :: "byte list"

definition decode_dirent :: "byte list \<Rightarrow> dirent" where
  "decode_dirent bs = \<lparr>de_inum = of_le (take 2 bs), de_name = take DIRSIZ (drop 2 bs)\<rparr>"

definition encode_dirent :: "dirent \<Rightarrow> byte list" where
  "encode_dirent de = le_bytes 2 (de_inum de) @ de_name de"

text \<open>\<open>strncmp\<close> and \<open>strncpy\<close> on bytes; the end of a list reads as NUL.\<close>

fun hd0 :: "byte list \<Rightarrow> byte" where
  "hd0 [] = 0"
| "hd0 (b # bs) = b"

fun strncmp_bytes :: "byte list \<Rightarrow> byte list \<Rightarrow> nat \<Rightarrow> int" where
  "strncmp_bytes p q 0 = 0"
| "strncmp_bytes p q (Suc n) =
     (if hd0 p \<noteq> 0 \<and> hd0 p = hd0 q then strncmp_bytes (tl p) (tl q) n else uint (hd0 p) - uint (hd0 q))"

definition namecmp :: "byte list \<Rightarrow> byte list \<Rightarrow> int" where
  "namecmp s t = strncmp_bytes s t DIRSIZ"

definition pad_name :: "byte list \<Rightarrow> byte list" where
  "pad_name name = take DIRSIZ (name @ replicate DIRSIZ 0)"

text \<open>The offsets of the entries of a directory of \<open>sz\<close> bytes.\<close>

definition dir_offsets :: "32 word \<Rightarrow> 32 word list" where
  "dir_offsets sz = map (\<lambda>i. of_nat (i * sizeof_dirent)) [0..<(unat sz + sizeof_dirent - 1) div sizeof_dirent]"

fun dirlookup_loop :: "nat \<Rightarrow> byte list \<Rightarrow> 32 word list \<Rightarrow> ('a fs_state_scheme, (nat \<times> 32 word) option) kmon" where
  "dirlookup_loop dp name [] = ret None"
| "dirlookup_loop dp name (off # offs) =
     bindM (readi dp Kernel off (of_nat sizeof_dirent)) (\<lambda>(r, bs).
     if r \<noteq> int sizeof_dirent then panic ''dirlookup read''
     else let de = decode_dirent bs in
     if de_inum de = 0 then dirlookup_loop dp name offs
     else if namecmp name (de_name de) = 0
     then bindM (get_inode dp) (\<lambda>i. bindM (iget (i_dev i) (ucast (de_inum de))) (\<lambda>ip. ret (Some (ip, off))))
     else dirlookup_loop dp name offs)"

definition dirlookup :: "nat \<Rightarrow> byte list \<Rightarrow> ('a fs_state_scheme, (nat \<times> 32 word) option) kmon" where
  "dirlookup dp name =
     bindM (get_inode dp) (\<lambda>i.
     if i_type i \<noteq> T_DIR then panic ''dirlookup not DIR''
     else dirlookup_loop dp name (dir_offsets (i_size i)))"

text \<open>The loop of \<open>dirlink\<close>: the offset of the first empty entry, or the end of the directory.\<close>

fun dirlink_loop :: "nat \<Rightarrow> 32 word list \<Rightarrow> 32 word \<Rightarrow> ('a fs_state_scheme, 32 word) kmon" where
  "dirlink_loop dp [] stop = ret stop"
| "dirlink_loop dp (off # offs) stop =
     bindM (readi dp Kernel off (of_nat sizeof_dirent)) (\<lambda>(r, bs).
     if r \<noteq> int sizeof_dirent then panic ''dirlink read''
     else if de_inum (decode_dirent bs) = 0 then ret off
     else dirlink_loop dp offs stop)"

definition dirlink :: "nat \<Rightarrow> byte list \<Rightarrow> 32 word \<Rightarrow> ('a fs_state_scheme, int) kmon" where
  "dirlink dp name n =
     bindM (dirlookup dp name) (\<lambda>r.
     case r of Some (ip, off) \<Rightarrow> thenM (iput ip) (ret (- 1))
     | None \<Rightarrow>
       bindM (get_inode dp) (\<lambda>i.
       bindM (dirlink_loop dp (dir_offsets (i_size i))
          (of_nat (length (dir_offsets (i_size i)) * sizeof_dirent))) (\<lambda>off.
       bindM (writei dp (KernelSrc (encode_dirent \<lparr>de_inum = ucast n, de_name = pad_name name\<rparr>)) off
          (of_nat sizeof_dirent)) (\<lambda>r.
       if r \<noteq> int sizeof_dirent then panic ''dirlink'' else ret 0))))"

section \<open>Paths\<close>

definition slash :: byte where "slash = 47"

definition skipelem :: "byte list \<Rightarrow> (byte list \<times> byte list) option" where
  "skipelem path =
     (let s = dropWhile (\<lambda>c. c = slash) path in
      if s = [] then None
      else Some (take DIRSIZ (takeWhile (\<lambda>c. c \<noteq> slash) s),
                 dropWhile (\<lambda>c. c = slash) (dropWhile (\<lambda>c. c \<noteq> slash) s)))"

lemma skipelem_shorter:
  assumes "skipelem path = Some (name, rst)"
  shows "length rst < length path"
proof -
  let ?s = "dropWhile (\<lambda>c. c = slash) path"
  have s: "?s \<noteq> []" "rst = dropWhile (\<lambda>c. c = slash) (dropWhile (\<lambda>c. c \<noteq> slash) ?s)"
    using assms by (auto simp: skipelem_def Let_def split: if_splits)
  have h: "hd ?s \<noteq> slash" using hd_dropWhile [OF s(1)] by simp
  have "length rst \<le> length (dropWhile (\<lambda>c. c \<noteq> slash) ?s)" by (simp add: s(2) length_dropWhile_le)
  also have "\<dots> \<le> length (tl ?s)" using s(1) h by (cases ?s) (simp_all add: length_dropWhile_le)
  also have "\<dots> < length ?s" using s(1) by simp
  also have "\<dots> \<le> length path" by (rule length_dropWhile_le)
  finally show ?thesis .
qed

function namex_loop :: "nat \<Rightarrow> byte list \<Rightarrow> bool \<Rightarrow> byte list \<Rightarrow> ('a fs_state_scheme, nat option \<times> byte list) kmon" where
  "namex_loop ip path par name =
     (case skipelem path of
        None \<Rightarrow> if par then thenM (iput ip) (ret (None, name)) else ret (Some ip, name)
      | Some (name, rst) \<Rightarrow>
          thenM (ilock (Some ip))
         (bindM (get_inode ip) (\<lambda>i.
          if i_type i \<noteq> T_DIR then thenM (iunlockput ip) (ret (None, name))
          else if par \<and> rst = [] then thenM (iunlock (Some ip)) (ret (Some ip, name))
          else bindM (dirlookup ip name) (\<lambda>r.
            case r of None \<Rightarrow> thenM (iunlockput ip) (ret (None, name))
            | Some (nx, off) \<Rightarrow> thenM (iunlockput ip) (namex_loop nx rst par name)))))"
  by pat_completeness auto
termination
  by (relation "measure (\<lambda>(ip, path, par, name). length path)") (auto dest: skipelem_shorter)

declare namex_loop.simps [simp del]

definition namex :: "byte list \<Rightarrow> bool \<Rightarrow> ('a fs_state_scheme, nat option \<times> byte list) kmon" where
  "namex path par =
     (if hd0 path = slash
      then bindM (iget ROOTDEV ROOTINO) (\<lambda>ip. namex_loop ip path par [])
      else bindM the_proc (\<lambda>p.
        bindM (get_proc p) (\<lambda>pr.
        case cwd pr of None \<Rightarrow> failM Null_Deref
        | Some d \<Rightarrow> bindM (idup d) (\<lambda>ip. namex_loop ip path par []))))"

definition namei :: "byte list \<Rightarrow> ('a fs_state_scheme, nat option) kmon" where
  "namei path = bindM (namex path False) (\<lambda>(ip, name). ret ip)"

definition nameiparent :: "byte list \<Rightarrow> ('a fs_state_scheme, nat option \<times> byte list) kmon" where
  "nameiparent path = namex path True"

end
