(* ===== verification/Printf.thy ===== *)
theory Printf
  imports Fs_Dir
begin

text \<open>
  Output of the kernel: \<open>uartputc\<close> of kernel/uart.c, \<open>consputc\<close> of kernel/console.c,
  kernel/printf.c, and the listings of processes and queues of kernel/proc.c.  What the UART
  has been given to send is part of the state.  \<open>panic\<close> is a failure of the model, so that of
  kernel/printf.c is not repeated here.
\<close>

section \<open>Characters\<close>

record con_state = fs_state +
  uart_out :: "byte list"
  panicked :: bool
  pr_locking :: bool

definition bytes_of :: "string \<Rightarrow> byte list" where
  "bytes_of s = map of_char s"

text \<open>The device always becomes ready to send in the end: the wait of \<open>uartputc\<close> is left out.\<close>

definition uartputc :: "int \<Rightarrow> ('a con_state_scheme, unit) kmon" where
  "uartputc c = modify (\<lambda>s. s\<lparr>uart_out := uart_out s @ [word_of_int c]\<rparr>)"

definition BACKSPACE :: int where "BACKSPACE = 0x100"

definition consputc :: "int \<Rightarrow> ('a con_state_scheme, unit) kmon" where
  "consputc c =
     bindM (gets panicked) (\<lambda>p.
     if p then failM Diverges
     else if c = BACKSPACE then thenM (uartputc 8) (thenM (uartputc 32) (uartputc 8))
     else uartputc c)"

definition put_bytes :: "byte list \<Rightarrow> ('a con_state_scheme, unit) kmon" where
  "put_bytes bs = forM bs (\<lambda>b. consputc (uint b))"

section \<open>Numbers\<close>

definition digit :: "nat \<Rightarrow> byte" where
  "digit n = bytes_of ''0123456789abcdef'' ! n"

text \<open>The loop of \<open>printint\<close>: the digits, least significant first.  The bases used are 10 and 16.\<close>

function print_digits :: "nat \<Rightarrow> nat \<Rightarrow> byte list" where
  "print_digits b x = digit (x mod b) # (if x div b = 0 \<or> b \<le> 1 then [] else print_digits b (x div b))"
  by auto
termination
  by (relation "measure snd") (auto simp: div_greater_zero_iff intro!: div_less_dividend)

declare print_digits.simps [simp del]

definition printint_bytes :: "32 word \<Rightarrow> nat \<Rightarrow> bool \<Rightarrow> byte list" where
  "printint_bytes xx b sign =
     (let neg = (sign \<and> sint xx < 0); x = (if neg then - xx else xx);
          buf = print_digits b (unat x) @ (if neg then [45] else [])
      in rev buf)"

definition printint :: "32 word \<Rightarrow> nat \<Rightarrow> bool \<Rightarrow> ('a con_state_scheme, unit) kmon" where
  "printint xx b sign = put_bytes (printint_bytes xx b sign)"

definition printptr :: "64 word \<Rightarrow> ('a con_state_scheme, unit) kmon" where
  "printptr x =
     thenM (consputc 48)
    (thenM (consputc 120)
    (forM [0..<16] (\<lambda>i. consputc (uint (digit (unat (drop_bit 60 (push_bit (4 * i) x))))))))"

section \<open>Formatted output\<close>

datatype arg = AInt "32 word" | APtr "64 word" | AStr "byte list option"

fun printf_loop :: "byte list \<Rightarrow> arg list \<Rightarrow> ('a con_state_scheme, unit) kmon" where
  "printf_loop [] as = ret ()"
| "printf_loop (c # fs) as =
     (if c \<noteq> 37 then thenM (consputc (uint c)) (printf_loop fs as)
      else (case fs of [] \<Rightarrow> ret ()
        | d # fs' \<Rightarrow>
          if d = 100 then (case as of AInt v # as' \<Rightarrow> thenM (printint v 10 True) (printf_loop fs' as')
             | _ \<Rightarrow> failM Out_Of_Bounds)
          else if d = 120 then (case as of AInt v # as' \<Rightarrow> thenM (printint v 16 True) (printf_loop fs' as')
             | _ \<Rightarrow> failM Out_Of_Bounds)
          else if d = 112 then (case as of APtr v # as' \<Rightarrow> thenM (printptr v) (printf_loop fs' as')
             | _ \<Rightarrow> failM Out_Of_Bounds)
          else if d = 115 then (case as of AStr r # as' \<Rightarrow>
               thenM (put_bytes (case r of None \<Rightarrow> bytes_of ''(null)'' | Some bs \<Rightarrow> bs)) (printf_loop fs' as')
             | _ \<Rightarrow> failM Out_Of_Bounds)
          else if d = 37 then thenM (consputc 37) (printf_loop fs' as)
          else thenM (consputc 37) (thenM (consputc (uint d)) (printf_loop fs' as))))"

definition printf_locking :: "bool \<Rightarrow> byte list \<Rightarrow> arg list \<Rightarrow> ('a con_state_scheme, unit) kmon" where
  "printf_locking locking fmt as =
     thenM (whenM locking (acquire PrLock))
    (thenM (printf_loop fmt as)
    (whenM locking (release PrLock)))"

definition printf :: "string \<Rightarrow> arg list \<Rightarrow> ('a con_state_scheme, unit) kmon" where
  "printf fmt as = bindM (gets pr_locking) (\<lambda>l. printf_locking l (bytes_of fmt) as)"

definition printf_no_lock :: "string \<Rightarrow> arg list \<Rightarrow> ('a con_state_scheme, unit) kmon" where
  "printf_no_lock fmt as = printf_locking False (bytes_of fmt) as"

definition printfinit :: "('a con_state_scheme, unit) kmon" where
  "printfinit = thenM (initlock PrLock) (modify (\<lambda>s. s\<lparr>pr_locking := True\<rparr>))"

section \<open>Listings\<close>

fun state_name :: "procstate \<Rightarrow> string" where
  "state_name UNUSED = ''unused''"
| "state_name SLEEPING = ''sleep ''"
| "state_name RUNNABLE = ''runble''"
| "state_name RUNNING = ''run   ''"
| "state_name ZOMBIE = ''zombie''"

text \<open>The string at an address of kernel memory.\<close>

definition str_at :: "bmem \<Rightarrow> int \<Rightarrow> byte list option" where
  "str_at m a = map_option (\<lambda>n. load_bytes m a n) (strlen m a)"

definition procdump :: "('a con_state_scheme, unit) kmon" where
  "procdump =
     thenM (printf (''\<newline>PID'' @ [CHR 0x09] @ ''PPID'' @ [CHR 0x09] @ ''PRIO'' @ [CHR 0x09] @ ''STATE'' @ [CHR 0x09] @ ''CMD\<newline>'') [])
    (forM [0..<NPROC] (\<lambda>p.
       bindM (get_proc p) (\<lambda>pr.
       whenM (p_state pr \<noteq> UNUSED)
        (bindM (case parent pr of None \<Rightarrow> ret (- 1) | Some pp \<Rightarrow> bindM (get_proc pp) (\<lambda>q. ret (pid q))) (\<lambda>ppid.
         bindM (if cmd pr = 0 then ret (AStr None)
                else bindM (gets (\<lambda>s. str_at (mem s) (cmd pr))) (\<lambda>r.
                  case r of None \<Rightarrow> failM Diverges | Some bs \<Rightarrow> ret (AStr (Some bs)))) (\<lambda>c.
         thenM (printf (''%d'' @ [CHR 0x09] @ ''%d'' @ [CHR 0x09] @ ''%d'' @ [CHR 0x09] @ ''%s'' @ [CHR 0x09] @ [CHR 0x27] @ ''%s'' @ [CHR 0x27])
           [AInt (word_of_int (pid pr)), AInt (word_of_int ppid), AInt (word_of_int (priority pr)),
            AStr (Some (bytes_of (state_name (p_state pr)))), c])
         (printf ''\<newline>'' [])))))))"

text \<open>The pids on a queue, in order.\<close>

partial_function (option) lp_pids :: "(int \<Rightarrow> int) \<Rightarrow> (int \<Rightarrow> nat) \<Rightarrow> (nat \<Rightarrow> proc) \<Rightarrow> int \<Rightarrow> int list option" where
  "lp_pids N P tab l =
     (if l = 0 then Some [] else Option.bind (lp_pids N P tab (N l)) (\<lambda>r. Some (pid (tab (P l)) # r)))"

definition priodump :: "('a con_state_scheme, unit) kmon" where
  "priodump = forM [0..NPRIO - 1] (\<lambda>i.
     thenM (printf ''Priority queue for priority = %d: '' [AInt (word_of_int i)])
    (bindM (gets (\<lambda>s. lp_pids (lp_next s) (lp_p s) (ptable s) (prio s i))) (\<lambda>r.
     case r of None \<Rightarrow> failM Diverges
     | Some ps \<Rightarrow> thenM (forM ps (\<lambda>n. printf ''%d '' [AInt (word_of_int n)])) (printf ''\<newline>'' []))))"

end
