(* ===== verification/Console.thy ===== *)
theory Console
  imports Printf
begin

text \<open>
  The consoles and the watchdog: kernel/console.c and kernel/watchdog.c.  There are three consoles
  on one terminal; a console is its index, and reads and writes of one that is not shown sleep.
  The functions that sleep are split where they do, with what they need to go on.
\<close>

section \<open>State\<close>

definition NBCONSOLES :: int where "NBCONSOLES = 3"

definition INPUT_BUF :: nat where "INPUT_BUF = 128"

record cons_t =
  c_buf :: "nat \<Rightarrow> byte"
  c_r :: "32 word"
  c_w :: "32 word"
  c_e :: "32 word"

text \<open>The device functions a slot of \<open>devsw\<close> can hold.\<close>

datatype dev_fn = ConsoleDev | WatchdogDev

definition CONSOLE :: int where "CONSOLE = 1"

definition WATCHDOG :: int where "WATCHDOG = 2"

record dev_state = con_state +
  devsw_read :: "int \<Rightarrow> dev_fn option"
  devsw_write :: "int \<Rightarrow> dev_fn option"
  consoles :: "int \<Rightarrow> cons_t"
  console_number :: int
  cons :: int
  ticks :: "32 word"
  watchdog_value :: "32 word"
  watchdog_time :: "32 word"

definition get_cons :: "int \<Rightarrow> ('a dev_state_scheme, cons_t) kmon" where
  "get_cons i = (if 0 \<le> i \<and> i < NBCONSOLES then gets (\<lambda>s. consoles s i) else failM Out_Of_Bounds)"

definition upd_cons :: "int \<Rightarrow> (cons_t \<Rightarrow> cons_t) \<Rightarrow> ('a dev_state_scheme, unit) kmon" where
  "upd_cons i f = (if 0 \<le> i \<and> i < NBCONSOLES
     then modify (\<lambda>s. s\<lparr>consoles := (consoles s)(i := f (consoles s i))\<rparr>) else failM Out_Of_Bounds)"

text \<open>Control characters.\<close>

definition Ctl :: "char \<Rightarrow> int" where
  "Ctl x = of_char x - 64"

section \<open>Waiting for the console to be shown\<close>

datatype cons_progress = CDone int | CHidden bool | CEmpty "64 word" int bool

definition cons_shown :: "int \<Rightarrow> ('a dev_state_scheme, bool option) kmon" where
  "cons_shown i =
     bindM (gets console_number) (\<lambda>k.
     if k \<noteq> i then bindM (sleep_begin (ConsChan i) ConsoleNumberLock) (\<lambda>ie. ret (Some ie))
     else thenM (release ConsoleNumberLock) (ret None))"

section \<open>Writing\<close>

fun consolewrite_loop :: "bool \<Rightarrow> 64 word \<Rightarrow> int list \<Rightarrow> ('a dev_state_scheme, unit) kmon" where
  "consolewrite_loop user_src src [] = ret ()"
| "consolewrite_loop user_src src (i # is) =
     bindM (either_copyin user_src (src + word_of_int i) 1) (\<lambda>(r, bs).
     if r = - 1 then ret ()
     else thenM (consputc (uint (hd bs))) (consolewrite_loop user_src src is))"

definition consolewrite_round :: "int \<Rightarrow> bool \<Rightarrow> 64 word \<Rightarrow> int \<Rightarrow> ('a dev_state_scheme, cons_progress) kmon" where
  "consolewrite_round minor user_src src n =
     bindM (cons_shown (minor - 1)) (\<lambda>h.
     case h of Some ie \<Rightarrow> ret (CHidden ie)
     | None \<Rightarrow>
         thenM (acquire (ConsLock (minor - 1)))
        (thenM (consolewrite_loop user_src src [0..n - 1])
        (thenM (release (ConsLock (minor - 1))) (ret (CDone n)))))"

definition consolewrite_begin :: "int \<Rightarrow> bool \<Rightarrow> 64 word \<Rightarrow> int \<Rightarrow> ('a dev_state_scheme, cons_progress) kmon" where
  "consolewrite_begin minor user_src src n =
     thenM (acquire ConsoleNumberLock) (consolewrite_round minor user_src src n)"

definition consolewrite_again :: "int \<Rightarrow> bool \<Rightarrow> 64 word \<Rightarrow> int \<Rightarrow> bool \<Rightarrow> ('a dev_state_scheme, cons_progress) kmon" where
  "consolewrite_again minor user_src src n ie =
     thenM (sleep_end ConsoleNumberLock ie) (consolewrite_round minor user_src src n)"

section \<open>Reading\<close>

text \<open>
  The loop of \<open>consoleread\<close>, with the console's lock held, \<open>n\<close> bytes to go of \<open>target\<close>.
\<close>

function consoleread_loop :: "int \<Rightarrow> bool \<Rightarrow> int \<Rightarrow> 64 word \<Rightarrow> int \<Rightarrow> ('a dev_state_scheme, cons_progress) kmon" where
  "consoleread_loop i user_dst target dst n =
     (if n \<le> 0 then thenM (release (ConsLock i)) (ret (CDone (target - n)))
      else bindM (get_cons i) (\<lambda>c.
       if c_r c = c_w c
       then bindM the_proc (\<lambda>p.
         bindM (get_proc p) (\<lambda>pr.
         if killed pr then thenM (release (ConsLock i)) (ret (CDone (- 1)))
         else bindM (sleep_begin (ConsRead i) (ConsLock i)) (\<lambda>ie. ret (CEmpty dst n ie))))
       else let ch = c_buf c (unat (c_r c) mod INPUT_BUF) in
        thenM (upd_cons i (\<lambda>c. c\<lparr>c_r := c_r c + 1\<rparr>))
        (if uint ch = Ctl CHR ''D''
         then thenM (whenM (n < target) (upd_cons i (\<lambda>c. c\<lparr>c_r := c_r c - 1\<rparr>)))
             (thenM (release (ConsLock i)) (ret (CDone (target - n))))
         else bindM (either_copyout user_dst dst [ch]) (\<lambda>r.
           if r = - 1 then thenM (release (ConsLock i)) (ret (CDone (target - n)))
           else if ch = 10 then thenM (release (ConsLock i)) (ret (CDone (target - (n - 1))))
           else consoleread_loop i user_dst target (dst + 1) (n - 1)))))"
  by pat_completeness auto
termination by (relation "measure (\<lambda>(i, ud, t, dst, n). nat n)") auto

declare consoleread_loop.simps [simp del]

definition consoleread_round :: "int \<Rightarrow> bool \<Rightarrow> 64 word \<Rightarrow> int \<Rightarrow> ('a dev_state_scheme, cons_progress) kmon" where
  "consoleread_round minor user_dst dst n =
     bindM (cons_shown (minor - 1)) (\<lambda>h.
     case h of Some ie \<Rightarrow> ret (CHidden ie)
     | None \<Rightarrow> thenM (acquire (ConsLock (minor - 1))) (consoleread_loop (minor - 1) user_dst n dst n))"

definition consoleread_begin :: "int \<Rightarrow> bool \<Rightarrow> 64 word \<Rightarrow> int \<Rightarrow> ('a dev_state_scheme, cons_progress) kmon" where
  "consoleread_begin minor user_dst dst n =
     thenM (acquire ConsoleNumberLock) (consoleread_round minor user_dst dst n)"

definition consoleread_again :: "int \<Rightarrow> bool \<Rightarrow> 64 word \<Rightarrow> int \<Rightarrow> bool \<Rightarrow> ('a dev_state_scheme, cons_progress) kmon" where
  "consoleread_again minor user_dst dst n ie =
     thenM (sleep_end ConsoleNumberLock ie) (consoleread_round minor user_dst dst n)"

definition consoleread_more ::
    "int \<Rightarrow> bool \<Rightarrow> int \<Rightarrow> 64 word \<Rightarrow> int \<Rightarrow> bool \<Rightarrow> ('a dev_state_scheme, cons_progress) kmon" where
  "consoleread_more minor user_dst target dst n ie =
     thenM (sleep_end (ConsLock (minor - 1)) ie) (consoleread_loop (minor - 1) user_dst target dst n)"

text \<open>The calls made with the file layer: with the outcome \<open>Sleeps\<close> when they have to wait.\<close>

definition cons_awake :: "('s, cons_progress) kmon \<Rightarrow> ('s, int) kmon" where
  "cons_awake m = bindM m (\<lambda>r. case r of CDone n \<Rightarrow> ret n | _ \<Rightarrow> failM Sleeps)"

definition consolewrite :: "int \<Rightarrow> bool \<Rightarrow> 64 word \<Rightarrow> int \<Rightarrow> ('a dev_state_scheme, int) kmon" where
  "consolewrite minor user_src src n = cons_awake (consolewrite_begin minor user_src src n)"

definition consoleread :: "int \<Rightarrow> bool \<Rightarrow> 64 word \<Rightarrow> int \<Rightarrow> ('a dev_state_scheme, int) kmon" where
  "consoleread minor user_dst dst n = cons_awake (consoleread_begin minor user_dst dst n)"

section \<open>Input\<close>

text \<open>The loop of control-U: edited characters of the current line are taken back.\<close>

partial_function (option) kill_line :: "cons_t \<Rightarrow> (cons_t \<times> nat) option" where
  "kill_line c =
     (if c_e c \<noteq> c_w c \<and> c_buf c (unat (c_e c - 1) mod INPUT_BUF) \<noteq> 10
      then Option.bind (kill_line (c\<lparr>c_e := c_e c - 1\<rparr>)) (\<lambda>(d, n). Some (d, Suc n))
      else Some (c, 0))"

text \<open>A character that edits the line: control-U, backspace, or one to be stored.\<close>

definition keystroke :: "int \<Rightarrow> int \<Rightarrow> ('a dev_state_scheme, unit) kmon" where
  "keystroke i ch =
     (if ch = Ctl CHR ''U''
      then bindM (get_cons i) (\<lambda>c. case kill_line c of None \<Rightarrow> failM Diverges
        | Some (d, n) \<Rightarrow> thenM (upd_cons i (\<lambda>_. d)) (forM [0..<n] (\<lambda>_. consputc BACKSPACE)))
      else if ch = Ctl CHR ''H'' \<or> ch = 127
      then bindM (get_cons i) (\<lambda>c.
        whenM (c_e c \<noteq> c_w c)
          (thenM (upd_cons i (\<lambda>c. c\<lparr>c_e := c_e c - 1\<rparr>)) (consputc BACKSPACE)))
      else bindM (get_cons i) (\<lambda>c.
        whenM (ch \<noteq> 0 \<and> c_e c - c_r c < of_nat INPUT_BUF)
         (let ch = (if ch = 13 then 10 else ch) in
          thenM (consputc ch)
         (thenM (upd_cons i (\<lambda>c. c\<lparr>c_buf := (c_buf c)(unat (c_e c) mod INPUT_BUF := word_of_int ch), c_e := c_e c + 1\<rparr>))
         (bindM (get_cons i) (\<lambda>c.
          whenM (ch = 10 \<or> ch = Ctl CHR ''D'' \<or> c_e c = c_r c + of_nat INPUT_BUF)
            (thenM (upd_cons i (\<lambda>c. c\<lparr>c_w := c_e c\<rparr>)) (wakeup (ConsRead i)))))))))"

text \<open>The listing of the locks shows debugging fields of the locks the model does not have.\<close>

definition consoleintr :: "('a dev_state_scheme, unit) kmon \<Rightarrow> int \<Rightarrow> ('a dev_state_scheme, unit) kmon" where
  "consoleintr dump_locks ch =
     bindM (gets cons) (\<lambda>i.
     thenM (acquire (ConsLock i))
    (thenM
      (if ch = Ctl CHR ''P'' then procdump
       else if ch = Ctl CHR ''Q'' then priodump
       else if ch = Ctl CHR ''L'' then dump_locks
       else if ch = Ctl CHR ''S''
       then thenM (acquire ConsoleNumberLock)
           (bindM (gets (\<lambda>s. (console_number s + 1) mod NBCONSOLES)) (\<lambda>k.
            thenM (modify (\<lambda>s. s\<lparr>console_number := k, cons := k\<rparr>))
           (thenM (acquire (ConsLock k))
           (thenM (release (ConsLock i))
           (thenM (wakeup (ConsChan k))
           (thenM (printf ''Switched to console number %d\<newline>'' [AInt (word_of_int k)])
           (release ConsoleNumberLock)))))))
       else keystroke i ch)
    (bindM (gets cons) (\<lambda>i. release (ConsLock i)))))"

definition uartintr :: "('a dev_state_scheme, unit) kmon \<Rightarrow> byte list \<Rightarrow> ('a dev_state_scheme, unit) kmon" where
  "uartintr dump_locks input = forM input (\<lambda>c. consoleintr dump_locks (uint c))"

text \<open>The registers of the UART are bytes.\<close>

definition WriteReg :: "64 word \<Rightarrow> byte \<Rightarrow> ('a dev_state_scheme, unit) kmon" where
  "WriteReg r v = mmio_write (UART0 + r) (ucast v)"

definition IER :: "64 word" where "IER = 1"

definition FCR :: "64 word" where "FCR = 2"

definition LCR :: "64 word" where "LCR = 3"

definition uartinit :: "('a dev_state_scheme, unit) kmon" where
  "uartinit =
     thenM (WriteReg IER 0x00)
    (thenM (WriteReg LCR 0x80)
    (thenM (WriteReg 0 0x03)
    (thenM (WriteReg 1 0x00)
    (thenM (WriteReg LCR 0x03)
    (thenM (WriteReg FCR 0x07)
    (WriteReg IER 0x01))))))"

definition consoleinit :: "('a dev_state_scheme, unit) kmon" where
  "consoleinit =
     thenM (initlock ConsoleNumberLock)
    (thenM (modify (\<lambda>s. s\<lparr>console_number := 0\<rparr>))
    (thenM (modify (\<lambda>s. s\<lparr>cons := console_number s\<rparr>))
    (thenM (forM [0..NBCONSOLES - 1] (\<lambda>i. initlock (ConsLock i)))
    (thenM uartinit
    (modify (\<lambda>s. s\<lparr>devsw_read := (devsw_read s)(CONSOLE := Some ConsoleDev),
        devsw_write := (devsw_write s)(CONSOLE := Some ConsoleDev)\<rparr>))))))"

section \<open>The watchdog\<close>

fun watchdog_loop :: "bool \<Rightarrow> 64 word \<Rightarrow> 32 word \<Rightarrow> int list \<Rightarrow> ('a dev_state_scheme, 32 word) kmon" where
  "watchdog_loop user_src src t [] = ret t"
| "watchdog_loop user_src src t (i # is) =
     bindM (either_copyin user_src (src + word_of_int i) 1) (\<lambda>(r, bs).
     if r = - 1 then ret t else watchdog_loop user_src src (ucast (hd bs)) is)"

definition watchdogwrite :: "bool \<Rightarrow> 64 word \<Rightarrow> int \<Rightarrow> ('a dev_state_scheme, int) kmon" where
  "watchdogwrite user_src src n =
     thenM (acquire WatchdogLock)
    (bindM (watchdog_loop user_src src 0 [0..n - 1]) (\<lambda>t.
     thenM (acquire TicksLock)
    (bindM (gets (\<lambda>s. ticks s - watchdog_value s)) (\<lambda>d.
     thenM (modify (\<lambda>s. s\<lparr>watchdog_value := ticks s\<rparr>))
    (thenM (modify (\<lambda>s. s\<lparr>watchdog_time := t\<rparr>))
    (thenM (release TicksLock)
    (thenM (release WatchdogLock) (ret (sint d)))))))))"

definition watchdoginit :: "('a dev_state_scheme, unit) kmon" where
  "watchdoginit =
     thenM (initlock WatchdogLock)
    (thenM (modify (\<lambda>s. s\<lparr>watchdog_time := 0\<rparr>))
    (modify (\<lambda>s. s\<lparr>devsw_read := (devsw_read s)(WATCHDOG := None),
        devsw_write := (devsw_write s)(WATCHDOG := Some WatchdogDev)\<rparr>)))"

end
