(* ===== verification/File.thy ===== *)
theory File
  imports Console
begin

text \<open>
  Open files: kernel/file.c and \<open>pipealloc\<close> of kernel/pipe.c.  A file is its index in
  \<open>ftable.file\<close>.  Operations that have to wait end in the outcome \<open>Sleeps\<close>.
\<close>

section \<open>State\<close>

definition NFILE :: nat where "NFILE = 100"

definition NDEV :: int where "NDEV = 10"

datatype fd_type = FD_NONE | FD_PIPE | FD_INODE | FD_DEVICE | FD_MUTEX

record file_t =
  f_type :: fd_type
  f_ref :: int
  readable :: bool
  writable :: bool
  f_pipe :: int
  f_ip :: "nat option"
  f_off :: "32 word"
  f_major :: "16 word"
  f_minor :: "16 word"
  f_mutex :: sleeplock

record file_state = dev_state +
  ftable :: "nat \<Rightarrow> file_t"

definition get_file :: "nat \<Rightarrow> ('a file_state_scheme, file_t) kmon" where
  "get_file f = gets (\<lambda>s. ftable s f)"

definition upd_file :: "nat \<Rightarrow> (file_t \<Rightarrow> file_t) \<Rightarrow> ('a file_state_scheme, unit) kmon" where
  "upd_file f g = modify (\<lambda>s. s\<lparr>ftable := (ftable s)(f := g (ftable s f))\<rparr>)"

text \<open>A pointer that is followed.\<close>

definition deref :: "'b option \<Rightarrow> ('s, 'b) kmon" where
  "deref p = (case p of None \<Rightarrow> failM Null_Deref | Some v \<Rightarrow> ret v)"

section \<open>Operations\<close>

definition fileinit :: "('a file_state_scheme, unit) kmon" where
  "fileinit = initlock FtableLock"

definition filealloc :: "('a file_state_scheme, nat option) kmon" where
  "filealloc =
     thenM (acquire FtableLock)
    (bindM (gets (\<lambda>s. find (\<lambda>f. f_ref (ftable s f) = 0) [0..<NFILE])) (\<lambda>r.
     case r of Some f \<Rightarrow> thenM (upd_file f (\<lambda>x. x\<lparr>f_ref := 1\<rparr>)) (thenM (release FtableLock) (ret (Some f)))
     | None \<Rightarrow> thenM (release FtableLock) (ret None)))"

definition filedup :: "nat \<Rightarrow> ('a file_state_scheme, nat) kmon" where
  "filedup f =
     thenM (acquire FtableLock)
    (bindM (get_file f) (\<lambda>x.
     if f_ref x < 1 then panic ''filedup''
     else thenM (upd_file f (\<lambda>x. x\<lparr>f_ref := f_ref x + 1\<rparr>)) (thenM (release FtableLock) (ret f))))"

definition fileclose :: "nat \<Rightarrow> ('a file_state_scheme, unit) kmon" where
  "fileclose f =
     thenM (acquire FtableLock)
    (bindM (get_file f) (\<lambda>x.
     if f_ref x < 1 then panic ''fileclose''
     else thenM (upd_file f (\<lambda>x. x\<lparr>f_ref := f_ref x - 1\<rparr>))
    (bindM (get_file f) (\<lambda>ff.
     if f_ref ff > 0 then release FtableLock
     else thenM (upd_file f (\<lambda>x. x\<lparr>f_ref := 0\<rparr>))
    (thenM (upd_file f (\<lambda>x. x\<lparr>f_type := FD_NONE\<rparr>))
    (thenM (release FtableLock)
    (if f_type ff = FD_PIPE then pipeclose (f_pipe ff) (writable ff)
     else if f_type ff = FD_INODE \<or> f_type ff = FD_DEVICE
     then bindM (deref (f_ip ff)) (\<lambda>ip.
       bindM (get_inode ip) (\<lambda>i.
       thenM (begin_op (unat (i_dev i)))
      (thenM (iput ip)
      (bindM (get_inode ip) (\<lambda>i. end_op (unat (i_dev i)))))))
     else ret ())))))))"

text \<open>The bytes of a \<open>struct stat\<close>, with the padding the compiler inserts before the size.\<close>

definition encode_stat :: "stat \<Rightarrow> byte list" where
  "encode_stat st = le_bytes 4 (st_dev st) @ le_bytes 4 (st_ino st) @ le_bytes 2 (st_type st) @
     le_bytes 2 (st_nlink st) @ replicate 4 0 @ le_bytes 8 (st_size st)"

definition filestat :: "nat \<Rightarrow> 64 word \<Rightarrow> ('a file_state_scheme, int) kmon" where
  "filestat f ua =
     bindM the_proc (\<lambda>p.
     bindM (get_file f) (\<lambda>x.
     if f_type x = FD_INODE \<or> f_type x = FD_DEVICE
     then thenM (ilock (f_ip x))
      (bindM (deref (f_ip x)) (\<lambda>ip.
       bindM (stati ip) (\<lambda>st.
       thenM (iunlock (f_ip x))
      (bindM (get_proc p) (\<lambda>pr.
       bindM (copyoutM (pagetable pr) ua (encode_stat st)) (\<lambda>r.
       ret (if r < 0 then - 1 else 0)))))))
     else ret (- 1)))"

text \<open>Calling a device through \<open>devsw\<close>.\<close>

definition dev_read :: "dev_fn \<Rightarrow> file_t \<Rightarrow> 64 word \<Rightarrow> int \<Rightarrow> ('a file_state_scheme, int) kmon" where
  "dev_read d x ua n = (case d of ConsoleDev \<Rightarrow> consoleread (sint (f_minor x)) True ua n
     | WatchdogDev \<Rightarrow> failM Null_Deref)"

definition dev_write :: "dev_fn \<Rightarrow> file_t \<Rightarrow> 64 word \<Rightarrow> int \<Rightarrow> ('a file_state_scheme, int) kmon" where
  "dev_write d x ua n = (case d of ConsoleDev \<Rightarrow> consolewrite (sint (f_minor x)) True ua n
     | WatchdogDev \<Rightarrow> watchdogwrite True ua n)"

definition fileread :: "nat \<Rightarrow> 64 word \<Rightarrow> int \<Rightarrow> ('a file_state_scheme, int) kmon" where
  "fileread f ua n =
     bindM (get_file f) (\<lambda>x.
     if \<not> readable x then ret (- 1)
     else if f_type x = FD_PIPE then piperead (f_pipe x) ua n
     else if f_type x = FD_DEVICE
     then bindM (gets (\<lambda>s. devsw_read s (sint (f_major x)))) (\<lambda>d.
       if sint (f_major x) < 0 \<or> NDEV \<le> sint (f_major x) then ret (- 1)
       else case d of None \<Rightarrow> ret (- 1) | Some d \<Rightarrow> dev_read d x ua n)
     else if f_type x = FD_INODE
     then thenM (ilock (f_ip x))
      (bindM (deref (f_ip x)) (\<lambda>ip.
       bindM (readi ip (User ua) (f_off x) (word_of_int n)) (\<lambda>(r, bs).
       thenM (whenM (r > 0) (upd_file f (\<lambda>x. x\<lparr>f_off := f_off x + word_of_int r\<rparr>)))
      (thenM (iunlock (f_ip x)) (ret r)))))
     else panic ''fileread'')"

definition filewrite_max :: int where
  "filewrite_max = ((int MAXOPBLOCKS - 1 - 1 - 2) div 2) * int BSIZE"

text \<open>The loop of \<open>filewrite\<close> on an inode; it returns how far it came.\<close>

function filewrite_loop :: "nat \<Rightarrow> 64 word \<Rightarrow> int \<Rightarrow> int \<Rightarrow> ('a file_state_scheme, int) kmon" where
  "filewrite_loop f ua n i =
     (if i < n
      then let n1 = min (n - i) filewrite_max in
       bindM (get_file f) (\<lambda>x.
       bindM (deref (f_ip x)) (\<lambda>ip.
       bindM (get_inode ip) (\<lambda>nd.
       thenM (begin_op (unat (i_dev nd)))
      (thenM (ilock (Some ip))
      (bindM (writei ip (UserSrc (ua + word_of_int i)) (f_off x) (word_of_int n1)) (\<lambda>r.
       thenM (whenM (r > 0) (upd_file f (\<lambda>x. x\<lparr>f_off := f_off x + word_of_int r\<rparr>)))
      (thenM (iunlock (Some ip))
      (thenM (end_op (unat (i_dev nd)))
      (if r < 0 then ret i
       else if r \<noteq> n1 then panic ''short filewrite''
       else filewrite_loop f ua n (i + n1))))))))))
      else ret i)"
  by pat_completeness auto
termination
  by (relation "measure (\<lambda>(f, ua, n, i). nat (n - i))")
    (auto simp: filewrite_max_def BSIZE_def MAXOPBLOCKS_def min_def)

declare filewrite_loop.simps [simp del]

definition filewrite :: "nat \<Rightarrow> 64 word \<Rightarrow> int \<Rightarrow> ('a file_state_scheme, int) kmon" where
  "filewrite f ua n =
     bindM (get_file f) (\<lambda>x.
     if \<not> writable x then ret (- 1)
     else if f_type x = FD_PIPE then pipewrite (f_pipe x) ua n
     else if f_type x = FD_DEVICE
     then bindM (gets (\<lambda>s. devsw_write s (sint (f_major x)))) (\<lambda>d.
       if sint (f_major x) < 0 \<or> NDEV \<le> sint (f_major x) then ret (- 1)
       else case d of None \<Rightarrow> ret (- 1) | Some d \<Rightarrow> dev_write d x ua n)
     else if f_type x = FD_INODE
     then bindM (filewrite_loop f ua n 0) (\<lambda>i. ret (if i = n then n else - 1))
     else panic ''filewrite'')"

section \<open>Making a pipe\<close>

definition pipe_bad :: "nat option \<Rightarrow> nat option \<Rightarrow> ('a file_state_scheme, (nat \<times> nat) option) kmon" where
  "pipe_bad f0 f1 =
     thenM (case f0 of None \<Rightarrow> ret () | Some f \<Rightarrow> fileclose f)
    (thenM (case f1 of None \<Rightarrow> ret () | Some f \<Rightarrow> fileclose f)
    (ret None))"

text \<open>The two ends, read end first, or \<open>None\<close> for the result -1.\<close>

definition pipealloc :: "('a file_state_scheme, (nat \<times> nat) option) kmon" where
  "pipealloc =
     bindM filealloc (\<lambda>r0. case r0 of None \<Rightarrow> pipe_bad None None | Some f0 \<Rightarrow>
     bindM filealloc (\<lambda>r1. case r1 of None \<Rightarrow> pipe_bad (Some f0) None | Some f1 \<Rightarrow>
     bindM kalloc (\<lambda>pi.
     if pi = 0 then pipe_bad (Some f0) (Some f1)
     else thenM (modify (\<lambda>s. s\<lparr>pipes := (pipes s)(pi \<mapsto>
        \<lparr>pi_data = (\<lambda>i. mem s (pi + int i)), nread = 0, nwrite = 0, readopen = True, writeopen = True\<rparr>)\<rparr>))
      (thenM (modify (\<lambda>s. s\<lparr>lks := (lks s)(PipeLock pi := \<lparr>locked = False, lk_cpu = None\<rparr>)\<rparr>))
      (thenM (upd_file f0 (\<lambda>x. x\<lparr>f_type := FD_PIPE, readable := True, writable := False, f_pipe := pi\<rparr>))
      (thenM (upd_file f1 (\<lambda>x. x\<lparr>f_type := FD_PIPE, readable := False, writable := True, f_pipe := pi\<rparr>))
      (ret (Some (f0, f1)))))))))"

end
