(* ===== verification/Proc_Life.thy ===== *)
theory Proc_Life
  imports File
begin

text \<open>
  The birth and death of processes: \<open>userinit\<close>, \<open>fork\<close> and \<open>exit\<close> of kernel/proc.c, which use the
  file system.  \<open>exit\<close> is in three parts, between which the process holds no lock and can be
  interrupted.
\<close>

section \<open>The trap frame\<close>

text \<open>A field of the trap frame is a 64-bit word at its offset in the page \<open>tf\<close>.\<close>

definition sizeof_trapframe :: nat where "sizeof_trapframe = 288"

definition tf_epc :: int where "tf_epc = 24"

definition tf_sp :: int where "tf_sp = 48"

definition tf_a0 :: int where "tf_a0 = 112"

definition tf_a1 :: int where "tf_a1 = 120"

definition tf_a7 :: int where "tf_a7 = 168"

definition get_tf :: "nat \<Rightarrow> int \<Rightarrow> ('a pstate_scheme, 64 word) kmon" where
  "get_tf p off = bindM (get_proc p) (\<lambda>pr. if tf pr = 0 then failM Null_Deref else gets (\<lambda>s. load64 (mem s) (tf pr + off)))"

definition set_tf :: "nat \<Rightarrow> int \<Rightarrow> 64 word \<Rightarrow> ('a pstate_scheme, unit) kmon" where
  "set_tf p off v = bindM (get_proc p) (\<lambda>pr. if tf pr = 0 then failM Null_Deref
     else modify (\<lambda>s. s\<lparr>mem := store64 (mem s) (tf pr + off) v\<rparr>))"

text \<open>\<open>safestrcpy\<close> into the 16 bytes of \<open>name\<close>.\<close>

definition set_name :: "byte list \<Rightarrow> proc \<Rightarrow> proc" where
  "set_name bs q = q\<lparr>p_name := take 15 bs\<rparr>"

section \<open>The first process\<close>

definition initcode :: "byte list" where
  "initcode = [
     0x17, 0x05, 0x00, 0x00, 0x13, 0x05, 0x05, 0x02,
     0x97, 0x05, 0x00, 0x00, 0x93, 0x85, 0x05, 0x02,
     0x9d, 0x48, 0x73, 0x00, 0x00, 0x00, 0x89, 0x48,
     0x73, 0x00, 0x00, 0x00, 0xef, 0xf0, 0xbf, 0xff,
     0x2f, 0x69, 0x6e, 0x69, 0x74, 0x00, 0x00, 0x01,
     0x20, 0x00, 0x00, 0x00, 0x00, 0x00, 0x00, 0x00,
     0x00, 0x00, 0x00]"

text \<open>The addresses of \<open>initcode\<close> and of the string \<open>"init"\<close> in the kernel are parameters.\<close>

definition userinit :: "64 word \<Rightarrow> int \<Rightarrow> int \<Rightarrow> ('a file_state_scheme, unit) kmon" where
  "userinit trampoline ic str_init =
     bindM (allocproc trampoline) (\<lambda>r.
     thenM (modify (\<lambda>s. s\<lparr>initproc := r\<rparr>))
    (bindM (deref r) (\<lambda>p.
     bindM (get_proc p) (\<lambda>pr.
     thenM (uvminit (pagetable pr) ic (length initcode))
    (thenM (upd_proc p (\<lambda>q. q\<lparr>psz := 4096\<rparr>))
    (thenM (set_tf p tf_epc 0)
    (thenM (set_tf p tf_sp 4096)
    (thenM (upd_proc p (set_name (bytes_of ''initcode'')))
    (bindM (strdup str_init) (\<lambda>c.
     thenM (upd_proc p (\<lambda>q. q\<lparr>cmd := c\<rparr>))
    (bindM (namei [slash]) (\<lambda>d.
     thenM (upd_proc p (\<lambda>q. q\<lparr>cwd := d\<rparr>))
    (thenM (upd_proc p (\<lambda>q. q\<lparr>p_state := RUNNABLE\<rparr>))
    (thenM (acquire PrioLock)
    (thenM (insert_into_prio_queue p)
    (thenM (release (ProcLock p))
    (release PrioLock)))))))))))))))))"

section \<open>fork\<close>

definition fork :: "64 word \<Rightarrow> ('a file_state_scheme, int) kmon" where
  "fork trampoline =
     bindM the_proc (\<lambda>p.
     bindM (allocproc trampoline) (\<lambda>r.
     case r of None \<Rightarrow> ret (- 1) | Some np \<Rightarrow>
     bindM (get_proc p) (\<lambda>pr.
     bindM (get_proc np) (\<lambda>npr.
     bindM (uvmcopy (pagetable pr) (pagetable npr) (psz pr)) (\<lambda>e.
     if e < 0 then thenM (freeproc np) (thenM (release (ProcLock np)) (ret (- 1)))
     else thenM (upd_proc np (\<lambda>q. q\<lparr>psz := psz pr\<rparr>))
    (thenM (upd_proc np (\<lambda>q. q\<lparr>parent := Some p\<rparr>))
    (thenM (modify (\<lambda>s. s\<lparr>mem := store_bytes (mem s) (tf npr) (load_bytes (mem s) (tf pr) sizeof_trapframe)\<rparr>))
    (thenM (set_tf np tf_a0 0)
    (thenM (forM [0..<NOFILE] (\<lambda>i.
       case ofile pr i of None \<Rightarrow> ret ()
       | Some f \<Rightarrow> bindM (filedup f) (\<lambda>f. upd_proc np (\<lambda>q. q\<lparr>ofile := (ofile q)(i := Some f)\<rparr>))))
    (bindM (deref (cwd pr)) (\<lambda>d.
     bindM (idup d) (\<lambda>d.
     thenM (upd_proc np (\<lambda>q. q\<lparr>cwd := Some d\<rparr>))
    (thenM (upd_proc np (set_name (p_name pr)))
    (bindM (strdup (cmd pr)) (\<lambda>c.
     thenM (upd_proc np (\<lambda>q. q\<lparr>cmd := c\<rparr>))
    (bindM (get_proc np) (\<lambda>npr.
     thenM (upd_proc np (\<lambda>q. q\<lparr>p_state := RUNNABLE\<rparr>))
    (thenM (acquire PrioLock)
    (thenM (insert_into_prio_queue np)
    (thenM (release PrioLock)
    (thenM (release (ProcLock np)) (ret (pid npr)))))))))))))))))))))))"

section \<open>exit\<close>

text \<open>Up to the wakeup of \<open>init\<close>: the files and the current directory are given back.\<close>

definition exit_close :: "('a file_state_scheme, unit) kmon" where
  "exit_close =
     bindM the_proc (\<lambda>p.
     bindM (gets initproc) (\<lambda>ip.
     if ip = Some p then panic ''init exiting''
     else thenM (forM [0..<NOFILE] (\<lambda>fd.
       bindM (get_proc p) (\<lambda>pr. case ofile pr fd of None \<Rightarrow> ret ()
       | Some f \<Rightarrow> thenM (fileclose f) (upd_proc p (\<lambda>q. q\<lparr>ofile := (ofile q)(fd := None)\<rparr>)))))
    (thenM (begin_op (unat ROOTDEV))
    (bindM (get_proc p) (\<lambda>pr.
     bindM (deref (cwd pr)) (\<lambda>d.
     thenM (iput d)
    (thenM (end_op (unat ROOTDEV))
    (thenM (upd_proc p (\<lambda>q. q\<lparr>cwd := None\<rparr>))
    (bindM (deref ip) (\<lambda>i.
     thenM (acquire (ProcLock i))
    (thenM (wakeup1 i)
    (release (ProcLock i)))))))))))))"

text \<open>The process leaves its queue.\<close>

definition exit_unqueue :: "('a pstate_scheme, unit) kmon" where
  "exit_unqueue =
     bindM the_proc (\<lambda>p.
     thenM (acquire PrioLock)
    (thenM (acquire (ProcLock p))
    (thenM (remove_from_prio_queue p)
    (thenM (release (ProcLock p))
    (release PrioLock)))))"

text \<open>The process becomes a zombie; the result is that of \<open>sched\<close>, from which it never returns.\<close>

definition exit_zombie :: "int \<Rightarrow> ('a file_state_scheme, unit) kmon" where
  "exit_zombie status =
     bindM the_proc (\<lambda>p.
     thenM (acquire (ProcLock p))
    (bindM (get_proc p) (\<lambda>pr.
     thenM (release (ProcLock p))
    (bindM (deref (parent pr)) (\<lambda>pp.
     thenM (acquire (ProcLock pp))
    (thenM (acquire (ProcLock p))
    (thenM (reparent p)
    (thenM (wakeup1 pp)
    (thenM (upd_proc p (\<lambda>q. q\<lparr>xstate := status\<rparr>))
    (thenM (upd_proc p (\<lambda>q. q\<lparr>p_state := ZOMBIE\<rparr>))
    (thenM (release (ProcLock pp))
    (bindM sched (\<lambda>ie. scheduler_back p)))))))))))))"

definition exit_proc :: "int \<Rightarrow> ('a file_state_scheme, unit) kmon" where
  "exit_proc status = thenM exit_close (thenM exit_unqueue (exit_zombie status))"

end
