(* ===== verification/Exec.thy ===== *)
theory Exec
  imports Proc_Life
begin

text \<open>
  \<open>exec\<close>: kernel/exec.c.  The argument strings are in kernel memory at the addresses \<open>argv\<close>, the
  array up to its null.  Each \<open>goto bad\<close> becomes the result that leads to \<open>exec_bad\<close>.
\<close>

section \<open>ELF headers\<close>

definition MAXARG :: nat where "MAXARG = 32"

definition ELF_MAGIC :: "32 word" where "ELF_MAGIC = 0x464C457F"

definition ELF_PROG_LOAD :: "32 word" where "ELF_PROG_LOAD = 1"

definition sizeof_elfhdr :: nat where "sizeof_elfhdr = 64"

definition sizeof_proghdr :: nat where "sizeof_proghdr = 56"

record elfhdr =
  e_magic :: "32 word"
  e_entry :: "64 word"
  e_phoff :: "64 word"
  e_phnum :: "16 word"

record proghdr =
  ph_type :: "32 word"
  ph_off :: "64 word"
  ph_vaddr :: "64 word"
  ph_filesz :: "64 word"
  ph_memsz :: "64 word"

definition field :: "byte list \<Rightarrow> nat \<Rightarrow> nat \<Rightarrow> 'a::len word" where
  "field bs off n = of_le (take n (drop off bs))"

definition decode_elf :: "byte list \<Rightarrow> elfhdr" where
  "decode_elf bs = \<lparr>e_magic = field bs 0 4, e_entry = field bs 24 8, e_phoff = field bs 32 8, e_phnum = field bs 56 2\<rparr>"

definition decode_ph :: "byte list \<Rightarrow> proghdr" where
  "decode_ph bs = \<lparr>ph_type = field bs 0 4, ph_off = field bs 8 8, ph_vaddr = field bs 16 8,
     ph_filesz = field bs 32 8, ph_memsz = field bs 40 8\<rparr>"

section \<open>Loading\<close>

fun loadseg_loop :: "int \<Rightarrow> 64 word \<Rightarrow> nat \<Rightarrow> 32 word \<Rightarrow> nat \<Rightarrow> nat list \<Rightarrow> ('a fs_state_scheme, int) kmon" where
  "loadseg_loop pt va ip offset sz [] = ret 0"
| "loadseg_loop pt va ip offset sz (i # is) =
     bindM (gets (\<lambda>s. walkaddr (mem s) pt (va + of_nat i))) (\<lambda>pa.
     if pa = 0 then panic ''loadseg: address should exist''
     else let n = min (sz - i) 4096 in
     bindM (readi ip Kernel (offset + of_nat i) (of_nat n)) (\<lambda>(r, bs).
     thenM (modify (\<lambda>s. s\<lparr>mem := store_bytes (mem s) pa bs\<rparr>))
     (if r \<noteq> int n then ret (- 1) else loadseg_loop pt va ip offset sz is)))"

definition loadseg :: "int \<Rightarrow> 64 word \<Rightarrow> nat \<Rightarrow> 32 word \<Rightarrow> 32 word \<Rightarrow> ('a fs_state_scheme, int) kmon" where
  "loadseg pt va ip offset sz =
     (if va mod 4096 \<noteq> 0 then panic ''loadseg: va must be page aligned''
      else loadseg_loop pt va ip offset (unat sz) (map (\<lambda>k. k * 4096) [0..<(unat sz + 4095) div 4096]))"

text \<open>The loop over the program headers: whether it went through, and the size reached.\<close>

fun exec_segs :: "int \<Rightarrow> nat \<Rightarrow> 64 word \<Rightarrow> 32 word \<Rightarrow> nat \<Rightarrow> ('a fs_state_scheme, bool \<times> 64 word) kmon" where
  "exec_segs pt ip sz off 0 = ret (True, sz)"
| "exec_segs pt ip sz off (Suc k) =
     bindM (readi ip Kernel off (of_nat sizeof_proghdr)) (\<lambda>(r, bs).
     if r \<noteq> int sizeof_proghdr then ret (False, sz)
     else let ph = decode_ph bs in
     if ph_type ph \<noteq> ELF_PROG_LOAD then exec_segs pt ip sz (off + of_nat sizeof_proghdr) k
     else if ph_memsz ph < ph_filesz ph then ret (False, sz)
     else if ph_vaddr ph + ph_memsz ph < ph_vaddr ph then ret (False, sz)
     else bindM (uvmalloc pt sz (ph_vaddr ph + ph_memsz ph)) (\<lambda>sz.
       if sz = 0 then ret (False, sz)
       else if ph_vaddr ph mod 4096 \<noteq> 0 then ret (False, sz)
       else bindM (loadseg pt (ph_vaddr ph) ip (ucast (ph_off ph)) (ucast (ph_filesz ph))) (\<lambda>r.
         if r < 0 then ret (False, sz) else exec_segs pt ip sz (off + of_nat sizeof_proghdr) k)))"

section \<open>The stack\<close>

definition align16 :: "64 word \<Rightarrow> 64 word" where
  "align16 sp = sp - sp mod 16"

text \<open>The argument strings: the stack pointer and the entries of \<open>ustack\<close>.\<close>

fun exec_args :: "int \<Rightarrow> 64 word \<Rightarrow> 64 word \<Rightarrow> 64 word list \<Rightarrow> int list \<Rightarrow>
    ('a kmem_scheme, (64 word \<times> 64 word list) option) kmon" where
  "exec_args pt base sp us [] = ret (Some (sp, us))"
| "exec_args pt base sp us (a # as) =
     (if MAXARG \<le> length us then ret None
      else bindM (strlenM a) (\<lambda>l.
       let sp = align16 (sp - (of_nat l + 1)) in
       if sp < base then ret None
       else bindM (gets (\<lambda>s. load_bytes (mem s) a (l + 1))) (\<lambda>bs.
         bindM (copyoutM pt sp bs) (\<lambda>r.
         if r < 0 then ret None else exec_args pt base sp (us @ [sp]) as))))"

definition exec_stack :: "int \<Rightarrow> 64 word \<Rightarrow> int list \<Rightarrow> ('a kmem_scheme, (64 word \<times> nat) option) kmon" where
  "exec_stack pt sz argv =
     bindM (exec_args pt (sz - 4096) sz [] argv) (\<lambda>r.
     case r of None \<Rightarrow> ret None
     | Some (sp, us) \<Rightarrow>
       let argc = length us; sp = align16 (sp - of_nat (argc + 1) * 8) in
       if sp < sz - 4096 then ret None
       else bindM (copyoutM pt sp (concat (map (le_bytes 8) (us @ [0])))) (\<lambda>r.
         if r < 0 then ret None else ret (Some (sp, argc))))"

text \<open>The part of the path after the last slash.\<close>

fun last_elem :: "byte list \<Rightarrow> byte list \<Rightarrow> byte list" where
  "last_elem lst [] = lst"
| "last_elem lst (c # cs) = last_elem (if c = slash then cs else lst) cs"

section \<open>exec\<close>

definition exec_bad :: "int \<Rightarrow> 64 word \<Rightarrow> nat option \<Rightarrow> ('a file_state_scheme, int) kmon" where
  "exec_bad pt sz p =
     thenM (whenM (pt \<noteq> 0) (proc_freepagetable pt sz))
    (thenM (case p of None \<Rightarrow> ret () | Some ip \<Rightarrow> thenM (iunlockput ip) (end_op (unat ROOTDEV)))
    (ret (- 1)))"

text \<open>From the allocation of the stack on, with the inode given back.\<close>

definition exec_finish :: "int \<Rightarrow> 64 word \<Rightarrow> 64 word \<Rightarrow> byte list \<Rightarrow> int list \<Rightarrow> ('a file_state_scheme, int) kmon" where
  "exec_finish pt sz entry path argv =
     bindM the_proc (\<lambda>p.
     bindM (get_proc p) (\<lambda>pr. let oldsz = psz pr; sz = PGROUNDUP_w sz in
     bindM (uvmalloc pt sz (sz + 2 * 4096)) (\<lambda>sz.
     if sz = 0 then exec_bad pt sz None
     else thenM (uvmclear pt (sz - 2 * 4096))
    (bindM (exec_stack pt sz argv) (\<lambda>r.
     case r of None \<Rightarrow> exec_bad pt sz None
     | Some (sp, argc) \<Rightarrow>
       thenM (set_tf p tf_a1 sp)
      (thenM (upd_proc p (set_name (last_elem path path)))
      (thenM (whenM (cmd pr \<noteq> 0) (bd_free (cmd pr)))
      (bindM (strjoin argv) (\<lambda>c.
       thenM (upd_proc p (\<lambda>q. q\<lparr>cmd := c\<rparr>))
      (thenM (upd_proc p (\<lambda>q. q\<lparr>pagetable := pt\<rparr>))
      (thenM (upd_proc p (\<lambda>q. q\<lparr>psz := sz\<rparr>))
      (thenM (set_tf p tf_epc entry)
      (thenM (set_tf p tf_sp sp)
      (thenM (proc_freepagetable (pagetable pr) oldsz)
      (ret (int argc))))))))))))))))"

definition exec :: "64 word \<Rightarrow> byte list \<Rightarrow> int list \<Rightarrow> ('a file_state_scheme, int) kmon" where
  "exec trampoline path argv =
     thenM (begin_op (unat ROOTDEV))
    (bindM (namei path) (\<lambda>r.
     case r of None \<Rightarrow> thenM (end_op (unat ROOTDEV)) (ret (- 1))
     | Some ip \<Rightarrow>
       thenM (ilock (Some ip))
      (bindM (readi ip Kernel 0 (of_nat sizeof_elfhdr)) (\<lambda>(n, bs). let elf = decode_elf bs in
       if n \<noteq> int sizeof_elfhdr then exec_bad 0 0 (Some ip)
       else if e_magic elf \<noteq> ELF_MAGIC then exec_bad 0 0 (Some ip)
       else bindM the_proc (\<lambda>p.
       bindM (proc_pagetable trampoline p) (\<lambda>pt.
       if pt = 0 then exec_bad 0 0 (Some ip)
       else bindM (exec_segs pt ip 0 (ucast (e_phoff elf)) (unat (e_phnum elf))) (\<lambda>(ok, sz).
       if \<not> ok then exec_bad pt sz (Some ip)
       else thenM (iunlockput ip)
           (thenM (end_op (unat ROOTDEV))
           (exec_finish pt sz (e_entry elf) path argv)))))))))"

end
