(* ===== verification/Sysfile.thy ===== *)
theory Sysfile
  imports Exec Fcntl
begin

text \<open>
  The arguments of system calls, kernel/syscall.c, and the calls on files, kernel/sysfile.c.  A
  call returns an \<open>int\<close>, which \<open>syscall\<close> puts into the register \<open>a0\<close> of the caller.
\<close>

section \<open>Arguments\<close>

definition fetchaddr :: "64 word \<Rightarrow> ('a pstate_scheme, 64 word option) kmon" where
  "fetchaddr a =
     bindM the_proc (\<lambda>p.
     bindM (get_proc p) (\<lambda>pr.
     if psz pr \<le> a \<or> psz pr < a + 8 then ret None
     else bindM (gets (\<lambda>s. copyin (mem s) (pagetable pr) a 8)) (\<lambda>(r, bs).
       ret (if r \<noteq> 0 then None else Some (of_le bs)))))"

definition fetchstr :: "64 word \<Rightarrow> nat \<Rightarrow> ('a pstate_scheme, byte list option) kmon" where
  "fetchstr a mx =
     bindM the_proc (\<lambda>p.
     bindM (get_proc p) (\<lambda>pr.
     bindM (gets (\<lambda>s. copyinstr (mem s) (pagetable pr) a mx)) (\<lambda>(r, bs).
     ret (if r < 0 then None else Some bs))))"

definition argraw :: "nat \<Rightarrow> ('a pstate_scheme, 64 word) kmon" where
  "argraw n = bindM the_proc (\<lambda>p. if n \<le> 5 then get_tf p (tf_a0 + 8 * int n) else panic ''argraw'')"

definition argint :: "nat \<Rightarrow> ('a pstate_scheme, int) kmon" where
  "argint n = bindM (argraw n) (\<lambda>v. ret (sint (ucast v :: 32 word)))"

definition argaddr :: "nat \<Rightarrow> ('a pstate_scheme, 64 word) kmon" where
  "argaddr n = argraw n"

definition MAXPATH :: nat where "MAXPATH = 128"

definition argstr :: "nat \<Rightarrow> nat \<Rightarrow> ('a pstate_scheme, byte list option) kmon" where
  "argstr n mx = bindM (argaddr n) (\<lambda>a. fetchstr a mx)"

section \<open>Descriptors\<close>

text \<open>The descriptor and its file, or \<open>None\<close> for -1.\<close>

definition argfd :: "nat \<Rightarrow> ('a pstate_scheme, (nat \<times> nat) option) kmon" where
  "argfd n =
     bindM (argint n) (\<lambda>fd.
     if fd < 0 \<or> int NOFILE \<le> fd then ret None
     else bindM the_proc (\<lambda>p.
       bindM (get_proc p) (\<lambda>pr. ret (map_option (\<lambda>f. (nat fd, f)) (ofile pr (nat fd))))))"

definition set_ofile :: "nat \<Rightarrow> nat \<Rightarrow> nat option \<Rightarrow> ('a pstate_scheme, unit) kmon" where
  "set_ofile p fd v = upd_proc p (\<lambda>q. q\<lparr>ofile := (ofile q)(fd := v)\<rparr>)"

definition fdalloc :: "nat \<Rightarrow> ('a pstate_scheme, int) kmon" where
  "fdalloc f =
     bindM the_proc (\<lambda>p.
     bindM (get_proc p) (\<lambda>pr.
     case find (\<lambda>fd. ofile pr fd = None) [0..<NOFILE] of
       None \<Rightarrow> ret (- 1)
     | Some fd \<Rightarrow> thenM (set_ofile p fd (Some f)) (ret (int fd))))"

definition sys_dup :: "('a file_state_scheme, int) kmon" where
  "sys_dup =
     bindM (argfd 0) (\<lambda>r. case r of None \<Rightarrow> ret (- 1) | Some (fd0, f) \<Rightarrow>
     bindM (fdalloc f) (\<lambda>fd.
     if fd < 0 then ret (- 1) else thenM (filedup f) (ret fd)))"

definition sys_read :: "('a file_state_scheme, int) kmon" where
  "sys_read =
     bindM (argfd 0) (\<lambda>r. case r of None \<Rightarrow> ret (- 1) | Some (fd, f) \<Rightarrow>
     bindM (argint 2) (\<lambda>n.
     bindM (argaddr 1) (\<lambda>a. fileread f a n)))"

definition sys_write :: "('a file_state_scheme, int) kmon" where
  "sys_write =
     bindM (argfd 0) (\<lambda>r. case r of None \<Rightarrow> ret (- 1) | Some (fd, f) \<Rightarrow>
     bindM (argint 2) (\<lambda>n.
     bindM (argaddr 1) (\<lambda>a. filewrite f a n)))"

definition sys_close :: "('a file_state_scheme, int) kmon" where
  "sys_close =
     bindM (argfd 0) (\<lambda>r. case r of None \<Rightarrow> ret (- 1) | Some (fd, f) \<Rightarrow>
     bindM the_proc (\<lambda>p.
     thenM (set_ofile p fd None)
    (thenM (fileclose f) (ret 0))))"

definition sys_fstat :: "('a file_state_scheme, int) kmon" where
  "sys_fstat =
     bindM (argfd 0) (\<lambda>r. case r of None \<Rightarrow> ret (- 1) | Some (fd, f) \<Rightarrow>
     bindM (argaddr 1) (\<lambda>a. filestat f a))"

section \<open>Links\<close>

definition root_end :: "int \<Rightarrow> ('a file_state_scheme, int) kmon" where
  "root_end r = thenM (end_op (unat ROOTDEV)) (ret r)"

definition link_bad :: "nat \<Rightarrow> ('a file_state_scheme, int) kmon" where
  "link_bad ip =
     thenM (ilock (Some ip))
    (thenM (upd_inode ip (\<lambda>i. i\<lparr>i_nlink := i_nlink i - 1\<rparr>))
    (thenM (iupdate ip)
    (thenM (iunlockput ip)
    (root_end (- 1)))))"

definition sys_link :: "('a file_state_scheme, int) kmon" where
  "sys_link =
     bindM (argstr 0 MAXPATH) (\<lambda>r0. case r0 of None \<Rightarrow> ret (- 1) | Some old \<Rightarrow>
     bindM (argstr 1 MAXPATH) (\<lambda>r1. case r1 of None \<Rightarrow> ret (- 1) | Some new \<Rightarrow>
     thenM (begin_op (unat ROOTDEV))
    (bindM (namei old) (\<lambda>r. case r of None \<Rightarrow> root_end (- 1) | Some ip \<Rightarrow>
     thenM (ilock (Some ip))
    (bindM (get_inode ip) (\<lambda>i.
     if i_type i = T_DIR then thenM (iunlockput ip) (root_end (- 1))
     else thenM (upd_inode ip (\<lambda>i. i\<lparr>i_nlink := i_nlink i + 1\<rparr>))
    (thenM (iupdate ip)
    (thenM (iunlock (Some ip))
    (bindM (nameiparent new) (\<lambda>(r, name). case r of None \<Rightarrow> link_bad ip | Some dp \<Rightarrow>
     thenM (ilock (Some dp))
    (bindM (get_inode dp) (\<lambda>d.
     bindM (get_inode ip) (\<lambda>i.
     bindM (if i_dev d \<noteq> i_dev i then ret (- 1) else dirlink dp name (inum i)) (\<lambda>r.
     if r < 0 then thenM (iunlockput dp) (link_bad ip)
     else thenM (iunlockput dp)
         (thenM (iput ip)
         (root_end 0))))))))))))))))"

text \<open>\<open>off\<close> runs through the entries after the first two.\<close>

fun isdirempty_loop :: "nat \<Rightarrow> 32 word list \<Rightarrow> ('a fs_state_scheme, bool) kmon" where
  "isdirempty_loop dp [] = ret True"
| "isdirempty_loop dp (off # offs) =
     bindM (readi dp Kernel off (of_nat sizeof_dirent)) (\<lambda>(r, bs).
     if r \<noteq> int sizeof_dirent then panic ''isdirempty: readi''
     else if de_inum (decode_dirent bs) \<noteq> 0 then ret False
     else isdirempty_loop dp offs)"

definition isdirempty :: "nat \<Rightarrow> ('a fs_state_scheme, bool) kmon" where
  "isdirempty dp = bindM (get_inode dp) (\<lambda>i. isdirempty_loop dp (drop 2 (dir_offsets (i_size i))))"

definition unlink_bad :: "nat \<Rightarrow> ('a file_state_scheme, int) kmon" where
  "unlink_bad dp = thenM (iunlockput dp) (root_end (- 1))"

definition sys_unlink :: "('a file_state_scheme, int) kmon" where
  "sys_unlink =
     bindM (argstr 0 MAXPATH) (\<lambda>r0. case r0 of None \<Rightarrow> ret (- 1) | Some path \<Rightarrow>
     thenM (begin_op (unat ROOTDEV))
    (bindM (nameiparent path) (\<lambda>(r, name). case r of None \<Rightarrow> root_end (- 1) | Some dp \<Rightarrow>
     thenM (ilock (Some dp))
     (if namecmp name (bytes_of ''.'') = 0 \<or> namecmp name (bytes_of ''..'') = 0 then unlink_bad dp
      else bindM (dirlookup dp name) (\<lambda>r. case r of None \<Rightarrow> unlink_bad dp | Some (ip, off) \<Rightarrow>
       thenM (ilock (Some ip))
      (bindM (get_inode ip) (\<lambda>i.
       if sint (i_nlink i) < 1 then panic ''unlink: nlink < 1''
       else bindM (if i_type i = T_DIR then isdirempty ip else ret True) (\<lambda>e.
       if \<not> e then thenM (iunlockput ip) (unlink_bad dp)
       else bindM (writei dp (KernelSrc (replicate sizeof_dirent 0)) off (of_nat sizeof_dirent)) (\<lambda>r.
       if r \<noteq> int sizeof_dirent then panic ''unlink: writei''
       else thenM (whenM (i_type i = T_DIR)
         (thenM (upd_inode dp (\<lambda>i. i\<lparr>i_nlink := i_nlink i - 1\<rparr>)) (iupdate dp)))
      (thenM (iunlockput dp)
      (thenM (upd_inode ip (\<lambda>i. i\<lparr>i_nlink := i_nlink i - 1\<rparr>))
      (thenM (iupdate ip)
      (thenM (iunlockput ip)
      (root_end 0))))))))))))))"

section \<open>Creating and opening\<close>

text \<open>The new or existing inode, locked, or \<open>None\<close>.\<close>

definition create :: "byte list \<Rightarrow> 16 word \<Rightarrow> 16 word \<Rightarrow> 16 word \<Rightarrow> ('a file_state_scheme, nat option) kmon" where
  "create path ty maj mnr =
     bindM (nameiparent path) (\<lambda>(r, name). case r of None \<Rightarrow> ret None | Some dp \<Rightarrow>
     thenM (ilock (Some dp))
    (bindM (dirlookup dp name) (\<lambda>r. case r of
       Some (ip, off) \<Rightarrow>
         thenM (iunlockput dp)
        (thenM (ilock (Some ip))
        (bindM (get_inode ip) (\<lambda>i.
         if ty = T_FILE \<and> (i_type i = T_FILE \<or> i_type i = T_DEVICE) then ret (Some ip)
         else thenM (iunlockput ip) (ret None))))
     | None \<Rightarrow>
         bindM (get_inode dp) (\<lambda>d.
         bindM (ialloc (i_dev d) ty) (\<lambda>ip.
         thenM (ilock (Some ip))
        (thenM (upd_inode ip (\<lambda>i. i\<lparr>i_major := maj, i_minor := mnr, i_nlink := 1\<rparr>))
        (thenM (iupdate ip)
        (bindM (get_inode ip) (\<lambda>i.
         thenM (whenM (ty = T_DIR)
          (thenM (upd_inode dp (\<lambda>i. i\<lparr>i_nlink := i_nlink i + 1\<rparr>))
          (thenM (iupdate dp)
          (bindM (dirlink ip (bytes_of ''.'') (inum i)) (\<lambda>r0.
           bindM (if r0 < 0 then ret r0 else dirlink ip (bytes_of ''..'') (inum d)) (\<lambda>r1.
           whenM (r1 < 0) (panic ''create dots'')))))))
        (bindM (dirlink dp name (inum i)) (\<lambda>r.
         if r < 0 then panic ''create: dirlink''
         else thenM (iunlockput dp) (ret (Some ip)))))))))))))"

definition open_bad :: "nat \<Rightarrow> ('a file_state_scheme, int) kmon" where
  "open_bad ip = thenM (iunlockput ip) (root_end (- 1))"

text \<open>\<open>sys_open\<close> once the inode is there and locked.\<close>

definition open_inode :: "nat \<Rightarrow> int \<Rightarrow> ('a file_state_scheme, int) kmon" where
  "open_inode ip omode =
     bindM (get_inode ip) (\<lambda>i.
     if i_type i = T_DEVICE \<and> (sint (i_major i) < 0 \<or> NDEV \<le> sint (i_major i)) then open_bad ip
     else bindM filealloc (\<lambda>r. case r of None \<Rightarrow> open_bad ip | Some f \<Rightarrow>
     bindM (fdalloc f) (\<lambda>fd.
     if fd < 0 then thenM (fileclose f) (open_bad ip)
     else thenM (if i_type i = T_DEVICE
        then upd_file f (\<lambda>x. x\<lparr>f_type := FD_DEVICE, f_major := i_major i, f_minor := i_minor i\<rparr>)
        else upd_file f (\<lambda>x. x\<lparr>f_type := FD_INODE\<rparr>))
    (thenM (upd_file f (\<lambda>x. x\<lparr>f_ip := Some ip, f_off := 0,
        readable := (omode AND O_WRONLY = 0),
        writable := (omode AND O_WRONLY \<noteq> 0 \<or> omode AND O_RDWR \<noteq> 0)\<rparr>))
    (thenM (iunlock (Some ip))
    (root_end fd))))))"

definition sys_open :: "('a file_state_scheme, int) kmon" where
  "sys_open =
     bindM (argstr 0 MAXPATH) (\<lambda>r0. case r0 of None \<Rightarrow> ret (- 1) | Some path \<Rightarrow>
     bindM (argint 1) (\<lambda>omode.
     thenM (begin_op (unat ROOTDEV))
     (if omode AND O_CREATE \<noteq> 0
      then bindM (create path T_FILE 0 0) (\<lambda>r. case r of None \<Rightarrow> root_end (- 1) | Some ip \<Rightarrow> open_inode ip omode)
      else bindM (namei path) (\<lambda>r. case r of None \<Rightarrow> root_end (- 1) | Some ip \<Rightarrow>
       thenM (ilock (Some ip))
      (bindM (get_inode ip) (\<lambda>i.
       if i_type i = T_DIR \<and> omode \<noteq> O_RDONLY then open_bad ip else open_inode ip omode))))))"

text \<open>
  The new lock is a local variable of which only \<open>locked\<close> is set; \<open>readable\<close> and \<open>writable\<close> are
  what the file structure was last used with.
\<close>

definition sys_create_mutex :: "int \<Rightarrow> ('a file_state_scheme, int) kmon" where
  "sys_create_mutex junk =
     bindM filealloc (\<lambda>r. case r of None \<Rightarrow> ret (- 1) | Some f \<Rightarrow>
     bindM (fdalloc f) (\<lambda>fd.
     if fd < 0 then thenM (fileclose f) (ret (- 1))
     else thenM (upd_file f (\<lambda>x. x\<lparr>f_type := FD_MUTEX\<rparr>))
         (thenM (upd_file f (\<lambda>x. x\<lparr>f_mutex := \<lparr>sl_locked = False, sl_pid = junk\<rparr>\<rparr>)) (ret fd))))"

definition sys_acquire_mutex :: "('a file_state_scheme, int) kmon" where
  "sys_acquire_mutex = ret 0"

definition sys_release_mutex :: "('a file_state_scheme, int) kmon" where
  "sys_release_mutex = ret 0"

definition sys_mkdir :: "('a file_state_scheme, int) kmon" where
  "sys_mkdir =
     thenM (begin_op (unat ROOTDEV))
    (bindM (argstr 0 MAXPATH) (\<lambda>r0. case r0 of None \<Rightarrow> root_end (- 1) | Some path \<Rightarrow>
     bindM (create path T_DIR 0 0) (\<lambda>r. case r of None \<Rightarrow> root_end (- 1) | Some ip \<Rightarrow>
     thenM (iunlockput ip) (root_end 0))))"

definition sys_mknod :: "('a file_state_scheme, int) kmon" where
  "sys_mknod =
     thenM (begin_op (unat ROOTDEV))
    (bindM (argstr 0 MAXPATH) (\<lambda>r0. case r0 of None \<Rightarrow> root_end (- 1) | Some path \<Rightarrow>
     bindM (argint 1) (\<lambda>maj.
     bindM (argint 2) (\<lambda>mnr.
     bindM (create path T_DEVICE (word_of_int maj) (word_of_int mnr)) (\<lambda>r. case r of None \<Rightarrow> root_end (- 1) | Some ip \<Rightarrow>
     thenM (iunlockput ip) (root_end 0))))))"

definition sys_chdir :: "('a file_state_scheme, int) kmon" where
  "sys_chdir =
     bindM the_proc (\<lambda>p.
     thenM (begin_op (unat ROOTDEV))
    (bindM (argstr 0 MAXPATH) (\<lambda>r0. case r0 of None \<Rightarrow> root_end (- 1) | Some path \<Rightarrow>
     bindM (namei path) (\<lambda>r. case r of None \<Rightarrow> root_end (- 1) | Some ip \<Rightarrow>
     thenM (ilock (Some ip))
    (bindM (get_inode ip) (\<lambda>i.
     if i_type i \<noteq> T_DIR then thenM (iunlockput ip) (root_end (- 1))
     else thenM (iunlock (Some ip))
    (bindM (get_proc p) (\<lambda>pr.
     bindM (deref (cwd pr)) (\<lambda>d.
     thenM (iput d)
    (thenM (end_op (unat ROOTDEV))
    (thenM (upd_proc p (\<lambda>q. q\<lparr>cwd := Some ip\<rparr>)) (ret 0))))))))))))"


section \<open>exec and pipe\<close>

text \<open>
  The arguments of \<open>exec\<close>: each string is copied into a page of its own.  The result says whether
  all went well, and gives the pages.
\<close>

fun exec_argv :: "64 word \<Rightarrow> nat \<Rightarrow> int list \<Rightarrow> nat \<Rightarrow> ('a file_state_scheme, bool \<times> int list) kmon" where
  "exec_argv uargv i argv 0 = ret (False, argv)"
| "exec_argv uargv i argv (Suc k) =
     bindM (fetchaddr (uargv + 8 * of_nat i)) (\<lambda>r. case r of None \<Rightarrow> ret (False, argv) | Some uarg \<Rightarrow>
     if uarg = 0 then ret (True, argv)
     else bindM kalloc (\<lambda>pg.
      if pg = 0 then panic ''sys_exec kalloc''
      else bindM the_proc (\<lambda>p.
      bindM (get_proc p) (\<lambda>pr.
      bindM (gets (\<lambda>s. copyinstr (mem s) (pagetable pr) uarg 4096)) (\<lambda>(r, bs).
      if r < 0
      then thenM (modify (\<lambda>s. s\<lparr>mem := store_bytes (mem s) pg bs\<rparr>)) (ret (False, argv @ [pg]))
      else thenM (modify (\<lambda>s. s\<lparr>mem := store_bytes (mem s) pg (bs @ [0])\<rparr>))
        (exec_argv uargv (Suc i) (argv @ [pg]) k))))))"

definition sys_exec :: "64 word \<Rightarrow> ('a file_state_scheme, int) kmon" where
  "sys_exec trampoline =
     bindM (argstr 0 MAXPATH) (\<lambda>r0. case r0 of None \<Rightarrow> ret (- 1) | Some path \<Rightarrow>
     bindM (argaddr 1) (\<lambda>uargv.
     bindM (exec_argv uargv 0 [] MAXARG) (\<lambda>(ok, argv).
     bindM (if ok then exec trampoline path argv else ret (- 1)) (\<lambda>r.
     thenM (forM argv kfree) (ret r)))))"

definition sys_pipe :: "('a file_state_scheme, int) kmon" where
  "sys_pipe =
     bindM the_proc (\<lambda>p.
     bindM (argaddr 0) (\<lambda>fdarray.
     bindM pipealloc (\<lambda>r. case r of None \<Rightarrow> ret (- 1) | Some (rf, wrf) \<Rightarrow>
     let close = thenM (fileclose rf) (thenM (fileclose wrf) (ret (- 1))) in
     bindM (fdalloc rf) (\<lambda>fd0.
     if fd0 < 0 then close
     else bindM (fdalloc wrf) (\<lambda>fd1.
     if fd1 < 0 then thenM (set_ofile p (nat fd0) None) close
     else bindM (get_proc p) (\<lambda>pr.
     bindM (copyoutM (pagetable pr) fdarray (le_bytes 4 (word_of_int fd0 :: 32 word))) (\<lambda>r0.
     bindM (if r0 < 0 then ret r0
            else copyoutM (pagetable pr) (fdarray + 4) (le_bytes 4 (word_of_int fd1 :: 32 word))) (\<lambda>r1.
     if r1 < 0 then thenM (set_ofile p (nat fd0) None) (thenM (set_ofile p (nat fd1) None) close)
     else ret 0))))))))"

end
