(* ===== verification/Trap.thy ===== *)
theory Trap
  imports Sysfile
begin

text \<open>
  The calls on processes, kernel/sysproc.c; the dispatch of system calls, kernel/syscall.c; and
  traps, kernel/trap.c.  The trap registers of a hart are part of the state.  The interrupt the
  interrupt controller reports and the characters waiting in the UART are inputs.
\<close>

section \<open>Calls on processes\<close>

definition sys_getpid :: "('a file_state_scheme, int) kmon" where
  "sys_getpid = bindM the_proc (\<lambda>p. bindM (get_proc p) (\<lambda>pr. ret (pid pr)))"

definition sys_fork :: "64 word \<Rightarrow> ('a file_state_scheme, int) kmon" where
  "sys_fork trampoline = fork trampoline"

definition sys_wait :: "('a file_state_scheme, int) kmon" where
  "sys_wait = bindM (argaddr 0) (\<lambda>a. bindM (wait_begin a) (\<lambda>r.
     case r of Returned v \<Rightarrow> ret v | Slept ie \<Rightarrow> failM Sleeps))"

definition sys_sbrk :: "('a file_state_scheme, int) kmon" where
  "sys_sbrk =
     bindM (argint 0) (\<lambda>n.
     bindM the_proc (\<lambda>p.
     bindM (get_proc p) (\<lambda>pr.
     bindM (growproc n) (\<lambda>r.
     ret (if r < 0 then - 1 else sint (ucast (psz pr) :: 32 word))))))"

text \<open>\<open>ticks - ticks0 < n\<close> compares unsigned integers.\<close>

definition sleep_round :: "32 word \<Rightarrow> int \<Rightarrow> ('a dev_state_scheme, int outcome) kmon" where
  "sleep_round ticks0 n =
     bindM (gets ticks) (\<lambda>t.
     if t - ticks0 < word_of_int n
     then bindM the_proc (\<lambda>p.
       bindM (get_proc p) (\<lambda>pr.
       if killed pr then thenM (release TicksLock) (ret (Returned (- 1)))
       else bindM (sleep_begin TicksChan TicksLock) (\<lambda>ie. ret (Slept ie))))
     else thenM (release TicksLock) (ret (Returned 0)))"

definition sys_sleep_begin :: "('a dev_state_scheme, int outcome) kmon" where
  "sys_sleep_begin =
     bindM (argint 0) (\<lambda>n.
     thenM (acquire TicksLock)
    (bindM (gets ticks) (\<lambda>t0. sleep_round t0 n)))"

definition sys_sleep_again :: "32 word \<Rightarrow> int \<Rightarrow> bool \<Rightarrow> ('a dev_state_scheme, int outcome) kmon" where
  "sys_sleep_again ticks0 n ie = thenM (sleep_end TicksLock ie) (sleep_round ticks0 n)"

definition sys_sleep :: "('a file_state_scheme, int) kmon" where
  "sys_sleep = bindM sys_sleep_begin (\<lambda>r. case r of Returned v \<Rightarrow> ret v | Slept ie \<Rightarrow> failM Sleeps)"

definition sys_nice :: "('a file_state_scheme, int) kmon" where
  "sys_nice =
     bindM (argint 0) (\<lambda>n.
     bindM (argint 1) (\<lambda>pr.
     if pr < 0 \<or> NPRIO \<le> pr then ret (- 1) else nice n pr))"

definition sys_kill :: "('a file_state_scheme, int) kmon" where
  "sys_kill = bindM (argint 0) (\<lambda>n. kill n)"

definition sys_uptime :: "('a file_state_scheme, int) kmon" where
  "sys_uptime =
     thenM (acquire TicksLock)
    (bindM (gets ticks) (\<lambda>t.
     thenM (release TicksLock) (ret (uint t))))"

section \<open>Dispatch\<close>

text \<open>
  The table of system calls.  \<open>exit\<close> does not return, which is \<open>None\<close>; \<open>sys_ntas\<close>, which counts
  the spinning of locks, is a parameter, as are the trampoline and the content of an
  uninitialised variable.
\<close>

definition syscalls :: "64 word \<Rightarrow> ('a file_state_scheme, int) kmon \<Rightarrow> int \<Rightarrow> int \<Rightarrow>
    ('a file_state_scheme, int option) kmon option" where
  "syscalls trampoline ntas junk num =
     (if num = 2 then Some (bindM (argint 0) (\<lambda>n. thenM (exit_proc n) (ret None)))
      else map_option (\<lambda>m. bindM m (\<lambda>r. ret (Some r)))
       (map_of [(1, sys_fork trampoline), (3, sys_wait), (4, sys_pipe), (5, sys_read), (6, sys_kill),
         (7, sys_exec trampoline), (8, sys_fstat), (9, sys_chdir), (10, sys_dup), (11, sys_getpid),
         (12, sys_sbrk), (13, sys_sleep), (14, sys_uptime), (15, sys_open), (16, sys_write),
         (17, sys_mknod), (18, sys_unlink), (19, sys_link), (20, sys_mkdir), (21, sys_close),
         (22, ntas), (23, sys_nice), (24, sys_create_mutex junk), (25, sys_acquire_mutex),
         (26, sys_release_mutex)] num))"

text \<open>The result says whether the process goes on.\<close>

definition syscall :: "64 word \<Rightarrow> ('a file_state_scheme, int) kmon \<Rightarrow> int \<Rightarrow> ('a file_state_scheme, bool) kmon" where
  "syscall trampoline ntas junk =
     bindM the_proc (\<lambda>p.
     bindM (get_tf p tf_a7) (\<lambda>a7. let num = sint (ucast a7 :: 32 word) in
     case syscalls trampoline ntas junk num of
       Some m \<Rightarrow> bindM m (\<lambda>r. case r of None \<Rightarrow> ret False
         | Some v \<Rightarrow> thenM (set_tf p tf_a0 (word_of_int v)) (ret True))
     | None \<Rightarrow>
         bindM (get_proc p) (\<lambda>pr.
         thenM (printf ''%d %s: unknown sys call %d\<newline>''
           [AInt (word_of_int (pid pr)), AStr (Some (p_name pr)), AInt (word_of_int num)])
        (thenM (set_tf p tf_a0 (- 1)) (ret True)))))"

section \<open>Traps\<close>

datatype vec = Kernelvec | Uservec

record trapregs =
  stvec :: vec
  sepc :: "64 word"
  scause :: "64 word"
  stval :: "64 word"
  spp :: bool
  spie :: bool
  ssip :: bool

record trap_state = file_state +
  tregs :: "nat \<Rightarrow> trapregs"

definition regs :: "('a trap_state_scheme, trapregs) kmon" where
  "regs = gets (\<lambda>s. tregs s (hart s))"

definition upd_regs :: "(trapregs \<Rightarrow> trapregs) \<Rightarrow> ('a trap_state_scheme, unit) kmon" where
  "upd_regs f = modify (\<lambda>s. s\<lparr>tregs := (tregs s)(hart s := f (tregs s (hart s)))\<rparr>)"

definition trapinit :: "('a trap_state_scheme, unit) kmon" where
  "trapinit = initlock TicksLock"

definition trapinithart :: "('a trap_state_scheme, unit) kmon" where
  "trapinithart = upd_regs (\<lambda>r. r\<lparr>stvec := Kernelvec\<rparr>)"

definition clockintr :: "('a dev_state_scheme, unit) kmon" where
  "clockintr =
     thenM (acquire WatchdogLock)
    (thenM (acquire TicksLock)
    (bindM (gets (\<lambda>s. watchdog_time s \<noteq> 0 \<and> watchdog_time s < ticks s - watchdog_value s)) (\<lambda>late.
     if late then panic ''watchdog !!!''
     else thenM (modify (\<lambda>s. s\<lparr>ticks := ticks s + 1\<rparr>))
    (thenM (wakeup TicksChan)
    (thenM (release TicksLock)
    (release WatchdogLock))))))"

text \<open>The description of a cause; the argument is the content of \<open>scause\<close>.\<close>

definition reserved_future :: string where
  "reserved_future = ''<reserved for future standard use>''"

definition intr_desc :: "string list" where
  "intr_desc =
     [''user software interrupt'', ''supervisor software interrupt'', reserved_future, reserved_future,
      ''user timer interrupt'', ''supervisor timer interrupt'', reserved_future, reserved_future,
      ''user external interrupt'', ''supervisor external interrupt'', reserved_future, reserved_future,
      reserved_future, reserved_future, reserved_future, reserved_future]"

definition nointr_desc :: "string list" where
  "nointr_desc =
     [''instruction address misaligned'', ''instruction access fault'', ''illegal instruction'', ''breakpoint'',
      ''load address misaligned'', ''load access fault'', ''store/AMO address misaligned'', ''store/AMO access fault'',
      ''environment call from U-mode'', ''environment call from S-mode'', reserved_future, reserved_future,
      ''instruction page fault'', ''load page fault'', reserved_future, ''store/AMO page fault'']"

definition scause_desc :: "64 word \<Rightarrow> string" where
  "scause_desc sc =
     (let code = unat (sc AND NOT 0x8000000000000000) in
      if bit sc 63
      then if code < 16 then intr_desc ! code else ''<reserved for platform use>''
      else if code < 16 then nointr_desc ! code
      else if code \<le> 23 then reserved_future
      else if code \<le> 31 then ''<reserved for custom use>''
      else if code \<le> 47 then reserved_future
      else if code \<le> 63 then ''<reserved for custom use>''
      else reserved_future)"

text \<open>The interrupt controller: what \<open>plic_claim\<close> reads is an input.\<close>

definition PLIC_SCLAIM :: "nat \<Rightarrow> 64 word" where
  "PLIC_SCLAIM h = PLIC + 0x201004 + of_nat h * 0x2000"

definition plic_complete :: "int \<Rightarrow> ('a trap_state_scheme, unit) kmon" where
  "plic_complete irq = bindM cpuid (\<lambda>h. mmio_write (PLIC_SCLAIM h) (word_of_int irq))"

definition UART0_IRQ :: int where "UART0_IRQ = 10"

definition VIRTIO0_IRQ :: int where "VIRTIO0_IRQ = 1"

definition VIRTIO1_IRQ :: int where "VIRTIO1_IRQ = 2"

definition devintr :: "('a trap_state_scheme, unit) kmon \<Rightarrow> int \<Rightarrow> byte list \<Rightarrow> ('a trap_state_scheme, int) kmon" where
  "devintr dump_locks irq input =
     bindM regs (\<lambda>r.
     if bit (scause r) 63 \<and> scause r AND 0xff = 9
     then thenM (if irq = UART0_IRQ then uartintr dump_locks input
                 else if irq = VIRTIO0_IRQ \<or> irq = VIRTIO1_IRQ then virtio_disk_intr (nat (irq - VIRTIO0_IRQ))
                 else ret ())
        (thenM (whenM (irq \<noteq> 0) (plic_complete irq)) (ret 1))
     else if scause r = 0x8000000000000001
     then bindM cpuid (\<lambda>h.
       thenM (whenM (h = 0) clockintr)
      (thenM (upd_regs (\<lambda>r. r\<lparr>ssip := False\<rparr>)) (ret 2)))
     else ret 0)"

definition tf_kernel_satp :: int where "tf_kernel_satp = 0"

definition tf_kernel_sp :: int where "tf_kernel_sp = 8"

definition tf_kernel_trap :: int where "tf_kernel_trap = 16"

definition tf_kernel_hartid :: int where "tf_kernel_hartid = 32"

text \<open>
  The result is the page table the trampoline switches to.  The address of \<open>usertrap\<close> is a
  parameter.
\<close>

definition usertrapret :: "64 word \<Rightarrow> ('a trap_state_scheme, 64 word) kmon" where
  "usertrapret utrap =
     bindM the_proc (\<lambda>p.
     thenM intr_off
    (thenM (upd_regs (\<lambda>r. r\<lparr>stvec := Uservec\<rparr>))
    (bindM (gets satp) (\<lambda>v.
     thenM (set_tf p tf_kernel_satp v)
    (bindM (get_proc p) (\<lambda>pr.
     thenM (set_tf p tf_kernel_sp (kstack pr + 4096))
    (thenM (set_tf p tf_kernel_trap utrap)
    (bindM cpuid (\<lambda>h.
     thenM (set_tf p tf_kernel_hartid (of_nat h))
    (thenM (upd_regs (\<lambda>r. r\<lparr>spp := False, spie := True\<rparr>))
    (bindM (get_tf p tf_epc) (\<lambda>pc.
     thenM (upd_regs (\<lambda>r. r\<lparr>sepc := pc\<rparr>))
    (ret (MAKE_SATP (word_of_int (pagetable pr))))))))))))))))"

text \<open>How a trap from user space ends: back in user space, in the scheduler, or with the process gone.\<close>

datatype trap_end = To_User "64 word" | To_Sched bool | Gone

text \<open>
  The end of \<open>usertrap\<close>, once the cause of the trap has been seen to; the process that yields goes
  on with \<open>usertrap_resume\<close>.
\<close>

definition usertrap_tail :: "64 word \<Rightarrow> nat \<Rightarrow> int \<Rightarrow> ('a trap_state_scheme, trap_end) kmon" where
  "usertrap_tail utrap p which_dev =
     bindM (get_proc p) (\<lambda>pr.
     if killed pr then thenM (exit_proc (- 1)) (ret Gone)
     else if which_dev = 2 then bindM yield_begin (\<lambda>ie. ret (To_Sched ie))
     else bindM (usertrapret utrap) (\<lambda>pt. ret (To_User pt)))"

definition usertrap_resume :: "64 word \<Rightarrow> bool \<Rightarrow> ('a trap_state_scheme, trap_end) kmon" where
  "usertrap_resume utrap ie = thenM (yield_end ie) (bindM (usertrapret utrap) (\<lambda>pt. ret (To_User pt)))"

text \<open>
  The parameters are those of \<open>syscall\<close> and \<open>devintr\<close>, and the address of \<open>usertrap\<close>.
\<close>

definition usertrap :: "64 word \<Rightarrow> ('a trap_state_scheme, int) kmon \<Rightarrow> int \<Rightarrow> ('a trap_state_scheme, unit) kmon \<Rightarrow>
    int \<Rightarrow> byte list \<Rightarrow> 64 word \<Rightarrow> ('a trap_state_scheme, trap_end) kmon" where
  "usertrap trampoline ntas junk dump_locks irq input utrap =
     bindM regs (\<lambda>r.
     if spp r then panic ''usertrap: not from user mode''
     else thenM (upd_regs (\<lambda>r. r\<lparr>stvec := Kernelvec\<rparr>))
     (bindM the_proc (\<lambda>p.
      thenM (set_tf p tf_epc (sepc r))
     (if scause r = 8
      then bindM (get_proc p) (\<lambda>pr.
        if killed pr then thenM (exit_proc (- 1)) (ret Gone)
        else bindM (get_tf p tf_epc) (\<lambda>pc.
          thenM (set_tf p tf_epc (pc + 4))
         (thenM intr_on
         (bindM (syscall trampoline ntas junk) (\<lambda>go.
          if go then usertrap_tail utrap p 0 else ret Gone)))))
      else bindM (devintr dump_locks irq input) (\<lambda>d.
        if d \<noteq> 0 then usertrap_tail utrap p d
        else bindM (get_proc p) (\<lambda>pr.
          thenM (printf ''usertrap(): unexpected scause %p (%s) pid=%d\<newline>''
            [APtr (scause r), AStr (Some (bytes_of (scause_desc (scause r)))), AInt (word_of_int (pid pr))])
         (thenM (printf ''            sepc=%p stval=%p\<newline>'' [APtr (sepc r), APtr (stval r)])
         (thenM (upd_proc p (\<lambda>q. q\<lparr>killed := True\<rparr>))
         (usertrap_tail utrap p 0)))))))))"

text \<open>
  A trap in the kernel.  Where the interrupted process yields, the rest of \<open>kerneltrap\<close> is
  \<open>kerneltrap_resume\<close>, with the registers that \<open>kerneltrap\<close> had kept.
\<close>

datatype ktrap_end = KReturned | KYielded trapregs bool

definition restore_regs :: "trapregs \<Rightarrow> bool \<Rightarrow> ('a trap_state_scheme, unit) kmon" where
  "restore_regs r ie =
     thenM (upd_regs (\<lambda>q. q\<lparr>sepc := sepc r\<rparr>))
    (thenM (upd_regs (\<lambda>q. q\<lparr>spp := spp r, spie := spie r\<rparr>))
    (if ie then intr_on else intr_off))"

definition kerneltrap :: "('a trap_state_scheme, unit) kmon \<Rightarrow> int \<Rightarrow> byte list \<Rightarrow>
    ('a trap_state_scheme, ktrap_end) kmon" where
  "kerneltrap dump_locks irq input =
     bindM regs (\<lambda>r.
     bindM intr_get (\<lambda>ie.
     if \<not> spp r then panic ''kerneltrap: not from supervisor mode''
     else if ie then panic ''kerneltrap: interrupts enabled''
     else bindM (devintr dump_locks irq input) (\<lambda>d.
      if d = 0
      then thenM (printf ''scause %p (%s)\<newline>'' [APtr (scause r), AStr (Some (bytes_of (scause_desc (scause r))))])
          (thenM (printf ''sepc=%p stval=%p\<newline>'' [APtr (sepc r), APtr (stval r)])
          (panic ''kerneltrap''))
      else bindM myproc (\<lambda>mp.
       case mp of None \<Rightarrow> thenM (restore_regs r ie) (ret KReturned)
       | Some p \<Rightarrow> bindM (get_proc p) (\<lambda>pr.
           if d = 2 \<and> p_state pr = RUNNING then bindM yield_begin (\<lambda>ie'. ret (KYielded r ie'))
           else thenM (restore_regs r ie) (ret KReturned))))))"

definition kerneltrap_resume :: "trapregs \<Rightarrow> bool \<Rightarrow> ('a trap_state_scheme, unit) kmon" where
  "kerneltrap_resume r ie = thenM (yield_end ie) (restore_regs r False)"

text \<open>
  The first run of a new process.  \<open>first\<close>, whether the file system is still to be set up, is
  passed in; \<open>ROOTDEV\<close> has minor number 0.
\<close>

definition forkret :: "bool \<Rightarrow> 64 word \<Rightarrow> ('a trap_state_scheme, 64 word) kmon" where
  "forkret first utrap =
     bindM the_proc (\<lambda>p.
     thenM (release (ProcLock p))
    (thenM (whenM first (fsinit 0))
    (usertrapret utrap)))"

end
