(* ===== verification/Boot.thy ===== *)
theory Boot
  imports Trap
begin

text \<open>
  Start of the machine: the interrupt controller (kernel/plic.c), \<open>virtio_disk_init\<close> of
  kernel/virtio_disk.c, and kernel/main.c up to the call of the scheduler.  What a device register
  reads as is a parameter, as are the linker's symbols.
\<close>

section \<open>The interrupt controller\<close>

definition PLIC_SENABLE :: "nat \<Rightarrow> 64 word" where
  "PLIC_SENABLE h = PLIC + 0x2080 + of_nat h * 0x100"

definition PLIC_SPRIORITY :: "nat \<Rightarrow> 64 word" where
  "PLIC_SPRIORITY h = PLIC + 0x201000 + of_nat h * 0x2000"

definition plicinit :: "('a trap_state_scheme, unit) kmon" where
  "plicinit =
     thenM (mmio_write (PLIC + word_of_int (UART0_IRQ * 4)) 1)
    (mmio_write (PLIC + word_of_int (VIRTIO0_IRQ * 4)) 1)"

definition plicinithart :: "('a trap_state_scheme, unit) kmon" where
  "plicinithart =
     bindM cpuid (\<lambda>h.
     thenM (mmio_write (PLIC_SENABLE h) (push_bit (nat UART0_IRQ) 1 OR push_bit (nat VIRTIO0_IRQ) 1))
    (mmio_write (PLIC_SPRIORITY h) 0))"

section \<open>The disk\<close>

definition VIRTIO_MMIO_MAGIC_VALUE :: "64 word" where "VIRTIO_MMIO_MAGIC_VALUE = 0x000"
definition VIRTIO_MMIO_VERSION :: "64 word" where "VIRTIO_MMIO_VERSION = 0x004"
definition VIRTIO_MMIO_DEVICE_ID :: "64 word" where "VIRTIO_MMIO_DEVICE_ID = 0x008"
definition VIRTIO_MMIO_VENDOR_ID :: "64 word" where "VIRTIO_MMIO_VENDOR_ID = 0x00c"
definition VIRTIO_MMIO_DEVICE_FEATURES :: "64 word" where "VIRTIO_MMIO_DEVICE_FEATURES = 0x010"
definition VIRTIO_MMIO_DRIVER_FEATURES :: "64 word" where "VIRTIO_MMIO_DRIVER_FEATURES = 0x020"
definition VIRTIO_MMIO_GUEST_PAGE_SIZE :: "64 word" where "VIRTIO_MMIO_GUEST_PAGE_SIZE = 0x028"
definition VIRTIO_MMIO_QUEUE_SEL :: "64 word" where "VIRTIO_MMIO_QUEUE_SEL = 0x030"
definition VIRTIO_MMIO_QUEUE_NUM_MAX :: "64 word" where "VIRTIO_MMIO_QUEUE_NUM_MAX = 0x034"
definition VIRTIO_MMIO_QUEUE_NUM :: "64 word" where "VIRTIO_MMIO_QUEUE_NUM = 0x038"
definition VIRTIO_MMIO_QUEUE_PFN :: "64 word" where "VIRTIO_MMIO_QUEUE_PFN = 0x040"
definition VIRTIO_MMIO_STATUS :: "64 word" where "VIRTIO_MMIO_STATUS = 0x070"

definition VIRTIO_CONFIG_S_ACKNOWLEDGE :: "32 word" where "VIRTIO_CONFIG_S_ACKNOWLEDGE = 1"
definition VIRTIO_CONFIG_S_DRIVER :: "32 word" where "VIRTIO_CONFIG_S_DRIVER = 2"
definition VIRTIO_CONFIG_S_DRIVER_OK :: "32 word" where "VIRTIO_CONFIG_S_DRIVER_OK = 4"
definition VIRTIO_CONFIG_S_FEATURES_OK :: "32 word" where "VIRTIO_CONFIG_S_FEATURES_OK = 8"

text \<open>The features the driver refuses, by their bits.\<close>

definition VIRTIO_refused :: "nat list" where
  "VIRTIO_refused = [5, 7, 11, 12, 27, 29, 28]"

definition driver_features :: "64 word \<Rightarrow> 64 word" where
  "driver_features f = fold (\<lambda>k x. x AND NOT (push_bit k 1)) VIRTIO_refused f"

definition no_desc :: vring_desc where
  "no_desc = \<lparr>vd_addr = NoAddr, vd_len = 0, vd_flags = 0, vd_next = 0\<rparr>"

text \<open>\<open>rd\<close> reads a register of the disk, \<open>pages\<close> is the address of the disk's pages.\<close>

definition virtio_disk_init :: "(64 word \<Rightarrow> 32 word) \<Rightarrow> 64 word \<Rightarrow> nat \<Rightarrow> ('a trap_state_scheme, unit) kmon" where
  "virtio_disk_init rd pages n =
    (let R = (\<lambda>r. VIRTION (of_nat n) + r) in
     bindM (get_vd n) (\<lambda>v.
     if vd_init v then ret ()
     else thenM (printf ''virtio disk init %d\<newline>'' [AInt (of_nat n)])
    (thenM (initlock (VdiskLock n))
    (if rd (R VIRTIO_MMIO_MAGIC_VALUE) \<noteq> 0x74726976 \<or> rd (R VIRTIO_MMIO_VERSION) \<noteq> 1 \<or>
        rd (R VIRTIO_MMIO_DEVICE_ID) \<noteq> 2 \<or> rd (R VIRTIO_MMIO_VENDOR_ID) \<noteq> 0x554d4551
     then panic ''could not find virtio disk''
     else let
       s1 = VIRTIO_CONFIG_S_ACKNOWLEDGE;
       s2 = s1 OR VIRTIO_CONFIG_S_DRIVER;
       s3 = s2 OR VIRTIO_CONFIG_S_FEATURES_OK;
       s4 = s3 OR VIRTIO_CONFIG_S_DRIVER_OK;
       features = driver_features (ucast (rd (R VIRTIO_MMIO_DEVICE_FEATURES))) in
     thenM (mmio_write (R VIRTIO_MMIO_STATUS) s1)
    (thenM (mmio_write (R VIRTIO_MMIO_STATUS) s2)
    (thenM (mmio_write (R VIRTIO_MMIO_DRIVER_FEATURES) (ucast features))
    (thenM (mmio_write (R VIRTIO_MMIO_STATUS) s3)
    (thenM (mmio_write (R VIRTIO_MMIO_STATUS) s4)
    (thenM (mmio_write (R VIRTIO_MMIO_GUEST_PAGE_SIZE) 4096)
    (thenM (mmio_write (R VIRTIO_MMIO_QUEUE_SEL) 0)
    (let mx = rd (R VIRTIO_MMIO_QUEUE_NUM_MAX) in
     if mx = 0 then panic ''virtio disk has no queue 0''
     else if mx < of_nat NUM then panic ''virtio disk max queue too short''
     else thenM (mmio_write (R VIRTIO_MMIO_QUEUE_NUM) (of_nat NUM))
    (thenM (upd_vd n (\<lambda>v. v\<lparr>vdesc := (\<lambda>i. no_desc), avail_idx := 0, avail_ring := (\<lambda>i. 0),
        used_id := 0, used_elems := (\<lambda>i. 0)\<rparr>))
    (thenM (mmio_write (R VIRTIO_MMIO_QUEUE_PFN) (ucast (drop_bit 12 pages)))
    (thenM (upd_vd n (\<lambda>v. v\<lparr>vfree := (\<lambda>i. if i < NUM then True else vfree v i)\<rparr>))
    (upd_vd n (\<lambda>v. v\<lparr>vd_init := True\<rparr>))))))))))))))))"

section \<open>main\<close>

record boot_state = trap_state +
  started :: bool

record linker_symbols =
  sym_end :: int
  sym_etext :: "64 word"
  sym_trampoline :: "64 word"
  sym_initcode :: int
  sym_init :: int
  sym_disk_pages :: "64 word"

text \<open>The part of \<open>main\<close> that hart 0 runs, the part of the others, and their choice.\<close>

definition main_first :: "linker_symbols \<Rightarrow> (64 word \<Rightarrow> 32 word) \<Rightarrow> ('a boot_state_scheme, unit) kmon" where
  "main_first sy rd =
     thenM consoleinit
    (thenM watchdoginit
    (thenM printfinit
    (thenM (printf ''\<newline>'' [])
    (thenM (printf ''xv6 kernel is booting\<newline>'' [])
    (thenM (printf ''\<newline>'' [])
    (thenM (kinit (sym_end sy))
    (thenM (kvminit (sym_etext sy) (sym_trampoline sy))
    (thenM kvminithart
    (thenM procinit
    (thenM trapinit
    (thenM trapinithart
    (thenM plicinit
    (thenM plicinithart
    (thenM binit
    (thenM iinit
    (thenM fileinit
    (thenM (virtio_disk_init rd (sym_disk_pages sy) 0)
    (thenM (userinit (sym_trampoline sy) (sym_initcode sy) (sym_init sy))
    (modify (\<lambda>s. s\<lparr>started := True\<rparr>))))))))))))))))))))"

definition main_other :: "nat \<Rightarrow> ('a boot_state_scheme, unit) kmon" where
  "main_other h =
     bindM (gets started) (\<lambda>go.
     if \<not> go then failM Spins
     else thenM (printf ''hart %d starting\<newline>'' [AInt (of_nat h)])
    (thenM kvminithart
    (thenM trapinithart
    plicinithart)))"

definition main_boot :: "linker_symbols \<Rightarrow> (64 word \<Rightarrow> 32 word) \<Rightarrow> ('a boot_state_scheme, unit) kmon" where
  "main_boot sy rd = bindM cpuid (\<lambda>h. if h = 0 then main_first sy rd else main_other h)"

end
