(* ===== verification/Proc_Calm.thy ===== *)
theory Proc_Calm
  imports Proc_Sched
begin

text \<open>
  Kernel code run by a process that holds no lock to begin with: taking one lock, waking sleepers,
  giving the lock back or going to sleep with it.
\<close>

text \<open>
  \<open>calm p s\<close>: the hart runs \<open>p\<close> and holds no lock, and no process's lock is held.
\<close>

definition calm :: "nat \<Rightarrow> 'a pstate_scheme \<Rightarrow> bool" where
  "calm p s \<longleftrightarrow> c_proc (cpus s (hart s)) = Some p \<and> noff (cpus s (hart s)) = 0 \<and> p < NPROC \<and>
     (\<forall>q<NPROC. lock_free (ProcLock q) s)"

definition woken :: "chan \<Rightarrow> (nat \<Rightarrow> proc) \<Rightarrow> nat \<Rightarrow> proc" where
  "woken ch tab = (\<lambda>p. if p < NPROC then wake ch (tab p) else tab p)"

lemma calm_hart_ok: "calm p s \<Longrightarrow> hart_ok s"
  by (simp add: calm_def hart_ok_def)

lemma calm_the_proc: "calm p s \<Longrightarrow> the_proc s = Inr (p, settle s)"
  by (rule the_proc_eq) (simp_all add: calm_def hart_ok_def)

lemma lock_st_mem: "(lock_st l s)\<lparr>mem := m\<rparr> = lock_st l (s\<lparr>mem := m\<rparr>)"
  and settle_mem: "(settle s)\<lparr>mem := m\<rparr> = settle (s\<lparr>mem := m\<rparr>)"
  and mem_mach [simp]: "mem (lock_st l s) = mem s" "mem (settle s) = mem s"
  by (simp_all add: lock_st_def push_st_def settle_def)

lemma ptable_mach [simp]: "ptable (lock_st l s) = ptable s" "ptable (settle s) = ptable s"
  by (simp_all add: lock_st_def push_st_def settle_def)

lemma lock_free_mem [simp]: "lock_free l (s\<lparr>mem := m\<rparr>) = lock_free l s"
  by (simp add: lock_free_def)

text \<open>Waking with a lock held.\<close>

lemma wakeup_locked:
  assumes "hart_ok s" and "\<forall>q<NPROC. lock_free (ProcLock q) s" and "\<forall>q. l \<noteq> ProcLock q"
  shows "wakeup ch (lock_st l s) = Inr ((), lock_st l (s\<lparr>ptable := woken ch (ptable s)\<rparr>))"
proof -
  have h: "hart_ok (lock_st l s)" using assms(1) by simp
  have f: "lock_free (ProcLock q) (lock_st l s)" if "q < NPROC" for q
    using assms(2,3) that by (simp add: eq_commute [of "ProcLock q"])
  have n: "noff (cpus (lock_st l (s\<lparr>ptable := woken ch (ptable s)\<rparr>)) (hart s)) \<noteq> 0"
    using assms(1) noff_lock_st(1) [of l "s\<lparr>ptable := woken ch (ptable s)\<rparr>"] by (simp add: hart_ok_def)
  have "wakeup ch (lock_st l s) = Inr ((), settle ((lock_st l s)\<lparr>ptable := woken ch (ptable (lock_st l s))\<rparr>))"
    unfolding woken_def by (rule wakeup_eq [OF h f])
  then show ?thesis using n by (simp add: lock_st_ptable settle_id)
qed

lemma calm_settle [simp]: "calm p (settle s) = calm p s"
  by (simp add: calm_def) (simp add: settle_def)

lemma calm_upds [simp]: "calm p (s\<lparr>ptable := f\<rparr>) = calm p s" "calm p (s\<lparr>mem := m\<rparr>) = calm p s"
  by (simp_all add: calm_def lock_free_def)

lemma wake_release:
  assumes "calm p s" and "lock_free l s" and "\<forall>q. l \<noteq> ProcLock q"
  shows "thenM (wakeup ch) (thenM (release l) (ret v)) (lock_st l s) =
    Inr (v, settle (s\<lparr>ptable := woken ch (ptable s)\<rparr>))"
proof -
  let ?t = "s\<lparr>ptable := woken ch (ptable s)\<rparr>"
  have "release l (lock_st l ?t) = Inr ((), settle ?t)"
    by (rule release_lock_st) (use assms in \<open>simp_all add: calm_hart_ok\<close>)
  moreover have "wakeup ch (lock_st l s) = Inr ((), lock_st l ?t)"
    by (rule wakeup_locked) (use assms calm_hart_ok [of p s] in \<open>auto simp: calm_def\<close>)
  ultimately show ?thesis by (simp add: thenM_run ret_run)
qed

lemma calm_locked_the_proc:
  assumes "calm p s"
  shows "the_proc (lock_st l s) = Inr (p, lock_st l s)"
proof -
  have "c_proc (cpus (lock_st l s) (hart (lock_st l s))) = Some p"
    using assms by (simp add: calm_def lock_st_def push_st_def)
  moreover have "noff (cpus (lock_st l s) (hart (lock_st l s))) \<noteq> 0" using assms by (simp add: calm_def)
  ultimately show ?thesis using the_proc_eq [OF hart_ok_lock_st [OF calm_hart_ok [OF assms]]] by (simp add: settle_id)
qed

text \<open>Going to sleep with a lock held.\<close>

lemma calm_sleep:
  assumes "calm p s" and "lock_free l s" and "\<forall>q. l \<noteq> ProcLock q"
  shows "\<exists>ie t. sleep_begin ch l (lock_st l s) = Inr (ie, t) \<and> switched s t \<and> lks t = lks s \<and>
    mach.more t = mach.more (s\<lparr>ptable := (ptable s)(p := (ptable s p)\<lparr>chan := Some ch, p_state := SLEEPING\<rparr>)\<rparr>)"
proof -
  let ?u = "lock_st l s"
  have u: "c_proc (cpus ?u (hart ?u)) = Some p" "noff (cpus ?u (hart ?u)) = 1" "\<not> sie ?u (hart ?u)"
    "holds_lock l ?u" "lock_free (ProcLock p) ?u"
    using assms by (auto simp: calm_def lock_st_def push_st_def holds_lock_def lock_free_def)
  from sleep_begin_ok [OF u, of ch] obtain ie t where t: "sleep_begin ch l ?u = Inr (ie, t)" "switched ?u t"
    "lks t = (lks ?u)(l := \<lparr>locked = False, lk_cpu = None\<rparr>)"
    "mach.more t = mach.more (?u\<lparr>ptable := (ptable ?u)(p := (ptable ?u p)\<lparr>chan := Some ch, p_state := SLEEPING\<rparr>)\<rparr>)"
    by blast
  have "lks t = lks s" using t(3) assms(2) by (auto simp: lock_free_def fun_eq_iff)
  moreover have "switched s t" using t(2) by (simp add: switched_def)
  moreover have "mach.more (?u\<lparr>ptable := f\<rparr>) = mach.more (s\<lparr>ptable := f\<rparr>)" for f by (rule more_ptable) simp
  ultimately show ?thesis using t(1,4) by simp
qed

lemma calm_release: "calm p s \<Longrightarrow> lock_free l s \<Longrightarrow> release l (lock_st l s) = Inr ((), settle s)"
  by (rule release_lock_st) (simp_all add: calm_hart_ok)

lemma calm_wakeup:
  "calm p s \<Longrightarrow> \<forall>q. l \<noteq> ProcLock q \<Longrightarrow>
   wakeup ch (lock_st l s) = Inr ((), lock_st l (s\<lparr>ptable := woken ch (ptable s)\<rparr>))"
  by (rule wakeup_locked) (auto simp: calm_def hart_ok_def)

end
