(* ===== verification/Ring.thy ===== *)
theory Ring
  imports Xv6_Prelude
begin

text \<open>
  Circular buffers.  A ring of \<open>SZ\<close> bytes has two counters that only grow, modulo \<open>2 ^ 32\<close>: the
  byte number \<open>k\<close> lives in cell \<open>k mod SZ\<close>.  Pipes and consoles are such rings.  The contract is
  that of a queue, under the invariant that the counters are at most \<open>SZ\<close> apart; it holds also
  when a counter wraps, because \<open>SZ\<close> divides \<open>2 ^ 32\<close>.
\<close>

definition ring_list :: "nat \<Rightarrow> (nat \<Rightarrow> 'b) \<Rightarrow> 32 word \<Rightarrow> 32 word \<Rightarrow> 'b list" where
  "ring_list SZ d r w = map (\<lambda>i. d (unat (r + of_nat i) mod SZ)) [0..<unat (w - r)]"

lemma length_ring_list [simp]: "length (ring_list SZ d r w) = unat (w - r)"
  by (simp add: ring_list_def)

lemma ring_list_empty [simp]: "ring_list SZ d r r = []"
  by (simp add: ring_list_def)

lemma ring_list_Nil [simp]: "ring_list SZ d r w = [] \<longleftrightarrow> r = w"
proof -
  have "ring_list SZ d r w = [] \<longleftrightarrow> unat (w - r) = 0" by (simp add: ring_list_def)
  also have "\<dots> \<longleftrightarrow> w - r = 0" by (rule unat_eq_0)
  finally show ?thesis by auto
qed

lemma unat_32_less: "unat (x :: 32 word) < 4294967296"
  using unsigned_less [of x, where ?'a = nat] by simp

lemma unat_pred: "(x :: 'a :: len word) \<noteq> 0 \<Longrightarrow> unat (x - 1) = unat x - 1"
  by (simp add: unat_minus_one)

lemma unat_Suc: "unat (x :: 'a :: len word) + 1 < 2 ^ LENGTH('a) \<Longrightarrow> unat (x + 1) = unat x + 1"
  by (simp add: unat_word_ariths)

locale ring =
  fixes SZ :: nat
  assumes SZ_pos: "0 < SZ" and SZ_dvd: "SZ dvd 4294967296" and SZ_less: "SZ < 4294967296"
begin

text \<open>The cells of fewer than \<open>SZ\<close> consecutive numbers are different.\<close>

lemma cell_plus: "unat (r + of_nat i :: 32 word) mod SZ = (unat r + i) mod SZ"
proof -
  have "unat (r + of_nat i :: 32 word) = (unat r + i) mod 4294967296"
    by (simp add: unat_word_ariths unat_of_nat mod_add_right_eq)
  then show ?thesis using SZ_dvd by (simp add: mod_mod_cancel)
qed

lemma cell_neq: "i < j \<Longrightarrow> j < i + SZ \<Longrightarrow> unat (r + of_nat i :: 32 word) mod SZ \<noteq> unat (r + of_nat j) mod SZ"
proof
  assume ij: "i < j" "j < i + SZ" and "unat (r + of_nat i :: 32 word) mod SZ = unat (r + of_nat j) mod SZ"
  then have "(unat r + j) mod SZ = (unat r + i) mod SZ" by (simp add: cell_plus)
  then have "SZ dvd (unat r + j) - (unat r + i)" using ij(1) by (subst mod_eq_dvd_iff_nat [symmetric]) simp_all
  then show False using ij by (auto dest: dvd_imp_le)
qed

lemma ring_get: "r \<noteq> w \<Longrightarrow> ring_list SZ d r w = d (unat r mod SZ) # ring_list SZ d (r + 1) w"
proof -
  assume "r \<noteq> w"
  then have "w - r \<noteq> 0" by simp
  then obtain n where n: "unat (w - r) = Suc n" by (metis not0_implies_Suc unat_eq_0)
  then have m: "unat (w - (r + 1)) = n" using unat_pred [OF \<open>w - r \<noteq> 0\<close>] by (simp add: diff_diff_eq)
  have "map f [0..<Suc n] = f 0 # map (\<lambda>i. f (Suc i)) [0..<n]" for f :: "nat \<Rightarrow> 'a"
    by (rule nth_equalityI) (auto simp: nth_Cons' simp del: upt_Suc)
  then show ?thesis by (simp add: ring_list_def n m add.assoc del: upt_Suc)
qed

lemma ring_put:
  assumes "unat (w - r) < SZ"
  shows "ring_list SZ (d(unat w mod SZ := c)) r (w + 1) = ring_list SZ d r w @ [c]"
proof -
  let ?n = "unat (w - r)"
  have w: "w = r + of_nat ?n" by simp
  have n: "unat (w + 1 - r) = Suc ?n"
  proof -
    have e: "w + 1 - r = (w - r) + 1" by simp
    have "?n + 1 < 4294967296" using assms SZ_less by linarith
    then show ?thesis unfolding e using unat_Suc [of "w - r"] by simp
  qed
  have "(d(unat w mod SZ := c)) (unat (r + of_nat i) mod SZ) = d (unat (r + of_nat i) mod SZ)" if "i < ?n" for i
  proof -
    have "unat (r + of_nat i) mod SZ \<noteq> unat (r + of_nat ?n) mod SZ"
      by (rule cell_neq) (use that assms in simp_all)
    then show ?thesis by simp
  qed
  then show ?thesis using n by (simp add: ring_list_def)
qed

text \<open>Two stretches of the ring, one after the other.\<close>

lemma unat_span:
  fixes w r e :: "32 word"
  assumes "unat (w - r) + unat (e - w) \<le> SZ"
  shows "unat (e - r) = unat (w - r) + unat (e - w)"
proof -
  have "e - r = (w - r) + (e - w)" by simp
  then have "unat (e - r) = (unat (w - r) + unat (e - w)) mod 4294967296" using unat_word_ariths(1) [of "w - r" "e - w"] by simp
  then show ?thesis using assms SZ_less by simp
qed

lemma ring_append:
  assumes "unat (w - r) + unat (e - w) \<le> SZ"
  shows "ring_list SZ d r e = ring_list SZ d r w @ ring_list SZ d w e"
proof -
  let ?a = "unat (w - r)" and ?b = "unat (e - w)"
  have w: "w = r + of_nat ?a" by simp
  have s: "w + of_nat i = r + of_nat (?a + i)" for i by (subst w) (simp only: of_nat_add add.assoc)
  have "[0..<?a + ?b] = [0..<?a] @ map (\<lambda>i. i + ?a) [0..<?b]" 
    unfolding map_add_upt using upt_add_eq_append [of 0 ?a ?b] by (simp only: add.commute le0)
  then show ?thesis unfolding ring_list_def unat_span [OF assms] s by (simp add: comp_def add.commute)
qed

lemma ring_put_other:
  assumes "unat (w - r) + unat (e - w) < SZ"
  shows "ring_list SZ (d(unat e mod SZ := c)) r w = ring_list SZ d r w"
proof -
  let ?n = "unat (w - r) + unat (e - w)"
  have "unat (e - r) = ?n" using unat_span [of w r e] assms by simp
  moreover have "e = r + of_nat (unat (e - r))" by simp
  ultimately have e: "e = r + of_nat ?n" by (simp only:)
  have "(d(unat e mod SZ := c)) (unat (r + of_nat i) mod SZ) = d (unat (r + of_nat i) mod SZ)" if "i < unat (w - r)" for i
  proof -
    have "unat (r + of_nat i) mod SZ \<noteq> unat (r + of_nat ?n) mod SZ" by (rule cell_neq) (use that assms in simp_all)
    then show ?thesis using e by simp
  qed
  then show ?thesis by (simp add: ring_list_def)
qed

lemma ring_back:
  assumes "w \<noteq> e"
  shows "ring_list SZ d w e = ring_list SZ d w (e - 1) @ [d (unat (e - 1) mod SZ)]"
proof -
  have "e - w \<noteq> 0" using assms by simp
  then obtain n where n: "unat (e - w) = Suc n" by (metis not0_implies_Suc unat_eq_0)
  have "e - 1 - w = e - w - 1" by simp
  then have m: "unat (e - 1 - w) = n" using unat_pred [OF \<open>e - w \<noteq> 0\<close>] n by (simp only:)
  have "w + of_nat (unat (e - 1 - w)) = e - 1" by simp
  then have "w + of_nat n = e - 1" by (simp only: m)
  then show ?thesis using n m by (simp add: ring_list_def)
qed

end

end
