(* ===== verification/Pipe_Fifo.thy ===== *)
theory Pipe_Fifo
  imports Pipe Proc_Calm Proc_Theorems Vm_Theorems Ring
begin

text \<open>
  A pipe is a queue of at most 512 bytes.  The lemmas follow the loops of \<open>pipewrite\<close> and
  \<open>piperead\<close>; the properties are about the calls as a whole.
\<close>

section \<open>The ring of a pipe\<close>

interpretation pipe_ring: ring PIPESIZE
  by unfold_locales (simp_all add: PIPESIZE_def)

definition pipe_list :: "pipe \<Rightarrow> byte list" where
  "pipe_list x = ring_list PIPESIZE (pi_data x) (nread x) (nwrite x)"

definition pipe_ok :: "pipe \<Rightarrow> bool" where
  "pipe_ok x \<longleftrightarrow> length (pipe_list x) \<le> PIPESIZE"

definition pipe_take :: "pipe \<Rightarrow> pipe" where
  "pipe_take x = x\<lparr>nread := nread x + 1\<rparr>"

lemma pipe_full_iff: "pipe_ok x \<Longrightarrow> pipe_full x \<longleftrightarrow> length (pipe_list x) = PIPESIZE"
proof -
  have "nwrite x = nread x + of_nat PIPESIZE \<longleftrightarrow> nwrite x - nread x = 512"
    by (auto simp: PIPESIZE_def diff_eq_eq add.commute)
  also have "\<dots> \<longleftrightarrow> unat (nwrite x - nread x) = 512"
    by (simp add: word_unat_eq_iff)
  finally show ?thesis by (simp add: pipe_full_def pipe_list_def PIPESIZE_def)
qed

lemma pipe_empty_iff: "pipe_empty x \<longleftrightarrow> pipe_list x = []"
  by (simp add: pipe_empty_def pipe_list_def)

lemma pipe_list_put: "length (pipe_list x) < PIPESIZE \<Longrightarrow> pipe_list (pipe_put c x) = pipe_list x @ [c]"
  by (simp add: pipe_list_def pipe_put_def pipe_ring.ring_put)

lemma pipe_list_take: "pipe_list x \<noteq> [] \<Longrightarrow> pipe_list x = pipe_get x # pipe_list (pipe_take x)"
  using pipe_ring.ring_get [of "nread x" "nwrite x"] by (simp add: pipe_list_def pipe_take_def pipe_get_def)

lemma pipe_list_puts:
  "length (pipe_list x) + length bs \<le> PIPESIZE \<Longrightarrow> pipe_list (fold pipe_put bs x) = pipe_list x @ bs"
  by (induction bs arbitrary: x) (simp_all add: pipe_list_put)

lemma pipe_list_takes: "k \<le> length (pipe_list x) \<Longrightarrow> pipe_list ((pipe_take ^^ k) x) = drop k (pipe_list x)"
proof (induction k)
  case (Suc k)
  let ?y = "(pipe_take ^^ k) x"
  have y: "pipe_list ?y = drop k (pipe_list x)" using Suc by simp
  moreover have "pipe_list ?y \<noteq> []" using y Suc.prems by simp
  ultimately have "drop k (pipe_list x) = pipe_get ?y # pipe_list (pipe_take ?y)" using pipe_list_take [of ?y] by simp
  then have "tl (drop k (pipe_list x)) = pipe_list (pipe_take ?y)" by simp
  then show ?case by (simp add: drop_Suc tl_drop)
qed simp

lemma pipe_puts_open [simp]:
  "readopen (fold pipe_put bs x) = readopen x" "writeopen (fold pipe_put bs x) = writeopen x"
  by (induction bs arbitrary: x) (simp_all add: pipe_put_def)

lemma pipe_takes_open [simp]:
  "readopen ((pipe_take ^^ k) x) = readopen x" "writeopen ((pipe_take ^^ k) x) = writeopen x"
  by (induction k) (simp_all add: pipe_take_def)

section \<open>One byte at a time\<close>

lemma copyin_ref_each:
  assumes "copyin_ref m pt va n = (0, bs)"
  shows "length bs = n \<and> (\<forall>i<n. copyin_ref m pt (va + of_nat i) 1 = (0, [bs ! i]))"
  using assms
proof (induction n arbitrary: va bs)
  case (Suc n)
  then obtain a cs where a: "uaddr m pt va = Some a" "copyin_ref m pt (va + 1) n = (0, cs)" "bs = m a # cs"
    by (auto simp: Let_def split: option.splits prod.splits)
  have "copyin_ref m pt (va + of_nat i) 1 = (0, [bs ! i])" if "i < Suc n" for i
    using Suc.IH [OF a(2)] a that by (cases i) (auto simp: add.assoc)
  then show ?case using Suc.IH [OF a(2)] a(3) by simp
qed simp

lemma copyin_each:
  "copyin m pt va n = (0, bs) \<Longrightarrow> i < n \<Longrightarrow> copyin m pt (va + of_nat i) 1 = (0, [bs ! i])"
  using copyin_ref_each by (simp add: copyin_eq_ref)

lemma copyin_length: "copyin m pt va n = (0, bs) \<Longrightarrow> length bs = n"
  using copyin_ref_each by (simp add: copyin_eq_ref)

lemma copyout_one:
  assumes "uaddr m pt va = Some a"
  shows "copyout m pt va [b] = (0, m(a := b))"
proof -
  let ?pa = "walkaddr m pt (PGROUNDDOWN va)"
  have pa: "?pa \<noteq> 0" "?pa + uint (va - PGROUNDDOWN va) = a"
    using assms by (auto simp: uaddr_def Let_def split: if_splits)
  have "min (page_left va) 1 = 1" using page_left_pos [of va] by simp
  then show ?thesis
    using pa by (subst copyout.simps) (simp add: Let_def copyout.simps [of _ _ _ "[]"] store_bytes_def fun_eq_iff)
qed

section \<open>The loops\<close>

lemma upto_Cons: "j < n \<Longrightarrow> [int j..int n - 1] = int j # [int (Suc j)..int n - 1]"
  by (subst upto_rec1) (simp_all add: add.commute)

lemma pipewrite_loop_run:
  fixes s :: "'a pipe_state_scheme"
  assumes "pipes s pi = Some x" and "length (pipe_list x) + k \<le> PIPESIZE" and "j + k \<le> n"
    and "copyin (mem s) (pagetable (ptable s p)) ua n = (0, bs)"
  shows "pipewrite_loop p pi ua (int n) [int j..int n - 1] s =
    pipewrite_loop p pi ua (int n) [int (j + k)..int n - 1]
      (s\<lparr>pipes := (pipes s)(pi := Some (fold pipe_put (take k (drop j bs)) x))\<rparr>)"
  using assms
proof (induction k arbitrary: j x s)
  case 0
  then show ?case by (simp add: fun_upd_idem)
next
  case (Suc k)
  let ?s = "s\<lparr>pipes := (pipes s)(pi := Some (pipe_put (bs ! j) x))\<rparr>"
  have j: "j < n" "j < length bs" using Suc.prems(3) copyin_length [OF Suc.prems(4)] by simp_all
  have "\<not> pipe_full x" using Suc.prems(2) pipe_full_iff [of x] by (auto simp: pipe_ok_def)
  then have "pipewrite_loop p pi ua (int n) (int j # [int (Suc j)..int n - 1]) s =
      pipewrite_loop p pi ua (int n) [int (Suc j)..int n - 1] ?s"
    using Suc.prems(1) copyin_each [OF Suc.prems(4) j(1)]
    by (simp add: monad_simps get_pipe_def upd_pipe_def get_proc_def)
  also have "\<dots> = pipewrite_loop p pi ua (int n) [int (Suc j + k)..int n - 1]
      (?s\<lparr>pipes := (pipes ?s)(pi := Some (fold pipe_put (take k (drop (Suc j) bs)) (pipe_put (bs ! j) x)))\<rparr>)"
    using Suc.prems by (intro Suc.IH) (simp_all add: pipe_list_put)
  also have "?s\<lparr>pipes := (pipes ?s)(pi := Some (fold pipe_put (take k (drop (Suc j) bs)) (pipe_put (bs ! j) x)))\<rparr> =
      s\<lparr>pipes := (pipes s)(pi := Some (fold pipe_put (take (Suc k) (drop j bs)) x))\<rparr>"
    using j(2) Cons_nth_drop_Suc [of j bs, symmetric] by simp
  finally show ?case by (simp only: upto_Cons [OF j(1)] add_Suc add_Suc_right)
qed

text \<open>Reading: the bytes go one after the other to the addresses \<open>as\<close>.\<close>

definition upd_mem :: "int list \<Rightarrow> byte list \<Rightarrow> bmem \<Rightarrow> bmem" where
  "upd_mem as bs m = fold (\<lambda>(a, b) m. m(a := b)) (zip as bs) m"

lemma upd_mem_simps [simp]:
  "upd_mem [] bs m = m" "upd_mem as [] m = m" "upd_mem (a # as) (b # bs) m = upd_mem as bs (m(a := b))"
  by (cases as; simp add: upd_mem_def)+

lemma upd_mem_other: "a \<notin> set as \<Longrightarrow> upd_mem as bs m a = m a"
proof (induction as arbitrary: bs m)
  case (Cons c as)
  then show ?case by (cases bs) auto
qed simp

lemma upd_mem_nth:
  "distinct as \<Longrightarrow> i < length as \<Longrightarrow> i < length bs \<Longrightarrow> upd_mem as bs m (as ! i) = bs ! i"
proof (induction as arbitrary: i bs m)
  case (Cons a as)
  then show ?case
  proof (cases bs)
    case (Cons b cs)
    then show ?thesis using Cons.prems Cons.IH by (cases i) (auto simp: upd_mem_other)
  qed simp
qed simp

lemma piperead_loop_run:
  fixes s :: "'a pipe_state_scheme"
  assumes "pipes s pi = Some x" and "backed m0 (pagetable (ptable s p)) ua as"
    and "\<forall>a. a \<notin> set as \<longrightarrow> mem s a = m0 a" and "j \<le> n" and "n \<le> length as"
  shows "piperead_loop p pi ua (int n) [int j..int n - 1] s =
    (let k = min (n - j) (length (pipe_list x)) in
     Inr (int (j + k), s\<lparr>pipes := (pipes s)(pi := Some ((pipe_take ^^ k) x)),
       mem := upd_mem (drop j as) (take k (pipe_list x)) (mem s)\<rparr>))"
  using assms
proof (induction "n - j" arbitrary: j x s)
  case 0
  then have j: "j = n" by simp
  have "(pipes s)(pi := Some ((pipe_take ^^ 0) x)) = pipes s" using 0(2) by (simp add: fun_upd_idem)
  then show ?case unfolding j Let_def diff_self_eq_0 min_0L by (simp only:) (simp add: ret_apply)
next
  case (Suc l)
  have j: "j < n" using Suc.hyps(2) by simp
  show ?case
  proof (cases "pipe_list x = []")
    case True
    then show ?thesis using Suc.prems(1) pipe_empty_iff [of x]
      by (simp add: upto_Cons [OF j] monad_simps get_pipe_def fun_upd_idem)
  next
    case False
    let ?s = "s\<lparr>pipes := (pipes s)(pi := Some (pipe_take x)), mem := (mem s)(as ! j := pipe_get x)\<rparr>"
    have u: "uaddr (mem s) (pagetable (ptable s p)) (ua + of_nat j) = Some (as ! j)"
      by (rule backed_uaddr [OF Suc.prems(2,3)]) (use j Suc.prems(5) in simp)
    have "\<not> pipe_empty x" using False pipe_empty_iff by blast
    then have "piperead_loop p pi ua (int n) [int j..int n - 1] s =
        piperead_loop p pi ua (int n) [int (Suc j)..int n - 1] ?s"
      using Suc.prems(1) copyout_one [OF u]
      by (simp add: upto_Cons [OF j] monad_simps get_pipe_def upd_pipe_def get_proc_def copyoutM_def pipe_take_def)
    also have "\<dots> = (let k = min (n - Suc j) (length (pipe_list (pipe_take x))) in
     Inr (int (Suc j + k), ?s\<lparr>pipes := (pipes ?s)(pi := Some ((pipe_take ^^ k) (pipe_take x))),
       mem := upd_mem (drop (Suc j) as) (take k (pipe_list (pipe_take x))) (mem ?s)\<rparr>))"
    proof (rule Suc.hyps(1))
      show "\<forall>a. a \<notin> set as \<longrightarrow> mem ?s a = m0 a" using Suc.prems(3,5) j by auto
    qed (use Suc.hyps(2) Suc.prems j in simp_all)
    finally show ?thesis
      using pipe_list_take [OF False] j Suc.prems(5) Suc.hyps(2)
      by (simp add: Let_def Suc_diff_Suc [symmetric] Cons_nth_drop_Suc [of j as, symmetric] funpow_swap1)
  qed
qed

section \<open>The calls\<close>

lemma lock_st_pipes: "(lock_st l s)\<lparr>pipes := f\<rparr> = lock_st l (s\<lparr>pipes := f\<rparr>)"
  and settle_pipes: "(settle s)\<lparr>pipes := f\<rparr> = settle (s\<lparr>pipes := f\<rparr>)"
  and pipes_mach [simp]: "pipes (lock_st l s) = pipes s" "pipes (settle s) = pipes s"
  by (simp_all add: lock_st_def push_st_def settle_def)

lemma calm_pipes [simp]: "calm p (s\<lparr>pipes := g\<rparr>) = calm p s"
  and lock_free_pipes [simp]: "lock_free l (s\<lparr>pipes := f\<rparr>) = lock_free l s"
  by (simp_all add: calm_def lock_free_def)

lemma pipewrite_done:
  fixes s :: "'a pipe_state_scheme"
  assumes "calm p s" and "lock_free (PipeLock pi) s" and "pipes s pi = Some x"
    and "copyin (mem s) (pagetable (ptable s p)) ua n = (0, bs)"
    and "length (pipe_list x) + n \<le> PIPESIZE"
  shows "pipewrite_begin pi ua (int n) s = Inr (Done (int n),
    settle (s\<lparr>pipes := (pipes s)(pi := Some (fold pipe_put bs x)), ptable := woken (PipeRead pi) (ptable s)\<rparr>))"
proof -
  let ?u = "lock_st (PipeLock pi) (settle s)"
  let ?t = "(settle s)\<lparr>pipes := (pipes s)(pi := Some (fold pipe_put bs x))\<rparr>"
  have bs: "take n (drop 0 bs) = bs" using copyin_length [OF assms(4)] by simp
  have "pipewrite_loop p pi ua (int n) [int 0..int n - 1] ?u =
      pipewrite_loop p pi ua (int n) [int (0 + n)..int n - 1]
        (?u\<lparr>pipes := (pipes ?u)(pi := Some (fold pipe_put (take n (drop 0 bs)) x))\<rparr>)"
    by (rule pipewrite_loop_run) (use assms in simp_all)
  also have "\<dots> = pipewrite_end pi (int n) (lock_st (PipeLock pi) ?t)"
    unfolding bs by (simp add: lock_st_pipes)
  also have "\<dots> = Inr (Done (int n), settle (?t\<lparr>ptable := woken (PipeRead pi) (ptable ?t)\<rparr>))"
    unfolding pipewrite_end_def
    by (rule wake_release) (use assms(1,2) in simp_all)
  finally have "pipewrite_loop p pi ua (int n) [int 0..int n - 1] ?u = \<dots>" .
  then show ?thesis
    using calm_the_proc [OF assms(1)] acquire_eq [of "PipeLock pi" "settle s"] assms(2)
    by (simp add: pipewrite_begin_def bindM_run thenM_run settle_pipes settle_ptable)
qed

lemma more_pipes:
  fixes t :: "'a pipe_state_scheme"
  shows "mach.more t = mach.more s \<Longrightarrow> pipes t = pipes s \<and> ptable t = ptable s \<and> mem t = mem s"
  by (cases s; cases t; simp)

lemma pipewrite_full:
  fixes s :: "'a pipe_state_scheme"
  assumes "calm p s" and "lock_free (PipeLock pi) s" and "pipes s pi = Some x" and "pipe_ok x"
    and "copyin (mem s) (pagetable (ptable s p)) ua n = (0, bs)"
    and "PIPESIZE < length (pipe_list x) + n" and "k = PIPESIZE - length (pipe_list x)"
    and "x' = fold pipe_put (take k bs) x"
  shows "if \<not> readopen x \<or> killed (ptable s p)
    then pipewrite_begin pi ua (int n) s = Inr (Done (- 1), settle (s\<lparr>pipes := (pipes s)(pi := Some x')\<rparr>))
    else \<exists>ie t. pipewrite_begin pi ua (int n) s = Inr (Asleep (int k) ie, t) \<and> switched s t \<and> lks t = lks s \<and>
      pipes t = (pipes s)(pi := Some x') \<and> mem t = mem s \<and>
      ptable t = (woken (PipeRead pi) (ptable s))(p := (woken (PipeRead pi) (ptable s) p)
        \<lparr>chan := Some (PipeWrite pi), p_state := SLEEPING\<rparr>)"
proof -
  let ?l = "PipeLock pi" and ?s = "settle s"
  let ?t = "?s\<lparr>pipes := (pipes s)(pi := Some x')\<rparr>"
  have k: "k < n" "length (pipe_list x) + k = PIPESIZE" using assms(4,6,7) by (simp_all add: pipe_ok_def)
  have lx: "length (pipe_list x') = PIPESIZE"
    unfolding assms(8) using k copyin_length [OF assms(5)] by (simp add: pipe_list_puts)
  then have full: "pipe_full x'" using pipe_full_iff [of x'] by (simp add: pipe_ok_def)
  have calm: "calm p ?t" and free: "lock_free ?l ?t" using assms(1,2) by simp_all
  have "pipewrite_loop p pi ua (int n) [int 0..int n - 1] (lock_st ?l ?s) =
      pipewrite_loop p pi ua (int n) [int (0 + k)..int n - 1]
        ((lock_st ?l ?s)\<lparr>pipes := (pipes (lock_st ?l ?s))(pi := Some (fold pipe_put (take k (drop 0 bs)) x))\<rparr>)"
    by (rule pipewrite_loop_run) (use assms k in simp_all)
  also have "\<dots> = pipewrite_loop p pi ua (int n) (int k # [int (Suc k)..int n - 1]) (lock_st ?l ?t)"
    by (simp only: add_0 drop_0 assms(8) [symmetric] upto_Cons [OF k(1)] lock_st_pipes pipes_mach)
  finally have run: "pipewrite_begin pi ua (int n) s =
      pipewrite_loop p pi ua (int n) (int k # [int (Suc k)..int n - 1]) (lock_st ?l ?t)"
    using calm_the_proc [OF assms(1)] acquire_eq [of ?l ?s] assms(2)
    by (simp add: pipewrite_begin_def bindM_run thenM_run del: pipewrite_loop.simps)
  have px: "pipes (lock_st ?l ?t) pi = Some x'" by simp
  have ro: "readopen x' = readopen x" by (simp add: assms(8))
  show ?thesis
  proof (cases "\<not> readopen x \<or> killed (ptable s p)")
    case True
    have "release ?l (lock_st ?l ?t) = Inr ((), settle ?t)"
      by (rule release_lock_st) (use calm free calm_hart_ok [OF calm] in simp_all)
    then show ?thesis using True run calm_locked_the_proc [OF calm, of ?l] px full ro
      by (auto simp: monad_simps get_pipe_def get_proc_def settle_pipes)
  next
    case False
    let ?w = "?t\<lparr>ptable := woken (PipeRead pi) (ptable ?t)\<rparr>"
    have wk: "wakeup (PipeRead pi) (lock_st ?l ?t) = Inr ((), lock_st ?l ?w)"
      by (rule wakeup_locked) (use calm calm_hart_ok [OF calm] in \<open>simp_all add: calm_def\<close>)
    obtain ie t where t: "sleep_begin (PipeWrite pi) ?l (lock_st ?l ?w) = Inr (ie, t)" "switched ?w t" "lks t = lks ?w"
      "mach.more t = mach.more (?w\<lparr>ptable := (ptable ?w)(p := (ptable ?w p)\<lparr>chan := Some (PipeWrite pi), p_state := SLEEPING\<rparr>)\<rparr>)"
      using calm_sleep [of p ?w ?l "PipeWrite pi"] calm free by auto
    have "pipewrite_begin pi ua (int n) s = Inr (Asleep (int k) ie, t)"
      using False run calm_locked_the_proc [OF calm, of ?l] px full ro wk t(1)
      by (simp add: monad_simps get_pipe_def get_proc_def)
    then show ?thesis using False t(2,3) more_pipes [OF t(4)] by (simp add: switched_def)
  qed
qed

lemma piperead_done:
  fixes s :: "'a pipe_state_scheme"
  assumes "calm p s" and "lock_free (PipeLock pi) s" and "pipes s pi = Some x" and "pipe_list x \<noteq> [] \<or> \<not> writeopen x"
    and "backed (mem s) (pagetable (ptable s p)) ua as" and "length as = n" and "k = min n (length (pipe_list x))"
  shows "piperead_begin pi ua (int n) s = Inr (Done (int k), settle (s\<lparr>pipes := (pipes s)(pi := Some ((pipe_take ^^ k) x)),
    mem := upd_mem as (take k (pipe_list x)) (mem s), ptable := woken (PipeWrite pi) (ptable s)\<rparr>))"
proof -
  let ?l = "PipeLock pi" and ?s = "settle s"
  let ?t = "?s\<lparr>pipes := (pipes s)(pi := Some ((pipe_take ^^ k) x)), mem := upd_mem as (take k (pipe_list x)) (mem s)\<rparr>"
  have b: "backed (mem s) (pagetable (ptable (lock_st ?l ?s) p)) ua as" using assms(5) by simp
  have "piperead_loop p pi ua (int n) [int 0..int n - 1] (lock_st ?l ?s) =
    (let k = min (n - 0) (length (pipe_list x)) in
     Inr (int (0 + k), (lock_st ?l ?s)\<lparr>pipes := (pipes (lock_st ?l ?s))(pi := Some ((pipe_take ^^ k) x)),
       mem := upd_mem (drop 0 as) (take k (pipe_list x)) (mem (lock_st ?l ?s))\<rparr>))"
    by (rule piperead_loop_run [OF _ b]) (use assms in simp_all)
  then have loop: "piperead_loop p pi ua (int n) [0..int n - 1] (lock_st ?l ?s) = Inr (int k, lock_st ?l ?t)"
    by (simp only: int_ops(1) Let_def drop_0 add_0 minus_nat.diff_0 assms(7) [symmetric] pipes_mach mem_mach lock_st_pipes lock_st_mem)
  have fin: "thenM (wakeup (PipeWrite pi)) (thenM (release ?l) (ret (Done (int k)))) (lock_st ?l ?t) =
      Inr (Done (int k), settle (?t\<lparr>ptable := woken (PipeWrite pi) (ptable ?t)\<rparr>))"
    by (rule wake_release) (use assms(1,2) in simp_all)
  have c: "(pipe_empty x \<and> writeopen x) = False" using assms(4) pipe_empty_iff by blast
  have gp: "get_pipe pi (lock_st ?l ?s) = Inr (x, lock_st ?l ?s)" using assms(3) by (simp add: get_pipe_def monad_simps)
  have "piperead_round p pi ua (int n) (lock_st ?l ?s) =
      Inr (Done (int k), settle (?t\<lparr>ptable := woken (PipeWrite pi) (ptable ?t)\<rparr>))"
    unfolding piperead_round_def
    by (rule bindM_run, rule gp, simp only: c if_False, rule bindM_run, rule loop, rule fin)
  then show ?thesis
    using calm_the_proc [OF assms(1)] acquire_eq [of ?l ?s] assms(2)
    by (simp add: piperead_begin_def bindM_run thenM_run settle_pipes settle_mem settle_ptable)
qed

lemma piperead_empty:
  fixes s :: "'a pipe_state_scheme"
  assumes "calm p s" and "lock_free (PipeLock pi) s" and "pipes s pi = Some x" and "pipe_list x = []" and "writeopen x"
  shows "if killed (ptable s p) then piperead_begin pi ua n s = Inr (Done (- 1), settle s)
    else \<exists>ie t. piperead_begin pi ua n s = Inr (Asleep 0 ie, t) \<and> switched s t \<and> lks t = lks s \<and>
      pipes t = pipes s \<and> mem t = mem s \<and>
      ptable t = (ptable s)(p := (ptable s p)\<lparr>chan := Some (PipeRead pi), p_state := SLEEPING\<rparr>)"
proof -
  let ?l = "PipeLock pi" and ?s = "settle s"
  have calm: "calm p ?s" and free: "lock_free ?l ?s" using assms(1,2) by simp_all
  have e: "pipe_empty x" using assms(4) pipe_empty_iff by blast
  have run: "piperead_begin pi ua n s = piperead_round p pi ua n (lock_st ?l ?s)"
    using calm_the_proc [OF assms(1)] acquire_eq [OF free] by (simp add: piperead_begin_def bindM_run thenM_run)
  obtain ie t where t: "sleep_begin (PipeRead pi) ?l (lock_st ?l ?s) = Inr (ie, t)" "switched ?s t" "lks t = lks ?s"
    "mach.more t = mach.more (?s\<lparr>ptable := (ptable ?s)(p := (ptable ?s p)\<lparr>chan := Some (PipeRead pi), p_state := SLEEPING\<rparr>)\<rparr>)"
    using calm_sleep [OF calm free, of "PipeRead pi"] by auto
  have rel: "release ?l (lock_st ?l ?s) = Inr ((), settle s)"
    using release_lock_st [OF calm_hart_ok [OF calm] free] by simp
  show ?thesis
  proof (cases "killed (ptable s p)")
    case True
    then show ?thesis using run e assms(3,5) rel calm_locked_the_proc [OF calm, of ?l]
      by (simp add: piperead_round_def monad_simps get_pipe_def get_proc_def)
  next
    case False
    then have "piperead_begin pi ua n s = Inr (Asleep 0 ie, t)"
      using run e assms(3,5) t(1) calm_locked_the_proc [OF calm, of ?l]
      by (simp add: piperead_round_def monad_simps get_pipe_def get_proc_def)
    then show ?thesis using False t(2,3) more_pipes [OF t(4)] by (simp add: switched_def)
  qed
qed

section \<open>Properties\<close>

text \<open>
  C7: \<open>pipewrite\<close> appends to the pipe's queue.  The bytes that fit go to the end of the queue, in
  order, also when a counter wraps.  If all fit, the call returns \<open>n\<close> and wakes the readers;
  otherwise, with the queue full, it returns -1 if no reader is left or the process is killed, and
  else wakes the readers and sleeps, the pipe's lock free again, having written what fits.
\<close>

theorem pipe_write_appends:
  fixes s :: "'a pipe_state_scheme"
  assumes "calm p s" and "lock_free (PipeLock pi) s" and "pipes s pi = Some x" and "pipe_ok x"
    and "copyin (mem s) (pagetable (ptable s p)) ua n = (0, bs)"
    and "k = min n (PIPESIZE - length (pipe_list x))" and "x' = fold pipe_put (take k bs) x"
  shows "pipe_list x' = pipe_list x @ take k bs \<and> pipe_ok x' \<and>
    (if k = n then pipewrite_begin pi ua (int n) s = Inr (Done (int n),
       settle (s\<lparr>pipes := (pipes s)(pi := Some x'), ptable := woken (PipeRead pi) (ptable s)\<rparr>))
     else if \<not> readopen x \<or> killed (ptable s p)
     then pipewrite_begin pi ua (int n) s = Inr (Done (- 1), settle (s\<lparr>pipes := (pipes s)(pi := Some x')\<rparr>))
     else \<exists>ie t. pipewrite_begin pi ua (int n) s = Inr (Asleep (int k) ie, t) \<and> switched s t \<and> lks t = lks s \<and>
      pipes t = (pipes s)(pi := Some x') \<and> mem t = mem s \<and>
      ptable t = (woken (PipeRead pi) (ptable s))(p := (woken (PipeRead pi) (ptable s) p)
        \<lparr>chan := Some (PipeWrite pi), p_state := SLEEPING\<rparr>))"
proof -
  have l: "pipe_list x' = pipe_list x @ take k bs" and ok: "pipe_ok x'"
    using assms(4,6,7) pipe_list_puts [of x "take k bs"] by (simp_all add: pipe_ok_def)
  show ?thesis
  proof (cases "k = n")
    case True
    then have "length (pipe_list x) + n \<le> PIPESIZE" using assms(4,6) by (simp add: pipe_ok_def)
    moreover have "take k bs = bs" using True copyin_length [OF assms(5)] by simp
    ultimately show ?thesis using True l ok assms(7) pipewrite_done [OF assms(1-3,5)] by simp
  next
    case False
    then have k: "PIPESIZE < length (pipe_list x) + n" "k = PIPESIZE - length (pipe_list x)" using assms(6) by auto
    show ?thesis using False l ok pipewrite_full [OF assms(1-5) k assms(7)] by simp
  qed
qed

text \<open>
  A pipe whose counters are about to wrap, holding one byte; process 1 runs, with one page of
  memory.
\<close>

definition wrap_pipe :: pipe where
  "wrap_pipe = \<lparr>pi_data = (\<lambda>_. 7), nread = - 2, nwrite = - 1, readopen = True, writeopen = True\<rparr>"

definition pipe_boot :: "bmem \<Rightarrow> pipe_state" where
  "pipe_boot m = \<lparr>hart = 0, cpus = (\<lambda>_. \<lparr>c_proc = Some 1, noff = 0, intena = False\<rparr>),
     sie = (\<lambda>_. False), lks = (\<lambda>_. \<lparr>locked = False, lk_cpu = None\<rparr>), lktab = [],
     nxt = (\<lambda>_. 0), prv = (\<lambda>_. 0), nsizes = 0, bd_base = 0, bd_sizes_ptr = 0, bd_sizes = [],
     mem = m, kernel_pagetable = 0, satp = 0,
     ptable = (\<lambda>_. no_proc\<lparr>pagetable := 0x1000, p_state := RUNNING\<rparr>), prio = (\<lambda>_. 0), lp_p = (\<lambda>_. 0),
     lp_next = (\<lambda>_. 0), initproc = None, nextpid = 1, pipes = (\<lambda>_. None)(0x9000 := Some wrap_pipe)\<rparr>"

lemma pipe_boot_calm: "calm 1 (pipe_boot m)" "lock_free l (pipe_boot m)" "pipes (pipe_boot m) 0x9000 = Some wrap_pipe"
  "mem (pipe_boot m) = m" "pagetable (ptable (pipe_boot m) p) = 0x1000"
  by (simp_all add: calm_def pipe_boot_def lock_free_def NPROC_def)

lemma wrap_pipe_list: "pipe_list wrap_pipe = [7]" "pipe_ok wrap_pipe"
  by (simp_all add: pipe_list_def pipe_ok_def wrap_pipe_def ring_list_def PIPESIZE_def)

theorem pipe_write_appends_witness:
  "\<exists>m t x'. pipewrite_begin 0x9000 5 3 (pipe_boot m) = Inr (Done 3, t) \<and> pipes t 0x9000 = Some x' \<and>
    pipe_list x' = [7, 1, 2, 3]"
proof -
  let ?m = "one_page(0x4005 := 1, 0x4006 := 2, 0x4007 := 3)"
  have "copyin_ref ?m 0x1000 5 3 = (0, map (\<lambda>i. ?m (0x4005 + int i)) [0..<3])"
    by (rule copyin_ref_backed, rule one_page_uaddr) simp_all
  then have "copyin ?m 0x1000 5 3 = (0, [1, 2, 3])" by (simp add: copyin_eq_ref upt_rec)
  then have c: "copyin (mem (pipe_boot ?m)) (pagetable (ptable (pipe_boot ?m) 1)) 5 3 = (0, [1, 2, 3])"
    by (simp add: pipe_boot_calm)
  have "3 = min 3 (PIPESIZE - length (pipe_list wrap_pipe))" by (simp add: wrap_pipe_list PIPESIZE_def)
  from pipe_write_appends [OF pipe_boot_calm(1,2,3) wrap_pipe_list(2) c this refl] show ?thesis
    by (intro exI [of _ ?m]) (auto simp: wrap_pipe_list)
qed

text \<open>
  C8: \<open>piperead\<close> takes from the front of the pipe's queue.  When there is something to read, or no
  writer is left, it moves the first bytes, at most \<open>n\<close>, to the user addresses in their order,
  changes no other byte of memory, leaves the rest of the queue, returns their number and wakes
  the writers; on an empty pipe with a writer it returns -1 if the process is killed, and else
  sleeps with the pipe's lock free again.
\<close>

theorem pipe_read_takes:
  fixes s :: "'a pipe_state_scheme"
  assumes "calm p s" and "lock_free (PipeLock pi) s" and "pipes s pi = Some x" and "pipe_ok x"
    and "backed (mem s) (pagetable (ptable s p)) ua as" and "length as = n" and "k = min n (length (pipe_list x))"
  shows "if pipe_list x \<noteq> [] \<or> \<not> writeopen x
    then \<exists>x' m. pipe_list x' = drop k (pipe_list x) \<and> pipe_ok x' \<and>
      (\<forall>i<k. m (as ! i) = pipe_list x ! i) \<and> (\<forall>a. a \<notin> set as \<longrightarrow> m a = mem s a) \<and>
      piperead_begin pi ua (int n) s = Inr (Done (int k), settle (s\<lparr>pipes := (pipes s)(pi := Some x'), mem := m,
        ptable := woken (PipeWrite pi) (ptable s)\<rparr>))
    else if killed (ptable s p) then piperead_begin pi ua (int n) s = Inr (Done (- 1), settle s)
    else \<exists>ie t. piperead_begin pi ua (int n) s = Inr (Asleep 0 ie, t) \<and> switched s t \<and> lks t = lks s \<and>
      pipes t = pipes s \<and> mem t = mem s \<and>
      ptable t = (ptable s)(p := (ptable s p)\<lparr>chan := Some (PipeRead pi), p_state := SLEEPING\<rparr>)"
proof (cases "pipe_list x \<noteq> [] \<or> \<not> writeopen x")
  case True
  let ?x = "(pipe_take ^^ k) x" and ?m = "upd_mem as (take k (pipe_list x)) (mem s)"
  have "pipe_list ?x = drop k (pipe_list x)" using assms(7) by (simp add: pipe_list_takes)
  moreover have "pipe_ok ?x" using calculation assms(4) by (simp add: pipe_ok_def)
  moreover have "\<forall>i<k. ?m (as ! i) = pipe_list x ! i"
    using assms(5-7) by (simp add: upd_mem_nth backed_def)
  moreover have "\<forall>a. a \<notin> set as \<longrightarrow> ?m a = mem s a" by (simp add: upd_mem_other)
  ultimately show ?thesis using True piperead_done [OF assms(1-3) True assms(5-7)] by auto
next
  case False
  then show ?thesis using piperead_empty [OF assms(1-3), of ua "int n"] by simp
qed

theorem pipe_read_takes_witness:
  "\<exists>t. piperead_begin 0x9000 5 3 (pipe_boot one_page) = Inr (Done 1, t) \<and> mem t 0x4005 = 7"
proof -
  have b: "backed (mem (pipe_boot one_page)) (pagetable (ptable (pipe_boot one_page) 1)) 5 [0x4005, 0x4006, 0x4007]"
    unfolding pipe_boot_calm by (rule one_page_backed) simp
  have "1 = min 3 (length (pipe_list wrap_pipe))" "length [0x4005, 0x4006, 0x4007] = (3 :: nat)"
    by (simp_all add: wrap_pipe_list)
  from pipe_read_takes [OF pipe_boot_calm(1,2,3) wrap_pipe_list(2) b this(2,1)] show ?thesis
    by (auto simp: wrap_pipe_list)
qed

end
