(* ===== verification/Bytes.thy ===== *)
theory Bytes
  imports Log
begin

text \<open>Integers as bytes, least significant byte first, and the words of a block.\<close>

lemma length_le_bytes [simp]: "length (le_bytes n w) = n"
  by (simp add: le_bytes_def)

lemma bit_of_le:
  "bit (of_le bs :: 'a::len word) n \<longleftrightarrow> n < LENGTH('a) \<and> n div 8 < length bs \<and> bit (bs ! (n div 8)) (n mod 8)"
proof (induction bs arbitrary: n)
  case Nil
  then show ?case by (simp add: of_le_def)
next
  case (Cons b bs)
  have s: "(of_le (b # bs) :: 'a word) = ucast b OR push_bit 8 (of_le bs)" by (simp add: of_le_def)
  show ?case
  proof (cases "n < 8")
    case True
    then show ?thesis unfolding s by (auto simp: bit_or_iff bit_push_bit_iff bit_ucast_iff)
  next
    case False
    then obtain m where m: "n = m + 8" using le_Suc_ex [of 8 n] by (auto simp: not_less add.commute)
    have "\<not> bit b n" using False bit_imp_le_length [of b n] by auto
    moreover have "(m + 8) div 8 = Suc (m div 8)" by simp
    ultimately show ?thesis unfolding s m using Cons.IH [of m] False m
      by (auto simp: bit_or_iff bit_push_bit_iff bit_ucast_iff dest: bit_imp_le_length)
  qed
qed

lemma of_le_le_bytes:
  fixes w :: "'a::len word"
  assumes "LENGTH('a) \<le> 8 * n"
  shows "of_le (le_bytes n w) = w"
proof (rule bit_word_eqI)
  fix i
  assume i: "i < LENGTH('a)"
  then have "i div 8 < n" using assms by (simp add: div_less_iff_less_mult mult.commute)
  moreover have "8 * (i div 8) + i mod 8 = i" by simp
  ultimately show "bit (of_le (le_bytes n w) :: 'a word) i = bit w i"
    using i by (simp add: bit_of_le le_bytes_def bit_ucast_iff bit_drop_bit_eq)
qed

lemma le_bytes_of_le:
  assumes "length bs = n" and "8 * n \<le> LENGTH('a)"
  shows "le_bytes n (of_le bs :: 'a::len word) = bs"
proof (rule nth_equalityI)
  fix i
  assume "i < length (le_bytes n (of_le bs :: 'a word))"
  then have i: "i < n" by simp
  show "le_bytes n (of_le bs :: 'a word) ! i = bs ! i"
  proof (rule bit_word_eqI)
    fix j
    assume "j < LENGTH(8)"
    then have j: "j < 8" by simp
    have "8 * i + j < LENGTH('a)" using i j assms(2) by linarith
    moreover have "(8 * i + j) div 8 = i" "(8 * i + j) mod 8 = j" using j by simp_all
    ultimately show "bit (le_bytes n (of_le bs :: 'a word) ! i) j = bit (bs ! i) j"
      using i j assms(1) by (simp add: le_bytes_def bit_ucast_iff bit_drop_bit_eq bit_of_le)
  qed
qed (simp add: assms(1))

section \<open>Words of a block\<close>

lemma length_put32: "4 * i + 4 \<le> length bs \<Longrightarrow> length (put32 bs i v) = length bs"
  by (simp add: put32_def)

lemma get32_put32: "4 * i + 4 \<le> length bs \<Longrightarrow> get32 (put32 bs i v) i = v"
  by (simp add: get32_def put32_def of_le_le_bytes)

lemma get32_put32_other:
  assumes "4 * i + 4 \<le> length bs" and "i \<noteq> j"
  shows "get32 (put32 bs i v) j = get32 bs j"
proof -
  have "take 4 (drop (4 * j) (put32 bs i v)) = take 4 (drop (4 * j) bs)"
  proof (cases "j < i")
    case True
    then have "4 * j + 4 \<le> 4 * i" "4 \<le> 4 * i - 4 * j" by simp_all
    then show ?thesis using assms(1) by (simp add: put32_def min_def drop_take)
  next
    case False
    then have "4 * i + 4 \<le> 4 * j" using assms(2) by simp
    then show ?thesis using assms(1) by (simp add: put32_def)
  qed
  then show ?thesis by (simp add: get32_def)
qed

end
