(* ===== verification/Bio_Cache.thy ===== *)
theory Bio_Cache
  imports Bio Proc_Calm
begin

text \<open>
  What the buffer cache guarantees.  The linked list of buffers is a sequence of all buffers
  (\<open>lru\<close>); a block is in at most one buffer that matters (\<open>uniq\<close>); a buffer that may be recycled
  holds what the disk holds (\<open>clean\<close>).  Under this invariant every operation has a description in
  terms of the contents of the buffers alone, without their links (\<open>core\<close>).
\<close>

section \<open>Locks of buffers\<close>

lemma slks_mach [simp]: "slks (lock_st l s) = slks s" "slks (settle s) = slks s"
  and lock_st_slks: "(lock_st l s)\<lparr>slks := f\<rparr> = lock_st l (s\<lparr>slks := f\<rparr>)"
  and settle_slks: "(settle s)\<lparr>slks := f\<rparr> = settle (s\<lparr>slks := f\<rparr>)"
  and calm_slks [simp]: "calm p (s\<lparr>slks := f\<rparr>) = calm p s"
  and lock_free_slks [simp]: "lock_free l (s\<lparr>slks := f\<rparr>) = lock_free l s"
  by (simp_all add: lock_st_def push_st_def settle_def calm_def lock_free_def)

lemma bufs_mach [simp]: "bufs (lock_st l s) = bufs s" "bufs (settle s) = bufs s"
  and lock_st_bufs: "(lock_st l s)\<lparr>bufs := f\<rparr> = lock_st l (s\<lparr>bufs := f\<rparr>)"
  and settle_bufs: "(settle s)\<lparr>bufs := f\<rparr> = settle (s\<lparr>bufs := f\<rparr>)"
  and calm_bufs [simp]: "calm p (s\<lparr>bufs := f\<rparr>) = calm p s"
  and lock_free_bufs [simp]: "lock_free l (s\<lparr>bufs := f\<rparr>) = lock_free l s"
  by (simp_all add: lock_st_def push_st_def settle_def calm_def lock_free_def)

lemma disk_mach [simp]: "disk (lock_st l s) = disk s" "disk (settle s) = disk s"
  and settle_disk: "(settle s)\<lparr>disk := g\<rparr> = settle (s\<lparr>disk := g\<rparr>)"
  and calm_disk [simp]: "calm p (s\<lparr>disk := g\<rparr>) = calm p s"
  and lock_free_disk [simp]: "lock_free l (s\<lparr>disk := g\<rparr>) = lock_free l s"
  by (simp_all add: lock_st_def push_st_def settle_def calm_def lock_free_def)

lemma inner_not_proc [simp]: "inner lk \<noteq> ProcLock q"
  by (cases lk) simp_all

lemma acquiresleep_free:
  assumes "calm p s" and "lock_free (inner lk) s" and "\<not> sl_locked (slks s lk)"
  shows "acquiresleep lk s = Inr ((), settle (s\<lparr>slks := (slks s)(lk := \<lparr>sl_locked = True, sl_pid = pid (ptable s p)\<rparr>)\<rparr>))"
proof -
  let ?l = "inner lk" and ?t = "\<lambda>v. s\<lparr>slks := (slks s)(lk := v)\<rparr>"
  let ?v = "(slks s lk)\<lparr>sl_locked := True\<rparr>" and ?w = "\<lparr>sl_locked = True, sl_pid = pid (ptable s p)\<rparr>"
  have w: "?v\<lparr>sl_pid := pid (ptable s p)\<rparr> = ?w" by (cases "slks s lk") simp
  have "the_proc (lock_st ?l (?t ?v)) = Inr (p, lock_st ?l (?t ?v))"
    by (rule calm_locked_the_proc) (simp add: assms(1))
  moreover have "release ?l (lock_st ?l (?t ?w)) = Inr ((), settle (?t ?w))"
    by (rule calm_release [of p]) (use assms in simp_all)
  ultimately show ?thesis using assms(2,3)
    by (simp add: acquiresleep_def acquiresleep_begin_def acquiresleep_round_def monad_simps acquire_eq
        lock_st_slks get_proc_def w)
qed

lemma releasesleep_eq:
  assumes "calm p s" and "lock_free (inner lk) s"
  shows "releasesleep lk s = Inr ((), settle (s\<lparr>slks := (slks s)(lk := \<lparr>sl_locked = False, sl_pid = 0\<rparr>),
    ptable := woken (sl_chan lk) (ptable s)\<rparr>))"
proof -
  let ?t = "s\<lparr>slks := (slks s)(lk := \<lparr>sl_locked = False, sl_pid = 0\<rparr>)\<rparr>"
  let ?u = "?t\<lparr>ptable := woken (sl_chan lk) (ptable ?t)\<rparr>"
  have "wakeup (sl_chan lk) (lock_st (inner lk) ?t) = Inr ((), lock_st (inner lk) ?u)"
    by (rule calm_wakeup [of p]) (use assms in simp_all)
  moreover have "release (inner lk) (lock_st (inner lk) ?u) = Inr ((), settle ?u)"
    by (rule calm_release [of p]) (use assms in simp_all)
  ultimately show ?thesis using assms(2)
    by (simp add: releasesleep_def upd_sl_def thenM_apply acquire_eq modify_apply lock_st_slks)
qed

lemma holdingsleep_eq:
  assumes "calm p s" and "lock_free (inner lk) s"
  shows "holdingsleep lk s = Inr (sl_locked (slks s lk) \<and> sl_pid (slks s lk) = pid (ptable s p), settle s)"
proof -
  have "release (inner lk) (lock_st (inner lk) s) = Inr ((), settle s)" by (rule calm_release) fact+
  then show ?thesis using assms calm_locked_the_proc [OF assms(1), of "inner lk"]
    by (simp add: holdingsleep_def monad_simps acquire_eq get_proc_def)
qed

section \<open>The list of buffers\<close>

fun chain :: "(nat \<Rightarrow> buf) \<Rightarrow> nat \<Rightarrow> nat list \<Rightarrow> nat \<Rightarrow> bool" where
  "chain B a [] z \<longleftrightarrow> b_next (B a) = z \<and> b_prev (B z) = a"
| "chain B a (x # xs) z \<longleftrightarrow> b_next (B a) = x \<and> b_prev (B x) = a \<and> chain B x xs z"

lemma chain_append [simp]: "chain B a (xs @ y # ys) z \<longleftrightarrow> chain B a xs y \<and> chain B y ys z"
  by (induction xs arbitrary: a) auto

lemma chain_cong:
  assumes "\<And>c. c \<in> set (a # xs) \<Longrightarrow> b_next (B' c) = b_next (B c)"
    and "\<And>c. c \<in> set (xs @ [z]) \<Longrightarrow> b_prev (B' c) = b_prev (B c)"
  shows "chain B' a xs z = chain B a xs z"
  using assms by (induction xs arbitrary: a) auto

lemma find_next:
  "chain B a xs NBUF \<Longrightarrow> NBUF \<notin> set xs \<Longrightarrow>
   bcache_find B P b_next (b_next (B a)) = Some (find (\<lambda>b. P (B b)) xs)"
proof (induction xs arbitrary: a)
  case Nil
  then show ?case by (subst bcache_find.simps) simp
next
  case (Cons x xs)
  then show ?case by (subst bcache_find.simps) auto
qed

lemma find_prev:
  "chain B NBUF xs z \<Longrightarrow> NBUF \<notin> set xs \<Longrightarrow>
   bcache_find B P b_prev (b_prev (B z)) = Some (find (\<lambda>b. P (B b)) (rev xs))"
proof (induction xs arbitrary: z rule: rev_induct)
  case Nil
  then show ?case by (subst bcache_find.simps) simp
next
  case (snoc x xs)
  then show ?case by (subst bcache_find.simps) auto
qed

lemma chain_unlink:
  assumes "chain B NBUF (xs @ b # ys) NBUF" and "distinct (xs @ b # ys)" and "NBUF \<notin> set (xs @ b # ys)"
    and "n = b_next (B b)" and "p = b_prev (B b)"
    and B': "\<And>c. b_next (B' c) = (if c = p then n else b_next (B c))"
      "\<And>c. b_prev (B' c) = (if c = n then p else b_prev (B c))"
  shows "chain B' NBUF (xs @ ys) NBUF"
proof (cases xs rule: rev_cases)
  case Nil
  then have p: "p = NBUF" using assms(1,5) by (cases ys) auto
  show ?thesis
  proof (cases ys)
    case Nil
    then show ?thesis using \<open>xs = []\<close> p assms(1,4) B' by simp
  next
    case (Cons v vs)
    then have "n = v" using assms(1,4) by simp
    moreover have "chain B' v vs NBUF = chain B v vs NBUF"
      by (rule chain_cong) (use assms(2,3) Cons p calculation B' in auto)
    ultimately show ?thesis using \<open>xs = []\<close> p assms(1) B' Cons by simp
  qed
next
  case (snoc us u)
  then have p: "p = u" using assms(1,5) by simp
  show ?thesis
  proof (cases ys)
    case Nil
    then have "n = NBUF" using assms(1,4) by simp
    moreover have "chain B' NBUF us u = chain B NBUF us u"
      by (rule chain_cong) (use assms(2,3) snoc p calculation B' in auto)
    ultimately show ?thesis using p assms(1) B' Nil snoc by simp
  next
    case (Cons v vs)
    then have n: "n = v" using assms(1,4) by simp
    have "chain B' NBUF us u = chain B NBUF us u"
      by (rule chain_cong) (use assms(2,3) snoc Cons p n B' in auto)
    moreover have "chain B' v vs NBUF = chain B v vs NBUF"
      by (rule chain_cong) (use assms(2,3) snoc Cons p n B' in auto)
    ultimately show ?thesis using p n assms(1) B' Cons snoc by simp
  qed
qed

lemma chain_link:
  assumes "chain B NBUF zs NBUF" and "b \<notin> set zs" and "b \<noteq> NBUF" and "NBUF \<notin> set zs" and "distinct zs"
    and "h = b_next (B NBUF)"
    and B': "\<And>c. b_next (B' c) = (if c = NBUF then b else if c = b then h else b_next (B c))"
      "\<And>c. b_prev (B' c) = (if c = h then b else if c = b then NBUF else b_prev (B c))"
  shows "chain B' NBUF (b # zs) NBUF"
proof (cases zs)
  case Nil
  then show ?thesis using assms by simp
next
  case (Cons v vs)
  then have h: "h = v" using assms(1,6) by simp
  have "chain B' v vs NBUF = chain B v vs NBUF"
    by (rule chain_cong) (use assms(2-5) Cons h B' in auto)
  then show ?thesis using assms Cons h by auto
qed

section \<open>The invariant\<close>

text \<open>A buffer without its links, and the block it is for.\<close>

definition core :: "buf \<Rightarrow> buf" where
  "core x = x\<lparr>b_prev := 0, b_next := 0\<rparr>"

lemma core_sel [simp]:
  "valid (core x) = valid x" "dev (core x) = dev x" "blockno (core x) = blockno x" "refcnt (core x) = refcnt x"
  "data (core x) = data x" "b_disk (core x) = b_disk x"
  by (simp_all add: core_def)

lemma core_links [simp]: "core (x\<lparr>b_prev := i\<rparr>) = core x" "core (x\<lparr>b_next := i\<rparr>) = core x"
  by (simp_all add: core_def)

definition cores :: "(nat \<Rightarrow> buf) \<Rightarrow> nat \<Rightarrow> buf" where
  "cores B = (\<lambda>b. core (B b))"

definition bkey :: "buf \<Rightarrow> 32 word \<times> 32 word" where
  "bkey x = (dev x, blockno x)"

lemma bkey_core [simp]: "bkey (core x) = bkey x"
  by (simp add: bkey_def)

definition lru :: "(nat \<Rightarrow> buf) \<Rightarrow> nat list \<Rightarrow> bool" where
  "lru B xs \<longleftrightarrow> chain B NBUF xs NBUF \<and> distinct xs \<and> set xs = {0..<NBUF}"

text \<open>
  Two buffers for the same block are two that were never used: only block 0 of device 0, with which
  the buffers start, is the block of several buffers.
\<close>

definition uniq :: "(nat \<Rightarrow> buf) \<Rightarrow> bool" where
  "uniq C \<longleftrightarrow> (\<forall>b<NBUF. \<forall>c<NBUF. b \<noteq> c \<and> bkey (C b) = bkey (C c) \<longrightarrow>
     bkey (C b) = (0, 0) \<and> \<not> valid (C b) \<and> refcnt (C b) = 0)"

definition clean :: "(nat \<Rightarrow> buf) \<Rightarrow> (32 word \<Rightarrow> 32 word \<Rightarrow> byte list) \<Rightarrow> bool" where
  "clean C D \<longleftrightarrow> (\<forall>b<NBUF. valid (C b) \<and> refcnt (C b) = 0 \<longrightarrow> data (C b) = D (dev (C b)) (blockno (C b)))"

text \<open>What a reader sees of a block: the cached contents, or else those of the disk.\<close>

definition blk :: "(nat \<Rightarrow> buf) \<Rightarrow> (32 word \<Rightarrow> 32 word \<Rightarrow> byte list) \<Rightarrow> 32 word \<times> 32 word \<Rightarrow> byte list" where
  "blk C D k = (case find (\<lambda>b. bkey (C b) = k \<and> valid (C b)) [0..<NBUF] of
     Some b \<Rightarrow> data (C b) | None \<Rightarrow> D (fst k) (snd k))"

definition cache :: "nat \<Rightarrow> 'a bstate_scheme \<Rightarrow> bool" where
  "cache p s \<longleftrightarrow> calm p s \<and> lock_free BcacheLock s \<and> (\<forall>b. lock_free (BufInner b) s) \<and>
     (\<exists>xs. lru (bufs s) xs) \<and> uniq (cores (bufs s)) \<and> clean (cores (bufs s)) (disk s)"

section \<open>What a reader sees\<close>

lemma uniqD: "uniq C \<Longrightarrow> b < NBUF \<Longrightarrow> c < NBUF \<Longrightarrow> bkey (C b) = bkey (C c) \<Longrightarrow> valid (C b) \<Longrightarrow> b = c"
  unfolding uniq_def by blast

lemma uniq_key: "uniq C \<Longrightarrow> b < NBUF \<Longrightarrow> c < NBUF \<Longrightarrow> bkey (C b) = bkey (C c) \<Longrightarrow> bkey (C b) \<noteq> (0, 0) \<Longrightarrow> b = c"
  unfolding uniq_def by blast

lemma blk_cached:
  assumes "uniq C" and "b < NBUF" and "bkey (C b) = k" and "valid (C b)"
  shows "blk C D k = data (C b)"
proof (cases "find (\<lambda>b. bkey (C b) = k \<and> valid (C b)) [0..<NBUF]")
  case None
  then show ?thesis using assms by (auto simp: find_None_iff)
next
  case (Some c)
  then have "c < NBUF" "bkey (C c) = k" using find_in [OF Some] by auto
  then have "b = c" using uniqD [OF assms(1,2)] assms(3,4) by simp
  then show ?thesis using Some by (simp add: blk_def)
qed

lemma blk_uncached:
  assumes "\<And>b. b < NBUF \<Longrightarrow> bkey (C b) = k \<Longrightarrow> \<not> valid (C b)"
  shows "blk C D k = D (fst k) (snd k)"
proof -
  have "find (\<lambda>b. bkey (C b) = k \<and> valid (C b)) [0..<NBUF] = None" using assms by (auto simp: find_None_iff)
  then show ?thesis by (simp add: blk_def)
qed

lemma blk_upd:
  assumes "uniq C" and "uniq (C(b := x))" and "b < NBUF"
  shows "blk (C(b := x)) D k = (if bkey x = k \<and> valid x then data x
    else if bkey (C b) = k \<and> valid (C b) then D (fst k) (snd k) else blk C D k)"
proof (cases "bkey x = k \<and> valid x")
  case True
  then show ?thesis using blk_cached [OF assms(2,3)] by simp
next
  case False
  show ?thesis
  proof (cases "bkey (C b) = k \<and> valid (C b)")
    case True
    have "blk (C(b := x)) D k = D (fst k) (snd k)"
    proof (rule blk_uncached)
      fix c
      assume c: "c < NBUF" "bkey ((C(b := x)) c) = k"
      then have "c = b" using uniqD [OF assms(1,3) c(1)] True by (cases "c = b") simp_all
      then show "\<not> valid ((C(b := x)) c)" using False c by simp
    qed
    then show ?thesis using True False by auto
  next
    case unc: False
    show ?thesis
    proof (cases "\<exists>c<NBUF. bkey (C c) = k \<and> valid (C c)")
      case True
      then obtain c where c: "c < NBUF" "bkey (C c) = k" "valid (C c)" "c \<noteq> b" using unc by auto
      then show ?thesis using False unc blk_cached [OF assms(1) c(1-3)] blk_cached [OF assms(2) c(1), of k] by auto
    next
      case none: False
      have "blk (C(b := x)) D k = D (fst k) (snd k)"
        by (rule blk_uncached) (use none False in \<open>auto split: if_splits\<close>)
      moreover have "blk C D k = D (fst k) (snd k)" by (rule blk_uncached) (use none in auto)
      ultimately show ?thesis using False unc by auto
    qed
  qed
qed

definition keeps :: "'a bstate_scheme \<Rightarrow> 'a bstate_scheme \<Rightarrow> bool" where
  "keeps s t \<longleftrightarrow> bstate.more t = bstate.more s \<and> mem t = mem s \<and> (\<forall>q. pid (ptable t q) = pid (ptable s q))"

lemma keeps_refl [simp]: "keeps s s"
  by (simp add: keeps_def)

lemma keeps_trans [trans]: "keeps s t \<Longrightarrow> keeps t u \<Longrightarrow> keeps s u"
  by (simp add: keeps_def)

lemma pid_woken [simp]: "pid (woken ch tab q) = pid (tab q)"
  by (simp add: woken_def wake_def)

lemma more_mach [simp]: "bstate.more (settle s) = bstate.more s"
  by (simp add: settle_def)

lemma cores_upd: "cores (B(b := x)) = (cores B)(b := core x)"
  by (auto simp: cores_def)

lemma cores_app: "cores B b = core (B b)"
  by (simp add: cores_def)

text \<open>An update of a buffer other than its links keeps the order.\<close>

lemma lru_upd: "b_next x = b_next (B b) \<Longrightarrow> b_prev x = b_prev (B b) \<Longrightarrow> lru (B(b := x)) xs = lru B xs"
  unfolding lru_def by (subst chain_cong [of _ _ "B(b := x)" B]) auto

definition held :: "nat \<Rightarrow> 'a bstate_scheme \<Rightarrow> sleeplock" where
  "held p s = \<lparr>sl_locked = True, sl_pid = pid (ptable s p)\<rparr>"

section \<open>Reading\<close>

definition bhit :: "buf \<Rightarrow> buf" where
  "bhit x = x\<lparr>refcnt := refcnt x + 1\<rparr>"

definition bmiss :: "32 word \<times> 32 word \<Rightarrow> buf \<Rightarrow> buf" where
  "bmiss k x = x\<lparr>dev := fst k, blockno := snd k, valid := False, refcnt := 1\<rparr>"

text \<open>The buffer \<open>bget\<close> chooses and what it makes of it.\<close>

lemma bget_run:
  assumes c: "cache p s" and "lru (bufs s) xs" and b: "b < NBUF" and l: "\<not> sl_locked (slks s (BufLock b))"
    and f: "find (\<lambda>b. bkey (bufs s b) = (d, n)) xs = Some b \<and> x = bhit (bufs s b) \<or>
      find (\<lambda>b. bkey (bufs s b) = (d, n)) xs = None \<and> find (\<lambda>b. refcnt (bufs s b) = 0) (rev xs) = Some b \<and>
      x = bmiss (d, n) (bufs s b)"
  shows "bget d n s = Inr (b, settle (s\<lparr>bufs := (bufs s)(b := x), slks := (slks s)(BufLock b := held p s)\<rparr>))"
proof -
  let ?u = "settle (s\<lparr>bufs := (bufs s)(b := x)\<rparr>)"
  have xs: "chain (bufs s) NBUF xs NBUF" "NBUF \<notin> set xs" using assms(2) by (simp_all add: lru_def)
  have calm: "calm p s" "lock_free BcacheLock s" "lock_free (BufInner b) s" using c by (simp_all add: cache_def)
  have key: "(\<lambda>x. dev x = d \<and> blockno x = n) = (\<lambda>x. bkey x = (d, n))" by (auto simp: bkey_def)
  have r: "release BcacheLock (lock_st BcacheLock (s\<lparr>bufs := (bufs s)(b := x)\<rparr>)) = Inr ((), ?u)"
    by (rule calm_release [of p]) (use calm in simp_all)
  have a: "acquiresleep (BufLock b) ?u =
      Inr ((), settle (?u\<lparr>slks := (slks ?u)(BufLock b := held p s)\<rparr>))"
    using acquiresleep_free [of p ?u "BufLock b"] calm l by (simp add: held_def)
  have n: "bcache_find (bufs s) (\<lambda>x. bkey x = (d, n)) b_next (b_next (bufs s NBUF)) = Some (find (\<lambda>b. bkey (bufs s b) = (d, n)) xs)"
    and v: "bcache_find (bufs s) (\<lambda>x. refcnt x = 0) b_prev (b_prev (bufs s NBUF)) = Some (find (\<lambda>b. refcnt (bufs s b) = 0) (rev xs))"
    by (rule find_next [OF xs], rule find_prev [OF xs])
  from f show ?thesis
  proof
    assume "find (\<lambda>b. bkey (bufs s b) = (d, n)) xs = Some b \<and> x = bhit (bufs s b)"
    then show ?thesis using n r a calm(2)
      by (simp add: bget_def monad_simps acquire_eq key upd_buf_def lock_st_bufs bhit_def [symmetric] settle_slks)
  next
    assume "find (\<lambda>b. bkey (bufs s b) = (d, n)) xs = None \<and> find (\<lambda>b. refcnt (bufs s b) = 0) (rev xs) = Some b \<and>
      x = bmiss (d, n) (bufs s b)"
    then show ?thesis using n v r a calm(2)
      by (simp add: bget_def monad_simps acquire_eq key upd_buf_def lock_st_bufs bmiss_def [symmetric, of "(d, n)", simplified] settle_slks)
  qed
qed

lemma slks_bufs: "s\<lparr>slks := f, bufs := g\<rparr> = s\<lparr>bufs := g, slks := f\<rparr>"
  by simp

lemma uniq_upd:
  assumes "uniq C" and "\<And>c. c < NBUF \<Longrightarrow> c \<noteq> b \<Longrightarrow> bkey (C c) \<noteq> bkey x"
  shows "uniq (C(b := x))"
  unfolding uniq_def
proof (intro allI impI)
  fix a c
  assume a: "a < NBUF" "c < NBUF" "a \<noteq> c \<and> bkey ((C(b := x)) a) = bkey ((C(b := x)) c)"
  then have "a \<noteq> b" "c \<noteq> b" using assms(2) [of a] assms(2) [of c] by auto
  then show "bkey ((C(b := x)) a) = (0, 0) \<and> \<not> valid ((C(b := x)) a) \<and> refcnt ((C(b := x)) a) = 0"
    using assms(1) a unfolding uniq_def by simp
qed

lemma clean_upd:
  "clean C D \<Longrightarrow> (valid x \<Longrightarrow> refcnt x = 0 \<Longrightarrow> data x = D (dev x) (blockno x)) \<Longrightarrow> clean (C(b := x)) D"
  by (simp add: clean_def)

lemma cache_upd:
  assumes "cache p s" and "bufs t = (bufs s)(b := x)" and "b_next x = b_next (bufs s b)" and "b_prev x = b_prev (bufs s b)"
    and "calm p t" and "\<And>l. lock_free l t = lock_free l s"
    and "uniq ((cores (bufs s))(b := core x))" and "clean ((cores (bufs s))(b := core x)) (disk t)"
  shows "cache p t"
  using assms by (simp add: cache_def cores_upd lru_upd)

lemma find_lru:
  assumes "lru B xs"
  shows "find P xs = Some b \<Longrightarrow> b < NBUF \<and> P b" and "find P (rev xs) = Some b \<Longrightarrow> b < NBUF \<and> P b"
    and "find P xs = None \<Longrightarrow> c < NBUF \<Longrightarrow> \<not> P c" and "find P (rev xs) = None \<Longrightarrow> c < NBUF \<Longrightarrow> \<not> P c"
proof -
  have "set xs = {0..<NBUF}" using assms by (simp add: lru_def)
  then show "find P xs = Some b \<Longrightarrow> b < NBUF \<and> P b" "find P (rev xs) = Some b \<Longrightarrow> b < NBUF \<and> P b"
    "find P xs = None \<Longrightarrow> c < NBUF \<Longrightarrow> \<not> P c" "find P (rev xs) = None \<Longrightarrow> c < NBUF \<Longrightarrow> \<not> P c"
    using find_in [of P xs b] find_in [of P "rev xs" b] by (auto simp: find_None_iff)
qed

text \<open>
  The outcome of reading block \<open>k\<close>: the buffer, what it holds, and that nothing else changes.  The
  buffer was that of the block, or one that nobody used.
\<close>

definition read_post :: "nat \<Rightarrow> 'a bstate_scheme \<Rightarrow> 32 word \<times> 32 word \<Rightarrow> nat \<Rightarrow> buf \<Rightarrow> 'a bstate_scheme \<Rightarrow> bool" where
  "read_post p s k b x t \<longleftrightarrow> cache p t \<and> keeps s t \<and> disk t = disk s \<and> b < NBUF \<and>
     bkey x = k \<and> valid x \<and> data x = blk (cores (bufs s)) (disk s) k \<and>
     (if bkey (bufs s b) = k then refcnt x = refcnt (bufs s b) + 1
      else refcnt x = 1 \<and> refcnt (bufs s b) = 0 \<and> (\<forall>c<NBUF. bkey (bufs s c) \<noteq> k)) \<and>
     cores (bufs t) = (cores (bufs s))(b := x) \<and> slks t = (slks s)(BufLock b := held p s) \<and>
     \<not> sl_locked (slks s (BufLock b)) \<and>
     (\<forall>k'. blk (cores (bufs t)) (disk t) k' = blk (cores (bufs s)) (disk s) k')"

lemma bread_ok:
  assumes c: "cache p s" and k: "k = (d, n)" "k \<noteq> (0, 0)"
    and hit: "\<And>b. b < NBUF \<Longrightarrow> bkey (bufs s b) = k \<Longrightarrow> \<not> sl_locked (slks s (BufLock b)) \<and> refcnt (bufs s b) \<noteq> - 1"
    and idle: "\<And>b. b < NBUF \<Longrightarrow> refcnt (bufs s b) = 0 \<Longrightarrow> \<not> sl_locked (slks s (BufLock b))"
    and room: "(\<exists>b<NBUF. bkey (bufs s b) = k) \<or> (\<exists>b<NBUF. refcnt (bufs s b) = 0)"
  shows "\<exists>b x t. bread d n s = Inr (b, t) \<and> read_post p s k b x t"
proof -
  obtain xs where xs: "lru (bufs s) xs" and u: "uniq (cores (bufs s))" and cl: "clean (cores (bufs s)) (disk s)"
    using c by (auto simp: cache_def)
  let ?C = "cores (bufs s)" and ?D = "disk s"
  define r where "r = find (\<lambda>b. bkey (bufs s b) = k) xs"
  obtain b y where b: "b < NBUF" "\<not> sl_locked (slks s (BufLock b))"
    and y: "r = Some b \<and> bkey (bufs s b) = k \<and> refcnt (bufs s b) \<noteq> - 1 \<and> y = bhit (bufs s b) \<or>
      r = None \<and> find (\<lambda>b. refcnt (bufs s b) = 0) (rev xs) = Some b \<and> refcnt (bufs s b) = 0 \<and>
      (\<forall>c<NBUF. bkey (bufs s c) \<noteq> k) \<and> y = bmiss k (bufs s b)"
  proof (cases r)
    case None
    then have nk: "\<forall>c<NBUF. bkey (bufs s c) \<noteq> k" using find_lru(3) [OF xs] by (auto simp: r_def)
    obtain b where f: "find (\<lambda>b. refcnt (bufs s b) = 0) (rev xs) = Some b"
      using room nk find_lru(4) [OF xs, of "\<lambda>b. refcnt (bufs s b) = 0"]
      by (cases "find (\<lambda>b. refcnt (bufs s b) = 0) (rev xs)") blast+
    then show thesis using that [of b "bmiss k (bufs s b)"] None nk idle find_lru(2) [OF xs f] by blast
  next
    case (Some b)
    then have "b < NBUF \<and> bkey (bufs s b) = k" using find_lru(1) [OF xs] by (auto simp: r_def)
    then show thesis using that [of b "bhit (bufs s b)"] Some hit by blast
  qed
  let ?v = "settle (s\<lparr>bufs := (bufs s)(b := y), slks := (slks s)(BufLock b := held p s)\<rparr>)"
  have get: "bget d n s = Inr (b, ?v)"
    by (rule bget_run [OF c xs b]) (use y k in \<open>auto simp: r_def\<close>)
  let ?x = "if valid y then y else y\<lparr>data := ?D d n, valid := True\<rparr>"
  let ?t = "?v\<lparr>bufs := (bufs s)(b := ?x)\<rparr>"
  have ky: "bkey y = k" "dev y = d" "blockno y = n" using y k by (auto simp: bhit_def bmiss_def bkey_def)
  have run: "bread d n s = Inr (b, ?t)"
  proof (cases "valid y")
    case True
    then show ?thesis using get by (simp add: bread_def monad_simps get_buf_def settle_bufs slks_bufs)
  next
    case False
    then show ?thesis using get ky
      by (simp add: bread_def monad_simps get_buf_def disk_rw_def upd_buf_def)
  qed
  let ?X = "core ?x"
  have rx: "refcnt ?x \<noteq> 0" using y by (auto simp: bhit_def bmiss_def eq_neg_iff_add_eq_0)
  have kx: "bkey ?x = k" using ky by (simp add: bkey_def)
  have other: "bkey (?C c) \<noteq> bkey ?X" if "c < NBUF" "c \<noteq> b" for c
    using y uniq_key [OF u that(1) b(1)] that kx k(2) by (auto simp: cores_app)
  have ux: "uniq (?C(b := ?X))" by (rule uniq_upd [OF u]) (rule other)
  have cx: "clean (?C(b := ?X)) ?D" by (rule clean_upd [OF cl]) (use rx in simp)
  have dx: "data ?x = blk ?C ?D k"
  proof (cases "valid y")
    case True
    then have "bkey (?C b) = k" "valid (?C b)" "data y = data (?C b)"
      using y by (auto simp: bhit_def bmiss_def cores_app)
    then show ?thesis using True blk_cached [OF u b(1)] by simp
  next
    case False
    have "\<not> valid (?C c)" if "c < NBUF" "bkey (?C c) = k" for c
      using y other [of c] that kx False by (cases "c = b") (auto simp: bhit_def cores_app)
    then have "blk ?C ?D k = ?D (fst k) (snd k)" by (rule blk_uncached)
    then show ?thesis using False k by simp
  qed
  have bx: "blk (?C(b := ?X)) ?D k' = blk ?C ?D k'" for k'
  proof (cases "k' = k")
    case True
    then show ?thesis using dx kx by (simp add: blk_upd [OF u ux b(1)])
  next
    case False
    have "?D (fst k') (snd k') = blk ?C ?D k'" if v: "bkey (?C b) = k'" "valid (?C b)"
    proof -
      have "refcnt (?C b) = 0" using y v(1) False by (auto simp: cores_app)
      then have "data (?C b) = ?D (fst k') (snd k')" using cl b(1) v by (auto simp: clean_def bkey_def)
      then show ?thesis using blk_cached [OF u b(1) v] by simp
    qed
    then show ?thesis using False kx by (simp add: blk_upd [OF u ux b(1)])
  qed
  have "cache p ?t"
    by (rule cache_upd [OF c, of _ b ?x])
       (use y c ux cx in \<open>auto simp: cache_def bhit_def bmiss_def settle_bufs\<close>)
  moreover have "if bkey (bufs s b) = k then refcnt ?x = refcnt (bufs s b) + 1
      else refcnt ?x = 1 \<and> refcnt (bufs s b) = 0 \<and> (\<forall>c<NBUF. bkey (bufs s c) \<noteq> k)"
    using y b(1) by (auto simp: bhit_def bmiss_def)
  moreover have "valid ?x" by simp
  ultimately have "read_post p s k b ?X ?t"
    unfolding read_post_def using b kx dx bx by (simp add: keeps_def cores_upd)
  then show ?thesis using run by blast
qed

section \<open>Writing and releasing\<close>

definition wr :: "(32 word \<Rightarrow> 32 word \<Rightarrow> byte list) \<Rightarrow> 32 word \<times> 32 word \<Rightarrow> byte list \<Rightarrow> 32 word \<Rightarrow> 32 word \<Rightarrow> byte list" where
  "wr D k v = D(fst k := (D (fst k))(snd k := v))"

lemma wr_app: "wr D k v d n = (if (d, n) = k then v else D d n)"
  by (cases k) (simp add: wr_def)

lemma bwrite_ok:
  assumes c: "cache p s" and "slks s (BufLock b) = held p s" and b: "b < NBUF"
  shows "bwrite b s = Inr ((), settle (s\<lparr>disk := wr (disk s) (bkey (bufs s b)) (data (bufs s b))\<rparr>)) \<and>
    cache p (settle (s\<lparr>disk := wr (disk s) (bkey (bufs s b)) (data (bufs s b))\<rparr>))" (is "_ \<and> cache p ?t")
proof -
  have calm: "calm p s" "lock_free (BufInner b) s" using c by (simp_all add: cache_def)
  have "bwrite b s = Inr ((), ?t)"
    using holdingsleep_eq [OF calm(1), of "BufLock b"] calm(2) assms(2)
    by (simp add: bwrite_def monad_simps get_buf_def disk_rw_def held_def bkey_def wr_def settle_disk)
  moreover have "clean (cores (bufs s)) (wr (disk s) (bkey (bufs s b)) (data (bufs s b)))"
    unfolding clean_def
  proof (intro allI impI)
    fix a
    assume a: "a < NBUF" "valid (cores (bufs s) a) \<and> refcnt (cores (bufs s) a) = 0"
    have u: "uniq (cores (bufs s))" and cl: "clean (cores (bufs s)) (disk s)" using c by (simp_all add: cache_def)
    show "data (cores (bufs s) a) = wr (disk s) (bkey (bufs s b)) (data (bufs s b)) (dev (cores (bufs s) a)) (blockno (cores (bufs s) a))"
    proof (cases "bkey (bufs s a) = bkey (bufs s b)")
      case True
      then have "a = b" using uniqD [OF u a(1) b] a(2) by (simp add: cores_app)
      then show ?thesis by (simp add: wr_app cores_app bkey_def)
    next
      case False
      then have "(dev (bufs s a), blockno (bufs s a)) \<noteq> bkey (bufs s b)" by (simp add: bkey_def)
      then show ?thesis using cl a by (simp add: wr_app clean_def cores_app)
    qed
  qed
  ultimately show ?thesis using c by (simp add: cache_def)
qed

text \<open>The move of a buffer to the front of the list.\<close>

definition relink :: "nat \<Rightarrow> (nat \<Rightarrow> buf) \<Rightarrow> nat \<Rightarrow> buf" where
  "relink b B = (let x = B b;
     B1 = B(b_next x := (B (b_next x))\<lparr>b_prev := b_prev x\<rparr>);
     B2 = B1(b_prev x := (B1 (b_prev x))\<lparr>b_next := b_next x\<rparr>);
     h = B2 NBUF;
     B3 = B2(b := (B2 b)\<lparr>b_next := b_next h\<rparr>);
     B4 = B3(b := (B3 b)\<lparr>b_prev := NBUF\<rparr>);
     B5 = B4(b_next (B4 NBUF) := (B4 (b_next (B4 NBUF)))\<lparr>b_prev := b\<rparr>)
     in B5(NBUF := (B5 NBUF)\<lparr>b_next := b\<rparr>))"

lemma cores_link: "core x = core (B b) \<Longrightarrow> cores (B(b := x)) = cores B"
  by (auto simp: cores_def)

lemma cores_relink [simp]: "cores (relink b B) = cores B"
  by (simp only: relink_def Let_def cores_link core_links)

lemma relink_lru:
  assumes "lru B xs" and "b < NBUF"
  shows "lru (relink b B) (b # remove1 b xs)"
proof -
  have xs: "chain B NBUF xs NBUF" "distinct xs" "set xs = {0..<NBUF}" using assms(1) by (simp_all add: lru_def)
  have "b \<in> set xs" using assms(2) xs(3) by simp
  then obtain us vs where uv: "xs = us @ b # vs" by (meson split_list)
  have r: "remove1 b xs = us @ vs" using uv xs(2) by (simp add: remove1_append)
  let ?n = "b_next (B b)" and ?p = "b_prev (B b)"
  define B1 where "B1 = B(?n := (B ?n)\<lparr>b_prev := ?p\<rparr>)"
  define B2 where "B2 = B1(?p := (B1 ?p)\<lparr>b_next := ?n\<rparr>)"
  have n2: "b_next (B2 c) = (if c = ?p then ?n else b_next (B c))"
    and p2: "b_prev (B2 c) = (if c = ?n then ?p else b_prev (B c))" for c
    by (simp_all add: B2_def B1_def)
  have N: "NBUF \<notin> set (us @ b # vs)" using xs(3) uv by auto
  have c2: "chain B2 NBUF (us @ vs) NBUF"
    by (rule chain_unlink [of B us b vs ?n ?p B2]) (use xs(1,2) uv N in \<open>simp_all add: n2 p2\<close>)
  let ?h = "b_next (B2 NBUF)"
  have bn: "b \<notin> set (us @ vs)" "b \<noteq> NBUF" using xs(2) uv assms(2) by auto
  have hb: "?h \<noteq> b"
  proof (cases "us @ vs")
    case Nil
    then show ?thesis using c2 bn(2) by auto
  next
    case (Cons v ws)
    then have "?h \<in> set (us @ vs)" using c2 by simp
    then show ?thesis using bn(1) by auto
  qed
  have e: "relink b B = (B2(b := (B2 b)\<lparr>b_next := ?h, b_prev := NBUF\<rparr>, ?h := (B2 ?h)\<lparr>b_prev := b\<rparr>))
      (NBUF := ((B2(b := (B2 b)\<lparr>b_next := ?h, b_prev := NBUF\<rparr>, ?h := (B2 ?h)\<lparr>b_prev := b\<rparr>)) NBUF)\<lparr>b_next := b\<rparr>)"
    unfolding relink_def Let_def B1_def [symmetric] B2_def [symmetric] using hb bn(2) by simp
  have "chain (relink b B) NBUF (b # us @ vs) NBUF"
    by (rule chain_link [OF c2, where h = ?h]) (use xs(2) uv N hb assms(2) in \<open>auto simp: e\<close>)
  then show ?thesis using xs(2,3) uv unfolding lru_def r by auto
qed

text \<open>A change of a buffer's reference count and contents, with the block and the links kept.\<close>

lemma cache_buf:
  assumes c: "cache p s" and b: "b < NBUF" and k: "bkey (bufs s b) \<noteq> (0, 0)"
    and "bkey x = bkey (bufs s b)" and "b_next x = b_next (bufs s b)" and "b_prev x = b_prev (bufs s b)"
    and "valid x \<Longrightarrow> refcnt x = 0 \<Longrightarrow> data x = disk s (dev x) (blockno x)"
    and "bufs t = (bufs s)(b := x)" and "disk t = disk s" and "calm p t" and "\<And>l. lock_free l t = lock_free l s"
  shows "cache p t"
proof (rule cache_upd [OF c assms(8,5,6,10,11)])
  have u: "uniq (cores (bufs s))" and cl: "clean (cores (bufs s)) (disk s)" using c by (simp_all add: cache_def)
  show "uniq ((cores (bufs s))(b := core x))"
  proof (rule uniq_upd [OF u])
    fix a
    assume a: "a < NBUF" "a \<noteq> b"
    show "bkey (cores (bufs s) a) \<noteq> bkey (core x)"
      using uniq_key [OF u a(1) b] a k assms(4) by (auto simp: cores_app)
  qed
  show "clean ((cores (bufs s))(b := core x)) (disk t)"
    unfolding assms(9) by (rule clean_upd [OF cl]) (use assms(7) in simp)
qed

definition bdec :: "buf \<Rightarrow> buf" where
  "bdec x = x\<lparr>refcnt := refcnt x - 1\<rparr>"

lemma bdec_sel [simp]:
  "bkey (bdec x) = bkey x" "valid (bdec x) = valid x" "data (bdec x) = data x" "refcnt (bdec x) = refcnt x - 1"
  "dev (bdec x) = dev x" "blockno (bdec x) = blockno x" "b_next (bdec x) = b_next x" "b_prev (bdec x) = b_prev x"
  by (simp_all add: bdec_def bkey_def)

lemma core_bdec: "core (bdec x) = bdec (core x)"
  by (simp add: bdec_def core_def)

lemma bunpin_ok:
  assumes c: "cache p s" and b: "b < NBUF" and k: "bkey (bufs s b) \<noteq> (0, 0)"
    and "valid (bufs s b) \<Longrightarrow> refcnt (bufs s b) = 1 \<Longrightarrow> data (bufs s b) = disk s (dev (bufs s b)) (blockno (bufs s b))"
  shows "bunpin b s = Inr ((), settle (s\<lparr>bufs := (bufs s)(b := bdec (bufs s b))\<rparr>)) \<and>
    cache p (settle (s\<lparr>bufs := (bufs s)(b := bdec (bufs s b))\<rparr>))" (is "_ \<and> cache p ?t")
proof
  have calm: "calm p s" "lock_free BcacheLock s" using c by (simp_all add: cache_def)
  have "release BcacheLock (lock_st BcacheLock (s\<lparr>bufs := (bufs s)(b := bdec (bufs s b))\<rparr>)) = Inr ((), ?t)"
    by (rule calm_release [of p]) (use calm in simp_all)
  then show "bunpin b s = Inr ((), ?t)"
    using calm(2) by (simp add: bunpin_def monad_simps acquire_eq upd_buf_def lock_st_bufs bdec_def)
  show "cache p ?t"
    by (rule cache_buf [OF c b k, of "bdec (bufs s b)"]) (use calm(1) assms(4) in simp_all)
qed

lemma relink_run:
  "thenM (upd_buf (b_next (bufs v b)) (\<lambda>y. y\<lparr>b_prev := b_prev (bufs v b)\<rparr>))
    (thenM (upd_buf (b_prev (bufs v b)) (\<lambda>y. y\<lparr>b_next := b_next (bufs v b)\<rparr>))
    (bindM (get_buf NBUF) (\<lambda>h.
     thenM (upd_buf b (\<lambda>y. y\<lparr>b_next := b_next h\<rparr>))
    (thenM (upd_buf b (\<lambda>y. y\<lparr>b_prev := NBUF\<rparr>))
    (link_front b))))) v = Inr ((), v\<lparr>bufs := relink b (bufs v)\<rparr>)"
  by (simp add: monad_simps upd_buf_def get_buf_def link_front_def relink_def Let_def del: fun_upd_apply)

lemma brelse_ok:
  assumes c: "cache p s" and b: "b < NBUF" and k: "bkey (bufs s b) \<noteq> (0, 0)"
    and h: "slks s (BufLock b) = held p s"
    and d: "valid (bufs s b) \<Longrightarrow> refcnt (bufs s b) = 1 \<Longrightarrow> data (bufs s b) = disk s (dev (bufs s b)) (blockno (bufs s b))"
  shows "\<exists>t. brelse b s = Inr ((), t) \<and> cache p t \<and> keeps s t \<and> disk t = disk s \<and>
    cores (bufs t) = (cores (bufs s))(b := bdec (cores (bufs s) b)) \<and>
    slks t = (slks s)(BufLock b := \<lparr>sl_locked = False, sl_pid = 0\<rparr>)"
proof -
  let ?B = "(bufs s)(b := bdec (bufs s b))"
  let ?B' = "if refcnt (bufs s b) = 1 then relink b ?B else ?B"
  let ?s = "s\<lparr>slks := (slks s)(BufLock b := \<lparr>sl_locked = False, sl_pid = 0\<rparr>), ptable := woken (BufChan b) (ptable s)\<rparr>"
  let ?u = "lock_st BcacheLock (settle ?s)"
  let ?t = "settle (settle ?s\<lparr>bufs := ?B'\<rparr>)"
  have calm: "calm p s" "lock_free BcacheLock s" "lock_free (BufInner b) s" using c by (simp_all add: cache_def)
  have hold: "holdingsleep (BufLock b) s = Inr (True, settle s)"
    using holdingsleep_eq [OF calm(1), of "BufLock b"] calm(3) h by (simp add: held_def)
  have rel: "releasesleep (BufLock b) (settle s) = Inr ((), settle ?s)"
    using releasesleep_eq [of p "settle s" "BufLock b"] calm by (simp add: settle_slks settle_ptable)
  have acq: "acquire BcacheLock (settle ?s) = Inr ((), ?u)" by (rule acquire_eq) (use calm(2) in simp)
  have fin: "release BcacheLock (lock_st BcacheLock (settle ?s\<lparr>bufs := ?B'\<rparr>)) = Inr ((), ?t)"
    by (rule calm_release [of p]) (use calm in simp_all)
  have run: "brelse b s = Inr ((), ?t)"
  proof (cases "refcnt (bufs s b) = 1")
    case True
    have "whenM True (thenM (upd_buf (b_next (bdec (bufs s b))) (\<lambda>y. y\<lparr>b_prev := b_prev (bdec (bufs s b))\<rparr>))
      (thenM (upd_buf (b_prev (bdec (bufs s b))) (\<lambda>y. y\<lparr>b_next := b_next (bdec (bufs s b))\<rparr>))
      (bindM (get_buf NBUF) (\<lambda>h.
       thenM (upd_buf b (\<lambda>y. y\<lparr>b_next := b_next h\<rparr>))
      (thenM (upd_buf b (\<lambda>y. y\<lparr>b_prev := NBUF\<rparr>))
      (link_front b)))))) (?u\<lparr>bufs := ?B\<rparr>) = Inr ((), lock_st BcacheLock (settle ?s\<lparr>bufs := relink b ?B\<rparr>))"
      using relink_run [of "?u\<lparr>bufs := ?B\<rparr>" b] by (simp add: whenM_def lock_st_bufs)
    then show ?thesis using hold rel acq fin True
      by (simp add: brelse_def bindM_run thenM_run upd_buf_def get_buf_def gets_apply modify_apply bdec_def [symmetric])
  next
    case False
    then show ?thesis using hold rel acq fin
      by (simp add: brelse_def bindM_run thenM_run upd_buf_def get_buf_def gets_apply modify_apply bdec_def [symmetric]
          whenM_def ret_apply lock_st_bufs)
  qed
  have c1: "cache p (settle ?s\<lparr>bufs := ?B\<rparr>)"
    by (rule cache_buf [OF c b k, of "bdec (bufs s b)"]) (use calm(1) d in simp_all)
  then obtain xs where "lru ?B xs" by (auto simp: cache_def)
  then have "\<exists>xs. lru ?B' xs" using relink_lru [OF _ b] by auto
  then have "cache p ?t" using c1 by (simp add: cache_def)
  moreover have "cores ?B' = (cores (bufs s))(b := bdec (cores (bufs s) b))"
    by (simp add: cores_upd core_bdec cores_app)
  ultimately show ?thesis using run by (intro exI [of _ ?t]) (simp add: keeps_def)
qed

end
