(* ===== verification/Bio_Spec.thy ===== *)
theory Bio_Spec
  imports Bio_Cache
begin

text \<open>
  The abstract specification of the buffer cache, for one process at a time.  The abstract state is:
  for every block, how many references its buffer has (\<open>R\<close>), which blocks the process has locked
  (\<open>L\<close>), the contents of the disk (\<open>D\<close>) and the contents a reader sees (\<open>V\<close>).  \<open>act\<close> relates it to
  the concrete state, and every operation of kernel/bio.c has a rule over the abstract state.
\<close>

section \<open>The relation\<close>

type_synonym block = "32 word \<times> 32 word"

definition buf_at :: "nat \<Rightarrow> block \<Rightarrow> 'a bstate_scheme \<Rightarrow> bool" where
  "buf_at b k s \<longleftrightarrow> b < NBUF \<and> bkey (bufs s b) = k \<and> valid (bufs s b)"

definition act :: "nat \<Rightarrow> 'a \<Rightarrow> (block \<Rightarrow> 32 word) \<Rightarrow> block set \<Rightarrow> (block \<Rightarrow> byte list) \<Rightarrow> (block \<Rightarrow> byte list) \<Rightarrow>
    'a bstate_scheme \<Rightarrow> bool" where
  "act p E R L D V s \<longleftrightarrow> cache p s \<and> bstate.more s = E \<and>
     (\<forall>b<NBUF. refcnt (bufs s b) = R (bkey (bufs s b))) \<and>
     (\<forall>b<NBUF. if bkey (bufs s b) \<in> L then slks s (BufLock b) = held p s else \<not> sl_locked (slks s (BufLock b))) \<and>
     (\<forall>k. R k \<noteq> 0 \<or> k \<in> L \<longrightarrow> (\<exists>b. buf_at b k s)) \<and> R (0, 0) = 0 \<and> (0, 0) \<notin> L \<and>
     D = (\<lambda>k. disk s (fst k) (snd k)) \<and> V = blk (cores (bufs s)) (disk s)"

lemma actD:
  assumes "act p E R L D V s"
  shows act_cache: "cache p s" and act_more: "bstate.more s = E"
    and act_refcnt: "b < NBUF \<Longrightarrow> refcnt (bufs s b) = R (bkey (bufs s b))"
    and act_lock: "b < NBUF \<Longrightarrow> bkey (bufs s b) \<in> L \<Longrightarrow> slks s (BufLock b) = held p s"
    and act_unlock: "b < NBUF \<Longrightarrow> bkey (bufs s b) \<notin> L \<Longrightarrow> \<not> sl_locked (slks s (BufLock b))"
    and act_there: "R k \<noteq> 0 \<or> k \<in> L \<Longrightarrow> \<exists>b. buf_at b k s"
    and act_zero: "R (0, 0) = 0" "(0, 0) \<notin> L"
    and act_disk: "disk s = (\<lambda>d n. D (d, n))" and act_view: "V = blk (cores (bufs s)) (disk s)"
    and act_uniq: "uniq (cores (bufs s))" and act_clean: "clean (cores (bufs s)) (disk s)"
  using assms unfolding act_def by (auto simp: cache_def simp del: split_paired_All)

lemma held_keeps: "keeps s t \<Longrightarrow> held p t = held p s"
  by (simp add: keeps_def held_def)

lemma buf_at_unique:
  "act p E R L D V s \<Longrightarrow> buf_at b k s \<Longrightarrow> c < NBUF \<Longrightarrow> bkey (bufs s c) = k \<Longrightarrow> c = b"
  using uniqD [OF act_uniq, of p E R L D V s b c] by (simp add: buf_at_def cores_app)

lemma act_data: "act p E R L D V s \<Longrightarrow> buf_at b k s \<Longrightarrow> data (bufs s b) = V k"
  using blk_cached [OF act_uniq, of p E R L D V s b k "disk s"] act_view [of p E R L D V s]
  by (simp add: buf_at_def cores_app)

text \<open>A block nobody refers to is seen as it is on the disk.\<close>

lemma act_clean_view:
  assumes a: "act p E R L D V s" and "R k = 0"
  shows "V k = D k"
proof (cases "\<exists>b. buf_at b k s")
  case True
  then obtain b where b: "buf_at b k s" by blast
  then have "data (bufs s b) = disk s (fst k) (snd k)"
    using act_clean [OF a] act_refcnt [OF a, of b] assms(2) by (auto simp: buf_at_def clean_def cores_app bkey_def)
  then show ?thesis using act_data [OF a b] act_disk [OF a] by simp
next
  case False
  then have "blk (cores (bufs s)) (disk s) k = disk s (fst k) (snd k)"
    by (intro blk_uncached) (auto simp: buf_at_def cores_app)
  then show ?thesis using act_disk [OF a] act_view [OF a] by simp
qed

text \<open>Only cached blocks have references.  With fewer of them than buffers, a buffer is free.\<close>

lemma act_finite:
  assumes a: "act p E R L D V s"
  shows "finite {k. R k \<noteq> 0}"
proof (rule finite_subset)
  show "{k. R k \<noteq> 0} \<subseteq> (\<lambda>b. bkey (bufs s b)) ` {0..<NBUF}"
  proof
    fix k
    assume "k \<in> {k. R k \<noteq> 0}"
    then obtain b where "buf_at b k s" using act_there [OF a, of k] by blast
    then show "k \<in> (\<lambda>b. bkey (bufs s b)) ` {0..<NBUF}" by (auto simp: buf_at_def)
  qed
qed simp

lemma act_free:
  assumes a: "act p E R L D V s" and "card {k. R k \<noteq> 0} < NBUF"
  shows "\<exists>b<NBUF. refcnt (bufs s b) = 0"
proof (rule ccontr)
  assume n: "\<not> ?thesis"
  let ?f = "\<lambda>b. bkey (bufs s b)"
  have "inj_on ?f {0..<NBUF}"
  proof (rule inj_onI)
    fix b c
    assume bc: "b \<in> {0..<NBUF}" "c \<in> {0..<NBUF}" "?f b = ?f c"
    then have "refcnt (cores (bufs s) b) \<noteq> 0" using n by (auto simp: cores_app)
    then show "b = c" using act_uniq [OF a] bc unfolding uniq_def by (auto simp: cores_app)
  qed
  then have "card (?f ` {0..<NBUF}) = NBUF" by (simp add: card_image)
  moreover have "?f ` {0..<NBUF} \<subseteq> {k. R k \<noteq> 0}" using n act_refcnt [OF a] by auto
  moreover have "finite {k. R k \<noteq> 0}" by (rule act_finite [OF a])
  ultimately have "NBUF \<le> card {k. R k \<noteq> 0}" using card_mono by metis
  then show False using assms(2) by simp
qed

section \<open>The operations\<close>

lemma wp_bread:
  assumes a: "act p E R L D V s" and k: "k = (d, n)" "k \<noteq> (0, 0)" "k \<notin> L" and "R k \<noteq> - 1"
    and idle: "\<And>k. k \<in> L \<Longrightarrow> R k \<noteq> 0" and room: "R k = 0 \<Longrightarrow> card {k. R k \<noteq> 0} < NBUF"
    and Q: "\<And>b t. act p E (R(k := R k + 1)) (insert k L) D V t \<Longrightarrow> buf_at b k t \<Longrightarrow>
      (\<forall>c k'. buf_at c k' s \<longrightarrow> R k' \<noteq> 0 \<longrightarrow> buf_at c k' t) \<Longrightarrow> Q b t"
  shows "wpM (bread d n) Q s"
proof -
  have "(\<exists>b<NBUF. bkey (bufs s b) = k) \<or> (\<exists>b<NBUF. refcnt (bufs s b) = 0)"
  proof (cases "R k = 0")
    case True
    then show ?thesis using act_free [OF a room] by blast
  next
    case False
    then show ?thesis using act_there [OF a, of k] by (auto simp: buf_at_def)
  qed
  moreover have "\<not> sl_locked (slks s (BufLock b))" if "b < NBUF" "refcnt (bufs s b) = 0" for b
    using act_unlock [OF a that(1)] act_refcnt [OF a that(1)] that(2) idle [of "bkey (bufs s b)"] by auto
  ultimately obtain b x t where run: "bread d n s = Inr (b, t)" and post: "read_post p s k b x t"
    using bread_ok [OF act_cache [OF a] k(1,2)] act_unlock [OF a] act_refcnt [OF a] k(3) assms(5) by metis
  have t: "cache p t" "keeps s t" "disk t = disk s" "b < NBUF" "bkey x = k" "valid x"
    "if bkey (bufs s b) = k then refcnt x = refcnt (bufs s b) + 1
      else refcnt x = 1 \<and> refcnt (bufs s b) = 0 \<and> (\<forall>c<NBUF. bkey (bufs s c) \<noteq> k)"
    "cores (bufs t) = (cores (bufs s))(b := x)" "slks t = (slks s)(BufLock b := held p s)"
    "\<And>k'. blk (cores (bufs t)) (disk t) k' = blk (cores (bufs s)) (disk s) k'"
    using post unfolding read_post_def by blast+
  have ct: "core (bufs t c) = (if c = b then x else core (bufs s c))" for c
    using t(8) by (auto simp: cores_def fun_eq_iff)
  then have kt: "bkey (bufs t c) = (if c = b then k else bkey (bufs s c))"
    and rt: "refcnt (bufs t c) = (if c = b then refcnt x else refcnt (bufs s c))"
    and vt: "valid (bufs t c) = (if c = b then True else valid (bufs s c))" for c
    using t(5,6) by (metis bkey_core, metis core_sel(4), metis core_sel(1))
  have nk: "bkey (bufs s c) \<noteq> k" if "c < NBUF" "c \<noteq> b" for c
  proof (cases "bkey (bufs s b) = k")
    case True
    then show ?thesis using uniq_key [OF act_uniq [OF a] that(1) t(4)] that(2) k(2) by (auto simp: cores_app)
  next
    case False
    then show ?thesis using t(7) that(1) by auto
  qed
  have rb: "refcnt x = R k + 1"
  proof (cases "bkey (bufs s b) = k")
    case True
    then show ?thesis using t(7) act_refcnt [OF a t(4)] by auto
  next
    case False
    then have "R k = 0" using t(7) act_there [OF a, of k] by (auto simp: buf_at_def)
    then show ?thesis using t(7) False by auto
  qed
  have keep: "buf_at c k' t" if "buf_at c k' s" "R k' \<noteq> 0" for c k'
  proof (cases "c = b")
    case True
    then have "refcnt (bufs s b) \<noteq> 0" using that act_refcnt [OF a t(4)] by (auto simp: buf_at_def)
    then have "bkey (bufs s b) = k" using t(7) by (auto split: if_splits)
    then show ?thesis using that True kt vt t(4) by (auto simp: buf_at_def)
  next
    case False
    then show ?thesis using that kt vt by (auto simp: buf_at_def)
  qed
  have at: "buf_at b k t" using t(4) kt vt by (simp add: buf_at_def)
  have "act p E (R(k := R k + 1)) (insert k L) D V t"
    unfolding act_def
  proof (intro conjI allI impI)
    show "refcnt (bufs t c) = (R(k := R k + 1)) (bkey (bufs t c))" if "c < NBUF" for c
      using rt kt rb nk [OF that] act_refcnt [OF a that] by auto
    show "if bkey (bufs t c) \<in> insert k L then slks t (BufLock c) = held p t else \<not> sl_locked (slks t (BufLock c))"
      if "c < NBUF" for c
      using kt nk [OF that] act_lock [OF a that] act_unlock [OF a that] t(9) held_keeps [OF t(2)] by auto
    show "\<exists>c. buf_at c k' t" if "(R(k := R k + 1)) k' \<noteq> 0 \<or> k' \<in> insert k L" for k'
    proof (cases "k' = k")
      case True
      then show ?thesis using at by blast
    next
      case False
      then have "R k' \<noteq> 0" using that idle [of k'] by auto
      then show ?thesis using keep act_there [OF a, of k'] by blast
    qed
    show "V = blk (cores (bufs t)) (disk t)" using t(10) act_view [OF a] by (simp add: fun_eq_iff)
  qed (use t(1,2,3) k act_more [OF a] act_zero [OF a] act_disk [OF a] in \<open>auto simp: keeps_def\<close>)
  then show ?thesis using Q at keep run by (intro wpM_I) auto
qed

text \<open>
  A change of one buffer that keeps its block: the abstract state afterwards, from that of the
  buffer.
\<close>

lemma act_change:
  assumes a: "act p E R L D V s" and at: "buf_at b k s" and k: "k \<noteq> (0, 0)"
    and t: "cache p t" "keeps s t" "disk t = disk s" "cores (bufs t) = (cores (bufs s))(b := x)"
    and x: "bkey x = k" "valid x"
    and lk: "slks t = (slks s)(BufLock b := (if k \<in> L' then held p s else u))" "\<not> sl_locked u" "L' - {k} = L - {k}"
  shows "act p E (R(k := refcnt x)) L' D (V(k := data x)) t \<and> (\<forall>c k'. buf_at c k' s \<longrightarrow> buf_at c k' t)"
proof -
  have b: "b < NBUF" using at by (simp add: buf_at_def)
  have ct: "core (bufs t c) = (if c = b then x else core (bufs s c))" for c
    using t(4) by (auto simp: cores_def fun_eq_iff)
  then have kt: "bkey (bufs t c) = bkey (bufs s c)" and rt: "refcnt (bufs t c) = (if c = b then refcnt x else refcnt (bufs s c))"
    and vt: "valid (bufs t c) = valid (bufs s c)" for c
    using x at by (metis bkey_core buf_at_def, metis core_sel(4), metis core_sel(1) buf_at_def)
  have keep: "buf_at c k' t = buf_at c k' s" for c k' by (simp add: buf_at_def kt vt)
  have nk: "bkey (bufs s c) = k \<longleftrightarrow> c = b" if "c < NBUF" for c
    using buf_at_unique [OF a at that] at by (auto simp: buf_at_def)
  have "act p E (R(k := refcnt x)) L' D (V(k := data x)) t"
    unfolding act_def
  proof (intro conjI allI impI)
    show "refcnt (bufs t c) = (R(k := refcnt x)) (bkey (bufs t c))" if "c < NBUF" for c
      using rt kt nk [OF that] act_refcnt [OF a that] by auto
    show "if bkey (bufs t c) \<in> L' then slks t (BufLock c) = held p t else \<not> sl_locked (slks t (BufLock c))"
      if c: "c < NBUF" for c
    proof (cases "c = b")
      case True
      then show ?thesis using lk kt held_keeps [OF t(2)] at by (auto simp: buf_at_def)
    next
      case False
      then have "bkey (bufs s c) \<in> L' \<longleftrightarrow> bkey (bufs s c) \<in> L" using nk [OF c] lk(3) by blast
      then show ?thesis using False lk(1) kt act_lock [OF a c] act_unlock [OF a c] held_keeps [OF t(2)] by auto
    qed
    show "\<exists>c. buf_at c k' t" if "(R(k := refcnt x)) k' \<noteq> 0 \<or> k' \<in> L'" for k'
    proof (cases "k' = k")
      case True
      then show ?thesis using at keep by blast
    next
      case False
      then have "R k' \<noteq> 0 \<or> k' \<in> L" using that lk(3) by auto
      then show ?thesis using keep act_there [OF a, of k'] by blast
    qed
    show "(0, 0) \<notin> L'" using lk(3) act_zero(2) [OF a] k by auto
    have u: "uniq ((cores (bufs s))(b := x))" using t(1,4) by (simp add: cache_def)
    have "blk ((cores (bufs s))(b := x)) (disk s) k' = (V(k := data x)) k'" for k'
      using x at act_view [OF a] blk_upd [OF act_uniq [OF a] u b, of "disk s" k']
      by (auto simp: buf_at_def cores_app)
    then show "V(k := data x) = blk (cores (bufs t)) (disk t)" unfolding t(3,4) by (simp add: fun_eq_iff)
  qed (use t(1,2,3) k act_more [OF a] act_zero [OF a] act_disk [OF a] in \<open>auto simp: keeps_def\<close>)
  then show ?thesis using keep by blast
qed

lemma wp_data:
  assumes a: "act p E R L D V s" and at: "buf_at b k s" and k: "k \<in> L" "R k \<noteq> 0"
    and Q: "\<And>t. act p E R L D (V(k := f (V k))) t \<Longrightarrow> (\<forall>c k'. buf_at c k' s \<longrightarrow> buf_at c k' t) \<Longrightarrow> Q () t"
  shows "wpM (upd_buf b (\<lambda>y. y\<lparr>data := f (data y)\<rparr>)) Q s"
proof -
  let ?x = "(bufs s b)\<lparr>data := f (V k)\<rparr>" and ?t = "s\<lparr>bufs := (bufs s)(b := (bufs s b)\<lparr>data := f (V k)\<rparr>)\<rparr>"
  have b: "b < NBUF" "bkey (bufs s b) = k" "valid (bufs s b)" using at by (simp_all add: buf_at_def)
  have k0: "k \<noteq> (0, 0)" using k(1) act_zero(2) [OF a] by auto
  have r: "refcnt (bufs s b) = R k" using act_refcnt [OF a b(1)] b(2) by simp
  have calm: "calm p ?t" using act_cache [OF a] by (simp add: cache_def)
  have "cache p ?t"
    by (rule cache_buf [OF act_cache [OF a] b(1), of ?x]) (use b r k(2) k0 calm in \<open>simp_all add: bkey_def\<close>)
  moreover have "slks ?t = (slks s)(BufLock b := (if k \<in> L then held p s else \<lparr>sl_locked = False, sl_pid = 0\<rparr>))"
    using k(1) act_lock [OF a b(1)] b(2) by auto
  ultimately have "act p E (R(k := refcnt ?x)) L D (V(k := data ?x)) ?t \<and> (\<forall>c k'. buf_at c k' s \<longrightarrow> buf_at c k' ?t)"
    using act_change [OF a at k0, of ?t "core ?x" L] b by (auto simp: keeps_def cores_upd bkey_def)
  then show ?thesis using Q [of ?t] r act_data [OF a at] by (simp add: upd_buf_def wp_modify)
qed

lemma wp_bwrite:
  assumes a: "act p E R L D V s" and at: "buf_at b k s" and k: "k \<in> L"
    and Q: "\<And>t. act p E R L (D(k := V k)) V t \<Longrightarrow> (\<forall>c k'. buf_at c k' s \<longrightarrow> buf_at c k' t) \<Longrightarrow> Q () t"
  shows "wpM (bwrite b) Q s"
proof -
  have b: "b < NBUF" "bkey (bufs s b) = k" "valid (bufs s b)" using at by (simp_all add: buf_at_def)
  let ?t = "settle (s\<lparr>disk := wr (disk s) (bkey (bufs s b)) (data (bufs s b))\<rparr>)"
  have w: "bwrite b s = Inr ((), ?t)" "cache p ?t"
    using bwrite_ok [OF act_cache [OF a] _ b(1)] act_lock [OF a b(1)] b(2) k by auto
  have keep: "buf_at c k' ?t = buf_at c k' s" for c k' by (simp add: buf_at_def)
  have v: "blk (cores (bufs s)) (wr (disk s) k (V k)) k' = V k'" for k'
  proof (cases "k' = k")
    case True
    then show ?thesis using blk_cached [OF act_uniq [OF a] b(1), of k] b act_data [OF a at] by (simp add: cores_app)
  next
    case False
    then show ?thesis unfolding act_view [OF a] blk_def by (simp add: wr_app split: option.split)
  qed
  have D: "(\<lambda>k'. disk ?t (fst k') (snd k')) = D(k := V k)"
    using act_data [OF a at] b(2) by (auto simp: wr_app act_disk [OF a])
  have "act p E R L (D(k := V k)) V ?t"
    unfolding act_def keep
  proof (intro conjI allI impI)
    show "if bkey (bufs ?t c) \<in> L then slks ?t (BufLock c) = held p ?t else \<not> sl_locked (slks ?t (BufLock c))"
      if "c < NBUF" for c
      using act_lock [OF a that] act_unlock [OF a that] by (simp add: held_def)
    show "V = blk (cores (bufs ?t)) (disk ?t)" using v act_data [OF a at] b(2) by (simp add: fun_eq_iff)
    show "\<exists>c. buf_at c k' s" if "R k' \<noteq> 0 \<or> k' \<in> L" for k' using act_there [OF a that] .
  qed (use w(2) D act_refcnt [OF a] act_more [OF a] act_zero [OF a] in simp_all)
  then show ?thesis using Q keep w(1) by (intro wpM_I) auto
qed

lemma wp_bunpin:
  assumes a: "act p E R L D V s" and at: "buf_at b k s" and k: "k \<in> L" "R k = 1 \<Longrightarrow> V k = D k"
    and Q: "\<And>t. act p E (R(k := R k - 1)) L D V t \<Longrightarrow> (\<forall>c k'. buf_at c k' s \<longrightarrow> buf_at c k' t) \<Longrightarrow> Q () t"
  shows "wpM (bunpin b) Q s"
proof -
  let ?x = "bdec (bufs s b)" and ?t = "settle (s\<lparr>bufs := (bufs s)(b := bdec (bufs s b))\<rparr>)"
  have b: "b < NBUF" "bkey (bufs s b) = k" "valid (bufs s b)" using at by (simp_all add: buf_at_def)
  have k0: "bkey (bufs s b) \<noteq> (0, 0)" using k(1) act_zero(2) [OF a] b(2) by auto
  have r: "refcnt (bufs s b) = R k" using act_refcnt [OF a b(1)] b(2) by simp
  have d: "V k = data (bufs s b)" "D k = disk s (dev (bufs s b)) (blockno (bufs s b))"
    using act_data [OF a at] act_disk [OF a] b(2) by (auto simp: bkey_def)
  have w: "bunpin b s = Inr ((), ?t)" "cache p ?t"
    using bunpin_ok [OF act_cache [OF a] b(1) k0] k(2) r d by auto
  have "slks ?t = (slks s)(BufLock b := (if k \<in> L then held p s else \<lparr>sl_locked = False, sl_pid = 0\<rparr>))"
    using k(1) act_lock [OF a b(1)] b(2) by auto
  then have "act p E (R(k := refcnt ?x)) L D (V(k := data ?x)) ?t \<and> (\<forall>c k'. buf_at c k' s \<longrightarrow> buf_at c k' ?t)"
    using act_change [OF a at _ w(2), of "core ?x" L] b k0 by (auto simp: keeps_def cores_upd)
  then show ?thesis using Q [of ?t] w(1) r d by (intro wpM_I) (auto simp: fun_upd_idem)
qed

lemma wp_brelse:
  assumes a: "act p E R L D V s" and at: "buf_at b k s" and k: "k \<in> L" "R k = 1 \<Longrightarrow> V k = D k"
    and Q: "\<And>t. act p E (R(k := R k - 1)) (L - {k}) D V t \<Longrightarrow> (\<forall>c k'. buf_at c k' s \<longrightarrow> buf_at c k' t) \<Longrightarrow> Q () t"
  shows "wpM (brelse b) Q s"
proof -
  let ?x = "bdec (cores (bufs s) b)"
  have b: "b < NBUF" "bkey (bufs s b) = k" "valid (bufs s b)" using at by (simp_all add: buf_at_def)
  have k0: "bkey (bufs s b) \<noteq> (0, 0)" using k(1) act_zero(2) [OF a] b(2) by auto
  have r: "refcnt (bufs s b) = R k" using act_refcnt [OF a b(1)] b(2) by simp
  have d: "V k = data (bufs s b)" "D k = disk s (dev (bufs s b)) (blockno (bufs s b))"
    using act_data [OF a at] act_disk [OF a] b(2) by (auto simp: bkey_def)
  obtain t where t: "brelse b s = Inr ((), t)" "cache p t" "keeps s t" "disk t = disk s"
    "cores (bufs t) = (cores (bufs s))(b := ?x)" "slks t = (slks s)(BufLock b := \<lparr>sl_locked = False, sl_pid = 0\<rparr>)"
    using brelse_ok [OF act_cache [OF a] b(1) k0] act_lock [OF a b(1)] b(2) k r d by auto
  have "act p E (R(k := refcnt ?x)) (L - {k}) D (V(k := data ?x)) t \<and> (\<forall>c k'. buf_at c k' s \<longrightarrow> buf_at c k' t)"
    by (rule act_change [OF a at _ t(2-5)]) (use b k0 t(6) in \<open>auto simp: cores_app\<close>)
  then show ?thesis using Q [of t] t(1) r d by (intro wpM_I) (auto simp: fun_upd_idem cores_app)
qed

end
