(* ===== verification/Log_Spec.thy ===== *)
theory Log_Spec
  imports Bytes Bio_Spec
begin

text \<open>
  The steps of the log over the abstract buffer cache: the copy of a block to the log, the copy of a
  block from the log to its home, and the header.
\<close>

section \<open>The abstract state with the log\<close>

definition lact :: "nat \<Rightarrow> nat \<Rightarrow> log \<Rightarrow> (block \<Rightarrow> 32 word) \<Rightarrow> block set \<Rightarrow> (block \<Rightarrow> byte list) \<Rightarrow> (block \<Rightarrow> byte list) \<Rightarrow>
    'a lstate_scheme \<Rightarrow> bool" where
  "lact p d l R L D V s \<longleftrightarrow> d < NDISK \<and> logs s d = l \<and> act p (bstate.more s) R L D V s"

lemma more_logs:
  fixes s :: "'a lstate_scheme"
  shows "bstate.more t = bstate.more s \<Longrightarrow> logs t = logs s"
  by (cases s; cases t; simp)

lemma lactI:
  fixes s :: "'a lstate_scheme"
  shows "lact p d l R L D V s \<Longrightarrow> act p (bstate.more s) R' L' D' V' t \<Longrightarrow> lact p d l R' L' D' V' t"
  using act_more [of p "bstate.more s" R' L' D' V' t] more_logs [of t s] by (simp add: lact_def)

lemma lact_act: "lact p d l R L D V s \<Longrightarrow> act p (bstate.more s) R L D V s"
  and lact_dev: "lact p d l R L D V s \<Longrightarrow> d < NDISK"
  and lact_log: "lact p d l R L D V s \<Longrightarrow> logs s d = l"
  by (simp_all add: lact_def)

text \<open>The rules of the cache as runs.\<close>

lemma bread_run:
  assumes a: "lact p d l R L D V s" and "k = (x, n)" and "k \<noteq> (0, 0)" and "k \<notin> L" and "R k \<noteq> - 1"
    and "\<And>k. k \<in> L \<Longrightarrow> R k \<noteq> 0" and "R k = 0 \<Longrightarrow> card {k. R k \<noteq> 0} < NBUF"
  obtains b t where "bread x n s = Inr (b, t)" and "lact p d l (R(k := R k + 1)) (insert k L) D V t" and "buf_at b k t"
    and "\<forall>c k'. buf_at c k' s \<longrightarrow> R k' \<noteq> 0 \<longrightarrow> buf_at c k' t"
proof -
  have "wpM (bread x n) (\<lambda>b t. lact p d l (R(k := R k + 1)) (insert k L) D V t \<and> buf_at b k t \<and>
      (\<forall>c k'. buf_at c k' s \<longrightarrow> R k' \<noteq> 0 \<longrightarrow> buf_at c k' t)) s"
    by (rule wp_bread [OF lact_act [OF a] assms(2-7)]) (use lactI [OF a] in blast)+
  then show thesis using that unfolding wpM_iff by blast
qed

lemma data_run:
  assumes a: "lact p d l R L D V s" and "buf_at b k s" and "k \<in> L" and "R k \<noteq> 0"
  obtains t where "upd_buf b (\<lambda>y. y\<lparr>data := f (data y)\<rparr>) s = Inr ((), t)" and "lact p d l R L D (V(k := f (V k))) t"
    and "\<forall>c k'. buf_at c k' s \<longrightarrow> buf_at c k' t"
proof -
  have "wpM (upd_buf b (\<lambda>y. y\<lparr>data := f (data y)\<rparr>)) (\<lambda>_ t. lact p d l R L D (V(k := f (V k))) t \<and>
      (\<forall>c k'. buf_at c k' s \<longrightarrow> buf_at c k' t)) s"
    by (rule wp_data [OF lact_act [OF a] assms(2-4)]) (use lactI [OF a] in blast)
  then show thesis using that unfolding wpM_iff by auto
qed

lemma bwrite_run:
  assumes a: "lact p d l R L D V s" and "buf_at b k s" and "k \<in> L"
  obtains t where "bwrite b s = Inr ((), t)" and "lact p d l R L (D(k := V k)) V t" and "\<forall>c k'. buf_at c k' s \<longrightarrow> buf_at c k' t"
proof -
  have "wpM (bwrite b) (\<lambda>_ t. lact p d l R L (D(k := V k)) V t \<and> (\<forall>c k'. buf_at c k' s \<longrightarrow> buf_at c k' t)) s"
    by (rule wp_bwrite [OF lact_act [OF a] assms(2,3)]) (use lactI [OF a] in blast)
  then show thesis using that unfolding wpM_iff by auto
qed

lemma bunpin_run:
  assumes a: "lact p d l R L D V s" and "buf_at b k s" and "k \<in> L" and "R k = 1 \<Longrightarrow> V k = D k"
  obtains t where "bunpin b s = Inr ((), t)" and "lact p d l (R(k := R k - 1)) L D V t" and "\<forall>c k'. buf_at c k' s \<longrightarrow> buf_at c k' t"
proof -
  have "wpM (bunpin b) (\<lambda>_ t. lact p d l (R(k := R k - 1)) L D V t \<and> (\<forall>c k'. buf_at c k' s \<longrightarrow> buf_at c k' t)) s"
    by (rule wp_bunpin [OF lact_act [OF a] assms(2-4)]) (use lactI [OF a] in blast)+
  then show thesis using that unfolding wpM_iff by auto
qed

lemma brelse_run:
  assumes a: "lact p d l R L D V s" and "buf_at b k s" and "k \<in> L" and "R k = 1 \<Longrightarrow> V k = D k"
  obtains t where "brelse b s = Inr ((), t)" and "lact p d l (R(k := R k - 1)) (L - {k}) D V t" and "\<forall>c k'. buf_at c k' s \<longrightarrow> buf_at c k' t"
proof -
  have "wpM (brelse b) (\<lambda>_ t. lact p d l (R(k := R k - 1)) (L - {k}) D V t \<and> (\<forall>c k'. buf_at c k' s \<longrightarrow> buf_at c k' t)) s"
    by (rule wp_brelse [OF lact_act [OF a] assms(2-4)]) (use lactI [OF a] in blast)+
  then show thesis using that unfolding wpM_iff by auto
qed

lemma log_block_run: "lact p d l R L D V s \<Longrightarrow> i < LOGSIZE \<Longrightarrow> log_block d i s = Inr (lh_block l i, s)"
  and get_log_run: "lact p d l R L D V s \<Longrightarrow> get_log d s = Inr (l, s)"
  by (simp_all add: log_block_def get_log_def monad_simps lact_def)

lemma get_buf_run: "get_buf b s = Inr (bufs s b, s)"
  by (simp add: get_buf_def gets_apply)

lemma lact_data: "lact p d l R L D V s \<Longrightarrow> buf_at b k s \<Longrightarrow> data (bufs s b) = V k"
  by (rule act_data [OF lact_act])

section \<open>Copying a block to the log and from it\<close>

lemma write_log_step_ok:
  assumes a: "lact p d l R {} D V s" and A: "A = (of_nat d, wrd (l_start l + int i + 1))" "A \<noteq> (0, 0)" "R A = 0"
    and B: "B = (of_nat d, wrd (lh_block l i))" "R B = 1" and i: "i < LOGSIZE" and room: "card {k. R k \<noteq> 0} < NBUF"
  shows "\<exists>t. write_log_step d (l_start l) i s = Inr ((), t) \<and> lact p d l R {} (D(A := V B)) (V(A := V B)) t"
proof -
  have AB: "A \<noteq> B" using A(3) B(2) by auto
  have B0: "B \<noteq> (0, 0)" using act_zero(1) [OF lact_act [OF a]] B(2) by auto
  obtain to s1 where s1: "bread (of_nat d) (wrd (l_start l + int i + 1)) s = Inr (to, s1)"
    "lact p d l (R(A := R A + 1)) (insert A {}) D V s1" "buf_at to A s1"
    by (rule bread_run [OF a A(1,2)]) (use A(3) room in simp_all)
  obtain fr s2 where s2: "bread (of_nat d) (wrd (lh_block l i)) s1 = Inr (fr, s2)"
    "lact p d l (R(A := 1, B := 2)) {B, A} D V s2" "buf_at fr B s2" "buf_at to A s2"
    by (rule bread_run [OF s1(2) B(1) B0]) (use AB A(3) B(2) s1(3) in auto)
  obtain s3 where s3: "upd_buf to (\<lambda>y. y\<lparr>data := V B\<rparr>) s2 = Inr ((), s3)"
    "lact p d l (R(A := 1, B := 2)) {B, A} D (V(A := V B)) s3" "buf_at fr B s3" "buf_at to A s3"
    by (rule data_run [OF s2(2,4), of "\<lambda>_. V B"]) (use AB s2(3,4) in auto)
  obtain s4 where s4: "bwrite to s3 = Inr ((), s4)" "lact p d l (R(A := 1, B := 2)) {B, A} (D(A := V B)) (V(A := V B)) s4"
    "buf_at fr B s4" "buf_at to A s4"
    by (rule bwrite_run [OF s3(2,4)]) (use s3(3,4) in auto)
  obtain s5 where s5: "brelse fr s4 = Inr ((), s5)" "lact p d l (R(A := 1, B := 1)) {A} (D(A := V B)) (V(A := V B)) s5"
    "buf_at to A s5"
    by (rule brelse_run [OF s4(2,3)]) (use AB s4(4) in \<open>auto simp: insert_Diff_if\<close>)
  obtain s6 where s6: "brelse to s5 = Inr ((), s6)" "lact p d l (R(A := 0, B := 1)) {} (D(A := V B)) (V(A := V B)) s6"
    by (rule brelse_run [OF s5(2,3)]) (use AB in \<open>auto simp: fun_upd_twist [of A B]\<close>)
  have "write_log_step d (l_start l) i s = Inr ((), s6)"
    using s1(1) s2(1) s3(1) s4(1) s5(1) s6(1) lact_data [OF s2(2,3)] log_block_run [OF s1(2) i]
    by (simp add: write_log_step_def bindM_run thenM_run get_buf_run)
  moreover have "R(A := 0, B := 1) = R" using A(3) B(2) by auto
  ultimately show ?thesis using s6(2) by simp
qed

text \<open>
  Installing: the home block gets the contents of the log block, and its buffer loses one reference
  on balance.
\<close>

lemma install_step_ok:
  assumes a: "lact p d l R {} D V s" and A: "A = (of_nat d, wrd (l_start l + int i + 1))" "A \<noteq> (0, 0)" "R A = 0"
    and B: "B = (of_nat d, wrd (lh_block l i))" "B \<noteq> (0, 0)" "R B \<noteq> - 1" "A \<noteq> B" and i: "i < LOGSIZE"
    and room: "card {k. R k \<noteq> 0} < NBUF" "R B = 0 \<Longrightarrow> Suc (card {k. R k \<noteq> 0}) < NBUF"
  shows "\<exists>t. install_step d (l_start l) i s = Inr ((), t) \<and> lact p d l (R(B := R B - 1)) {} (D(B := V A)) (V(B := V A)) t"
proof -
  have VA: "V A = D A" by (rule act_clean_view [OF lact_act [OF a] A(3)])
  have fin: "finite {k. R k \<noteq> 0}" by (rule act_finite [OF lact_act [OF a]])
  have ins: "{k. (R(A := 1)) k \<noteq> 0} = insert A {k. R k \<noteq> 0}" by auto
  obtain lb s1 where s1: "bread (of_nat d) (wrd (l_start l + int i + 1)) s = Inr (lb, s1)"
    "lact p d l (R(A := 1)) {A} D V s1" "buf_at lb A s1"
    by (rule bread_run [OF a A(1,2)]) (use A(3) room in simp_all)
  have rm: "card {k. (R(A := 1)) k \<noteq> 0} < NBUF" if "(R(A := 1)) B = 0"
    unfolding ins using that B(4) room A(3) fin by (simp add: card_insert_if)
  obtain db s2 where s2: "bread (of_nat d) (wrd (lh_block l i)) s1 = Inr (db, s2)"
    "lact p d l (R(A := 1, B := R B + 1)) {B, A} D V s2" "buf_at db B s2" "buf_at lb A s2"
    by (rule bread_run [OF s1(2) B(1,2)]) (use B(3,4) s1(3) rm in auto)
  have B0: "R B + 1 \<noteq> 0" using B(3) by (simp add: eq_neg_iff_add_eq_0)
  obtain s3 where s3: "upd_buf db (\<lambda>y. y\<lparr>data := V A\<rparr>) s2 = Inr ((), s3)"
    "lact p d l (R(A := 1, B := R B + 1)) {B, A} D (V(B := V A)) s3" "buf_at db B s3" "buf_at lb A s3"
    by (rule data_run [OF s2(2,3), of "\<lambda>_. V A"]) (use B(4) B0 s2(3,4) in auto)
  obtain s4 where s4: "bwrite db s3 = Inr ((), s4)"
    "lact p d l (R(A := 1, B := R B + 1)) {B, A} (D(B := V A)) (V(B := V A)) s4" "buf_at db B s4" "buf_at lb A s4"
    by (rule bwrite_run [OF s3(2,3)]) (use s3(3,4) in auto)
  obtain s5 where s5: "bunpin db s4 = Inr ((), s5)"
    "lact p d l (R(A := 1, B := R B)) {B, A} (D(B := V A)) (V(B := V A)) s5" "buf_at db B s5" "buf_at lb A s5"
    by (rule bunpin_run [OF s4(2,3)]) (use s4(3,4) in auto)
  obtain s6 where s6: "brelse lb s5 = Inr ((), s6)"
    "lact p d l (R(A := 0, B := R B)) {B} (D(B := V A)) (V(B := V A)) s6" "buf_at db B s6"
    by (rule brelse_run [OF s5(2,4)]) (use B(4) VA s5(3) in \<open>auto simp: fun_upd_twist [of A B] insert_Diff_if\<close>)
  obtain s7 where s7: "brelse db s6 = Inr ((), s7)"
    "lact p d l (R(A := 0, B := R B - 1)) {} (D(B := V A)) (V(B := V A)) s7"
    by (rule brelse_run [OF s6(2,3)]) auto
  have "install_step d (l_start l) i s = Inr ((), s7)"
    using s1(1) s2(1) s3(1) s4(1) s5(1) s6(1) s7(1) lact_data [OF s2(2,4)] log_block_run [OF s1(2) i]
    by (simp add: install_step_def bindM_run thenM_run get_buf_run)
  moreover have "R(A := 0, B := R B - 1) = R(B := R B - 1)" using A(3) B(4) by auto
  ultimately show ?thesis using s7(2) by simp
qed

section \<open>The header\<close>

definition put_words :: "(nat \<Rightarrow> int) \<Rightarrow> nat list \<Rightarrow> byte list \<Rightarrow> byte list" where
  "put_words f is bs = fold (\<lambda>i bs. put32 bs (i + 1) (wrd (f i))) is bs"

definition head_bytes :: "log \<Rightarrow> byte list \<Rightarrow> byte list" where
  "head_bytes l bs = put_words (lh_block l) [0..<nat (lh_n l)] (put32 bs 0 (wrd (lh_n l)))"

lemma put_words_get:
  assumes "length bs = BSIZE" and "\<forall>i\<in>set is. i < LOGSIZE" and "distinct is"
  shows "length (put_words f is bs) = BSIZE \<and>
    get32 (put_words f is bs) j = (if j \<noteq> 0 \<and> j - 1 \<in> set is then wrd (f (j - 1)) else get32 bs j)"
  using assms
proof (induction "is" arbitrary: bs)
  case Nil
  then show ?case by (simp add: put_words_def)
next
  case (Cons i "is")
  have i: "4 * (i + 1) + 4 \<le> length bs" using Cons.prems by (simp add: BSIZE_def LOGSIZE_def MAXOPBLOCKS_def)
  let ?b = "put32 bs (i + 1) (wrd (f i))"
  have "put_words f (i # is) bs = put_words f is ?b" by (simp add: put_words_def)
  moreover have "length ?b = BSIZE" using length_put32 [OF i] Cons.prems(1) by simp
  moreover have "get32 ?b j = (if j = i + 1 then wrd (f i) else get32 bs j)"
    using get32_put32 [OF i] get32_put32_other [OF i] by auto
  ultimately show ?case using Cons.IH [of ?b] Cons.prems(2,3) by auto
qed

lemma head_bytes_get:
  assumes "length bs = BSIZE" and "lh_n l \<le> int LOGSIZE"
  shows "length (head_bytes l bs) = BSIZE" and "get32 (head_bytes l bs) 0 = wrd (lh_n l)"
    and "i < nat (lh_n l) \<Longrightarrow> get32 (head_bytes l bs) (i + 1) = wrd (lh_block l i)"
proof -
  have z: "4 * 0 + 4 \<le> length bs" using assms(1) by (simp add: BSIZE_def)
  have b: "length (put32 bs 0 (wrd (lh_n l))) = BSIZE" using length_put32 [OF z] assms(1) by simp
  have "\<forall>i\<in>set [0..<nat (lh_n l)]. i < LOGSIZE" using assms(2) by auto
  note w = put_words_get [OF b this distinct_upt, of "lh_block l"]
  show "length (head_bytes l bs) = BSIZE" "get32 (head_bytes l bs) 0 = wrd (lh_n l)"
    "i < nat (lh_n l) \<Longrightarrow> get32 (head_bytes l bs) (i + 1) = wrd (lh_block l i)"
    using w [of 0] w [of "i + 1"] get32_put32 [OF z] by (auto simp: head_bytes_def)
qed

text \<open>The word \<open>i\<close> of a block that is locked, read and written.\<close>

lemma buf_word_run:
  "lact p d l R L D V s \<Longrightarrow> buf_at b k s \<Longrightarrow> i < 256 \<Longrightarrow> buf_word b i s = Inr (get32 (V k) i, s)"
  using lact_data [of p d l R L D V s b k] by (simp add: buf_word_def monad_simps get_buf_def BSIZE_def)

lemma set_buf_word_run:
  assumes a: "lact p d l R L D V s" and "buf_at b k s" and "k \<in> L" and "R k \<noteq> 0" and "i < 256"
  obtains t where "set_buf_word b i v s = Inr ((), t)" and "lact p d l R L D (V(k := put32 (V k) i v)) t"
    and "\<forall>c k'. buf_at c k' s \<longrightarrow> buf_at c k' t"
  by (rule data_run [OF assms(1-4), of "\<lambda>bs. put32 bs i v"]) (use assms(5) in \<open>auto simp: set_buf_word_def BSIZE_def intro: that\<close>)

lemma upd_log_run:
  fixes s :: "'a lstate_scheme"
  assumes "lact p d l R L D V s"
  obtains t where "upd_log d f s = Inr ((), t)" and "lact p d (f l) R L D V t"
    and "\<forall>c k'. buf_at c k' s \<longrightarrow> buf_at c k' t"
proof -
  let ?t = "s\<lparr>logs := (logs s)(d := f (logs s d))\<rparr>"
  have "act p (bstate.more ?t) R L D V ?t"
    using lact_act [OF assms] unfolding act_def cache_def calm_def lock_free_def held_def buf_at_def by simp
  then show thesis using assms by (intro that [of ?t]) (simp_all add: lact_def upd_log_def modify_apply buf_at_def)
qed

lemma put_words_run:
  assumes "lact p d l R L D V s" and "buf_at b k s" and "k \<in> L" and "R k \<noteq> 0" and "\<forall>i\<in>set is. i < LOGSIZE"
  shows "\<exists>t. forM is (\<lambda>i. bindM (log_block d i) (\<lambda>v. set_buf_word b (i + 1) (wrd v))) s = Inr ((), t) \<and>
    lact p d l R L D (V(k := put_words (lh_block l) is (V k))) t \<and> (\<forall>c k'. buf_at c k' s \<longrightarrow> buf_at c k' t)"
  using assms
proof (induction "is" arbitrary: s V)
  case Nil
  then show ?case by (simp add: put_words_def ret_apply)
next
  case (Cons i "is")
  have i: "i < LOGSIZE" "i + 1 < 256" using Cons.prems(5) by (simp_all add: LOGSIZE_def MAXOPBLOCKS_def)
  obtain t where t: "set_buf_word b (i + 1) (wrd (lh_block l i)) s = Inr ((), t)"
    "lact p d l R L D (V(k := put32 (V k) (i + 1) (wrd (lh_block l i)))) t" "\<forall>c k'. buf_at c k' s \<longrightarrow> buf_at c k' t"
    by (rule set_buf_word_run [OF Cons.prems(1-4) i(2)])
  have at: "buf_at b k t" using t(3) Cons.prems(2) by blast
  have V: "(V(k := put32 (V k) (i + 1) (wrd (lh_block l i))))(k := put_words (lh_block l) is
      ((V(k := put32 (V k) (i + 1) (wrd (lh_block l i)))) k)) = V(k := put_words (lh_block l) (i # is) (V k))"
    by (simp add: put_words_def)
  have "\<forall>i\<in>set is. i < LOGSIZE" using Cons.prems(5) by simp
  from Cons.IH [OF t(2) at Cons.prems(3,4) this] obtain u where u:
    "forM is (\<lambda>i. bindM (log_block d i) (\<lambda>v. set_buf_word b (i + 1) (wrd v))) t = Inr ((), u)"
    "lact p d l R L D (V(k := put_words (lh_block l) (i # is) (V k))) u" "\<forall>c k'. buf_at c k' t \<longrightarrow> buf_at c k' u"
    unfolding V by blast
  have "forM (i # is) (\<lambda>i. bindM (log_block d i) (\<lambda>v. set_buf_word b (i + 1) (wrd v))) s = Inr ((), u)"
    using t(1) u(1) log_block_run [OF Cons.prems(1) i(1)] by (simp add: thenM_run bindM_run)
  then show ?case using u(2,3) t(3) by blast
qed

lemma write_head_ok:
  assumes a: "lact p d l R {} D V s" and H: "H = (of_nat d, wrd (l_start l))" "H \<noteq> (0, 0)" "R H = 0"
    and n: "lh_n l \<le> int LOGSIZE" and room: "card {k. R k \<noteq> 0} < NBUF" and B: "B = head_bytes l (V H)"
  shows "\<exists>t. write_head d s = Inr ((), t) \<and> lact p d l R {} (D(H := B)) (V(H := B)) t"
proof -
  obtain b s1 where s1: "bread (of_nat d) (wrd (l_start l)) s = Inr (b, s1)"
    "lact p d l (R(H := 1)) {H} D V s1" "buf_at b H s1"
    by (rule bread_run [OF a H(1,2)]) (use H(3) room in simp_all)
  obtain s2 where s2: "set_buf_word b 0 (wrd (lh_n l)) s1 = Inr ((), s2)"
    "lact p d l (R(H := 1)) {H} D (V(H := put32 (V H) 0 (wrd (lh_n l)))) s2" "\<forall>c k'. buf_at c k' s1 \<longrightarrow> buf_at c k' s2"
    by (rule set_buf_word_run [OF s1(2,3)]) auto
  have at: "buf_at b H s2" using s2(3) s1(3) by blast
  have LOGSIZE: "\<forall>i\<in>set [0..<nat (lh_n l)]. i < LOGSIZE" using n by auto
  have V: "(V(H := put32 (V H) 0 (wrd (lh_n l))))(H := put_words (lh_block l) [0..<nat (lh_n l)]
      ((V(H := put32 (V H) 0 (wrd (lh_n l)))) H)) = V(H := B)"
    by (simp add: B head_bytes_def)
  obtain s3 where s3: "forM [0..<nat (lh_n l)] (\<lambda>i. bindM (log_block d i) (\<lambda>v. set_buf_word b (i + 1) (wrd v))) s2 = Inr ((), s3)"
    "lact p d l (R(H := 1)) {H} D (V(H := B)) s3" "\<forall>c k'. buf_at c k' s2 \<longrightarrow> buf_at c k' s3"
    using put_words_run [OF s2(2) at _ _ LOGSIZE] unfolding V by auto
  have at3: "buf_at b H s3" using s3(3) at by blast
  obtain s4 where s4: "bwrite b s3 = Inr ((), s4)" "lact p d l (R(H := 1)) {H} (D(H := B)) (V(H := B)) s4"
    "buf_at b H s4"
    by (rule bwrite_run [OF s3(2) at3]) (use at3 in auto)
  obtain s5 where s5: "brelse b s4 = Inr ((), s5)" "lact p d l (R(H := 0)) {} (D(H := B)) (V(H := B)) s5"
    by (rule brelse_run [OF s4(2,3)]) auto
  have "R(H := 0) = R" using H(3) by auto
  then show ?thesis using s1(1) s2(1) s3(1) s4(1) s5 get_log_run [OF a]
    by (intro exI [of _ s5]) (simp add: write_head_def bindM_run thenM_run)
qed

text \<open>Reading the header: the block numbers come into the log in memory, sign-extended.\<close>

definition get_words :: "byte list \<Rightarrow> nat list \<Rightarrow> (nat \<Rightarrow> int) \<Rightarrow> nat \<Rightarrow> int" where
  "get_words bs is f = (\<lambda>i. if i \<in> set is then sint (get32 bs (i + 1)) else f i)"

lemma get_words_Nil: "l\<lparr>lh_block := get_words bs [] (lh_block l)\<rparr> = (l :: log)"
  by (simp add: get_words_def)

lemma get_words_Cons:
  fixes l :: log
  assumes "m = l\<lparr>lh_block := (lh_block l)(i := sint (get32 bs (i + 1)))\<rparr>"
  shows "m\<lparr>lh_block := get_words bs is (lh_block m)\<rparr> = l\<lparr>lh_block := get_words bs (i # is) (lh_block l)\<rparr>"
proof -
  have "get_words bs is (lh_block m) = get_words bs (i # is) (lh_block l)" by (rule ext) (simp add: get_words_def assms)
  then show ?thesis by (simp add: assms)
qed

lemma get_words_run:
  assumes "lact p d l R L D V s" and "buf_at b k s" and "\<forall>i\<in>set is. i < LOGSIZE"
  shows "\<exists>t. forM is (\<lambda>i. bindM (buf_word b (i + 1)) (\<lambda>v. set_log_block d i (sint v))) s = Inr ((), t) \<and>
    lact p d (l\<lparr>lh_block := get_words (V k) is (lh_block l)\<rparr>) R L D V t \<and> (\<forall>c k'. buf_at c k' s \<longrightarrow> buf_at c k' t)"
  using assms
proof (induction "is" arbitrary: s l)
  case Nil
  then show ?case by (simp add: get_words_Nil ret_apply)
next
  case (Cons i "is")
  have i: "i < LOGSIZE" "i + 1 < 256" using Cons.prems(3) by (simp_all add: LOGSIZE_def MAXOPBLOCKS_def)
  let ?f = "\<lambda>l :: log. l\<lparr>lh_block := (lh_block l)(i := sint (get32 (V k) (i + 1)))\<rparr>"
  obtain t where t: "upd_log d ?f s = Inr ((), t)" "lact p d (?f l) R L D V t" "\<forall>c k'. buf_at c k' s \<longrightarrow> buf_at c k' t"
    by (rule upd_log_run [OF Cons.prems(1), where f = ?f])
  have at: "buf_at b k t" using t(3) Cons.prems(2) by blast
  have "\<forall>i\<in>set is. i < LOGSIZE" using Cons.prems(3) by simp
  from Cons.IH [OF t(2) at this] obtain u where u:
    "forM is (\<lambda>i. bindM (buf_word b (i + 1)) (\<lambda>v. set_log_block d i (sint v))) t = Inr ((), u)"
    "lact p d (l\<lparr>lh_block := get_words (V k) (i # is) (lh_block l)\<rparr>) R L D V u" "\<forall>c k'. buf_at c k' t \<longrightarrow> buf_at c k' u"
    unfolding get_words_Cons [OF refl] by blast
  have "forM (i # is) (\<lambda>i. bindM (buf_word b (i + 1)) (\<lambda>v. set_log_block d i (sint v))) s = Inr ((), u)"
    using t(1) u(1) buf_word_run [OF Cons.prems(1,2) i(2)] i(1) by (simp add: thenM_run bindM_run set_log_block_def)
  then show ?case using u(2,3) t(3) by blast
qed

lemma read_head_ok:
  assumes a: "lact p d l R {} D V s" and H: "H = (of_nat d, wrd (l_start l))" "H \<noteq> (0, 0)" "R H = 0"
    and n: "n = sint (get32 (V H) 0)" "n \<le> int LOGSIZE" and room: "card {k. R k \<noteq> 0} < NBUF"
  shows "\<exists>t. read_head d s = Inr ((), t) \<and>
    lact p d (l\<lparr>lh_n := n, lh_block := get_words (V H) [0..<nat n] (lh_block l)\<rparr>) R {} D V t"
proof -
  obtain b s1 where s1: "bread (of_nat d) (wrd (l_start l)) s = Inr (b, s1)"
    "lact p d l (R(H := 1)) {H} D V s1" "buf_at b H s1"
    by (rule bread_run [OF a H(1,2)]) (use H(3) room in simp_all)
  let ?f = "\<lambda>l :: log. l\<lparr>lh_n := n\<rparr>"
  obtain s2 where s2: "upd_log d ?f s1 = Inr ((), s2)" "lact p d (?f l) (R(H := 1)) {H} D V s2" "\<forall>c k'. buf_at c k' s1 \<longrightarrow> buf_at c k' s2"
    by (rule upd_log_run [OF s1(2), where f = ?f])
  have at: "buf_at b H s2" using s2(3) s1(3) by blast
  have "\<forall>i\<in>set [0..<nat n]. i < LOGSIZE" using n by auto
  from get_words_run [OF s2(2) at this] obtain s3 where
    s3: "forM [0..<nat n] (\<lambda>i. bindM (buf_word b (i + 1)) (\<lambda>v. set_log_block d i (sint v))) s2 = Inr ((), s3)"
    "lact p d (l\<lparr>lh_n := n, lh_block := get_words (V H) [0..<nat n] (lh_block l)\<rparr>) (R(H := 1)) {H} D V s3" "buf_at b H s3"
    using at by (auto simp del: split_paired_All)
  have VH: "V H = D H" by (rule act_clean_view [OF lact_act [OF a] H(3)])
  obtain s4 where s4: "brelse b s3 = Inr ((), s4)"
    "lact p d (l\<lparr>lh_n := n, lh_block := get_words (V H) [0..<nat n] (lh_block l)\<rparr>) (R(H := 0)) {} D V s4"
    by (rule brelse_run [OF s3(2,3)]) (use VH in auto)
  have "R(H := 0) = R" using H(3) by auto
  then show ?thesis using s1(1) s2(1) s3(1) s4 get_log_run [OF a] buf_word_run [OF s1(2,3), of 0]
    by (intro exI [of _ s4]) (simp add: read_head_def bindM_run thenM_run n(1))
qed

end
