(* ===== verification/Log_Atomic.thy ===== *)
theory Log_Atomic
  imports Log_Spec Proc_Theorems
begin

text \<open>
  The redo log across a crash.  \<open>commit\<close> is a sequence of steps each of which writes one block of
  the disk; whatever the step at which the machine stops, \<open>recover_from_log\<close> on a fresh cache brings
  the disk to the state before the transaction or to the one after it.
\<close>

section \<open>Sequences of steps\<close>

lemma forM_map: "forM (map f xs) g = forM xs (\<lambda>x. g (f x))"
  by (induction xs) auto

lemma forM_snoc_run: "forM xs f s = Inr ((), t) \<Longrightarrow> f x t = Inr ((), u) \<Longrightarrow> forM (xs @ [x]) f s = Inr ((), u)"
  by (simp add: forM_append thenM_apply ret_apply)

section \<open>The blocks of a log\<close>

definition head_blk :: "nat \<Rightarrow> log \<Rightarrow> block" where
  "head_blk d l = (of_nat d, wrd (l_start l))"

definition slot :: "nat \<Rightarrow> log \<Rightarrow> nat \<Rightarrow> block" where
  "slot d l i = (of_nat d, wrd (l_start l + int i + 1))"

definition home :: "nat \<Rightarrow> log \<Rightarrow> nat \<Rightarrow> block" where
  "home d l i = (of_nat d, wrd (lh_block l i))"

definition log_area :: "nat \<Rightarrow> log \<Rightarrow> block set" where
  "log_area d l = insert (head_blk d l) (slot d l ` {..<nat (lh_n l)})"

definition homes :: "nat \<Rightarrow> log \<Rightarrow> block set" where
  "homes d l = home d l ` {..<nat (lh_n l)}"

text \<open>A log whose blocks are distinct, outside the log, and fewer than \<open>log_write\<close> allows.\<close>

definition log_wf :: "log \<Rightarrow> bool" where
  "log_wf l \<longleftrightarrow> 0 \<le> lh_n l \<and> lh_n l < int LOGSIZE \<and> 0 < l_start l \<and> l_start l + int LOGSIZE < 2 ^ 31 \<and>
     distinct (map (lh_block l) [0..<nat (lh_n l)]) \<and>
     (\<forall>i<nat (lh_n l). 0 < lh_block l i \<and> lh_block l i < 2 ^ 31 \<and>
       (lh_block l i < l_start l \<or> l_start l + lh_n l < lh_block l i))"

lemma sint_wrd: "0 \<le> x \<Longrightarrow> x < 2 ^ 31 \<Longrightarrow> sint (wrd x) = x"
  unfolding wrd_def sint_sbintrunc' by (rule signed_take_bit_int_eq_self) simp_all

lemma wrd_inj: "0 \<le> x \<Longrightarrow> x < 2 ^ 31 \<Longrightarrow> 0 \<le> y \<Longrightarrow> y < 2 ^ 31 \<Longrightarrow> wrd x = wrd y \<longleftrightarrow> x = y"
  using sint_wrd by metis

lemma wrd_nz: "0 < x \<Longrightarrow> x < 2 ^ 31 \<Longrightarrow> wrd x \<noteq> 0"
  using wrd_inj [of x 0] by (simp add: wrd_def)

lemma log_wfD:
  assumes "log_wf l"
  shows wf_start: "0 < l_start l" "l_start l < 2 ^ 31" and wf_n: "0 \<le> lh_n l" "nat (lh_n l) < LOGSIZE"
    and wf_slot: "i < nat (lh_n l) \<Longrightarrow> 0 < l_start l + int i + 1 \<and> l_start l + int i + 1 < 2 ^ 31"
    and wf_home: "i < nat (lh_n l) \<Longrightarrow> 0 < lh_block l i \<and> lh_block l i < 2 ^ 31"
    and wf_out: "i < nat (lh_n l) \<Longrightarrow> lh_block l i < l_start l \<or> l_start l + lh_n l < lh_block l i"
    and wf_inj: "inj_on (lh_block l) {..<nat (lh_n l)}"
  using assms by (auto simp: log_wf_def distinct_map atLeast0LessThan)

lemma blocks_apart:
  assumes w: "log_wf l"
  shows "head_blk d l \<noteq> (0, 0)" and "i < nat (lh_n l) \<Longrightarrow> slot d l i \<noteq> (0, 0)" and "i < nat (lh_n l) \<Longrightarrow> home d l i \<noteq> (0, 0)"
    and "i < nat (lh_n l) \<Longrightarrow> slot d l i \<noteq> head_blk d l" and "i < nat (lh_n l) \<Longrightarrow> home d l i \<noteq> head_blk d l"
    and "i < nat (lh_n l) \<Longrightarrow> j < nat (lh_n l) \<Longrightarrow> slot d l i \<noteq> home d l j"
    and "i < nat (lh_n l) \<Longrightarrow> j < nat (lh_n l) \<Longrightarrow> slot d l i = slot d l j \<longleftrightarrow> i = j"
    and "i < nat (lh_n l) \<Longrightarrow> j < nat (lh_n l) \<Longrightarrow> home d l i = home d l j \<longleftrightarrow> i = j"
proof -
  note st = wf_start [OF w] and sl = wf_slot [OF w] and ho = wf_home [OF w] and ou = wf_out [OF w]
  show "head_blk d l \<noteq> (0, 0)" using wrd_nz st by (simp add: head_blk_def)
  show "slot d l i \<noteq> (0, 0)" if "i < nat (lh_n l)" using wrd_nz sl [OF that] by (simp add: slot_def)
  show "home d l i \<noteq> (0, 0)" if "i < nat (lh_n l)" using wrd_nz ho [OF that] by (simp add: home_def)
  show "slot d l i \<noteq> head_blk d l" if "i < nat (lh_n l)"
    using sl [OF that] st wrd_inj [of "l_start l + int i + 1" "l_start l"] by (simp add: slot_def head_blk_def)
  show "home d l i \<noteq> head_blk d l" if "i < nat (lh_n l)"
    using ho [OF that] ou [OF that] st wf_n [OF w] wrd_inj [of "lh_block l i" "l_start l"] by (auto simp: home_def head_blk_def)
  show "slot d l i \<noteq> home d l j" if "i < nat (lh_n l)" "j < nat (lh_n l)"
    using sl [OF that(1)] ho [OF that(2)] ou [OF that(2)] that(1) wrd_inj [of "l_start l + int i + 1" "lh_block l j"]
    by (auto simp: slot_def home_def)
  show "slot d l i = slot d l j \<longleftrightarrow> i = j" if "i < nat (lh_n l)" "j < nat (lh_n l)"
    using sl [OF that(1)] sl [OF that(2)] wrd_inj [of "l_start l + int i + 1" "l_start l + int j + 1"] by (auto simp: slot_def)
  show "home d l i = home d l j \<longleftrightarrow> i = j" if "i < nat (lh_n l)" "j < nat (lh_n l)"
    using ho [OF that(1)] ho [OF that(2)] wrd_inj [of "lh_block l i" "lh_block l j"] inj_onD [OF wf_inj [OF w], of i j] that
    by (auto simp: home_def)
qed

section \<open>Writing one block after the other\<close>

primrec ovr :: "(nat \<Rightarrow> block) \<Rightarrow> (nat \<Rightarrow> byte list) \<Rightarrow> nat \<Rightarrow> (block \<Rightarrow> byte list) \<Rightarrow> block \<Rightarrow> byte list" where
  "ovr A v 0 F = F"
| "ovr A v (Suc i) F = (ovr A v i F)(A i := v i)"

lemma ovr_other: "(\<And>j. j < i \<Longrightarrow> k \<noteq> A j) \<Longrightarrow> ovr A v i F k = F k"
  by (induction i) auto

lemma ovr_at: "(\<And>a b. a < i \<Longrightarrow> b < i \<Longrightarrow> A a = A b \<longleftrightarrow> a = b) \<Longrightarrow> j < i \<Longrightarrow> ovr A v i F (A j) = v j"
  by (induction i) (auto simp: less_Suc_eq)

lemma write_loop:
  assumes a: "lact p d l R {} D V s" and w: "log_wf l" and n: "n = nat (lh_n l)"
    and pin: "\<forall>i<n. R (slot d l i) = 0 \<and> R (home d l i) = 1" and room: "card {k. R k \<noteq> 0} < NBUF" and i: "i \<le> n"
  shows "\<exists>t. forM [0..<i] (write_log_step d (l_start l)) s = Inr ((), t) \<and>
    lact p d l R {} (ovr (slot d l) (\<lambda>j. V (home d l j)) i D) (ovr (slot d l) (\<lambda>j. V (home d l j)) i V) t"
  using i
proof (induction i)
  case 0
  then show ?case using a by (simp add: ret_apply)
next
  case (Suc i)
  note ap = blocks_apart [OF w, where d = d, folded n]
  let ?o = "ovr (slot d l) (\<lambda>j. V (home d l j))"
  obtain t where t: "forM [0..<i] (write_log_step d (l_start l)) s = Inr ((), t)" "lact p d l R {} (?o i D) (?o i V) t"
    using Suc by auto
  have "?o i V (home d l i) = V (home d l i)" by (rule ovr_other) (use ap(6) [of _ i] Suc.prems in \<open>metis Suc_le_lessD less_trans\<close>)
  moreover have i: "i < LOGSIZE" using wf_n [OF w] Suc.prems n by simp
  have "slot d l i \<noteq> (0, 0)" "R (slot d l i) = 0" "R (home d l i) = 1" using ap(2) [of i] pin Suc.prems by simp_all
  note st = write_log_step_ok [OF t(2) slot_def this(1,2) home_def this(3) i room]
  ultimately obtain u where u: "write_log_step d (l_start l) i t = Inr ((), u)" "lact p d l R {} (?o (Suc i) D) (?o (Suc i) V) u"
    using st by auto
  then show ?case using forM_snoc_run [OF t(1)] unfolding upt_Suc_append [OF le0] by blast
qed

text \<open>Installing takes one reference from each home block, whether it has one or not.\<close>

definition drop_refs :: "(nat \<Rightarrow> block) \<Rightarrow> nat \<Rightarrow> (block \<Rightarrow> 32 word) \<Rightarrow> block \<Rightarrow> 32 word" where
  "drop_refs B i R = (\<lambda>k. if k \<in> B ` {..<i} then R k - 1 else R k)"

lemma drop_refs_0: "drop_refs B 0 R = R"
  by (simp add: drop_refs_def)

lemma drop_refs_Suc:
  "B i \<notin> B ` {..<i} \<Longrightarrow> (drop_refs B i R)(B i := drop_refs B i R (B i) - 1) = drop_refs B (Suc i) R"
  by (rule ext) (auto simp: drop_refs_def lessThan_Suc)

lemma install_loop:
  assumes a: "lact p d l R {} D V s" and w: "log_wf l" and n: "n = nat (lh_n l)"
    and ref: "\<forall>i<n. R (slot d l i) = 0 \<and> R (home d l i) \<noteq> - 1"
    and room: "\<forall>i<n. card {k. drop_refs (home d l) i R k \<noteq> 0} + (if R (home d l i) = 0 then 1 else 0) < NBUF" and i: "i \<le> n"
  shows "\<exists>t. forM [0..<i] (install_step d (l_start l)) s = Inr ((), t) \<and>
    lact p d l (drop_refs (home d l) i R) {} (ovr (home d l) (\<lambda>j. V (slot d l j)) i D) (ovr (home d l) (\<lambda>j. V (slot d l j)) i V) t"
  using i
proof (induction i)
  case 0
  then show ?case using a by (simp add: ret_apply drop_refs_0)
next
  case (Suc i)
  note ap = blocks_apart [OF w, where d = d, folded n]
  let ?o = "ovr (home d l) (\<lambda>j. V (slot d l j))" and ?R = "drop_refs (home d l) i R"
  obtain t where t: "forM [0..<i] (install_step d (l_start l)) s = Inr ((), t)" "lact p d l ?R {} (?o i D) (?o i V) t"
    using Suc by auto
  have i: "i < n" "i < LOGSIZE" using wf_n [OF w] Suc.prems n by simp_all
  have o: "?o i V (slot d l i) = V (slot d l i)" by (rule ovr_other) (use ap(6) [of i] i(1) in \<open>metis less_trans\<close>)
  have h: "home d l i \<notin> home d l ` {..<i}" using ap(8) i(1) by force
  then have Rh: "?R (home d l i) = R (home d l i)" by (simp add: drop_refs_def)
  have "slot d l i \<notin> home d l ` {..<i}" using ap(6) i(1) by force
  then have Rs: "?R (slot d l i) = 0" using ref i(1) by (simp add: drop_refs_def)
  have rm: "card {k. ?R k \<noteq> 0} + (if R (home d l i) = 0 then 1 else 0) < NBUF" using room i(1) by blast
  obtain u where u: "install_step d (l_start l) i t = Inr ((), u)"
    "lact p d l (?R(home d l i := ?R (home d l i) - 1)) {} ((?o i D)(home d l i := ?o i V (slot d l i)))
      ((?o i V)(home d l i := ?o i V (slot d l i))) u"
    using install_step_ok [OF t(2) slot_def ap(2) [OF i(1)] Rs home_def ap(3) [OF i(1)] _ ap(6) [OF i(1) i(1)] i(2)] rm ref i(1)
    by (auto simp: Rh split: if_splits)
  from u(2) have "lact p d l (drop_refs (home d l) (Suc i) R) {} (?o (Suc i) D) (?o (Suc i) V) u"
    unfolding drop_refs_Suc [OF h] o ovr.simps .
  then show ?case using forM_snoc_run [OF t(1) u(1)] unfolding upt_Suc_append [OF le0] by blast
qed

section \<open>Recovery\<close>

lemma erase_ok:
  assumes a: "lact p d l R {} D V s" and H: "H = head_blk d l" "H \<noteq> (0, 0)" "R H = 0" and room: "card {k. R k \<noteq> 0} < NBUF"
  shows "\<exists>t. thenM (upd_log d (\<lambda>l. l\<lparr>lh_n := 0\<rparr>)) (write_head d) s = Inr ((), t) \<and>
    lact p d (l\<lparr>lh_n := 0\<rparr>) R {} (D(H := put32 (V H) 0 0)) (V(H := put32 (V H) 0 0)) t"
proof -
  let ?f = "\<lambda>l :: log. l\<lparr>lh_n := 0\<rparr>"
  obtain t where t: "upd_log d ?f s = Inr ((), t)" "lact p d (?f l) R {} D V t" by (rule upd_log_run [OF a, where f = ?f])
  have H': "H = (of_nat d, wrd (l_start (?f l)))" using H(1) by (simp add: head_blk_def)
  have B: "put32 (V H) 0 0 = head_bytes (?f l) (V H)" by (simp add: head_bytes_def put_words_def wrd_def)
  show ?thesis using write_head_ok [OF t(2) H' H(2,3) _ room B] t(1) by (auto simp: thenM_run)
qed

definition head_log :: "log \<Rightarrow> byte list \<Rightarrow> log" where
  "head_log l bs = l\<lparr>lh_n := sint (get32 bs 0), lh_block := get_words bs [0..<nat (sint (get32 bs 0))] (lh_block l)\<rparr>"

lemma card_drop_refs: "card {k. drop_refs B i (\<lambda>_. 0) k \<noteq> 0} \<le> i"
proof -
  have "card {k. drop_refs B i (\<lambda>_. 0) k \<noteq> 0} \<le> card (B ` {..<i})"
    by (rule card_mono) (auto simp: drop_refs_def split: if_splits)
  also have "\<dots> \<le> i" using card_image_le [of "{..<i}" B] by simp
  finally show ?thesis .
qed

lemma recover_ok:
  assumes a: "lact p d l (\<lambda>_. 0) {} D D r" and H: "H = head_blk d l"
    and m: "m = head_log l (D H)" "log_wf m" and n: "n = nat (lh_n m)"
    and F: "F = ovr (home d m) (\<lambda>j. D (slot d m j)) n D"
  shows "\<exists>u. recover_from_log d r = Inr ((), u) \<and>
    lact p d (m\<lparr>lh_n := 0\<rparr>) (drop_refs (home d m) n (\<lambda>_. 0)) {} (F(H := put32 (F H) 0 0)) (F(H := put32 (F H) 0 0)) u"
proof -
  note ap = blocks_apart [OF m(2), where d = d, folded n]
  have Hm: "H = head_blk d m" "H = (of_nat d, wrd (l_start l))" using H m(1) by (simp_all add: head_blk_def head_log_def)
  have H0: "H \<noteq> (0, 0)" using ap(1) Hm(1) by simp
  have nb: "n < LOGSIZE" "LOGSIZE = NBUF" using wf_n [OF m(2)] n by (simp_all add: LOGSIZE_def NBUF_def)
  have len: "sint (get32 (D H) 0) \<le> int LOGSIZE" using m wf_n [OF m(2)] by (simp add: head_log_def)
  obtain s1 where s1: "read_head d r = Inr ((), s1)" "lact p d m (\<lambda>_. 0) {} D D s1"
    using read_head_ok [OF a Hm(2) H0 refl refl len] unfolding m(1) head_log_def by (auto simp: NBUF_def MAXOPBLOCKS_def)
  have "card {k. drop_refs (home d m) i (\<lambda>_. 0) k \<noteq> 0} + 1 < NBUF" if "i < n" for i
    using card_drop_refs [of "home d m" i] nb that by linarith
  then have rm: "\<forall>i<n. card {k. drop_refs (home d m) i (\<lambda>_. 0) k \<noteq> 0} + (if (0 :: 32 word) = 0 then 1 else 0) < NBUF"
    by simp
  obtain s2 where s2: "forM [0..<n] (install_step d (l_start m)) s1 = Inr ((), s2)"
    "lact p d m (drop_refs (home d m) n (\<lambda>_. 0)) {} F F s2"
    using install_loop [OF s1(2) m(2) n _ rm order_refl] unfolding F by auto
  have "H \<notin> home d m ` {..<n}" using ap(5) Hm(1) by force
  then have RH: "drop_refs (home d m) n (\<lambda>_. 0) H = 0" by (simp add: drop_refs_def)
  have cd: "card {k. drop_refs (home d m) n (\<lambda>_. 0) k \<noteq> 0} < NBUF"
    using card_drop_refs [of "home d m" n] nb by simp
  obtain u where u: "thenM (upd_log d (\<lambda>l. l\<lparr>lh_n := 0\<rparr>)) (write_head d) s2 = Inr ((), u)"
    "lact p d (m\<lparr>lh_n := 0\<rparr>) (drop_refs (home d m) n (\<lambda>_. 0)) {} (F(H := put32 (F H) 0 0)) (F(H := put32 (F H) 0 0)) u"
    using erase_ok [OF s2(2) Hm(1) H0 RH cd] by blast
  have "install_trans d s1 = Inr ((), s2)"
    unfolding install_trans_def using s2(1) n by (simp add: bindM_run get_log_run [OF s1(2)])
  then have "recover_from_log d r = Inr ((), u)" using s1(1) u(1) by (simp add: recover_from_log_def thenM_run)
  then show ?thesis using u(2) by blast
qed

definition dsk :: "'a bstate_scheme \<Rightarrow> block \<Rightarrow> byte list" where
  "dsk s k = disk s (fst k) (snd k)"

lemma lact_dsk: "lact p d l R L D V s \<Longrightarrow> dsk s = D"
  by (rule ext) (simp add: dsk_def act_disk [OF lact_act])

lemma log_wf_cong:
  assumes "log_wf l" "l_start m = l_start l" "lh_n m = lh_n l" "\<forall>i<nat (lh_n l). lh_block m i = lh_block l i"
  shows "log_wf m"
proof -
  have e: "map (lh_block m) [0..<nat (lh_n l)] = map (lh_block l) [0..<nat (lh_n l)]" using assms(4) by simp
  have "distinct (map (lh_block m) [0..<nat (lh_n l)])" unfolding e using assms(1) by (simp add: log_wf_def)
  then show ?thesis using assms unfolding log_wf_def by simp
qed

text \<open>A log header on disk that says 0: recovery changes no block but the header.\<close>

lemma recover_empty:
  assumes a: "lact q d m (\<lambda>_. 0) {} D D r" and l: "log_wf l" "l_start m = l_start l"
    and h: "length (D (head_blk d l)) = BSIZE" "get32 (D (head_blk d l)) 0 = 0"
  shows "\<exists>u. recover_from_log d r = Inr ((), u) \<and> get32 (dsk u (head_blk d l)) 0 = 0 \<and>
    (\<forall>b. b \<noteq> head_blk d l \<longrightarrow> dsk u b = D b)"
proof -
  let ?H = "head_blk d l" and ?m = "head_log m (D (head_blk d l))"
  have H: "?H = head_blk d m" using l(2) by (simp add: head_blk_def)
  have n: "lh_n ?m = 0" "l_start ?m = l_start l" using h(2) l(2) by (simp_all add: head_log_def)
  have w: "log_wf ?m" using l(1) n by (simp add: log_wf_def)
  obtain u where u: "recover_from_log d r = Inr ((), u)" "dsk u = D(?H := put32 (D ?H) 0 0)"
    using recover_ok [OF a H refl w refl refl] n(1) by (auto simp: lact_dsk)
  moreover have "get32 (put32 (D ?H) 0 0) 0 = 0" using h(1) by (intro get32_put32) (simp add: BSIZE_def)
  ultimately show ?thesis by (intro exI [of _ u]) simp
qed

text \<open>A header that lists the blocks of a transaction: they get what the log has for them.\<close>

lemma head_log_bytes:
  assumes "log_wf l" "length x = BSIZE" "l_start m = l_start l" "h = head_log m (head_bytes l x)"
  shows "lh_n h = lh_n l" and "l_start h = l_start l" and "i < nat (lh_n l) \<Longrightarrow> lh_block h i = lh_block l i" and "log_wf h"
proof -
  have b: "lh_n l \<le> int LOGSIZE" "lh_n l < 2 ^ 31" using wf_n [OF assms(1)] by (simp_all add: LOGSIZE_def MAXOPBLOCKS_def)
  note g = head_bytes_get [OF assms(2) b(1)]
  show n: "lh_n h = lh_n l" using g(2) sint_wrd b(2) wf_n [OF assms(1)] by (simp add: assms(4) head_log_def)
  show st: "l_start h = l_start l" using assms(3,4) by (simp add: head_log_def)
  have k: "lh_block h i = lh_block l i" if "i < nat (lh_n l)" for i
    using that n g(3) [OF that] sint_wrd wf_home [OF assms(1) that] by (simp add: assms(4) head_log_def get_words_def)
  show "i < nat (lh_n l) \<Longrightarrow> lh_block h i = lh_block l i" by (rule k)
  show "log_wf h" by (rule log_wf_cong [OF assms(1) st n]) (use k in blast)
qed

lemma ovr_cong: "(\<And>j. j < i \<Longrightarrow> A j = B j \<and> v j = w j) \<Longrightarrow> ovr A v i F = ovr B w i F"
  by (induction i) auto

lemma recover_full:
  assumes a: "lact q d m (\<lambda>_. 0) {} D D r" and l: "log_wf l" "l_start m = l_start l"
    and h: "length x = BSIZE" "D (head_blk d l) = head_bytes l x"
  shows "\<exists>u. recover_from_log d r = Inr ((), u) \<and> get32 (dsk u (head_blk d l)) 0 = 0 \<and>
    (\<forall>b. b \<noteq> head_blk d l \<longrightarrow> dsk u b = ovr (home d l) (\<lambda>j. D (slot d l j)) (nat (lh_n l)) D b)"
proof -
  let ?H = "head_blk d l" and ?h = "head_log m (head_bytes l x)"
  let ?F = "ovr (home d l) (\<lambda>j. D (slot d l j)) (nat (lh_n l)) D"
  have H: "?H = head_blk d m" using l(2) by (simp add: head_blk_def)
  have e: "?h = head_log m (D ?H)" using h(2) by simp
  note k = head_log_bytes [OF l(1) h(1) l(2) refl]
  have F: "?F = ovr (home d ?h) (\<lambda>j. D (slot d ?h j)) (nat (lh_n l)) D"
    by (rule ovr_cong) (use k in \<open>auto simp: home_def slot_def\<close>)
  obtain u where u: "recover_from_log d r = Inr ((), u)" "dsk u = ?F(?H := put32 (?F ?H) 0 0)"
    using recover_ok [OF a H e k(4) refl refl] F k(1) by (auto simp: lact_dsk)
  have "?F ?H = D ?H" using blocks_apart(5) [OF l(1), of _ d] by (intro ovr_other) metis
  then have "get32 (put32 (?F ?H) 0 0) 0 = 0"
    using head_bytes_get(1) [OF h(1)] wf_n [OF l(1)] h by (intro get32_put32) (simp add: BSIZE_def)
  then show ?thesis using u by (intro exI [of _ u]) simp
qed

section \<open>The steps of a commit\<close>

definition commit_steps :: "nat \<Rightarrow> log \<Rightarrow> ('a lstate_scheme, unit) kmon list" where
  "commit_steps d l = map (write_log_step d (l_start l)) [0..<nat (lh_n l)] @ [write_head d] @
     map (install_step d (l_start l)) [0..<nat (lh_n l)] @ [thenM (upd_log d (\<lambda>l. l\<lparr>lh_n := 0\<rparr>)) (write_head d)]"

definition steps :: "('s, unit) kmon list \<Rightarrow> ('s, unit) kmon" where
  "steps ms = forM ms (\<lambda>m. m)"

text \<open>
  A transaction ready to be committed: its blocks are pinned in the cache, the blocks of the log are
  not in use, there is a free buffer, and the header on disk lists no block.
\<close>

definition ready :: "nat \<Rightarrow> nat \<Rightarrow> log \<Rightarrow> (block \<Rightarrow> 32 word) \<Rightarrow> (block \<Rightarrow> byte list) \<Rightarrow> (block \<Rightarrow> byte list) \<Rightarrow> 'a lstate_scheme \<Rightarrow> bool" where
  "ready p d l R D V s \<longleftrightarrow> lact p d l R {} D V s \<and> log_wf l \<and> 0 < lh_n l \<and>
     (\<forall>i<nat (lh_n l). R (slot d l i) = 0 \<and> R (home d l i) = 1) \<and> R (head_blk d l) = 0 \<and> card {k. R k \<noteq> 0} < NBUF \<and>
     length (D (head_blk d l)) = BSIZE \<and> get32 (D (head_blk d l)) 0 = 0"

lemma readyD:
  assumes "ready p d l R D V s"
  shows ready_lact: "lact p d l R {} D V s" and ready_wf: "log_wf l" and "0 < lh_n l"
    and ready_refs: "\<forall>i<nat (lh_n l). R (slot d l i) = 0 \<and> R (home d l i) = 1" "R (head_blk d l) = 0"
    and ready_room: "card {k. R k \<noteq> 0} < NBUF"
    and ready_head: "length (D (head_blk d l)) = BSIZE" "get32 (D (head_blk d l)) 0 = 0" "V (head_blk d l) = D (head_blk d l)"
  using assms act_clean_view [OF lact_act, of p d l R "{}" D V s "head_blk d l"] by (simp_all add: ready_def)

text \<open>The disk after \<open>k\<close> blocks of the log, and after the header and \<open>i\<close> home blocks.\<close>

definition logged :: "nat \<Rightarrow> log \<Rightarrow> (block \<Rightarrow> byte list) \<Rightarrow> nat \<Rightarrow> (block \<Rightarrow> byte list) \<Rightarrow> block \<Rightarrow> byte list" where
  "logged d l V k F = ovr (slot d l) (\<lambda>j. V (home d l j)) k F"

definition installed :: "nat \<Rightarrow> log \<Rightarrow> (block \<Rightarrow> byte list) \<Rightarrow> nat \<Rightarrow> (block \<Rightarrow> byte list) \<Rightarrow> block \<Rightarrow> byte list" where
  "installed d l V i F = ovr (home d l) (\<lambda>j. V (home d l j)) i ((logged d l V (nat (lh_n l)) F)(head_blk d l := head_bytes l (V (head_blk d l))))"

lemma commit_write:
  assumes r: "ready p d l R D V s" and k: "k \<le> nat (lh_n l)"
  shows "\<exists>t. forM [0..<k] (write_log_step d (l_start l)) s = Inr ((), t) \<and> lact p d l R {} (logged d l V k D) (logged d l V k V) t"
  unfolding logged_def by (rule write_loop [OF ready_lact [OF r] ready_wf [OF r] refl ready_refs(1) [OF r] ready_room [OF r] k])

lemma commit_install:
  assumes r: "ready p d l R D V s" and i: "i \<le> nat (lh_n l)"
  shows "\<exists>t u v. forM [0..<nat (lh_n l)] (write_log_step d (l_start l)) s = Inr ((), t) \<and> write_head d t = Inr ((), u) \<and>
    get_log d u = Inr (l, u) \<and> forM [0..<i] (install_step d (l_start l)) u = Inr ((), v) \<and>
    lact p d l (drop_refs (home d l) i R) {} (installed d l V i D) (installed d l V i V) v"
proof -
  note w = ready_wf [OF r] and ap = blocks_apart [OF ready_wf [OF r], where d = d]
  let ?n = "nat (lh_n l)" and ?H = "head_blk d l"
  let ?h = "head_bytes l (V ?H)"
  obtain t where t: "forM [0..<?n] (write_log_step d (l_start l)) s = Inr ((), t)" "lact p d l R {} (logged d l V ?n D) (logged d l V ?n V) t"
    using commit_write [OF r order_refl] by blast
  have "logged d l V ?n V ?H = V ?H" unfolding logged_def by (rule ovr_other) (metis ap(4))
  then have h: "?h = head_bytes l (logged d l V ?n V ?H)" by simp
  have "lh_n l \<le> int LOGSIZE" using wf_n [OF w] by linarith
  from write_head_ok [OF t(2) head_blk_def ap(1) ready_refs(2) [OF r] this ready_room [OF r] h] obtain u where
    u: "write_head d t = Inr ((), u)" "lact p d l R {} ((logged d l V ?n D)(?H := ?h)) ((logged d l V ?n V)(?H := ?h)) u"
    by blast
  have "drop_refs (home d l) i R k \<noteq> 0 \<Longrightarrow> R k \<noteq> 0" if "i < ?n" for i k
    using ready_refs(1) [OF r] that by (auto simp: drop_refs_def split: if_splits)
  then have "card {k. drop_refs (home d l) i R k \<noteq> 0} \<le> card {k. R k \<noteq> 0}" if "i < ?n" for i
    using that by (intro card_mono act_finite [OF lact_act [OF u(2)]]) auto
  then have rm: "\<forall>i<?n. card {k. drop_refs (home d l) i R k \<noteq> 0} + (if R (home d l i) = 0 then 1 else 0) < NBUF"
    using ready_refs(1) [OF r] ready_room [OF r] by (auto intro: le_less_trans)
  have v: "((logged d l V ?n V)(?H := ?h)) (slot d l j) = V (home d l j)" if "j < ?n" for j
    using ap(4) [OF that] ovr_at [of ?n "slot d l" j] ap(7) that unfolding logged_def by simp
  have o: "ovr (home d l) (\<lambda>j. ((logged d l V ?n V)(?H := ?h)) (slot d l j)) i F = ovr (home d l) (\<lambda>j. V (home d l j)) i F" for F
    by (rule ovr_cong) (use v i in simp)
  have "\<forall>i<?n. R (slot d l i) = 0 \<and> R (home d l i) \<noteq> - 1" using ready_refs(1) [OF r] by simp
  from install_loop [OF u(2) w refl this rm i] show ?thesis
    unfolding o installed_def using t(1) u(1) get_log_run [OF u(2)] by blast
qed

lemma commit_erase:
  assumes r: "ready p d l R D V s"
  shows "\<exists>t u v w. forM [0..<nat (lh_n l)] (write_log_step d (l_start l)) s = Inr ((), t) \<and> write_head d t = Inr ((), u) \<and>
    get_log d u = Inr (l, u) \<and> forM [0..<nat (lh_n l)] (install_step d (l_start l)) u = Inr ((), v) \<and>
    thenM (upd_log d (\<lambda>l. l\<lparr>lh_n := 0\<rparr>)) (write_head d) v = Inr ((), w) \<and>
    dsk w = (installed d l V (nat (lh_n l)) D)(head_blk d l := put32 (installed d l V (nat (lh_n l)) V (head_blk d l)) 0 0)"
proof -
  let ?n = "nat (lh_n l)" and ?H = "head_blk d l"
  note ap = blocks_apart [OF ready_wf [OF r], where d = d]
  obtain t u v where t: "forM [0..<?n] (write_log_step d (l_start l)) s = Inr ((), t)" "write_head d t = Inr ((), u)"
    "get_log d u = Inr (l, u)" "forM [0..<?n] (install_step d (l_start l)) u = Inr ((), v)"
    "lact p d l (drop_refs (home d l) ?n R) {} (installed d l V ?n D) (installed d l V ?n V) v"
    using commit_install [OF r order_refl] by blast
  have "?H \<notin> home d l ` {..<?n}" using ap(5) by force
  then have RH: "drop_refs (home d l) ?n R ?H = 0" using ready_refs(2) [OF r] by (simp add: drop_refs_def)
  have "card {k. drop_refs (home d l) ?n R k \<noteq> 0} \<le> card {k. R k \<noteq> 0}"
    using ready_refs(1) [OF r] by (intro card_mono act_finite [OF lact_act [OF ready_lact [OF r]]]) (auto simp: drop_refs_def split: if_splits)
  then have "card {k. drop_refs (home d l) ?n R k \<noteq> 0} < NBUF" using ready_room [OF r] by simp
  from erase_ok [OF t(5) refl ap(1) RH this] show ?thesis using t(1-4) lact_dsk by blast
qed

lemma commit_run:
  assumes r: "ready p d l R D V s"
  shows "\<exists>w. commit d s = Inr ((), w) \<and> steps (commit_steps d l) s = Inr ((), w) \<and>
    dsk w = (installed d l V (nat (lh_n l)) D)(head_blk d l := put32 (installed d l V (nat (lh_n l)) V (head_blk d l)) 0 0)"
proof -
  obtain t u v w where t: "forM [0..<nat (lh_n l)] (write_log_step d (l_start l)) s = Inr ((), t)" "write_head d t = Inr ((), u)"
    "get_log d u = Inr (l, u)" "forM [0..<nat (lh_n l)] (install_step d (l_start l)) u = Inr ((), v)"
    "thenM (upd_log d (\<lambda>l. l\<lparr>lh_n := 0\<rparr>)) (write_head d) v = Inr ((), w)"
    "dsk w = (installed d l V (nat (lh_n l)) D)(head_blk d l := put32 (installed d l V (nat (lh_n l)) V (head_blk d l)) 0 0)"
    using commit_erase [OF r] by blast
  have "commit d s = Inr ((), w)"
    using t(1-5) get_log_run [OF ready_lact [OF r]] readyD(3) [OF r]
    by (simp add: commit_def write_log_def install_trans_def bindM_run thenM_run whenM_def)
  moreover have "steps (commit_steps d l) s = Inr ((), w)"
    using t(1-5) by (simp add: steps_def commit_steps_def forM_append forM_map thenM_run ret_apply)
  ultimately show ?thesis using t(6) by blast
qed

text \<open>The disk at every point of the commit.\<close>

lemma commit_disk:
  assumes r: "ready p d l R D V s" and n: "n = nat (lh_n l)" and k: "k \<le> 2 * n + 2"
  shows "\<exists>t. steps (take k (commit_steps d l)) s = Inr ((), t) \<and>
    dsk t = (if k \<le> n then logged d l V k D else if k \<le> 2 * n + 1 then installed d l V (k - (n + 1)) D
      else (installed d l V n D)(head_blk d l := put32 (installed d l V n V (head_blk d l)) 0 0))"
proof -
  consider "k \<le> n" | "n < k" "k \<le> 2 * n + 1" | "k = 2 * n + 2" using k by linarith
  then show ?thesis
  proof cases
    case 1
    then have e: "take k (commit_steps d l) = map (write_log_step d (l_start l)) [0..<k]"
      by (simp add: commit_steps_def take_map n)
    obtain t where "forM [0..<k] (write_log_step d (l_start l)) s = Inr ((), t)" "dsk t = logged d l V k D"
      using commit_write [OF r, of k] 1 n lact_dsk by blast
    then show ?thesis unfolding e using 1 by (auto simp: steps_def forM_map)
  next
    case 2
    then obtain i where i: "k = n + 1 + i" "i \<le> n" by (metis Suc_eq_plus1 add_Suc less_iff_Suc_add mult_2 nat_add_left_cancel_le Suc_le_mono)
    have e: "take k (commit_steps d l) = map (write_log_step d (l_start l)) [0..<n] @ [write_head d] @ map (install_step d (l_start l)) [0..<i]"
      using i by (simp add: commit_steps_def take_map n)
    obtain t u v where t: "forM [0..<n] (write_log_step d (l_start l)) s = Inr ((), t)" "write_head d t = Inr ((), u)"
      "forM [0..<i] (install_step d (l_start l)) u = Inr ((), v)" "dsk v = installed d l V i D"
      using commit_install [OF r, of i] i(2) n lact_dsk by blast
    have "steps (take k (commit_steps d l)) s = Inr ((), v)"
      using t(1-3) by (simp add: e steps_def forM_append forM_map thenM_apply ret_apply)
    then show ?thesis using t(4) i by (intro exI [of _ v]) simp
  next
    case 3
    then have e: "take k (commit_steps d l) = commit_steps d l" by (simp add: commit_steps_def n)
    show ?thesis unfolding e using commit_run [OF r] 3 n by auto
  qed
qed

section \<open>Atomicity\<close>

lemma logged_out: "b \<notin> log_area d l \<Longrightarrow> k \<le> nat (lh_n l) \<Longrightarrow> logged d l V k F b = F b"
  unfolding logged_def by (rule ovr_other) (auto simp: log_area_def)

lemma ovr_view: "ovr A (\<lambda>j. V (A j)) i F k = (if k \<in> A ` {..<i} then V k else F k)"
  by (induction i) (auto simp: lessThan_Suc)

lemma installed_app:
  "b \<noteq> head_blk d l \<Longrightarrow> installed d l V i F b =
    (if b \<in> home d l ` {..<i} then V b else logged d l V (nat (lh_n l)) F b)"
  by (simp add: installed_def ovr_view)

lemma installed_head: "log_wf l \<Longrightarrow> i \<le> nat (lh_n l) \<Longrightarrow> installed d l V i F (head_blk d l) = head_bytes l (V (head_blk d l))"
  using blocks_apart(5) [of l _ d] by (simp add: installed_def ovr_view) (metis imageE lessThan_iff less_le_trans)

lemma installed_slot:
  assumes w: "log_wf l" and i: "i \<le> nat (lh_n l)" and j: "j < nat (lh_n l)"
  shows "installed d l V i F (slot d l j) = V (home d l j)"
proof -
  note ap = blocks_apart [OF w, where d = d]
  have "slot d l j \<notin> home d l ` {..<i}" using ap(6) [OF j] i by (metis imageE lessThan_iff less_le_trans)
  moreover have "logged d l V (nat (lh_n l)) F (slot d l j) = V (home d l j)"
    unfolding logged_def by (rule ovr_at [OF ap(7) j])
  ultimately show ?thesis using ap(4) [OF j] by (simp add: installed_app)
qed

lemma installed_all:
  assumes "b \<notin> log_area d l" "i \<le> nat (lh_n l)"
  shows "ovr (home d l) (\<lambda>j. V (home d l j)) (nat (lh_n l)) (installed d l V i F) b = (if b \<in> homes d l then V b else F b)"
  using assms logged_out [OF assms(1) order_refl] unfolding ovr_view homes_def
  by (auto simp: log_area_def installed_app)

text \<open>What recovery makes of the disk at every point of the commit.\<close>

lemma crash_recovers:
  assumes r: "ready p d l R D V s" and n: "n = nat (lh_n l)" and k: "k \<le> 2 * n + 2"
    and t: "dsk t = (if k \<le> n then logged d l V k D else if k \<le> 2 * n + 1 then installed d l V (k - (n + 1)) D
      else (installed d l V n D)(head_blk d l := put32 (installed d l V n V (head_blk d l)) 0 0))"
    and a: "lact q d m (\<lambda>_. 0) {} (dsk t) (dsk t) x" and m: "l_start m = l_start l"
  shows "\<exists>u. recover_from_log d x = Inr ((), u) \<and> get32 (dsk u (head_blk d l)) 0 = 0 \<and>
    (\<forall>b. b \<notin> log_area d l \<longrightarrow> dsk u b = (if n < k \<and> b \<in> homes d l then V b else D b))"
proof -
  note w = ready_wf [OF r] and h = ready_head [OF r] and ap = blocks_apart [OF ready_wf [OF r], where d = d]
  let ?H = "head_blk d l"
  have H: "b \<noteq> ?H" if "b \<notin> log_area d l" for b using that by (auto simp: log_area_def)
  consider "k \<le> n" | i where "i \<le> n" "n < k" "dsk t = installed d l V i D" | "k = 2 * n + 2"
    using k t that(2) [of "k - (n + 1)"] by (cases "k \<le> n"; cases "k = 2 * n + 2") auto
  then show ?thesis
  proof cases
    case 1
    have "dsk t ?H = D ?H" using 1 t ap(4) n unfolding logged_def by (simp, intro ovr_other) (metis less_le_trans)
    then have "\<exists>u. recover_from_log d x = Inr ((), u) \<and> get32 (dsk u ?H) 0 = 0 \<and> (\<forall>b. b \<noteq> ?H \<longrightarrow> dsk u b = dsk t b)"
      using recover_empty [OF a w m] h by simp
    then show ?thesis using 1 t H logged_out [of _ d l k V D] n by fastforce
  next
    case 2
    have e: "ovr (home d l) (\<lambda>j. dsk t (slot d l j)) (nat (lh_n l)) (dsk t) = ovr (home d l) (\<lambda>j. V (home d l j)) (nat (lh_n l)) (dsk t)"
      by (rule ovr_cong) (use 2 installed_slot [OF w] n in simp)
    have "dsk t ?H = head_bytes l (V ?H)" using 2 installed_head [OF w] n by simp
    from recover_full [OF a w m _ this, unfolded e] show ?thesis
      using 2 H installed_all [of _ d l i V D] h(1,3) n by fastforce
  next
    case 3
    then have t': "dsk t = (installed d l V n D)(?H := put32 (head_bytes l (V ?H)) 0 0)"
      using t installed_head [OF w, of n d V V] n by simp
    have "length (head_bytes l (V ?H)) = BSIZE" using head_bytes_get(1) [of "V ?H" l] h wf_n [OF w] by simp
    then have z: "4 * 0 + 4 \<le> length (head_bytes l (V ?H))" "length (head_bytes l (V ?H)) = BSIZE" by (simp_all add: BSIZE_def)
    have "length (dsk t ?H) = BSIZE" "get32 (dsk t ?H) 0 = 0"
      using length_put32 [OF z(1)] get32_put32 [OF z(1)] z(2) by (simp_all add: t')
    from recover_empty [OF a w m this] obtain u where u: "recover_from_log d x = Inr ((), u)" "get32 (dsk u ?H) 0 = 0"
      "\<And>b. b \<noteq> ?H \<Longrightarrow> dsk u b = dsk t b" by blast
    have "dsk u b = (if n < k \<and> b \<in> homes d l then V b else D b)" if "b \<notin> log_area d l" for b
      using u(3) H [OF that] 3 t' installed_app [of b d l V n D] logged_out [OF that order_refl] n by (simp add: homes_def)
    then show ?thesis using u(1,2) by blast
  qed
qed

text \<open>
  C2: A commit is atomic across crashes.  \<open>commit\<close> is the sequence of its steps, each of which writes
  one block of the disk, and every step succeeds.  Stop after any number of them, boot with an empty
  cache over the disk as it is, and \<open>recover_from_log\<close> returns with an empty log on disk: outside
  the log every block is as it was before the transaction if the header had not been written,
  and otherwise the blocks of the transaction are as the cache had them and all others as before.
\<close>

theorem commit_atomic:
  fixes s :: "'a lstate_scheme"
  assumes "ready p d l R D V s" and "k \<le> length (commit_steps d l :: ('a lstate_scheme, unit) kmon list)"
  shows "commit d s = steps (commit_steps d l) s \<and> (\<exists>t. steps (take k (commit_steps d l)) s = Inr ((), t) \<and>
    (\<forall>q m (x :: 'b lstate_scheme). lact q d m (\<lambda>_. 0) {} (dsk t) (dsk t) x \<longrightarrow> l_start m = l_start l \<longrightarrow>
      (\<exists>u. recover_from_log d x = Inr ((), u) \<and> get32 (dsk u (head_blk d l)) 0 = 0 \<and>
        (\<forall>b. b \<notin> log_area d l \<longrightarrow> dsk u b = (if nat (lh_n l) < k \<and> b \<in> homes d l then V b else D b)))))"
proof -
  have k: "k \<le> 2 * nat (lh_n l) + 2" using assms(2) by (simp add: commit_steps_def)
  obtain t where t: "steps (take k (commit_steps d l)) s = Inr ((), t)"
    "dsk t = (if k \<le> nat (lh_n l) then logged d l V k D else if k \<le> 2 * nat (lh_n l) + 1 then installed d l V (k - (nat (lh_n l) + 1)) D
      else (installed d l V (nat (lh_n l)) D)(head_blk d l := put32 (installed d l V (nat (lh_n l)) V (head_blk d l)) 0 0))"
    using commit_disk [OF assms(1) refl k] by blast
  have c: "commit d s = steps (commit_steps d l) s" using commit_run [OF assms(1)] by auto
  show ?thesis
    by (intro conjI c exI [of _ t] t(1) allI impI) (rule crash_recovers [OF assms(1) refl k t(2)])
qed

text \<open>
  C14: Recovery drops references it does not hold.  After a crash with a committed transaction in
  the log, \<open>recover_from_log\<close> on a fresh cache leaves the buffer of every block of the transaction in
  the cache with a reference count of 2^32 - 1, because \<open>install_trans\<close> unpins buffers that nobody
  pinned.
\<close>

theorem recover_underflows:
  assumes "lact q d m (\<lambda>_. 0) {} D D x" and "log_wf l" and "l_start m = l_start l" and "length h = BSIZE"
    and "D (head_blk d l) = head_bytes l h" and "b \<in> homes d l"
  shows "\<exists>u c. recover_from_log d x = Inr ((), u) \<and> c < NBUF \<and> bkey (bufs u c) = b \<and> valid (bufs u c) \<and>
    unat (refcnt (bufs u c)) = 2 ^ 32 - 1"
proof -
  have H: "head_blk d l = head_blk d m" using assms(3) by (simp add: head_blk_def)
  let ?h = "head_log m (head_bytes l h)"
  note k = head_log_bytes [OF assms(2,4,3) refl]
  have e: "?h = head_log m (D (head_blk d l))" using assms(5) by simp
  obtain u R F G where u: "recover_from_log d x = Inr ((), u)" "lact q d (?h\<lparr>lh_n := 0\<rparr>) R {} F G u"
    and R: "R = drop_refs (home d ?h) (nat (lh_n ?h)) (\<lambda>_. 0)"
    using recover_ok [OF assms(1) H e k(4) refl refl] by blast
  have "home d ?h ` {..<nat (lh_n ?h)} = homes d l" using k(1,3) by (auto simp: homes_def home_def)
  then have Rb: "R b = - 1" using assms(6) by (simp add: R drop_refs_def)
  then obtain c where c: "buf_at c b u" using act_there [OF lact_act [OF u(2)], of b] by auto
  then have "refcnt (bufs u c) = - 1" using act_refcnt [OF lact_act [OF u(2)], of c] Rb by (simp add: buf_at_def)
  then have "unat (refcnt (bufs u c)) = 2 ^ 32 - 1" by (simp add: unsigned_minus_1_eq_mask mask_eq_exp_minus_1)
  then show ?thesis using u(1) c unfolding buf_at_def by blast
qed

text \<open>A small machine: one dirty block, pinned, in a log of one block; and the machine after a reboot.\<close>

definition boot_bufs :: "nat \<Rightarrow> buf" where
  "boot_bufs b = \<lparr>valid = False, b_disk = False, dev = 0, blockno = 0, refcnt = 0,
     b_prev = (if b = 0 then 30 else b - 1), b_next = (if b = 30 then 0 else b + 1), data = []\<rparr>"

definition tx_bufs :: "nat \<Rightarrow> buf" where
  "tx_bufs = boot_bufs(0 := (boot_bufs 0)\<lparr>valid := True, blockno := 40, refcnt := 1, data := replicate BSIZE 7\<rparr>)"

definition boot_log :: log where
  "boot_log = \<lparr>l_start = 2, l_size = 30, outstanding = 0, committing = False, l_dev = 0, lh_n = 1, lh_block = (\<lambda>_. 40)\<rparr>"

definition idle_disk :: vdisk where
  "idle_disk = \<lparr>vdesc = (\<lambda>_. \<lparr>vd_addr = NoAddr, vd_len = 0, vd_flags = 0, vd_next = 0\<rparr>), avail_idx = 0, avail_ring = (\<lambda>_. 0),
     used_id = 0, used_elems = (\<lambda>_. 0), vfree = (\<lambda>_. True), used_idx = 0, info_b = (\<lambda>_. None), info_status = (\<lambda>_. 0), vd_init = True\<rparr>"

definition disk_boot :: "(nat \<Rightarrow> buf) \<Rightarrow> (32 word \<Rightarrow> 32 word \<Rightarrow> byte list) \<Rightarrow> lstate" where
  "disk_boot B D = \<lparr>hart = 0, cpus = (\<lambda>_. \<lparr>c_proc = Some 1, noff = 0, intena = False\<rparr>),
     sie = (\<lambda>_. False), lks = (\<lambda>_. \<lparr>locked = False, lk_cpu = None\<rparr>), lktab = [],
     nxt = (\<lambda>_. 0), prv = (\<lambda>_. 0), nsizes = 0, bd_base = 0, bd_sizes_ptr = 0, bd_sizes = [],
     mem = (\<lambda>_. 0), kernel_pagetable = 0, satp = 0, ptable = (\<lambda>_. no_proc), prio = (\<lambda>_. 0), lp_p = (\<lambda>_. 0),
     lp_next = (\<lambda>_. 0), initproc = None, nextpid = 1, pipes = (\<lambda>_. None),
     slks = (\<lambda>_. \<lparr>sl_locked = False, sl_pid = 0\<rparr>), bufs = B, disk = D,
     vdisks = (\<lambda>_. idle_disk), mmio = [], logs = (\<lambda>_. boot_log)\<rparr>"

lemma boot_lru: "lru boot_bufs [0..<30]" "lru tx_bufs [0..<30]"
proof -
  have "chain boot_bufs 30 [0..<30] 30" "chain tx_bufs 30 [0..<30] 30"
    by (simp_all add: upt_rec boot_bufs_def tx_bufs_def)
  then show "lru boot_bufs [0..<30]" "lru tx_bufs [0..<30]" by (simp_all add: lru_def NBUF_def MAXOPBLOCKS_def)
qed

lemma disk_boot_lact:
  assumes "lru B [0..<30]" "uniq (cores B)" "clean (cores B) D" "\<forall>b<NBUF. refcnt (B b) = R (bkey (B b))"
    "\<forall>k. R k \<noteq> 0 \<longrightarrow> (\<exists>b<NBUF. bkey (B b) = k \<and> valid (B b))" "R (0, 0) = 0"
  shows "lact 1 0 boot_log R {} (\<lambda>k. D (fst k) (snd k)) (blk (cores B) D) (disk_boot B D)"
  using assms unfolding lact_def act_def cache_def calm_def lock_free_def buf_at_def
  by (auto simp: disk_boot_def NPROC_def NDISK_def)

lemma reboot_lact: "lact 1 0 boot_log (\<lambda>_. 0) {} (dsk (disk_boot boot_bufs D)) (dsk (disk_boot boot_bufs D)) (disk_boot boot_bufs D)"
proof -
  have "blk (cores boot_bufs) D = (\<lambda>k. D (fst k) (snd k))"
    by (rule ext) (auto simp: blk_def cores_def core_def boot_bufs_def find_Some_iff split: option.split)
  moreover have "dsk (disk_boot boot_bufs D) = (\<lambda>k. D (fst k) (snd k))" by (rule ext) (simp add: dsk_def disk_boot_def)
  ultimately show ?thesis using disk_boot_lact [OF boot_lru(1), of D "\<lambda>_. 0"]
    by (simp add: uniq_def clean_def cores_def core_def boot_bufs_def bkey_def)
qed

abbreviation "zeros \<equiv> (\<lambda>_ _. replicate BSIZE 0) :: 32 word \<Rightarrow> 32 word \<Rightarrow> byte list"

lemma tx_ready:
  "ready 1 0 boot_log (\<lambda>k. if k = (0, 40) then 1 else 0) (\<lambda>_. replicate BSIZE 0) (blk (cores tx_bufs) zeros) (disk_boot tx_bufs zeros)"
proof -
  let ?R = "\<lambda>k :: block. if k = (0, 40) then 1 else 0 :: 32 word"
  have "uniq (cores tx_bufs)" "clean (cores tx_bufs) zeros" "\<forall>b<NBUF. refcnt (tx_bufs b) = ?R (bkey (tx_bufs b))"
    by (auto simp: uniq_def clean_def cores_def core_def tx_bufs_def boot_bufs_def bkey_def)
  moreover have "\<exists>b<NBUF. bkey (tx_bufs b) = (0, 40) \<and> valid (tx_bufs b)"
    by (rule exI [of _ 0]) (simp add: tx_bufs_def boot_bufs_def bkey_def NBUF_def MAXOPBLOCKS_def)
  ultimately have "lact 1 0 boot_log ?R {} (\<lambda>_. replicate BSIZE 0) (blk (cores tx_bufs) zeros) (disk_boot tx_bufs zeros)"
    using disk_boot_lact [OF boot_lru(2), of zeros ?R] by auto
  moreover have "log_wf boot_log" by (simp add: log_wf_def boot_log_def LOGSIZE_def MAXOPBLOCKS_def)
  moreover have "{k. ?R k \<noteq> 0} = {(0, 40)}" by auto
  moreover have "get32 (replicate BSIZE 0) 0 = 0" by (simp add: get32_def BSIZE_def numeral_eq_Suc of_le_def)
  ultimately show ?thesis
    by (simp add: ready_def boot_log_def slot_def home_def head_blk_def wrd_def NBUF_def MAXOPBLOCKS_def)
qed

theorem commit_atomic_witness:
  "\<exists>t u. steps (take 2 (commit_steps 0 boot_log)) (disk_boot tx_bufs zeros) = Inr ((), t) \<and>
    recover_from_log 0 (disk_boot boot_bufs (disk t)) = Inr ((), u) \<and> dsk u (0, 40) = replicate BSIZE 7"
proof -
  have l: "2 \<le> length (commit_steps 0 boot_log :: (lstate, unit) kmon list)" by (simp add: commit_steps_def boot_log_def)
  have v: "blk (cores tx_bufs) zeros (0, 40) = replicate BSIZE 7"
    by (simp add: blk_def cores_def core_def tx_bufs_def boot_bufs_def bkey_def NBUF_def MAXOPBLOCKS_def upt_rec)
  have o: "(0, 40) \<notin> log_area 0 boot_log" "(0, 40) \<in> homes 0 boot_log" "nat (lh_n boot_log) < 2"
    by (auto simp: log_area_def homes_def head_blk_def slot_def home_def boot_log_def wrd_def)
  obtain t where t: "steps (take 2 (commit_steps 0 boot_log)) (disk_boot tx_bufs zeros) = Inr ((), t)"
    "\<forall>q m (x :: lstate). lact q 0 m (\<lambda>_. 0) {} (dsk t) (dsk t) x \<longrightarrow> l_start m = l_start boot_log \<longrightarrow>
      (\<exists>u. recover_from_log 0 x = Inr ((), u) \<and> get32 (dsk u (head_blk 0 boot_log)) 0 = 0 \<and>
        (\<forall>b. b \<notin> log_area 0 boot_log \<longrightarrow> dsk u b = (if nat (lh_n boot_log) < 2 \<and> b \<in> homes 0 boot_log
          then blk (cores tx_bufs) zeros b else replicate BSIZE 0)))"
    using commit_atomic [OF tx_ready l, where 'b = unit] by blast
  have "dsk (disk_boot boot_bufs (disk t)) = dsk t" by (rule ext) (simp add: dsk_def disk_boot_def)
  then have "lact 1 0 boot_log (\<lambda>_. 0) {} (dsk t) (dsk t) (disk_boot boot_bufs (disk t))" using reboot_lact [of "disk t"] by simp
  with t(2) obtain u where "recover_from_log 0 (disk_boot boot_bufs (disk t)) = Inr ((), u)" "dsk u (0, 40) = replicate BSIZE 7"
    using o v by metis
  then show ?thesis using t(1) by blast
qed

theorem recover_underflows_witness:
  "\<exists>u c. recover_from_log 0 (disk_boot boot_bufs (zeros(0 := (\<lambda>_. replicate BSIZE 0)(2 := head_bytes boot_log (replicate BSIZE 0))))) = Inr ((), u) \<and>
    c < NBUF \<and> bkey (bufs u c) = (0, 40) \<and> unat (refcnt (bufs u c)) = 2 ^ 32 - 1"
proof -
  let ?D = "zeros(0 := (\<lambda>_. replicate BSIZE 0)(2 := head_bytes boot_log (replicate BSIZE 0)))"
  have "log_wf boot_log" by (rule ready_wf [OF tx_ready])
  moreover have "dsk (disk_boot boot_bufs ?D) (head_blk 0 boot_log) = head_bytes boot_log (replicate BSIZE 0)"
    by (simp add: dsk_def disk_boot_def head_blk_def boot_log_def wrd_def)
  moreover have "(0, 40) \<in> homes 0 boot_log" by (simp add: homes_def home_def boot_log_def wrd_def)
  ultimately show ?thesis
    using recover_underflows [OF reboot_lact [of ?D], of boot_log "replicate BSIZE 0" "(0, 40)"] by auto
qed

end
