(* ===== verification/Grep.thy ===== *)
theory Grep
  imports CString
begin

text \<open>
  user/grep.c: the matcher and the loop over the lines of a file.  A C string is the list of its
  bytes before the NUL.  The matcher is compared with the language of the pattern as a regular
  expression, the loop with the lines of the whole input.
\<close>

section \<open>The matcher\<close>

definition DOT :: byte where "DOT = 46"

definition STAR :: byte where "STAR = 42"

definition CARET :: byte where "CARET = 94"

definition DOLLAR :: byte where "DOLLAR = 36"

text \<open>
  The loop of \<open>matchstar\<close> is its recursion on the text.  \<open>re[1]\<close> of a pattern of one character is the NUL.
\<close>

function matchhere :: "byte list \<Rightarrow> byte list \<Rightarrow> bool"
  and matchstar :: "byte \<Rightarrow> byte list \<Rightarrow> byte list \<Rightarrow> bool" where
  "matchhere [] text = True"
| "matchhere (c # re) text =
     (if re \<noteq> [] \<and> hd re = STAR then matchstar c (tl re) text
      else if c = DOLLAR \<and> re = [] then text = []
      else case text of [] \<Rightarrow> False | x # text' \<Rightarrow> (c = DOT \<or> c = x) \<and> matchhere re text')"
| "matchstar c re text =
     (matchhere re text \<or>
      (case text of [] \<Rightarrow> False | x # text' \<Rightarrow> (x = c \<or> c = DOT) \<and> matchstar c re text'))"
  by pat_completeness auto
termination
  by (relation "inv_image (less_than <*lex*> less_than <*lex*> less_than)
      (\<lambda>x. case x of Inl (re, t) \<Rightarrow> (length re, length t, 0) | Inr (c, re, t) \<Rightarrow> (length re, length t, 1 :: nat))")
    (auto simp: neq_Nil_conv)

declare matchhere.simps(2) [simp del] matchstar.simps [simp del]

fun match_from :: "byte list \<Rightarrow> byte list \<Rightarrow> bool" where
  "match_from re [] = matchhere re []"
| "match_from re (x # text) = (matchhere re (x # text) \<or> match_from re text)"

definition match :: "byte list \<Rightarrow> byte list \<Rightarrow> bool" where
  "match re text = (if re \<noteq> [] \<and> hd re = CARET then matchhere (tl re) text else match_from re text)"

section \<open>The lines of a file\<close>

definition GREP_BUF :: nat where "GREP_BUF = 1024"

definition NL :: byte where "NL = 10"

lemma dropWhile_Cons_less: "dropWhile P xs = y # ys \<Longrightarrow> length ys < length xs"
  using length_dropWhile_le [of P xs] by simp

text \<open>
  The inner loop: what it writes, and what is left from \<open>p\<close> on.  \<open>strchr\<close> stops at a NUL, so a NUL in
  the data hides the rest of the buffer.
\<close>

function grep_lines :: "byte list \<Rightarrow> byte list \<Rightarrow> byte list \<times> byte list" where
  "grep_lines pattern p =
     (case dropWhile (\<lambda>x. x \<noteq> NL \<and> x \<noteq> 0) p of
        [] \<Rightarrow> ([], p)
      | x # q \<Rightarrow>
         if x \<noteq> NL then ([], p)
         else let l = takeWhile (\<lambda>x. x \<noteq> NL \<and> x \<noteq> 0) p; (out, rest) = grep_lines pattern q
              in ((if match pattern l then l @ [NL] else []) @ out, rest))"
  by pat_completeness auto
termination
  by (relation "measure (\<lambda>(pattern, p). length p)") (auto simp: dropWhile_Cons_less)

declare grep_lines.simps [simp del]

text \<open>
  The outer loop.  \<open>read\<close> is a system call: its \<open>i\<close>-th call fails, or returns bytes of the input \<open>inp\<close>
  that is left, at most as many as asked for and as are there (\<open>rd i\<close>), and none only at the end or
  when none are asked for.  \<open>buf\<close> holds the first \<open>m\<close> bytes of the buffer.
\<close>

function grep_loop :: "byte list \<Rightarrow> (nat \<Rightarrow> nat option) \<Rightarrow> nat \<Rightarrow> byte list \<Rightarrow> byte list \<Rightarrow> byte list" where
  "grep_loop pattern rd i buf inp =
     (case rd i of None \<Rightarrow> []
      | Some k \<Rightarrow>
         let n = min (GREP_BUF - length buf - 1) (min (length inp) (max 1 k)) in
         if n = 0 then []
         else let (out, rest) = grep_lines pattern (buf @ take n inp)
              in out @ grep_loop pattern rd (Suc i) rest (drop n inp))"
  by pat_completeness auto
termination
  by (relation "measure (\<lambda>(pattern, rd, i, buf, inp). length inp)") auto

declare grep_loop.simps [simp del]

definition grep :: "byte list \<Rightarrow> (nat \<Rightarrow> nat option) \<Rightarrow> byte list \<Rightarrow> byte list" where
  "grep pattern rd inp = grep_loop pattern rd 0 [] inp"

section \<open>Regular expressions\<close>

datatype rexp = One | Chr byte | Dot | Seq rexp rexp | Star rexp

definition conc :: "byte list set \<Rightarrow> byte list set \<Rightarrow> byte list set" where
  "conc A B = {u @ v | u v. u \<in> A \<and> v \<in> B}"

inductive_set star :: "byte list set \<Rightarrow> byte list set" for A where
  star_Nil: "[] \<in> star A"
| star_app: "u \<in> A \<Longrightarrow> v \<in> star A \<Longrightarrow> u @ v \<in> star A"

primrec lang :: "rexp \<Rightarrow> byte list set" where
  "lang One = {[]}"
| "lang (Chr c) = {[c]}"
| "lang Dot = {[x] | x. True}"
| "lang (Seq r s) = conc (lang r) (lang s)"
| "lang (Star r) = star (lang r)"

text \<open>
  What a pattern means: \<open>.\<close> is any character, a character before a \<open>*\<close> is repeated, and a \<open>$\<close> at the
  end, which is not repeated, ties the match to the end of the text.
\<close>

definition atom :: "byte \<Rightarrow> rexp" where
  "atom c = (if c = DOT then Dot else Chr c)"

fun denote :: "byte list \<Rightarrow> rexp \<times> bool" where
  "denote [] = (One, False)"
| "denote [c] = (if c = DOLLAR then (One, True) else (Seq (atom c) One, False))"
| "denote (c # d # re) =
     (if d = STAR then (let (r, e) = denote re in (Seq (Star (atom c)) r, e))
      else (let (r, e) = denote (d # re) in (Seq (atom c) r, e)))"

definition occurs :: "byte list \<Rightarrow> byte list \<Rightarrow> bool" where
  "occurs re text \<longleftrightarrow> (\<exists>u v. text = u @ v \<and> u \<in> lang (fst (denote re)) \<and> (snd (denote re) \<longrightarrow> v = []))"

text \<open>The characters a character of a pattern stands for.\<close>

definition fits :: "byte \<Rightarrow> byte \<Rightarrow> bool" where
  "fits c x \<longleftrightarrow> c = DOT \<or> c = x"

lemma lang_atom: "lang (atom c) = {[x] | x. fits c x}"
  by (auto simp: atom_def fits_def)

lemma star_atom_iff: "u \<in> star (lang (atom c)) \<longleftrightarrow> list_all (fits c) u"
proof
  show "u \<in> star (lang (atom c)) \<Longrightarrow> list_all (fits c) u"
    by (induction rule: star.induct) (auto simp: lang_atom)
  show "list_all (fits c) u \<Longrightarrow> u \<in> star (lang (atom c))"
  proof (induction u)
    case Nil
    show ?case by (rule star_Nil)
  next
    case (Cons x u)
    then have "[x] \<in> lang (atom c)" "u \<in> star (lang (atom c))" by (auto simp: lang_atom)
    then show ?case using star_app [of "[x]"] by simp
  qed
qed

lemma denote_star: "denote (c # STAR # re) = (Seq (Star (atom c)) (fst (denote re)), snd (denote re))"
  by (simp add: case_prod_beta Let_def)

lemma denote_plain: "re = [] \<longrightarrow> c \<noteq> DOLLAR \<Longrightarrow> \<not> (re \<noteq> [] \<and> hd re = STAR) \<Longrightarrow>
    denote (c # re) = (Seq (atom c) (fst (denote re)), snd (denote re))"
  by (cases re) (simp_all add: case_prod_beta Let_def)

lemma lang_Seq_atom: "u \<in> lang (Seq (atom c) r) \<longleftrightarrow> (\<exists>x w. u = x # w \<and> fits c x \<and> w \<in> lang r)"
proof -
  have "u \<in> lang (Seq (atom c) r) \<longleftrightarrow> (\<exists>a w. u = a @ w \<and> a \<in> lang (atom c) \<and> w \<in> lang r)" by (simp add: conc_def)
  also have "\<dots> \<longleftrightarrow> (\<exists>x w. u = x # w \<and> fits c x \<and> w \<in> lang r)" unfolding lang_atom mem_Collect_eq by (metis append_Cons append_Nil)
  finally show ?thesis .
qed

lemma occurs_plain:
  assumes "re = [] \<longrightarrow> c \<noteq> DOLLAR" "\<not> (re \<noteq> [] \<and> hd re = STAR)"
  shows "occurs (c # re) w \<longleftrightarrow> (case w of [] \<Rightarrow> False | x # ts \<Rightarrow> fits c x \<and> occurs re ts)"
proof -
  have "(\<exists>u v. x # ts = u @ v \<and> (\<exists>y w. u = y # w \<and> fits c y \<and> w \<in> A) \<and> Q v) \<longleftrightarrow> fits c x \<and> (\<exists>u v. ts = u @ v \<and> u \<in> A \<and> Q v)"
    for x ts A and Q :: "byte list \<Rightarrow> bool" by (metis append_Cons list.inject)
  then show ?thesis unfolding occurs_def denote_plain [OF assms] fst_conv snd_conv lang_Seq_atom by (cases w) simp_all
qed

lemma occurs_star: "occurs (c # STAR # re) w \<longleftrightarrow> (\<exists>u v. w = u @ v \<and> list_all (fits c) u \<and> occurs re v)"
proof -
  have l: "u \<in> lang (Seq (Star (atom c)) r) \<longleftrightarrow> (\<exists>a b. u = a @ b \<and> list_all (fits c) a \<and> b \<in> lang r)" for u r
    by (simp add: conc_def star_atom_iff)
  show ?thesis unfolding occurs_def denote_star fst_conv snd_conv l by (metis append_assoc)
qed

lemma star_unroll:
  "(\<exists>u v. w = u @ v \<and> list_all (fits c) u \<and> P v) \<longleftrightarrow>
    P w \<or> (case w of [] \<Rightarrow> False | x # ts \<Rightarrow> fits c x \<and> (\<exists>u v. ts = u @ v \<and> list_all (fits c) u \<and> P v))"
  (is "?L w \<longleftrightarrow> P w \<or> ?R")
proof
  assume "?L w"
  then obtain u v where "w = u @ v" "list_all (fits c) u" "P v" by blast
  then show "P w \<or> ?R" by (cases u) auto
next
  assume r: "P w \<or> ?R"
  show "?L w"
  proof (cases "P w")
    case True
    then show ?thesis by (intro exI [of _ "[]"] exI [of _ w]) simp
  next
    case False
    with r obtain x u v where "w = x # u @ v" "fits c x" "list_all (fits c) u" "P v" by (auto split: list.splits)
    then have "w = (x # u) @ v \<and> list_all (fits c) (x # u) \<and> P v" by simp
    then show ?thesis by blast
  qed
qed

lemma matchhere_occurs:
  "matchhere re w = occurs re w"
  "matchstar c re w = (\<exists>u v. w = u @ v \<and> list_all (fits c) u \<and> occurs re v)"
proof (induction re w and c re w rule: matchhere_matchstar.induct)
  case (1 w)
  show ?case by (simp add: occurs_def)
next
  case (2 c re w)
  consider (star) re' where "re = STAR # re'" | (eol) "c = DOLLAR" "re = []"
    | (plain) "re = [] \<longrightarrow> c \<noteq> DOLLAR" "\<not> (re \<noteq> [] \<and> hd re = STAR)"
    by (cases re) auto
  then show ?case
  proof cases
    case star
    then show ?thesis using "2.IH"(1) by (simp add: matchhere.simps(2) occurs_star del: denote.simps)
  next
    case eol
    then show ?thesis by (auto simp: matchhere.simps(2) occurs_def)
  next
    case plain
    then have "matchhere (c # re) w = (case w of [] \<Rightarrow> False | x # ts \<Rightarrow> fits c x \<and> matchhere re ts)"
      by (auto simp: matchhere.simps(2) fits_def split: list.split)
    then show ?thesis unfolding occurs_plain [OF plain] using "2.IH"(2) plain by (auto split: list.split)
  qed
next
  case (3 c re w)
  have "matchstar c re w = (matchhere re w \<or> (case w of [] \<Rightarrow> False | x # ts \<Rightarrow> fits c x \<and> matchstar c re ts))"
    by (subst matchstar.simps) (auto simp: fits_def split: list.split)
  then show ?case unfolding star_unroll [of w] using "3.IH" by (auto split: list.split)
qed

text \<open>
  C31: \<open>match\<close> decides whether the pattern, read as a regular expression, occurs in the text: at its
  beginning if the pattern begins with \<open>^\<close>, and else anywhere; at its end if it ends with \<open>$\<close>.
\<close>

theorem match_language:
  "match re w \<longleftrightarrow> (if re \<noteq> [] \<and> hd re = CARET then occurs (tl re) w else \<exists>u v. w = u @ v \<and> occurs re v)"
proof -
  have "match_from re w \<longleftrightarrow> (\<exists>u v. w = u @ v \<and> occurs re v)"
    by (induction w) (auto simp: matchhere_occurs Cons_eq_append_conv)
  then show ?thesis unfolding match_def matchhere_occurs by presburger
qed

section \<open>The output of grep\<close>

text \<open>The lines of a text that end in a newline.\<close>

function lines_of :: "byte list \<Rightarrow> byte list list" where
  "lines_of w = (case dropWhile (\<lambda>x. x \<noteq> NL) w of [] \<Rightarrow> [] | _ # r \<Rightarrow> takeWhile (\<lambda>x. x \<noteq> NL) w # lines_of r)"
  by pat_completeness auto
termination
  by (relation "measure length") (auto simp: dropWhile_Cons_less)

declare lines_of.simps [simp del]

definition selected :: "byte list \<Rightarrow> byte list \<Rightarrow> byte list" where
  "selected pattern w = concat (map (\<lambda>l. l @ [NL]) (filter (match pattern) (lines_of w)))"

lemma line_split: "NL \<notin> set l \<Longrightarrow> dropWhile (\<lambda>x. x \<noteq> NL) (l @ NL # w) = NL # w \<and> takeWhile (\<lambda>x. x \<noteq> NL) (l @ NL # w) = l"
  by (induction l) auto

lemma lines_of_line: "NL \<notin> set l \<Longrightarrow> lines_of (l @ NL # w) = l # lines_of w"
  using line_split [of l w] by (simp add: lines_of.simps [of "l @ NL # w"])

lemma lines_of_none: "NL \<notin> set l \<Longrightarrow> lines_of l = []"
proof -
  assume "NL \<notin> set l"
  then have "dropWhile (\<lambda>x. x \<noteq> NL) l = []" by (auto simp: dropWhile_eq_Nil_conv)
  then show ?thesis by (simp only: lines_of.simps [of l] list.case)
qed

lemma selected_simps:
  "NL \<notin> set l \<Longrightarrow> selected pattern (l @ NL # w) = (if match pattern l then l @ [NL] else []) @ selected pattern w"
  "NL \<notin> set l \<Longrightarrow> selected pattern l = []"
  by (simp_all add: selected_def lines_of_line lines_of_none)

lemma grep_lines_selects:
  assumes "0 \<notin> set p" "grep_lines pattern p = (out, rest)"
  shows "selected pattern (p @ w) = out @ selected pattern (rest @ w) \<and> NL \<notin> set rest \<and> (\<exists>u. p = u @ rest)"
  using assms
proof (induction pattern p arbitrary: out rest rule: grep_lines.induct)
  case (1 pattern p)
  let ?P = "\<lambda>x. x \<noteq> NL \<and> x \<noteq> 0"
  show ?case
  proof (cases "NL \<in> set p")
    case False
    then have d: "dropWhile ?P p = []" using "1.prems"(1) by (auto simp: dropWhile_eq_Nil_conv)
    have "out = []" "rest = p" using "1.prems"(2) unfolding grep_lines.simps [of pattern p] d by simp_all
    then show ?thesis using False by simp
  next
    case True
    then obtain l q where p: "p = l @ NL # q" "NL \<notin> set l" by (auto dest: split_list_first)
    have d: "dropWhile ?P p = NL # q" "takeWhile ?P p = l" using p "1.prems"(1) by (auto simp: dropWhile_append3 takeWhile_append)
    obtain o2 r2 where g: "grep_lines pattern q = (o2, r2)" by (cases "grep_lines pattern q")
    have e: "out = (if match pattern l then l @ [NL] else []) @ o2" "rest = r2"
      using "1.prems"(2) unfolding grep_lines.simps [of pattern p] d by (auto simp: g)
    have "0 \<notin> set q" using "1.prems"(1) p by simp
    from "1.IH" [OF d(1) _ refl this g] have "selected pattern (q @ w) = o2 @ selected pattern (r2 @ w) \<and> NL \<notin> set r2 \<and> (\<exists>u. q = u @ r2)"
      by simp
    then show ?thesis using p e by (auto simp: selected_simps)
  qed
qed

text \<open>A text without a stretch of \<open>n\<close> or more characters other than the newline.\<close>

definition short_lines :: "nat \<Rightarrow> byte list \<Rightarrow> bool" where
  "short_lines n w \<longleftrightarrow> (\<forall>a l b. w = a @ l @ b \<longrightarrow> NL \<notin> set l \<longrightarrow> length l < n)"

lemma grep_loop_selects:
  assumes "0 \<notin> set (buf @ inp)" "\<forall>i. rd i \<noteq> None" "short_lines (GREP_BUF - 1) (buf @ inp)" "NL \<notin> set buf"
  shows "grep_loop pattern rd i buf inp = selected pattern (buf @ inp)"
  using assms
proof (induction pattern rd i buf inp rule: grep_loop.induct)
  case (1 pattern rd i buf inp)
  obtain k where k: "rd i = Some k" using "1.prems"(2) by blast
  define n where "n = min (GREP_BUF - length buf - 1) (min (length inp) (max 1 k))"
  have b: "length buf < GREP_BUF - 1" using "1.prems"(3,4) unfolding short_lines_def by (metis append_Nil)
  show ?case
  proof (cases "inp = []")
    case True
    then show ?thesis using k "1.prems"(4) by (simp add: grep_loop.simps [of pattern rd i] selected_simps)
  next
    case False
    then have n: "n \<noteq> 0" using b by (cases inp) (simp_all add: n_def max_def)
    obtain out rest where g: "grep_lines pattern (buf @ take n inp) = (out, rest)" by (cases "grep_lines pattern (buf @ take n inp)")
    have z: "0 \<notin> set (buf @ take n inp)" using "1.prems"(1) by (auto dest: in_set_takeD)
    obtain u where s: "selected pattern ((buf @ take n inp) @ drop n inp) = out @ selected pattern (rest @ drop n inp)"
      "NL \<notin> set rest" "buf @ take n inp = u @ rest"
      using grep_lines_selects [OF z g] by blast
    have all: "buf @ inp = u @ rest @ drop n inp" using arg_cong [OF s(3), of "\<lambda>x. x @ drop n inp"] by simp
    have "0 \<notin> set (rest @ drop n inp)" "short_lines (GREP_BUF - 1) (rest @ drop n inp)"
      using "1.prems"(1,3) unfolding all short_lines_def by (simp, metis append.assoc)
    note ih = "1.IH" [OF k n_def n g [symmetric] refl this(1) "1.prems"(2) this(2) s(2)]
    have "grep_loop pattern rd i buf inp = out @ grep_loop pattern rd (Suc i) rest (drop n inp)"
      unfolding grep_loop.simps [of pattern rd i buf inp] k option.case n_def [symmetric] Let_def g prod.case if_not_P [OF n] ..
    then show ?thesis using s(1) ih by simp
  qed
qed

text \<open>
  C32: On a text without NULs and with lines of less than 1023 characters, \<open>grep\<close> writes exactly the
  complete lines the pattern matches, in order, however \<open>read\<close> cuts the text into pieces; a last
  line without a newline is not written.
\<close>

theorem grep_selects:
  assumes "0 \<notin> set inp" and "\<forall>i. rd i \<noteq> None" and "short_lines 1023 inp"
  shows "grep pattern rd inp = concat (map (\<lambda>l. l @ [NL]) (filter (match pattern) (lines_of inp)))"
  using grep_loop_selects [of "[]" inp rd pattern 0] assms by (simp add: grep_def selected_def GREP_BUF_def)

theorem grep_selects_witness:
  "grep [97] (\<lambda>_. Some 3) [97, 98, 10, 99, 10, 100, 97, 10, 97] = concat (map (\<lambda>l. l @ [NL]) (filter (match [97])
    (lines_of [97, 98, 10, 99, 10, 100, 97, 10, 97])))"
proof (rule grep_selects)
  show "short_lines 1023 [97, 98, 10, 99, 10, 100, 97, 10, 97]"
    unfolding short_lines_def
  proof (intro allI impI)
    fix a l b :: "byte list"
    assume "[97, 98, 10, 99, 10, 100, 97, 10, 97] = a @ l @ b"
    from arg_cong [OF this, of length] show "length l < 1023" by simp
  qed
qed simp_all

end
