(* ===== verification/Sh.thy ===== *)
theory Sh
  imports CString Fcntl
begin

text \<open>
  The parser of the shell, user/sh.c.  The line is the list of its bytes before the NUL; a pointer
  into it is an index, and the tree of a command holds for each word the pointers to its beginning
  and its end, as the code does.  The functions that call each other are bounded by fuel, of which
  \<open>parsecmd\<close> gives them enough.
\<close>

section \<open>Commands\<close>

text \<open>The words are a parameter: pointers while the line is parsed.\<close>

datatype 'w cmd =
    ExecCmd (argv: "'w list")
  | RedirCmd "'w cmd" 'w int int
  | PipeCmd "'w cmd" "'w cmd"
  | ListCmd "'w cmd" "'w cmd"
  | BackCmd "'w cmd"

datatype sh_err = ShPanic string | No_Fuel

definition MAXARGS :: nat where "MAXARGS = 10"

text \<open>The constructors; \<open>malloc\<close>, whose result the code does not look at, finds room.\<close>

definition execcmd :: "'w cmd" where
  [simp]: "execcmd = ExecCmd []"

definition redircmd :: "'w cmd \<Rightarrow> 'w \<Rightarrow> int \<Rightarrow> int \<Rightarrow> 'w cmd" where
  [simp]: "redircmd subcmd file mode fd = RedirCmd subcmd file mode fd"

definition pipecmd :: "'w cmd \<Rightarrow> 'w cmd \<Rightarrow> 'w cmd" where
  [simp]: "pipecmd left right = PipeCmd left right"

definition listcmd :: "'w cmd \<Rightarrow> 'w cmd \<Rightarrow> 'w cmd" where
  [simp]: "listcmd left right = ListCmd left right"

definition backcmd :: "'w cmd \<Rightarrow> 'w cmd" where
  [simp]: "backcmd subcmd = BackCmd subcmd"

section \<open>Tokens\<close>

definition whitespace :: "byte list" where "whitespace = [32, 9, 13, 10, 11]"

definition symbols :: "byte list" where "symbols = map of_char ''<|>&;()''"

text \<open>The byte at a pointer; at the end of the line it is the NUL.\<close>

definition at :: "byte list \<Rightarrow> nat \<Rightarrow> byte" where
  "at b i = (if i < length b then b ! i else 0)"

definition skip_ws :: "byte list \<Rightarrow> nat \<Rightarrow> nat" where
  "skip_ws b i = i + length (takeWhile (\<lambda>x. x \<in> set whitespace) (drop i b))"

definition word_end :: "byte list \<Rightarrow> nat \<Rightarrow> nat" where
  "word_end b i = i + length (takeWhile (\<lambda>x. x \<notin> set whitespace \<and> x \<notin> set symbols) (drop i b))"

text \<open>The token's kind, the pointers to its beginning and its end, and where the next one begins.\<close>

definition gettoken :: "byte list \<Rightarrow> nat \<Rightarrow> byte \<times> nat \<times> nat \<times> nat" where
  "gettoken b i =
     (let q = skip_ws b i; c = at b q;
          (r, e) = (if c = 0 then (0, q)
            else if c \<in> of_char ` set ''|();&<'' then (c, q + 1)
            else if c = of_char (CHR ''>'')
            then (if at b (q + 1) = of_char (CHR ''>'') then (of_char (CHR ''+''), q + 2) else (c, q + 1))
            else (of_char (CHR ''a''), word_end b q))
      in (r, q, e, skip_ws b e))"

definition peek :: "byte list \<Rightarrow> nat \<Rightarrow> string \<Rightarrow> nat \<times> bool" where
  "peek b i toks = (let s = skip_ws b i in (s, at b s \<noteq> 0 \<and> at b s \<in> of_char ` set toks))"

lemma skip_ws_le: "i \<le> skip_ws b i"
  by (simp add: skip_ws_def)

lemma at_nz: "at b i \<noteq> 0 \<Longrightarrow> i < length b"
  by (simp add: at_def split: if_splits)

lemma skip_ws_stop: "at b (skip_ws b i) \<notin> set whitespace"
proof (cases "skip_ws b i < length b")
  case True
  then have "length (takeWhile (\<lambda>x. x \<in> set whitespace) (drop i b)) < length (drop i b)" by (simp add: skip_ws_def)
  from nth_length_takeWhile [OF this] show ?thesis using True by (simp add: at_def skip_ws_def)
next
  case False
  then show ?thesis by (simp add: at_def whitespace_def)
qed

lemma word_end_less:
  assumes "at b q \<noteq> 0" "at b q \<notin> set whitespace" "at b q \<notin> set symbols"
  shows "q < word_end b q"
proof -
  have q: "q < length b" by (rule at_nz [OF assms(1)])
  then have "drop q b = at b q # drop (Suc q) b" by (simp add: at_def Cons_nth_drop_Suc)
  then show ?thesis using assms(2,3) by (simp add: word_end_def)
qed

lemma symbols_eq: "set symbols = of_char ` set ''|();&<'' \<union> {of_char (CHR ''>'')}"
  by (auto simp: symbols_def)

lemma gettoken_advances:
  assumes "gettoken b i = (r, q, e, j)"
  shows "i \<le> q" "q \<le> e" "e \<le> j" "r \<noteq> 0 \<Longrightarrow> i < j \<and> i < length b"
proof -
  have q: "q = skip_ws b i" "j = skip_ws b e" using assms by (auto simp: gettoken_def Let_def case_prod_beta)
  have e: "q \<le> e \<and> (r \<noteq> 0 \<longrightarrow> q < e \<and> at b q \<noteq> 0)"
  proof (cases "at b q = 0")
    case True
    then show ?thesis using assms unfolding q(1) gettoken_def by (simp add: Let_def)
  next
    case False
    have w: "at b q \<notin> set symbols \<Longrightarrow> q < word_end b q" using word_end_less [OF False] skip_ws_stop q(1) by blast
    show ?thesis using assms False w unfolding q(1) gettoken_def symbols_eq
      by (auto simp: Let_def split: if_splits)
  qed
  then show "i \<le> q" "q \<le> e" "e \<le> j" "r \<noteq> 0 \<Longrightarrow> i < j \<and> i < length b"
    using skip_ws_le [of i b] skip_ws_le [of e b] q at_nz [of b q] by auto
qed

lemma skip_ws_again: "skip_ws b (skip_ws b i) = skip_ws b i"
proof -
  have "takeWhile (\<lambda>x. x \<in> set whitespace) (drop (skip_ws b i) b) = []"
    using skip_ws_stop [of b i] by (cases "drop (skip_ws b i) b") (auto simp: at_def hd_drop_conv_nth dest: arg_cong [where f = hd] split: if_splits)
  then show ?thesis by (simp add: skip_ws_def [of b "skip_ws b i"])
qed

lemma gettoken_eof: "gettoken b i = (r, q, e, j) \<Longrightarrow> r = 0 \<longleftrightarrow> at b (skip_ws b i) = 0"
  by (auto simp: gettoken_def Let_def split: if_splits)

lemma gettoken_peek:
  assumes "peek b i toks = (s, True)" "gettoken b s = (r, q, e, j)"
  shows "i < j \<and> i < length b"
proof -
  have s: "s = skip_ws b i" "at b s \<noteq> 0" using assms(1) by (auto simp: peek_def Let_def)
  have "r \<noteq> 0" using gettoken_eof [OF assms(2)] s skip_ws_again by simp
  then show ?thesis using gettoken_advances(4) [OF assms(2)] skip_ws_le [of i b] s(1) by auto
qed

text \<open>The line that is left gets shorter, in the form the termination proofs need.\<close>

lemma rest_less:
  "(s, True) = peek b i toks \<Longrightarrow> (r, q, e, j) = gettoken b s \<Longrightarrow> length b - j < length b - i"
  "(s, True) = peek b i toks \<Longrightarrow> (r, q, e, j) = gettoken b s \<Longrightarrow> (r', q', e', j') = gettoken b j \<Longrightarrow> length b - j' < length b - i"
proof -
  show *: "(s, True) = peek b i toks \<Longrightarrow> (r, q, e, j) = gettoken b s \<Longrightarrow> length b - j < length b - i"
    using gettoken_peek [of b i toks s r q e j] by (auto simp: eq_commute intro: diff_less_mono2)
  show "(s, True) = peek b i toks \<Longrightarrow> (r, q, e, j) = gettoken b s \<Longrightarrow> (r', q', e', j') = gettoken b j \<Longrightarrow> length b - j' < length b - i"
    using * gettoken_advances(1-3) [of b j r' q' e' j'] by (simp add: eq_commute)
qed

section \<open>Parsing\<close>

type_synonym ptrs = "nat \<times> nat"

type_synonym parsed = "sh_err + ptrs cmd \<times> nat"

function parseredirs :: "byte list \<Rightarrow> ptrs cmd \<Rightarrow> nat \<Rightarrow> parsed" where
  "parseredirs b c i =
     (case peek b i ''<>'' of (s, hit) \<Rightarrow>
      if \<not> hit then Inr (c, s)
      else case gettoken b s of (tok, _, _, s1) \<Rightarrow>
       case gettoken b s1 of (t, q, eq, s2) \<Rightarrow>
       if t \<noteq> of_char (CHR ''a'') then Inl (ShPanic ''missing file for redirection'')
       else parseredirs b
         (if tok = of_char (CHR ''<'') then redircmd c (q, eq) O_RDONLY 0
          else if tok = of_char (CHR ''>'') then redircmd c (q, eq) (O_WRONLY OR O_CREATE) 1
          else if tok = of_char (CHR ''+'') then redircmd c (q, eq) (O_WRONLY OR O_CREATE) 1
          else c) s2)"
  by pat_completeness auto
termination
  by (relation "measure (\<lambda>(b, c, i). length b - i)")
    (auto dest: rest_less(2))

declare parseredirs.simps [simp del]

lemma peek_le: "peek b i toks = (s, hit) \<Longrightarrow> i \<le> s"
  using skip_ws_le [of i b] by (auto simp: peek_def Let_def)

lemma gettoken_le: "gettoken b i = (r, q, e, j) \<Longrightarrow> i \<le> j"
  using gettoken_advances(1-3) by fastforce

lemma parseredirs_le: "parseredirs b c i = Inr (d, j) \<Longrightarrow> i \<le> j"
proof (induction b c i rule: parseredirs.induct)
  case (1 b c i)
  obtain s hit where p: "peek b i ''<>'' = (s, hit)" by (cases "peek b i ''<>''")
  obtain t q e s1 where g: "gettoken b s = (t, q, e, s1)" by (cases "gettoken b s")
  obtain t' q' e' s2 where g': "gettoken b s1 = (t', q', e', s2)" by (cases "gettoken b s1")
  show ?case
    using "1.prems" "1.IH" [OF p [symmetric] _ g [symmetric] refl refl g' [symmetric] refl refl]
      peek_le [OF p] gettoken_le [OF g] gettoken_le [OF g']
    unfolding parseredirs.simps [of b c i] by (auto simp: p g g' split: if_splits)
qed

text \<open>
  \<open>parseexec\<close> adds arguments to the node \<open>cmd\<close> it made first, which by then may be under
  redirections.
\<close>

fun add_arg :: "'w \<Rightarrow> 'w cmd \<Rightarrow> 'w cmd" where
  "add_arg w (ExecCmd ws) = ExecCmd (ws @ [w])"
| "add_arg w (RedirCmd c f m fd) = RedirCmd (add_arg w c) f m fd"
| "add_arg w c = c"

function exec_loop :: "byte list \<Rightarrow> ptrs cmd \<Rightarrow> nat \<Rightarrow> nat \<Rightarrow> parsed" where
  "exec_loop b r argc i =
     (case peek b i ''|)&;'' of (s, hit) \<Rightarrow>
      if hit then Inr (r, s)
      else case gettoken b s of (tok, q, eq, s1) \<Rightarrow>
       if tok = 0 then Inr (r, s1)
       else if tok \<noteq> of_char (CHR ''a'') then Inl (ShPanic ''syntax'')
       else if MAXARGS \<le> argc + 1 then Inl (ShPanic ''too many args'')
       else case parseredirs b (add_arg (q, eq) r) s1 of Inl e \<Rightarrow> Inl e
        | Inr (r', s2) \<Rightarrow> exec_loop b r' (argc + 1) s2)"
  by pat_completeness auto
termination
  by (relation "measure (\<lambda>(b, r, argc, i). MAXARGS - argc)") auto

declare exec_loop.simps [simp del]

text \<open>The loop of \<open>parseline\<close> over \<open>&\<close>.\<close>

function back_loop :: "byte list \<Rightarrow> ptrs cmd \<Rightarrow> nat \<Rightarrow> ptrs cmd \<times> nat" where
  "back_loop b c i =
     (case peek b i ''&'' of (s, hit) \<Rightarrow>
      if hit then (case gettoken b s of (_, _, _, s1) \<Rightarrow> back_loop b (backcmd c) s1) else (c, s))"
  by pat_completeness auto
termination
  by (relation "measure (\<lambda>(b, c, i). length b - i)") (auto dest: rest_less(1))

declare back_loop.simps [simp del]

text \<open>
  \<open>parseblock\<close>, \<open>parseexec\<close> and \<open>parsepipe\<close> call \<open>parseline\<close>, which comes last and is their argument \<open>pl\<close>.
\<close>

definition parseblock :: "(nat \<Rightarrow> parsed) \<Rightarrow> byte list \<Rightarrow> nat \<Rightarrow> parsed" where
  "parseblock pl b i =
     (case peek b i ''('' of (s, hit) \<Rightarrow>
      if \<not> hit then Inl (ShPanic ''parseblock'')
      else case gettoken b s of (_, _, _, s1) \<Rightarrow>
       case pl s1 of Inl e \<Rightarrow> Inl e
       | Inr (c, s2) \<Rightarrow>
          case peek b s2 '')'' of (s3, hit) \<Rightarrow>
          if \<not> hit then Inl (ShPanic ''syntax - missing )'')
          else case gettoken b s3 of (_, _, _, s4) \<Rightarrow> parseredirs b c s4)"

definition parseexec :: "(nat \<Rightarrow> parsed) \<Rightarrow> byte list \<Rightarrow> nat \<Rightarrow> parsed" where
  "parseexec pl b i =
     (case peek b i ''('' of (s, hit) \<Rightarrow>
      if hit then parseblock pl b s
      else case parseredirs b execcmd s of Inl e \<Rightarrow> Inl e | Inr (r, s1) \<Rightarrow> exec_loop b r 0 s1)"

primrec parsepipe :: "(nat \<Rightarrow> parsed) \<Rightarrow> nat \<Rightarrow> byte list \<Rightarrow> nat \<Rightarrow> parsed" where
  "parsepipe pl 0 b i = Inl No_Fuel"
| "parsepipe pl (Suc n) b i =
     (case parseexec pl b i of Inl e \<Rightarrow> Inl e
      | Inr (c, s) \<Rightarrow>
         case peek b s ''|'' of (s, hit) \<Rightarrow>
         if hit then (case gettoken b s of (_, _, _, s1) \<Rightarrow>
           case parsepipe pl n b s1 of Inl e \<Rightarrow> Inl e | Inr (d, j) \<Rightarrow> Inr (pipecmd c d, j))
         else Inr (c, s))"

primrec parseline :: "nat \<Rightarrow> byte list \<Rightarrow> nat \<Rightarrow> parsed" where
  "parseline 0 b i = Inl No_Fuel"
| "parseline (Suc n) b i =
     (case parsepipe (parseline n b) (Suc n) b i of Inl e \<Rightarrow> Inl e
      | Inr (c, s) \<Rightarrow>
         case back_loop b c s of (c, s) \<Rightarrow>
         case peek b s '';'' of (s, hit) \<Rightarrow>
         if hit then (case gettoken b s of (_, _, _, s1) \<Rightarrow>
           case parseline n b s1 of Inl e \<Rightarrow> Inl e | Inr (d, j) \<Rightarrow> Inr (listcmd c d, j))
         else Inr (c, s))"

text \<open>The bytes at the ends of the words are overwritten by NULs; the end of the line is one already.\<close>

primrec nulterminate :: "ptrs cmd \<Rightarrow> byte list \<Rightarrow> byte list" where
  "nulterminate (ExecCmd ws) b = fold (\<lambda>(q, e) b. b[e := 0]) ws b"
| "nulterminate (RedirCmd c f m fd) b = (nulterminate c b)[snd f := 0]"
| "nulterminate (PipeCmd c d) b = nulterminate d (nulterminate c b)"
| "nulterminate (ListCmd c d) b = nulterminate d (nulterminate c b)"
| "nulterminate (BackCmd c) b = nulterminate c b"

definition parsecmd :: "byte list \<Rightarrow> sh_err + ptrs cmd \<times> byte list" where
  "parsecmd b =
     (case parseline (length b + 1) b 0 of Inl e \<Rightarrow> Inl e
      | Inr (c, i) \<Rightarrow>
         case peek b i [] of (s, _) \<Rightarrow>
         if s \<noteq> length b then Inl (ShPanic ''syntax'') else Inr (c, nulterminate c b))"

section \<open>The parser returns\<close>

lemma exec_loop_le: "exec_loop b r argc i = Inr (d, j) \<Longrightarrow> i \<le> j"
proof (induction b r argc i rule: exec_loop.induct)
  case (1 b r argc i)
  obtain s hit where p: "peek b i ''|)&;'' = (s, hit)" by (cases "peek b i ''|)&;''")
  obtain t q e s1 where g: "gettoken b s = (t, q, e, s1)" by (cases "gettoken b s")
  show ?case
  proof (cases "hit \<or> t \<noteq> of_char (CHR ''a'') \<or> MAXARGS \<le> argc + 1")
    case True
    then show ?thesis using "1.prems" peek_le [OF p] gettoken_le [OF g]
      unfolding exec_loop.simps [of b r argc i] by (auto simp: p g split: if_splits)
  next
    case False
    then obtain r' s2 where pr: "parseredirs b (add_arg (q, e) r) s1 = Inr (r', s2)" "exec_loop b r' (argc + 1) s2 = Inr (d, j)"
      using "1.prems" unfolding exec_loop.simps [of b r argc i] by (auto simp: p g split: sum.splits if_splits)
    have "s2 \<le> j" using "1.IH" [OF p [symmetric] _ g [symmetric] refl refl _ _ _ pr(1) refl pr(2)] False by auto
    then show ?thesis using peek_le [OF p] gettoken_le [OF g] parseredirs_le [OF pr(1)] by simp
  qed
qed

lemma back_loop_le: "back_loop b c i = (d, j) \<Longrightarrow> i \<le> j"
proof (induction b c i rule: back_loop.induct)
  case (1 b c i)
  obtain s hit where p: "peek b i ''&'' = (s, hit)" by (cases "peek b i ''&''")
  obtain t q e s1 where g: "gettoken b s = (t, q, e, s1)" by (cases "gettoken b s")
  show ?case
    using "1.prems" "1.IH" [OF p [symmetric] _ g [symmetric] refl refl] peek_le [OF p] gettoken_le [OF g]
    unfolding back_loop.simps [of b c i] by (auto simp: p g split: if_splits)
qed

lemma parseredirs_fuel: "parseredirs b c i \<noteq> Inl No_Fuel"
proof (induction b c i rule: parseredirs.induct)
  case (1 b c i)
  obtain s hit where p: "peek b i ''<>'' = (s, hit)" by (cases "peek b i ''<>''")
  obtain t q e s1 where g: "gettoken b s = (t, q, e, s1)" by (cases "gettoken b s")
  obtain t' q' e' s2 where g': "gettoken b s1 = (t', q', e', s2)" by (cases "gettoken b s1")
  show ?case using "1.IH" [OF p [symmetric] _ g [symmetric] refl refl g' [symmetric] refl refl]
    unfolding parseredirs.simps [of b c i] by (auto simp: p g g')
qed

lemma exec_loop_fuel: "exec_loop b r argc i \<noteq> Inl No_Fuel"
proof (induction b r argc i rule: exec_loop.induct)
  case (1 b r argc i)
  obtain s hit where p: "peek b i ''|)&;'' = (s, hit)" by (cases "peek b i ''|)&;''")
  obtain t q e s1 where g: "gettoken b s = (t, q, e, s1)" by (cases "gettoken b s")
  show ?case
  proof (cases "hit \<or> t \<noteq> of_char (CHR ''a'') \<or> MAXARGS \<le> argc + 1")
    case True
    then show ?thesis unfolding exec_loop.simps [of b r argc i] by (auto simp: p g)
  next
    case False
    then have "exec_loop b r' (argc + 1) s2 \<noteq> Inl No_Fuel" if "parseredirs b (add_arg (q, e) r) s1 = Inr (r', s2)" for r' s2
      using "1.IH" [OF p [symmetric] _ g [symmetric] refl refl _ _ _ that refl] by auto
    then show ?thesis using parseredirs_fuel [of b "add_arg (q, e) r" s1]
      unfolding exec_loop.simps [of b r argc i] by (auto simp: p g split: sum.splits)
  qed
qed

text \<open>What the callers of \<open>parseline\<close> need of it: it goes forward, and has fuel for the line after \<open>i\<close> if \<open>f\<close>.\<close>

definition line_parser :: "bool \<Rightarrow> byte list \<Rightarrow> nat \<Rightarrow> (nat \<Rightarrow> parsed) \<Rightarrow> bool" where
  "line_parser f b i pl \<longleftrightarrow> (\<forall>k c j. pl k = Inr (c, j) \<longrightarrow> k \<le> j) \<and>
     (f \<longrightarrow> (\<forall>k. length b - k < length b - i \<longrightarrow> pl k \<noteq> Inl No_Fuel))"

lemma line_parserD: "line_parser f b i pl \<Longrightarrow> pl k = Inr (c, j) \<Longrightarrow> k \<le> j"
    "line_parser f b i pl \<Longrightarrow> f \<Longrightarrow> length b - k < length b - i \<Longrightarrow> pl k \<noteq> Inl No_Fuel"
    "line_parser f b i pl \<Longrightarrow> i \<le> j \<Longrightarrow> line_parser f b j pl"
  by (auto simp: line_parser_def)

text \<open>A result that is not out of fuel if \<open>f\<close>, and goes forward from \<open>i\<close>.\<close>

definition forward :: "bool \<Rightarrow> nat \<Rightarrow> parsed \<Rightarrow> bool" where
  "forward f i r \<longleftrightarrow> (f \<longrightarrow> r \<noteq> Inl No_Fuel) \<and> (\<forall>c j. r = Inr (c, j) \<longrightarrow> i \<le> j)"

lemma forward_mono: "forward f j r \<Longrightarrow> i \<le> j \<Longrightarrow> forward f i r"
  by (auto simp: forward_def)

lemma forward_simps [simp]: "forward f i (Inr (c, j)) \<longleftrightarrow> i \<le> j" "forward f i (Inl e) \<longleftrightarrow> (f \<longrightarrow> e \<noteq> No_Fuel)"
  by (auto simp: forward_def)

lemma forward_loops: "forward f i (parseredirs b c i)" "forward f i (exec_loop b c argc i)"
  by (simp_all add: forward_def parseredirs_fuel exec_loop_fuel parseredirs_le exec_loop_le)

lemma forward_bind:
  "forward f i r \<Longrightarrow> (\<And>c j. i \<le> j \<Longrightarrow> forward f i (g c j)) \<Longrightarrow>
    forward f i (case r of Inl e \<Rightarrow> Inl e | Inr (c, j) \<Rightarrow> g c j)"
  by (auto simp: forward_def split: sum.split)

lemma parseblock_ok:
  assumes "line_parser f b i pl"
  shows "forward f i (parseblock pl b i)"
proof -
  obtain s hit where p: "peek b i ''('' = (s, hit)" by (cases "peek b i ''(''")
  obtain t q e s1 where g: "gettoken b s = (t, q, e, s1)" by (cases "gettoken b s")
  have le: "i \<le> s1" using peek_le [OF p] gettoken_le [OF g] by simp
  have pl: "hit \<Longrightarrow> forward f i (pl s1)"
    using line_parserD(1,2) [OF assms, of s1] rest_less(1) [of s b i "''(''" t q e s1] le p g
    by (auto simp: forward_def intro: order_trans)
  have "forward f i (case peek b s2 '')'' of (s3, hit) \<Rightarrow> if \<not> hit then Inl (ShPanic ''syntax - missing )'')
      else case gettoken b s3 of (_, _, _, s4) \<Rightarrow> parseredirs b c s4)" if "i \<le> s2" for c s2
  proof -
    obtain s3 hit3 where p3: "peek b s2 '')'' = (s3, hit3)" by (cases "peek b s2 '')''")
    obtain t3 q3 e3 s4 where g3: "gettoken b s3 = (t3, q3, e3, s4)" by (cases "gettoken b s3")
    have "i \<le> s4" using that peek_le [OF p3] gettoken_le [OF g3] by simp
    then show ?thesis using forward_mono [OF forward_loops(1)] by (simp add: p3 g3)
  qed
  then show ?thesis using forward_bind [OF pl] by (auto simp: parseblock_def p g)
qed

lemma parseexec_ok:
  assumes "line_parser f b i pl"
  shows "forward f i (parseexec pl b i)"
proof -
  obtain s hit where p: "peek b i ''('' = (s, hit)" by (cases "peek b i ''(''")
  note s = peek_le [OF p]
  have "forward f i (parseblock pl b s)" by (rule forward_mono [OF parseblock_ok [OF line_parserD(3) [OF assms s]] s])
  moreover have "forward f i (case parseredirs b execcmd s of Inl e \<Rightarrow> Inl e | Inr (r, s1) \<Rightarrow> exec_loop b r 0 s1)"
    by (rule forward_bind [OF forward_mono [OF forward_loops(1) s] forward_mono [OF forward_loops(2)]])
  ultimately show ?thesis by (simp add: parseexec_def p)
qed

lemma parsepipe_ok:
  "line_parser f b i pl \<Longrightarrow> forward (f \<and> length b - i < n) i (parsepipe pl n b i)"
proof (induction n arbitrary: i)
  case (Suc n)
  let ?f = "f \<and> length b - i < Suc n"
  have pe: "forward ?f i (parseexec pl b i)" using parseexec_ok [OF Suc.prems] by (auto simp: forward_def)
  have "forward ?f i (case peek b s ''|'' of (s, hit) \<Rightarrow> if hit then (case gettoken b s of (_, _, _, s1) \<Rightarrow>
      case parsepipe pl n b s1 of Inl e \<Rightarrow> Inl e | Inr (d, j) \<Rightarrow> Inr (pipecmd c d, j)) else Inr (c, s))" if "i \<le> s" for c s
  proof -
    obtain s' hit where p: "peek b s ''|'' = (s', hit)" by (cases "peek b s ''|''")
    obtain t q e s1 where g: "gettoken b s' = (t, q, e, s1)" by (cases "gettoken b s'")
    have le: "i \<le> s'" "i \<le> s1" using that peek_le [OF p] gettoken_le [OF g] by simp_all
    have "hit \<Longrightarrow> length b - i < Suc n \<Longrightarrow> length b - s1 < n" using rest_less(1) [of s' b s "''|''" t q e s1] p g that by simp
    then have "hit \<Longrightarrow> forward ?f i (parsepipe pl n b s1)"
      using Suc.IH [OF line_parserD(3) [OF Suc.prems le(2)]] le(2) by (auto simp: forward_def)
    then show ?thesis using le by (auto simp: p g intro: forward_bind)
  qed
  from forward_bind [OF pe this] show ?case unfolding parsepipe.simps .
qed simp

lemma parseline_ok: "forward (length b - i < n) i (parseline n b i)"
proof (induction n arbitrary: i)
  case (Suc n)
  let ?f = "length b - i < Suc n"
  have "line_parser ?f b i (parseline n b)" using Suc.IH unfolding line_parser_def forward_def by fastforce
  from parsepipe_ok [OF this, of "Suc n"] have pp: "forward ?f i (parsepipe (parseline n b) (Suc n) b i)" by simp
  have "forward ?f i (case back_loop b c s of (c, s) \<Rightarrow> case peek b s '';'' of (s, hit) \<Rightarrow>
      if hit then (case gettoken b s of (_, _, _, s1) \<Rightarrow>
        case parseline n b s1 of Inl e \<Rightarrow> Inl e | Inr (d, j) \<Rightarrow> Inr (listcmd c d, j)) else Inr (c, s))" if "i \<le> s" for c s
  proof -
    obtain c' s' where k: "back_loop b c s = (c', s')" by (cases "back_loop b c s")
    obtain s2 hit where p: "peek b s' '';'' = (s2, hit)" by (cases "peek b s' '';''")
    obtain t q e s1 where g: "gettoken b s2 = (t, q, e, s1)" by (cases "gettoken b s2")
    have le: "i \<le> s'" "i \<le> s2" "i \<le> s1" using that back_loop_le [OF k] peek_le [OF p] gettoken_le [OF g] by simp_all
    have "hit \<Longrightarrow> ?f \<Longrightarrow> length b - s1 < n" using rest_less(1) [of s2 b s' "'';''" t q e s1] p g le(1) by simp
    then have "hit \<Longrightarrow> forward ?f i (parseline n b s1)" using Suc.IH [of s1] le(3) by (auto simp: forward_def)
    then show ?thesis using le by (auto simp: k p g intro: forward_bind)
  qed
  from forward_bind [OF pp this] show ?case unfolding parseline.simps .
qed simp

text \<open>
  C34: The parser returns on every line: \<open>parsecmd\<close> ends with a tree or with one of the messages of
  \<open>panic\<close>, and never for want of fuel.
\<close>

theorem parsecmd_returns: "parsecmd b \<noteq> Inl No_Fuel"
proof -
  have "parseline (length b + 1) b 0 \<noteq> Inl No_Fuel" using parseline_ok [of b 0 "length b + 1"] by (auto simp: forward_def)
  then show ?thesis by (auto simp: parsecmd_def simp del: parseline.simps split: sum.split prod.split)
qed

end
