(* ===== verification/Sh_Roundtrip.thy ===== *)
theory Sh_Roundtrip
  imports Sh
begin

text \<open>
  Printing a command of the shell and parsing it.  A command is printed as tokens with a blank
  after each, with parentheses where the grammar needs them; the parser finds the command again.
\<close>

section \<open>Printing\<close>

definition word_ok :: "byte list \<Rightarrow> bool" where
  "word_ok w \<longleftrightarrow> w \<noteq> [] \<and> (\<forall>x\<in>set w. x \<noteq> 0 \<and> x \<notin> set whitespace \<and> x \<notin> set symbols)"

definition sy :: "char \<Rightarrow> byte list" where
  "sy c = [of_char c]"

definition tok_ok :: "byte list \<Rightarrow> bool" where
  "tok_ok t \<longleftrightarrow> word_ok t \<or> t \<in> sy ` set ''|();&<>''"

definition render :: "byte list list \<Rightarrow> byte list" where
  "render ts = concat (map (\<lambda>t. t @ [32]) ts)"

definition paren :: "bool \<Rightarrow> byte list list \<Rightarrow> byte list list" where
  "paren p ts = (if p then [sy (CHR ''('')] @ ts @ [sy (CHR '')'')] else ts)"

definition redir_sym :: "int \<Rightarrow> byte list" where
  "redir_sym m = (if m = O_RDONLY then sy (CHR ''<'') else sy (CHR ''>''))"

text \<open>The levels are those of the grammar: lines, lines without \<open>;\<close>, pipes, and single commands.\<close>

primrec show_cmd :: "nat \<Rightarrow> byte list cmd \<Rightarrow> byte list list" where
  "show_cmd k (ExecCmd ws) = ws"
| "show_cmd k (RedirCmd c f m fd) = show_cmd 3 c @ [redir_sym m, f]"
| "show_cmd k (PipeCmd c d) = paren (2 < k) (show_cmd 3 c @ [sy (CHR ''|'')] @ show_cmd 2 d)"
| "show_cmd k (ListCmd c d) = paren (0 < k) (show_cmd 1 c @ [sy (CHR '';'')] @ show_cmd 0 d)"
| "show_cmd k (BackCmd c) = paren (1 < k) (show_cmd 1 c @ [sy (CHR ''&'')])"

text \<open>Commands with words the lexer takes as such, less than \<open>MAXARGS\<close> of them, and the redirections there are.\<close>

primrec cmd_ok :: "byte list cmd \<Rightarrow> bool" where
  "cmd_ok (ExecCmd ws) = (length ws < MAXARGS \<and> list_all word_ok ws)"
| "cmd_ok (RedirCmd c f m fd) = (cmd_ok c \<and> word_ok f \<and> ((m, fd) = (O_RDONLY, 0) \<or> (m, fd) = (O_WRONLY OR O_CREATE, 1)))"
| "cmd_ok (PipeCmd c d) = (cmd_ok c \<and> cmd_ok d)"
| "cmd_ok (ListCmd c d) = (cmd_ok c \<and> cmd_ok d)"
| "cmd_ok (BackCmd c) = cmd_ok c"

section \<open>Tokens in the line\<close>

text \<open>The tokens with a blank of any kind after each: the last one of a line is the newline.\<close>

fun sep_toks :: "byte list list \<Rightarrow> byte list \<Rightarrow> bool" where
  "sep_toks [] b \<longleftrightarrow> b = []"
| "sep_toks (t # ts) b \<longleftrightarrow> (\<exists>w r. w \<in> set whitespace \<and> b = t @ w # r \<and> sep_toks ts r)"

definition at_toks :: "byte list \<Rightarrow> nat \<Rightarrow> byte list list \<Rightarrow> bool" where
  "at_toks b i ts \<longleftrightarrow> i \<le> length b \<and> sep_toks ts (drop i b) \<and> list_all tok_ok ts"

lemma render_simps [simp]: "render [] = []" "render (t # ts) = t @ 32 # render ts"
  by (simp_all add: render_def)

lemma tok_nonempty: "tok_ok t \<Longrightarrow> t \<noteq> []"
  by (auto simp: tok_ok_def word_ok_def sy_def)

lemma tok_hd: "tok_ok t \<Longrightarrow> hd t \<noteq> 0 \<and> hd t \<notin> set whitespace"
proof (cases "word_ok t")
  case True
  then show ?thesis using hd_in_set [of t] unfolding word_ok_def by blast
next
  case False
  assume "tok_ok t"
  with False have "t \<in> sy ` set ''|();&<>''" by (simp add: tok_ok_def)
  then show ?thesis by (auto simp: sy_def whitespace_def)
qed

lemma at_drop: "drop i b = x # r \<Longrightarrow> at b i = x"
  by (metis at_def drop_eq_Nil hd_drop_conv_nth list.discI list.sel(1) linorder_not_le)

lemma at_toks_hd:
  assumes "at_toks b i (t # ts)"
  shows "skip_ws b i = i" "at b i = hd t"
proof -
  obtain w r where "drop i b = t @ w # r" using assms by (auto simp: at_toks_def)
  then have d: "drop i b = hd t # (tl t @ w # r)" using assms tok_nonempty by (auto simp: at_toks_def)
  show "skip_ws b i = i" using tok_hd assms unfolding skip_ws_def d by (simp add: at_toks_def)
  show "at b i = hd t" by (rule at_drop [OF d])
qed

lemma at_toks_Nil: "at_toks b i [] \<Longrightarrow> i = length b"
  by (simp add: at_toks_def)

lemma eof: "skip_ws b (length b) = length b" "at b (length b) = 0"
  by (simp_all add: skip_ws_def at_def)

lemma at_toks_next:
  assumes "at_toks b i (t # ts)" and "j = i + length t + 1"
  shows "at_toks b j ts" "skip_ws b (i + length t) = j" "at b (i + length t) \<in> set whitespace"
proof -
  obtain w r where d: "w \<in> set whitespace" "drop i b = (t @ [w]) @ r" "sep_toks ts r" "i \<le> length b" "list_all tok_ok (t # ts)"
    using assms(1) by (auto simp: at_toks_def)
  have dj: "drop j b = r" using arg_cong [OF d(2), of "drop (length t + 1)"] assms(2) by (simp add: add.commute)
  have "length b - i = length (t @ [w] @ r)" using arg_cong [OF d(2), of length] by simp
  then have "j \<le> length b" using assms(2) d(4) by simp
  then show "at_toks b j ts" using dj d(3,5) by (simp add: at_toks_def)
  have d2: "drop (i + length t) b = w # r" using arg_cong [OF d(2), of "drop (length t)"] by (simp add: add.commute)
  then show "at b (i + length t) \<in> set whitespace" using d(1) by (simp add: at_drop)
  have "takeWhile (\<lambda>x. x \<in> set whitespace) r = []"
    using d(3,5) tok_nonempty tok_hd by (cases ts) (auto simp: neq_Nil_conv takeWhile_eq_Nil_iff)
  then show "skip_ws b (i + length t) = j" using assms(2) d(1) unfolding skip_ws_def d2 by simp
qed

lemma peek_toks:
  "at_toks b i ts \<Longrightarrow> peek b i cs = (i, ts \<noteq> [] \<and> hd (hd ts) \<in> of_char ` set cs)"
proof (cases ts)
  case Nil
  assume "at_toks b i ts"
  then have "i = length b" using Nil at_toks_Nil by simp
  then show ?thesis using Nil by (simp add: peek_def eof)
next
  case (Cons t us)
  assume a: "at_toks b i ts"
  then have "hd t \<noteq> 0" using tok_hd Cons by (simp add: at_toks_def)
  then show ?thesis using at_toks_hd [of b i t us] a Cons by (simp add: peek_def)
qed

definition kind :: "byte list \<Rightarrow> byte" where
  "kind t = (if word_ok t then of_char (CHR ''a'') else hd t)"

lemma gettoken_toks:
  assumes a: "at_toks b i (t # ts)"
  shows "gettoken b i = (kind t, i, i + length t, i + length t + 1)"
proof -
  note h = at_toks_hd [OF a] and n = at_toks_next [OF a refl]
  have t: "tok_ok t" using a by (simp add: at_toks_def)
  show ?thesis
  proof (cases "word_ok t")
    case True
    obtain v r where d: "v \<in> set whitespace" "drop i b = t @ v # r" using a by (auto simp: at_toks_def)
    have w: "word_end b i = i + length t"
      using True d(1) unfolding word_end_def d(2) by (subst takeWhile_append2) (auto simp: word_ok_def)
    have "hd t \<notin> set symbols" "hd t \<noteq> 0" using True hd_in_set by (auto simp: word_ok_def)
    then show ?thesis using True h n(2) w by (auto simp: gettoken_def Let_def kind_def symbols_eq)
  next
    case False
    then obtain c where c: "t = sy c" "c \<in> set ''|();&<>''" using t by (auto simp: tok_ok_def)
    have "at b (i + 1) \<noteq> of_char (CHR ''>'')" using n(3) c(1) by (auto simp: sy_def whitespace_def)
    then show ?thesis using False h n(2) c by (auto simp: gettoken_def Let_def kind_def sy_def)
  qed
qed

section \<open>Parsing what was printed\<close>

definition starts :: "byte list list \<Rightarrow> string \<Rightarrow> bool" where
  "starts ts cs \<longleftrightarrow> ts \<noteq> [] \<and> hd (hd ts) \<in> of_char ` set cs"

lemma peek_starts: "at_toks b i ts \<Longrightarrow> peek b i cs = (i, starts ts cs)"
  by (simp add: peek_toks starts_def)

lemma byte_char_inj: "(of_char c :: byte) = of_char d \<longleftrightarrow> c = d"
proof
  assume "(of_char c :: byte) = of_char d"
  then have "unat (of_nat (of_char c) :: byte) = unat (of_nat (of_char d) :: byte)" by (simp only: of_nat_of_char)
  then have "(of_char c :: nat) = of_char d" by (simp add: unat_of_nat take_bit_nat_eq_self)
  then show "c = d" by simp
qed simp

lemma starts_simps [simp]:
  "\<not> starts [] cs" "starts (sy c # ts) cs \<longleftrightarrow> c \<in> set cs"
  by (auto simp: starts_def sy_def byte_char_inj)

lemma starts_word: "word_ok w \<Longrightarrow> set cs \<subseteq> set ''<|>&;()'' \<Longrightarrow> \<not> starts (w # ts) cs"
  using hd_in_set [of w] by (auto simp: starts_def word_ok_def symbols_def)

lemma kind_simps: "word_ok w \<Longrightarrow> kind w = of_char (CHR ''a'')" "c \<in> set ''<|>&;()'' \<Longrightarrow> kind (sy c) = of_char c"
  by (auto simp: kind_def word_ok_def sy_def symbols_def)

text \<open>The word between two pointers.\<close>

fun word_at :: "byte list \<Rightarrow> ptrs \<Rightarrow> byte list \<Rightarrow> bool" where
  "word_at b (q, e) w \<longleftrightarrow> word_ok w \<and> e = q + length w \<and> (\<exists>v r. v \<in> set whitespace \<and> drop q b = w @ v # r)"

lemma word_at_toks: "at_toks b i (w # ts) \<Longrightarrow> word_ok w \<Longrightarrow> word_at b (i, i + length w) w"
  by (auto simp: at_toks_def)

abbreviation parses :: "byte list \<Rightarrow> parsed \<Rightarrow> byte list cmd \<Rightarrow> byte list list \<Rightarrow> bool" where
  "parses b r c ts \<equiv> (\<exists>d j. r = Inr (d, j) \<and> rel_cmd (word_at b) d c \<and> at_toks b j ts)"

definition redir_ok :: "byte list \<times> int \<times> int \<Rightarrow> bool" where
  "redir_ok r \<longleftrightarrow> word_ok (fst r) \<and> (snd r = (O_RDONLY, 0) \<or> snd r = (O_WRONLY OR O_CREATE, 1))"

definition redirs :: "byte list cmd \<Rightarrow> (byte list \<times> int \<times> int) list \<Rightarrow> byte list cmd" where
  "redirs c rs = foldl (\<lambda>c (f, m, fd). RedirCmd c f m fd) c rs"

definition redir_toks :: "(byte list \<times> int \<times> int) list \<Rightarrow> byte list list" where
  "redir_toks rs = concat (map (\<lambda>(f, m, fd). [redir_sym m, f]) rs)"

lemma parseredirs_toks:
  assumes "at_toks b i (redir_toks rs @ ts)" "list_all redir_ok rs" "\<not> starts ts ''<>''" "rel_cmd (word_at b) c' c"
  shows "parses b (parseredirs b c' i) (redirs c rs) ts"
  using assms
proof (induction rs arbitrary: i c c')
  case Nil
  then show ?case using peek_starts [of b i ts "''<>''"] by (simp add: parseredirs.simps [of b c' i] redir_toks_def redirs_def)
next
  case (Cons r rs)
  obtain f m fd where r: "r = (f, m, fd)" by (cases r)
  have ok: "word_ok f" "(m, fd) = (O_RDONLY, 0) \<or> (m, fd) = (O_WRONLY OR O_CREATE, 1)" using Cons.prems(2) r by (auto simp: redir_ok_def)
  have a: "at_toks b i (redir_sym m # f # redir_toks rs @ ts)" using Cons.prems(1) r by (simp add: redir_toks_def)
  have l: "length (redir_sym m) = 1" "redir_sym m \<in> {sy (CHR ''<''), sy (CHR ''>'')}" by (auto simp: redir_sym_def sy_def)
  note p = peek_starts [OF a, of "''<>''"] and g = gettoken_toks [OF a]
  have a1: "at_toks b (i + 2) (f # redir_toks rs @ ts)" using at_toks_next(1) [OF a refl] l(1) by simp
  note g1 = gettoken_toks [OF a1]
  have a2: "at_toks b (i + 2 + length f + 1) (redir_toks rs @ ts)" by (rule at_toks_next(1) [OF a1 refl])
  have w: "word_at b (i + 2, i + 2 + length f) f" by (rule word_at_toks [OF a1 ok(1)])
  have "rel_cmd (word_at b) (RedirCmd c' (i + 2, i + 2 + length f) m fd) (RedirCmd c f m fd)" using Cons.prems(4) w by simp
  from Cons.IH [OF a2 _ Cons.prems(3) this] Cons.prems(2) have ih:
    "parses b (parseredirs b (RedirCmd c' (i + 2, i + 2 + length f) m fd) (i + 2 + length f + 1)) (redirs c (r # rs)) ts"
    by (simp add: r redirs_def)
  have "parseredirs b c' i = parseredirs b (RedirCmd c' (i + 2, i + 2 + length f) m fd) (i + 2 + length f + 1)"
    using p g g1 l ok unfolding parseredirs.simps [of b c' i]
    by (auto simp: kind_simps redir_sym_def O_RDONLY_def O_WRONLY_def O_CREATE_def sy_def [symmetric])
  then show ?case using ih by simp
qed

lemma gettoken_end: "at_toks b i [] \<Longrightarrow> gettoken b i = (0, i, i, i)"
  using at_toks_Nil [of b i] by (simp add: gettoken_def eof Let_def)

lemma exec_loop_end: "at_toks b i ts \<Longrightarrow> ts = [] \<or> starts ts ''|)&;'' \<Longrightarrow> exec_loop b r argc i = Inr (r, i)"
  using peek_starts [of b i ts "''|)&;''"] gettoken_end [of b i] by (auto simp: exec_loop.simps [of b r argc i])

lemma exec_loop_toks:
  assumes "at_toks b i (ws @ redir_toks rs @ ts)" "ws = [] \<longrightarrow> rs = []" "list_all word_ok ws" "list_all redir_ok rs"
    "ts = [] \<or> starts ts ''|)&;''" "rel_cmd (word_at b) r (ExecCmd vs)" "length ws + argc < MAXARGS"
  shows "parses b (exec_loop b r argc i) (redirs (ExecCmd (vs @ ws)) rs) ts"
  using assms
proof (induction ws arbitrary: i r vs argc)
  case Nil
  then show ?case using exec_loop_end [of b i ts] by (simp add: redir_toks_def redirs_def)
next
  case (Cons w ws)
  obtain ps where ps: "r = ExecCmd ps" "list_all2 (word_at b) ps vs" using Cons.prems(6) by (cases r) auto
  have a: "at_toks b i (w # ws @ redir_toks rs @ ts)" and w: "word_ok w" using Cons.prems(1,3) by simp_all
  let ?j = "i + length w + 1" and ?r = "ExecCmd (ps @ [(i, i + length w)])"
  have a1: "at_toks b ?j (ws @ redir_toks rs @ ts)" by (rule at_toks_next(1) [OF a refl])
  have rel: "rel_cmd (word_at b) ?r (ExecCmd (vs @ [w]))" using ps(2) word_at_toks [OF a w] by (simp add: list_all2_appendI)
  have step: "exec_loop b r argc i = (case parseredirs b ?r ?j of Inl e \<Rightarrow> Inl e | Inr (r', s2) \<Rightarrow> exec_loop b r' (argc + 1) s2)"
    using peek_starts [OF a, of "''|)&;''"] starts_word [OF w, of "''|)&;''"] gettoken_toks [OF a] kind_simps(1) [OF w] Cons.prems(7)
    unfolding exec_loop.simps [of b r argc i] by (simp add: ps(1))
  show ?case
  proof (cases "ws = []")
    case True
    have n: "\<not> starts ts ''<>''" using Cons.prems(5) by (auto simp: starts_def byte_char_inj)
    have "at_toks b ?j (redir_toks rs @ ts)" using a1 True by simp
    from parseredirs_toks [OF this Cons.prems(4) n rel] obtain d k where
      "parseredirs b ?r ?j = Inr (d, k)" "rel_cmd (word_at b) d (redirs (ExecCmd (vs @ [w])) rs)" "at_toks b k ts" by blast
    then show ?thesis using step exec_loop_end [of b k ts d "argc + 1"] Cons.prems(5) True by simp
  next
    case False
    then obtain v vs' where v: "ws = v # vs'" by (cases ws) auto
    have n: "\<not> starts (ws @ redir_toks rs @ ts) ''<>''" using starts_word [of v] Cons.prems(3) by (simp add: v)
    obtain d k where d: "parseredirs b ?r ?j = Inr (d, k)" "rel_cmd (word_at b) d (ExecCmd (vs @ [w]))" "at_toks b k (ws @ redir_toks rs @ ts)"
      using parseredirs_toks [of b ?j "[]" "ws @ redir_toks rs @ ts", OF _ _ n rel] a1 by (auto simp: redir_toks_def redirs_def)
    have "parses b (exec_loop b d (argc + 1) k) (redirs (ExecCmd ((vs @ [w]) @ ws)) rs) ts"
      by (rule Cons.IH [OF d(3) _ _ Cons.prems(4,5) d(2)]) (use Cons.prems(3,7) False in simp_all)
    then show ?thesis using step d(1) by simp
  qed
qed

text \<open>A command at the level of single commands: a base, and redirections after it.\<close>

definition is_redir :: "'w cmd \<Rightarrow> bool" where
  "is_redir c \<longleftrightarrow> (\<exists>d f m fd. c = RedirCmd d f m fd)"

lemma show_no_redir:
  "\<not> is_redir c \<Longrightarrow> \<exists>c0 rs. c = redirs c0 rs \<and> \<not> is_redir c0 \<and> show_cmd 3 c = show_cmd 3 c0 @ redir_toks rs \<and>
    (cmd_ok c \<longrightarrow> cmd_ok c0 \<and> list_all redir_ok rs)"
  by (intro exI [of _ c] exI [of _ "[]"]) (simp add: redirs_def redir_toks_def)

lemma show_redirs:
  "\<exists>c0 rs. c = redirs c0 rs \<and> \<not> is_redir c0 \<and> show_cmd 3 c = show_cmd 3 c0 @ redir_toks rs \<and>
    (cmd_ok c \<longrightarrow> cmd_ok c0 \<and> list_all redir_ok rs)"
proof (induction c)
  case (RedirCmd c f m fd)
  then obtain c0 rs where "c = redirs c0 rs" "\<not> is_redir c0" "show_cmd 3 c = show_cmd 3 c0 @ redir_toks rs"
    "cmd_ok c \<longrightarrow> cmd_ok c0 \<and> list_all redir_ok rs" by blast
  moreover have "cmd_ok (RedirCmd c f m fd) \<longrightarrow> redir_ok (f, m, fd)" by (simp add: redir_ok_def)
  ultimately show ?case
    by (intro exI [of _ c0] exI [of _ "rs @ [(f, m, fd)]"]) (auto simp: redirs_def redir_toks_def)
qed (rule show_no_redir, simp add: is_redir_def)+

text \<open>A parser of lines that is right about everything printed after \<open>i\<close>.\<close>

definition line_right :: "(nat \<Rightarrow> parsed) \<Rightarrow> byte list \<Rightarrow> nat \<Rightarrow> bool" where
  "line_right pl b i \<longleftrightarrow> (\<forall>k d us. i < k \<longrightarrow> at_toks b k (show_cmd 0 d @ us) \<longrightarrow> us = [] \<or> starts us '')'' \<longrightarrow> cmd_ok d \<longrightarrow>
     parses b (pl k) d us)"

lemma line_rightD:
  "line_right pl b i \<Longrightarrow> i < k \<Longrightarrow> at_toks b k (show_cmd 0 d @ us) \<Longrightarrow> us = [] \<or> starts us '')'' \<Longrightarrow> cmd_ok d \<Longrightarrow> parses b (pl k) d us"
  unfolding line_right_def by blast

lemma not_starts_redir: "ts = [] \<or> starts ts ''|)&;'' \<Longrightarrow> \<not> starts ts ''<>'' \<and> \<not> starts ts ''(''"
  by (auto simp: starts_def byte_char_inj)

lemma starts_redir_sym: "starts (redir_sym m # us) cs \<longleftrightarrow> (if m = O_RDONLY then CHR ''<'' else CHR ''>'') \<in> set cs"
  by (simp add: redir_sym_def)

lemma length_sy [simp]: "length (sy c) = 1"
  by (simp add: sy_def)

lemma parse_words:
  assumes a: "at_toks b i (ws @ redir_toks rs @ ts)" and w: "list_all word_ok ws" "length ws < MAXARGS"
    and rs: "list_all redir_ok rs" and ts: "ts = [] \<or> starts ts ''|)&;''"
  shows "parses b (parseexec pl b i) (redirs (ExecCmd ws) rs) ts"
proof -
  have np: "\<not> starts (ws @ redir_toks rs @ ts) ''(''"
  proof (cases ws)
    case Nil
    then show ?thesis using not_starts_redir [OF ts] by (cases rs) (auto simp: redir_toks_def starts_redir_sym split: if_splits)
  next
    case (Cons v vs)
    then show ?thesis using starts_word [of v] w(1) by simp
  qed
  have r0: "rel_cmd (word_at b) (ExecCmd []) (ExecCmd [])" by simp
  have e: "parseexec pl b i = (case parseredirs b (ExecCmd []) i of Inl e \<Rightarrow> Inl e | Inr (r, s1) \<Rightarrow> exec_loop b r 0 s1)"
    using peek_starts [OF a, of "''(''"] np by (simp add: parseexec_def)
  show ?thesis
  proof (cases "ws = []")
    case True
    then have "at_toks b i (redir_toks rs @ ts)" using a by simp
    from parseredirs_toks [OF this rs not_starts_redir [OF ts, THEN conjunct1] r0] obtain d j where
      "parseredirs b (ExecCmd []) i = Inr (d, j)" "rel_cmd (word_at b) d (redirs (ExecCmd []) rs)" "at_toks b j ts" by blast
    then show ?thesis using e exec_loop_end [of b j ts d 0] ts True by simp
  next
    case False
    then obtain v vs where "ws = v # vs" by (cases ws) auto
    then have n: "\<not> starts (ws @ redir_toks rs @ ts) ''<>''" using starts_word [of v] w(1) by simp
    obtain d j where d: "parseredirs b (ExecCmd []) i = Inr (d, j)" "rel_cmd (word_at b) d (ExecCmd [])" "at_toks b j (ws @ redir_toks rs @ ts)"
      using parseredirs_toks [of b i "[]" "ws @ redir_toks rs @ ts", OF _ _ n r0] a by (auto simp: redir_toks_def redirs_def)
    from exec_loop_toks [OF d(3) _ w(1) rs ts d(2), of 0] show ?thesis using e d(1) False w(2) by simp
  qed
qed

lemma parse_block:
  assumes pl: "line_right pl b i" and a: "at_toks b i (sy (CHR ''('') # show_cmd 0 c @ sy (CHR '')'') # redir_toks rs @ ts)"
    and ok: "cmd_ok c" "list_all redir_ok rs" and ts: "ts = [] \<or> starts ts ''|)&;''"
  shows "parses b (parseexec pl b i) (redirs c rs) ts"
proof -
  let ?us = "sy (CHR '')'') # redir_toks rs @ ts"
  note p = peek_starts [OF a, of "''(''"] and g = gettoken_toks [OF a]
  have a1: "at_toks b (i + 2) (show_cmd 0 c @ ?us)" using at_toks_next(1) [OF a refl] by simp
  obtain d j where d: "pl (i + 2) = Inr (d, j)" "rel_cmd (word_at b) d c" "at_toks b j ?us"
    using line_rightD [OF pl _ a1 _ ok(1)] by auto
  note p3 = peek_starts [OF d(3), of "'')''"] and g3 = gettoken_toks [OF d(3)]
  have a3: "at_toks b (j + 2) (redir_toks rs @ ts)" using at_toks_next(1) [OF d(3) refl] by simp
  have "parseexec pl b i = parseredirs b d (j + 2)"
    using p g d(1) p3 g3 by (simp add: parseexec_def parseblock_def)
  then show ?thesis using parseredirs_toks [OF a3 ok(2) not_starts_redir [OF ts, THEN conjunct1] d(2)] by simp
qed

lemma parseexec_toks:
  assumes pl: "line_right pl b i" and a: "at_toks b i (show_cmd 3 c @ ts)" and ts: "ts = [] \<or> starts ts ''|)&;''" and ok: "cmd_ok c"
  shows "parses b (parseexec pl b i) c ts"
proof -
  obtain c0 rs where c: "c = redirs c0 rs" "\<not> is_redir c0" "show_cmd 3 c = show_cmd 3 c0 @ redir_toks rs" "cmd_ok c0" "list_all redir_ok rs"
    using show_redirs [of c] ok by blast
  show ?thesis
  proof (cases "\<exists>ws. c0 = ExecCmd ws")
    case True
    then obtain ws where "c0 = ExecCmd ws" by blast
    then show ?thesis using parse_words [of b i ws rs ts pl] a c ts by simp
  next
    case False
    then have "show_cmd 3 c0 = sy (CHR ''('') # show_cmd 0 c0 @ [sy (CHR '')'')]"
      using c(2) by (cases c0) (auto simp: paren_def is_redir_def)
    then show ?thesis using parse_block [OF pl _ c(4,5) ts] a c(1,3) by simp
  qed
qed

lemma sep_toks_length: "sep_toks ts b \<Longrightarrow> length b = length (render ts)"
  by (induction ts arbitrary: b) auto

lemma at_toks_le: "at_toks b i (xs @ us) \<Longrightarrow> at_toks b j us \<Longrightarrow> i \<le> j"
proof -
  assume a: "at_toks b i (xs @ us)" "at_toks b j us"
  then have "length (drop i b) = length (render (xs @ us))" "length (drop j b) = length (render us)" "i \<le> length b" "j \<le> length b"
    by (auto simp: at_toks_def sep_toks_length simp del: length_drop)
  then show ?thesis by (simp add: render_def)
qed

lemma at_toks_less: "at_toks b j us \<Longrightarrow> i < j \<Longrightarrow> length b - i < Suc n \<Longrightarrow> length b - j < n"
  by (auto simp: at_toks_def)

lemma line_right_mono: "line_right pl b i \<Longrightarrow> i \<le> j \<Longrightarrow> line_right pl b j"
  unfolding line_right_def using le_less_trans by blast

lemma parsepipe_toks:
  "line_right pl b i \<Longrightarrow> at_toks b i (show_cmd 2 c @ ts) \<Longrightarrow> ts = [] \<or> starts ts '')&;'' \<Longrightarrow> cmd_ok c \<Longrightarrow>
    length b - i < n \<Longrightarrow> parses b (parsepipe pl n b i) c ts"
proof (induction n arbitrary: i c)
  case (Suc n)
  have ts: "ts = [] \<or> starts ts ''|)&;''" "\<not> starts ts ''|''" using Suc.prems(3) by (auto simp: starts_def byte_char_inj)
  show ?case
  proof (cases "\<exists>x y. c = PipeCmd x y")
    case True
    then obtain x y where c: "c = PipeCmd x y" by blast
    let ?us = "sy (CHR ''|'') # show_cmd 2 y @ ts"
    have a: "at_toks b i (show_cmd 3 x @ ?us)" using Suc.prems(2) by (simp add: c paren_def)
    obtain d j where d: "parseexec pl b i = Inr (d, j)" "rel_cmd (word_at b) d x" "at_toks b j ?us"
      using parseexec_toks [OF Suc.prems(1) a] Suc.prems(4) by (auto simp: c)
    note p = peek_starts [OF d(3), of "''|''"] and g = gettoken_toks [OF d(3)]
    have a2: "at_toks b (j + 2) (show_cmd 2 y @ ts)" using at_toks_next(1) [OF d(3) refl] by simp
    have j: "i < j + 2" "i \<le> j + 2" using at_toks_le [OF a d(3)] by simp_all
    have "parses b (parsepipe pl n b (j + 2)) y ts"
      using Suc.IH [OF line_right_mono [OF Suc.prems(1) j(2)] a2 Suc.prems(3) _ at_toks_less [OF a2 j(1) Suc.prems(5)]] Suc.prems(4)
      by (simp add: c)
    then show ?thesis using d p g by (auto simp: c)
  next
    case False
    then have "show_cmd 2 c = show_cmd 3 c" by (cases c) (auto simp: paren_def)
    then obtain d j where d: "parseexec pl b i = Inr (d, j)" "rel_cmd (word_at b) d c" "at_toks b j ts"
      using parseexec_toks [OF Suc.prems(1) _ ts(1) Suc.prems(4)] Suc.prems(2) by auto
    then show ?thesis using peek_starts [OF d(3), of "''|''"] ts(2) by auto
  qed
qed simp

lemma show_no_back:
  "\<forall>x. c \<noteq> BackCmd x \<Longrightarrow> \<exists>p m. c = (BackCmd ^^ m) p \<and> show_cmd 1 c = show_cmd 2 p @ replicate m (sy (CHR ''&'')) \<and> (cmd_ok c \<longrightarrow> cmd_ok p)"
  by (intro exI [of _ c] exI [of _ 0], cases c) (auto simp: paren_def)

lemma show_backs:
  "\<exists>p m. c = (BackCmd ^^ m) p \<and> show_cmd 1 c = show_cmd 2 p @ replicate m (sy (CHR ''&'')) \<and> (cmd_ok c \<longrightarrow> cmd_ok p)"
proof (induction c)
  case (BackCmd c)
  then obtain p m where "c = (BackCmd ^^ m) p" "show_cmd 1 c = show_cmd 2 p @ replicate m (sy (CHR ''&''))" "cmd_ok c \<longrightarrow> cmd_ok p"
    by blast
  then show ?case by (intro exI [of _ p] exI [of _ "Suc m"]) (simp add: paren_def replicate_append_same)
qed (rule show_no_back, simp)+

lemma back_loop_toks:
  "at_toks b i (replicate m (sy (CHR ''&'')) @ ts) \<Longrightarrow> \<not> starts ts ''&'' \<Longrightarrow>
    \<exists>j. back_loop b c i = ((BackCmd ^^ m) c, j) \<and> at_toks b j ts"
proof (induction m arbitrary: i c)
  case 0
  then show ?case using peek_starts [of b i ts "''&''"] by (simp add: back_loop.simps [of b c i])
next
  case (Suc m)
  have a: "at_toks b i (sy (CHR ''&'') # replicate m (sy (CHR ''&'')) @ ts)" using Suc.prems(1) by simp
  have a2: "at_toks b (i + 2) (replicate m (sy (CHR ''&'')) @ ts)" using at_toks_next(1) [OF a refl] by simp
  have "back_loop b c i = back_loop b (BackCmd c) (i + 2)"
    using peek_starts [OF a, of "''&''"] gettoken_toks [OF a] by (simp add: back_loop.simps [of b c i])
  then show ?case using Suc.IH [OF a2 Suc.prems(2), of "BackCmd c"] by (simp add: funpow_swap1)
qed

lemma rel_backs: "rel_cmd R x y \<Longrightarrow> rel_cmd R ((BackCmd ^^ m) x) ((BackCmd ^^ m) y)"
  by (induction m) auto

lemma parse_backs:
  assumes pl: "line_right pl b i" and a: "at_toks b i (show_cmd 1 c @ ts)" and ts: "ts = [] \<or> starts ts '');''" and ok: "cmd_ok c"
    and n: "length b - i < n"
  shows "\<exists>d s d' j. parsepipe pl n b i = Inr (d, s) \<and> back_loop b d s = (d', j) \<and> rel_cmd (word_at b) d' c \<and> at_toks b j ts"
proof -
  obtain p m where c: "c = (BackCmd ^^ m) p" "show_cmd 1 c = show_cmd 2 p @ replicate m (sy (CHR ''&''))" "cmd_ok p"
    using show_backs [of c] ok by blast
  let ?us = "replicate m (sy (CHR ''&'')) @ ts"
  have "?us = [] \<or> starts ?us '')&;''" using ts by (cases m) (auto simp: starts_def byte_char_inj sy_def)
  moreover have "at_toks b i (show_cmd 2 p @ ?us)" using a c(2) by simp
  ultimately obtain d s where d: "parsepipe pl n b i = Inr (d, s)" "rel_cmd (word_at b) d p" "at_toks b s ?us"
    using parsepipe_toks [OF pl _ _ c(3) n] by blast
  have "\<not> starts ts ''&''" using ts by (auto simp: starts_def byte_char_inj)
  from back_loop_toks [OF d(3) this, of d] show ?thesis using d(1) rel_backs [OF d(2), of m] c(1) by auto
qed

lemma parseline_toks:
  "at_toks b i (show_cmd 0 c @ ts) \<Longrightarrow> ts = [] \<or> starts ts '')'' \<Longrightarrow> cmd_ok c \<Longrightarrow> length b - i < n \<Longrightarrow>
    parses b (parseline n b i) c ts"
proof (induction n arbitrary: i c ts)
  case (Suc n)
  have pl: "line_right (parseline n b) b i"
    unfolding line_right_def using Suc.IH at_toks_less [OF _ _ Suc.prems(4)] by blast
  show ?case
  proof (cases "\<exists>x y. c = ListCmd x y")
    case True
    then obtain x y where c: "c = ListCmd x y" by blast
    let ?us = "sy (CHR '';'') # show_cmd 0 y @ ts"
    have a: "at_toks b i (show_cmd 1 x @ ?us)" "cmd_ok x" "cmd_ok y" using Suc.prems(1,3) by (simp_all add: c paren_def)
    obtain d s d' j where d: "parsepipe (parseline n b) (Suc n) b i = Inr (d, s)" "back_loop b d s = (d', j)"
      "rel_cmd (word_at b) d' x" "at_toks b j ?us"
      using parse_backs [OF pl a(1) _ a(2) Suc.prems(4)] by auto
    have a2: "at_toks b (j + 2) (show_cmd 0 y @ ts)" using at_toks_next(1) [OF d(4) refl] by simp
    have j: "i < j + 2" using at_toks_le [OF a(1) d(4)] by simp
    have "parses b (parseline n b (j + 2)) y ts"
      by (rule Suc.IH [OF a2 Suc.prems(2) a(3) at_toks_less [OF a2 j Suc.prems(4)]])
    then show ?thesis using d peek_starts [OF d(4), of "'';''"] gettoken_toks [OF d(4)]
      by (auto simp: c simp del: parsepipe.simps)
  next
    case False
    then have "show_cmd 0 c = show_cmd 1 c" by (cases c) (auto simp: paren_def)
    then have a: "at_toks b i (show_cmd 1 c @ ts)" using Suc.prems(1) by simp
    have ts: "ts = [] \<or> starts ts '');''" "\<not> starts ts '';''" using Suc.prems(2) by (auto simp: starts_def byte_char_inj)
    obtain d s d' j where d: "parsepipe (parseline n b) (Suc n) b i = Inr (d, s)" "back_loop b d s = (d', j)"
      "rel_cmd (word_at b) d' c" "at_toks b j ts"
      using parse_backs [OF pl a ts(1) Suc.prems(3,4)] by auto
    then show ?thesis using peek_starts [OF d(4), of "'';''"] ts(2) by (auto simp del: parsepipe.simps)
  qed
qed simp

section \<open>The strings after \<open>nulterminate\<close>\<close>

definition ends :: "ptrs cmd \<Rightarrow> nat set" where
  "ends c = snd ` set_cmd c"

lemma zero_fold: "length (fold (\<lambda>(q, e) b. b[e := 0]) ws b) = length b \<and>
    (k < length b \<longrightarrow> fold (\<lambda>(q, e) b. b[e := (0 :: byte)]) ws b ! k = (if k \<in> snd ` set ws then 0 else b ! k))"
proof (induction ws arbitrary: b)
  case (Cons x ws)
  obtain q e where "x = (q, e)" by (cases x)
  then show ?case using Cons.IH [of "b[e := 0]"] by (simp add: nth_list_update)
qed simp

lemma ends_simps [simp]:
  "ends (ExecCmd ws) = snd ` set ws" "ends (RedirCmd c f m fd) = insert (snd f) (ends c)"
  "ends (PipeCmd c d) = ends c \<union> ends d" "ends (ListCmd c d) = ends c \<union> ends d" "ends (BackCmd c) = ends c"
  by (auto simp: ends_def)

lemma nulterminate_nth:
  "length (nulterminate c b) = length b \<and> (k < length b \<longrightarrow> nulterminate c b ! k = (if k \<in> ends c then 0 else b ! k))"
proof (induction c arbitrary: b)
  case (RedirCmd c f m fd)
  then show ?case by (cases "snd f = k") simp_all
qed (simp_all add: zero_fold)

text \<open>The C string at a pointer.\<close>

definition string_at :: "byte list \<Rightarrow> nat \<Rightarrow> byte list" where
  "string_at b q = takeWhile (\<lambda>x. x \<noteq> 0) (drop q b)"

lemma word_at_nth:
  assumes "word_at b (q, e) w"
  shows "e < length b" "b ! e \<in> set whitespace" "k < length w \<Longrightarrow> b ! (q + k) = w ! k" "k < length w \<Longrightarrow> w ! k \<notin> set whitespace \<and> w ! k \<noteq> 0"
proof -
  obtain v r where d: "word_ok w" "e = q + length w" "drop q b = w @ v # r" "v \<in> set whitespace" using assms by auto
  have l: "length b = q + length w + 1 + length r" using arg_cong [OF d(3), of length] d(1) by (cases "q \<le> length b") (auto simp: word_ok_def)
  then show "e < length b" using d(2) by simp
  have n: "b ! (q + k) = (w @ v # r) ! k" if "k \<le> length w" for k using that l d(3) [symmetric] by simp
  show "b ! e \<in> set whitespace" using n [of "length w"] d(2,4) by simp
  show "k < length w \<Longrightarrow> b ! (q + k) = w ! k" using n [of k] by (simp add: nth_append)
  show "k < length w \<Longrightarrow> w ! k \<notin> set whitespace \<and> w ! k \<noteq> 0" using d(1) nth_mem [of k w] by (auto simp: word_ok_def)
qed

lemma string_at_word:
  assumes w: "word_at b (q, e) w" and e: "e \<in> ends c" and all: "\<forall>x\<in>ends c. x < length b \<and> b ! x \<in> set whitespace"
  shows "string_at (nulterminate c b) q = w"
proof -
  note n = nulterminate_nth [of c b] and v = word_at_nth [OF w]
  let ?b = "nulterminate c b"
  have eq: "e = q + length w" using w by simp
  have "take (length w) (drop q ?b) = w"
  proof (rule nth_equalityI)
    show "length (take (length w) (drop q ?b)) = length w" using n v(1) eq by simp
    fix k
    assume "k < length (take (length w) (drop q ?b))"
    then have k: "k < length w" by simp
    have "q + k \<notin> ends c" using all v(3,4) [OF k] by force
    then show "take (length w) (drop q ?b) ! k = w ! k" using n [of "q + k"] v(3) [OF k] k v(1) eq by simp
  qed
  moreover have "drop q ?b ! length w = 0" "length w < length (drop q ?b)" using n [of e] e v(1) eq by simp_all
  ultimately have "drop q ?b = w @ 0 # drop (Suc (length w)) (drop q ?b)"
    by (metis id_take_nth_drop)
  moreover have "\<forall>x\<in>set w. x \<noteq> 0" using w by (simp add: word_ok_def)
  then have "takeWhile (\<lambda>x. x \<noteq> 0) (w @ 0 # r) = w" for r by (subst takeWhile_append2) auto
  ultimately show ?thesis unfolding string_at_def by metis
qed

lemma nulterminate_words:
  assumes "rel_cmd (word_at b) c' c"
  shows "map_cmd (\<lambda>(q, e). string_at (nulterminate c' b) q) c' = c"
proof -
  obtain z where z: "set_cmd z \<subseteq> {(x, w). word_at b x w}" "map_cmd fst z = c'" "map_cmd snd z = c"
    using assms unfolding cmd.in_rel by blast
  have e: "ends c' = (\<lambda>p. snd (fst p)) ` set_cmd z" unfolding ends_def z(2) [symmetric] cmd.set_map image_image ..
  have all: "\<forall>x\<in>ends c'. x < length b \<and> b ! x \<in> set whitespace"
  proof
    fix x
    assume "x \<in> ends c'"
    then obtain q w where "((q, x), w) \<in> set_cmd z" unfolding e by auto
    then have "word_at b (q, x) w" using z(1) by blast
    then show "x < length b \<and> b ! x \<in> set whitespace" using word_at_nth(1,2) by blast
  qed
  have "map_cmd (\<lambda>(q, e). string_at (nulterminate c' b) q) c' = map_cmd (\<lambda>p. string_at (nulterminate c' b) (fst (fst p))) z"
    unfolding z(2) [symmetric] cmd.map_comp by (simp add: comp_def case_prod_beta)
  also have "\<dots> = map_cmd snd z"
  proof (rule cmd.map_cong [OF refl])
    fix p
    assume p: "p \<in> set_cmd z"
    obtain q x w where pq: "p = ((q, x), w)" by (cases p) auto
    have "word_at b (q, x) w" "x \<in> ends c'" using z(1) p pq unfolding e by (auto intro: rev_image_eqI)
    from string_at_word [OF this all] show "string_at (nulterminate c' b) (fst (fst p)) = snd p" by (simp add: pq)
  qed
  finally show ?thesis using z(3) by simp
qed

section \<open>The round trip\<close>

lemma tok_ok_sy: "c \<in> set ''|();&<>'' \<Longrightarrow> tok_ok (sy c)"
  by (auto simp: tok_ok_def)

lemma show_toks_ok: "cmd_ok c \<Longrightarrow> list_all tok_ok (show_cmd k c)"
proof (induction c arbitrary: k)
  case (ExecCmd ws)
  then show ?case by (auto simp: list_all_iff tok_ok_def)
qed (auto simp: paren_def redir_sym_def tok_ok_sy tok_ok_def [of f for f])

lemma parsed_back:
  assumes "cmd_ok c" and b: "sep_toks (show_cmd 0 c) b"
  shows "\<exists>c' b'. parsecmd b = Inr (c', b') \<and> map_cmd (\<lambda>(q, e). string_at b' q) c' = c"
proof -
  have "at_toks b 0 (show_cmd 0 c @ [])" using show_toks_ok [OF assms(1), of 0] b by (simp add: at_toks_def)
  from parseline_toks [OF this _ assms(1), of "length b + 1"] obtain d j where
    d: "parseline (length b + 1) b 0 = Inr (d, j)" "rel_cmd (word_at b) d c" "at_toks b j []"
    by auto
  have "parsecmd b = Inr (d, nulterminate d b)"
    using d(1) peek_starts [OF d(3), of "[]"] at_toks_Nil [OF d(3)] by (simp add: parsecmd_def del: parseline.simps)
  then show ?thesis using nulterminate_words [OF d(2)] by blast
qed

lemma sep_render: "sep_toks ts (render ts)"
  by (induction ts) (auto simp: whitespace_def)

text \<open>The same tokens with the newline that ends a line typed by a user.\<close>

definition line_text :: "byte list list \<Rightarrow> byte list" where
  "line_text ts = butlast (render ts) @ [10]"

lemma sep_line: "ts \<noteq> [] \<Longrightarrow> sep_toks ts (line_text ts)"
proof (induction ts)
  case (Cons t ts)
  show ?case
  proof (cases ts)
    case Nil
    then show ?thesis by (simp add: line_text_def whitespace_def)
  next
    case (Cons u us)
    then have "line_text (t # ts) = t @ 32 # line_text ts" by (auto simp: line_text_def butlast_append)
    then show ?thesis using Cons.IH Cons by (auto simp: whitespace_def)
  qed
qed simp

text \<open>
  C33: Parsing a printed command gives the command back.  For every tree of commands whose words the
  lexer takes as words, with fewer than \<open>MAXARGS\<close> arguments per command, \<open>parsecmd\<close> of its text returns
  a tree in which the C strings in the line, as \<open>nulterminate\<close> left it, are the words of the original,
  in the same places.
\<close>

theorem parse_show:
  assumes "cmd_ok c"
  shows "\<exists>c' b'. parsecmd (render (show_cmd 0 c)) = Inr (c', b') \<and> map_cmd (\<lambda>(q, e). string_at b' q) c' = c"
  by (rule parsed_back [OF assms sep_render])

theorem parse_show_witness:
  "let c = ListCmd (BackCmd (PipeCmd (RedirCmd (ExecCmd [[99, 97, 116]]) [102] O_RDONLY 0) (ExecCmd [[119, 99], [45, 108]]))) (ExecCmd [[108, 115]])
   in \<exists>c' b'. parsecmd (render (show_cmd 0 c)) = Inr (c', b') \<and> map_cmd (\<lambda>(q, e). string_at b' q) c' = c"
  unfolding Let_def by (rule parse_show) (simp add: word_ok_def whitespace_def symbols_def MAXARGS_def)

end
