(* ===== verification/Sh_Run.thy ===== *)
theory Sh_Run
  imports Sh_Roundtrip
begin

text \<open>
  How the shell runs a command: \<open>runcmd\<close>, \<open>getcmd\<close>, \<open>fork1\<close>, \<open>panic\<close> and \<open>main\<close> of user/sh.c.  A process of the
  shell is the tree of the system calls it makes, with a branch for each answer of the kernel; a fork has
  the tree of the child as well.  The trees are then run on the descriptors of the processes.
\<close>

section \<open>Processes\<close>
















section \<open>Descriptors\<close>

datatype obj = Inherited int | File_Obj "byte list" int | Read_End nat | Write_End nat

type_synonym fdtab = "int \<Rightarrow> obj option"










definition std :: "fdtab \<Rightarrow> bool" where
  "std t \<longleftrightarrow> (\<forall>fd. t fd = None \<longleftrightarrow> fd \<notin> {0, 1, 2})"


lemma std_upd [simp]: "std t \<Longrightarrow> fd \<in> {0, 1, 2} \<Longrightarrow> std (t(fd \<mapsto> ob))"
  by (auto simp: std_def)




section \<open>Running a command\<close>







section \<open>The lines the shell reads\<close>












end
