(* ===== verification/Console_Edit.thy ===== *)
theory Console_Edit
  imports Console Proc_Calm Proc_Theorems Ring
begin

text \<open>
  The input of a console as a line editor.  The ring of kernel/console.c holds the finished input,
  which \<open>consoleread\<close> takes from the front, and after it the line being typed, which erases at its
  end; together at most 128 characters.
\<close>

section \<open>The two queues of a console\<close>

interpretation cons_ring: ring INPUT_BUF
  by unfold_locales (simp_all add: INPUT_BUF_def)

definition cons_input :: "cons_t \<Rightarrow> byte list" where
  "cons_input c = ring_list INPUT_BUF (c_buf c) (c_r c) (c_w c)"

definition cons_line :: "cons_t \<Rightarrow> byte list" where
  "cons_line c = ring_list INPUT_BUF (c_buf c) (c_w c) (c_e c)"

definition cons_ok :: "cons_t \<Rightarrow> bool" where
  "cons_ok c \<longleftrightarrow> length (cons_input c) + length (cons_line c) \<le> INPUT_BUF \<and> 10 \<notin> set (cons_line c)"

text \<open>The editor: what a character does to the finished input and the line, and what is echoed.\<close>

definition typed :: "int \<Rightarrow> byte" where
  "typed ch = word_of_int (if ch = 13 then 10 else ch)"

definition edit :: "int \<Rightarrow> byte list \<Rightarrow> byte list \<Rightarrow> byte list \<times> byte list" where
  "edit ch inp line =
     (if ch = Ctl CHR ''U'' then (inp, [])
      else if ch = Ctl CHR ''H'' \<or> ch = 127 then (inp, butlast line)
      else if ch = 0 \<or> INPUT_BUF \<le> length inp + length line then (inp, line)
      else let l = line @ [typed ch] in
        if typed ch = 10 \<or> typed ch = 4 \<or> length inp + length l = INPUT_BUF then (inp @ l, []) else (inp, l))"

definition erase :: "byte list" where
  "erase = [8, 32, 8]"

definition echo :: "int \<Rightarrow> byte list \<Rightarrow> byte list \<Rightarrow> byte list" where
  "echo ch inp line =
     (if ch = Ctl CHR ''U'' then concat (replicate (length line) erase)
      else if ch = Ctl CHR ''H'' \<or> ch = 127 then (if line = [] then [] else erase)
      else if ch = 0 \<or> INPUT_BUF \<le> length inp + length line then []
      else [typed ch])"

section \<open>The ring under editing\<close>

lemma cons_span: "cons_ok c \<Longrightarrow> unat (c_e c - c_r c) = length (cons_input c) + length (cons_line c)"
  using cons_ring.unat_span [of "c_w c" "c_r c" "c_e c"] by (simp add: cons_ok_def cons_input_def cons_line_def)

lemma kill_line_all: "10 \<notin> set (cons_line c) \<Longrightarrow> kill_line c = Some (c\<lparr>c_e := c_w c\<rparr>, length (cons_line c))"
proof (induction "length (cons_line c)" arbitrary: c)
  case 0
  then have "cons_line c = []" by simp
  then have "c_w c = c_e c" by (simp add: cons_line_def)
  then show ?case using 0 by (subst kill_line.simps) (simp add: cons_line_def)
next
  case (Suc n)
  have ne: "c_w c \<noteq> c_e c" using Suc.hyps(2) by (auto simp: cons_line_def)
  let ?d = "c\<lparr>c_e := c_e c - 1\<rparr>"
  have b: "cons_line c = cons_line ?d @ [c_buf c (unat (c_e c - 1) mod INPUT_BUF)]"
    using cons_ring.ring_back [OF ne, of "c_buf c"] by (simp add: cons_line_def)
  then have "kill_line ?d = Some (?d\<lparr>c_e := c_w ?d\<rparr>, length (cons_line ?d))" using Suc by simp
  moreover have "c_buf c (unat (c_e c - 1) mod INPUT_BUF) \<noteq> 10" using Suc.prems b by auto
  ultimately show ?case using ne b by (subst kill_line.simps) simp
qed

lemma cons_back:
  assumes "cons_ok c" "c_w c \<noteq> c_e c" "d = c\<lparr>c_e := c_e c - 1\<rparr>"
  shows "cons_ok d \<and> cons_input d = cons_input c \<and> cons_line d = butlast (cons_line c)"
proof -
  have "cons_line c = cons_line d @ [c_buf c (unat (c_e c - 1) mod INPUT_BUF)]"
    using cons_ring.ring_back [OF assms(2), of "c_buf c"] by (simp add: cons_line_def assms(3))
  moreover have "cons_input d = cons_input c" by (simp add: cons_input_def assms(3))
  ultimately show ?thesis using assms(1) by (simp add: cons_ok_def)
qed

lemma cons_put:
  assumes "cons_ok c" "length (cons_input c) + length (cons_line c) < INPUT_BUF"
    and "d = c\<lparr>c_buf := (c_buf c)(unat (c_e c) mod INPUT_BUF := b), c_e := c_e c + 1\<rparr>"
  shows "cons_input d = cons_input c" "cons_line d = cons_line c @ [b]"
  using assms cons_ring.ring_put_other [of "c_w c" "c_r c" "c_e c" "c_buf c" b] cons_ring.ring_put [of "c_e c" "c_w c" "c_buf c" b]
  by (simp_all add: cons_input_def cons_line_def)

lemma cons_commit:
  assumes "length (cons_input d) + length (cons_line d) \<le> INPUT_BUF" "e = d\<lparr>c_w := c_e d\<rparr>"
  shows "cons_input e = cons_input d @ cons_line d" "cons_line e = []"
  using assms cons_ring.ring_append [of "c_w d" "c_r d" "c_e d" "c_buf d"] by (simp_all add: cons_input_def cons_line_def)

section \<open>Running the handler\<close>

lemma dev_mach [simp]:
  fixes s :: "'a dev_state_scheme"
  shows "consoles (lock_st l s) = consoles s" "cons (lock_st l s) = cons s" "consoles (settle s) = consoles s" "cons (settle s) = cons s"
  by (simp_all add: lock_st_def push_st_def settle_def)

lemma con_mach [simp]:
  fixes s :: "'a con_state_scheme"
  shows "panicked (lock_st l s) = panicked s" "uart_out (lock_st l s) = uart_out s" "uart_out (settle s) = uart_out s"
  by (simp_all add: lock_st_def push_st_def settle_def)

lemma lock_st_consoles: "(lock_st l s)\<lparr>consoles := f\<rparr> = lock_st l (s\<lparr>consoles := f\<rparr>)"
  and lock_st_uart: "(lock_st l s')\<lparr>uart_out := bs\<rparr> = lock_st l (s'\<lparr>uart_out := bs\<rparr>)"
  by (simp_all add: lock_st_def push_st_def)

lemma dev_updates [simp]:
  fixes s :: "'a dev_state_scheme"
  shows "s\<lparr>consoles := f, uart_out := bs\<rparr> = s\<lparr>uart_out := bs, consoles := f\<rparr>"
    "s\<lparr>consoles := f, ptable := tab\<rparr> = s\<lparr>ptable := tab, consoles := f\<rparr>"
    "s\<lparr>uart_out := bs, ptable := tab\<rparr> = s\<lparr>ptable := tab, uart_out := bs\<rparr>"
  by (cases s, simp)+

lemma consputc_run:
  assumes "\<not> panicked s"
  shows "c \<noteq> BACKSPACE \<Longrightarrow> consputc c (lock_st l s) = Inr ((), lock_st l (s\<lparr>uart_out := uart_out s @ [word_of_int c]\<rparr>))"
    and "consputc BACKSPACE (lock_st l s) = Inr ((), lock_st l (s\<lparr>uart_out := uart_out s @ erase\<rparr>))"
  using assms by (simp_all add: consputc_def uartputc_def monad_simps erase_def lock_st_uart BACKSPACE_def)

lemma erase_loop:
  "\<not> panicked s \<Longrightarrow> forM xs (\<lambda>_. consputc BACKSPACE) (lock_st l s) =
    Inr ((), lock_st l (s\<lparr>uart_out := uart_out s @ concat (replicate (length xs) erase)\<rparr>))"
  by (induction xs arbitrary: s) (simp_all add: thenM_run consputc_run ret_apply)

lemma cons_run:
  assumes "0 \<le> i" "i < NBCONSOLES"
  shows "get_cons i (lock_st l s) = Inr (consoles s i, lock_st l s)"
    and "upd_cons i f (lock_st l s) = Inr ((), lock_st l (s\<lparr>consoles := (consoles s)(i := f (consoles s i))\<rparr>))"
  using assms by (simp_all add: get_cons_def upd_cons_def gets_apply modify_apply lock_st_consoles)

text \<open>A hart that holds no lock, in a machine where no process's lock is held.\<close>

definition quiet :: "'a mach_scheme \<Rightarrow> bool" where
  "quiet s \<longleftrightarrow> hart_ok s \<and> (\<forall>q<NPROC. lock_free (ProcLock q) s)"

lemma consoleintr_keystroke:
  assumes "ch \<notin> {Ctl CHR ''P'', Ctl CHR ''Q'', Ctl CHR ''L'', Ctl CHR ''S''}"
  shows "consoleintr dl ch = bindM (gets cons) (\<lambda>i. thenM (acquire (ConsLock i)) (thenM (keystroke i ch) (bindM (gets cons) (\<lambda>i. release (ConsLock i)))))"
  using assms unfolding consoleintr_def by simp

text \<open>What a keystroke leaves: a state that differs in one console, the echo and the readers woken.\<close>

definition edited :: "int \<Rightarrow> int \<Rightarrow> 'a dev_state_scheme \<Rightarrow> 'a dev_state_scheme \<Rightarrow> bool" where
  "edited i ch s t \<longleftrightarrow> (\<exists>c. let old = consoles s i in
     cons_ok c \<and> (cons_input c, cons_line c) = edit ch (cons_input old) (cons_line old) \<and>
     t = s\<lparr>ptable := (if cons_input c \<noteq> cons_input old then woken (ConsRead i) (ptable s) else ptable s),
           uart_out := uart_out s @ echo ch (cons_input old) (cons_line old), consoles := (consoles s)(i := c)\<rparr>)"

lemma editedI:
  assumes "cons_ok c" "(cons_input c, cons_line c) = edit ch (cons_input (consoles s i)) (cons_line (consoles s i))"
    "bs = uart_out s @ echo ch (cons_input (consoles s i)) (cons_line (consoles s i))"
  shows "cons_input c = cons_input (consoles s i) \<Longrightarrow> edited i ch s (s\<lparr>uart_out := bs, consoles := (consoles s)(i := c)\<rparr>)"
    and "cons_input c \<noteq> cons_input (consoles s i) \<Longrightarrow>
      edited i ch s (s\<lparr>ptable := woken (ConsRead i) (ptable s), uart_out := bs, consoles := (consoles s)(i := c)\<rparr>)"
  using assms unfolding edited_def Let_def by (auto intro!: exI [of _ c])

lemma keystroke_kill:
  assumes i: "0 \<le> i" "i < NBCONSOLES" and s: "\<not> panicked s" "cons_ok (consoles s i)" and ch: "ch = Ctl CHR ''U''"
  shows "\<exists>t. keystroke i ch (lock_st l s) = Inr ((), lock_st l t) \<and> edited i ch s t"
proof -
  let ?c = "consoles s i"
  let ?d = "?c\<lparr>c_e := c_w ?c\<rparr>"
  have k: "kill_line ?c = Some (?d, length (cons_line ?c))" using s(2) kill_line_all by (simp add: cons_ok_def)
  have same: "cons_input ?d = cons_input ?c" "cons_line ?d = []" by (simp_all add: cons_input_def cons_line_def)
  have ok: "cons_ok ?d" "(cons_input ?d, cons_line ?d) = edit ch (cons_input ?c) (cons_line ?c)"
    using s(2) ch same by (simp_all add: cons_ok_def edit_def)
  have "keystroke i ch (lock_st l s) = Inr ((), lock_st l (s\<lparr>uart_out := uart_out s @ echo ch (cons_input ?c) (cons_line ?c), consoles := (consoles s)(i := ?d)\<rparr>))"
    using s(1) ch by (simp add: keystroke_def bindM_run thenM_run cons_run [OF i] k erase_loop echo_def)
  then show ?thesis using editedI(1) [OF ok refl same(1)] by blast
qed

lemma keystroke_back:
  assumes i: "0 \<le> i" "i < NBCONSOLES" and s: "\<not> panicked s" "cons_ok (consoles s i)" and ch: "ch = Ctl CHR ''H'' \<or> ch = 127"
  shows "\<exists>t. keystroke i ch (lock_st l s) = Inr ((), lock_st l t) \<and> edited i ch s t"
proof -
  let ?c = "consoles s i"
  have u: "ch \<noteq> Ctl CHR ''U''" using ch by (auto simp: Ctl_def)
  have line: "cons_line ?c = [] \<longleftrightarrow> c_w ?c = c_e ?c" by (simp add: cons_line_def)
  show ?thesis
  proof (cases "c_w ?c = c_e ?c")
    case True
    then have "keystroke i ch (lock_st l s) = Inr ((), lock_st l s)"
      using ch u by (auto simp: keystroke_def bindM_run cons_run [OF i] whenM_def ret_apply)
    moreover have "edited i ch s (s\<lparr>uart_out := uart_out s, consoles := (consoles s)(i := ?c)\<rparr>)"
      by (rule editedI(1)) (use s(2) ch u line True in \<open>auto simp: edit_def echo_def\<close>)
    ultimately show ?thesis by auto
  next
    case False
    let ?d = "?c\<lparr>c_e := c_e ?c - 1\<rparr>"
    note d = cons_back [OF s(2) False refl]
    have "keystroke i ch (lock_st l s) = Inr ((), lock_st l (s\<lparr>uart_out := uart_out s @ erase, consoles := (consoles s)(i := ?d)\<rparr>))"
      using ch u False s(1) by (auto simp: keystroke_def bindM_run thenM_run cons_run [OF i] whenM_def consputc_run(2))
    moreover have "edited i ch s (s\<lparr>uart_out := uart_out s @ erase, consoles := (consoles s)(i := ?d)\<rparr>)"
      by (rule editedI(1)) (use d ch u line False in \<open>auto simp: edit_def echo_def\<close>)
    ultimately show ?thesis by blast
  qed
qed

lemma typed_int: "0 \<le> ch \<Longrightarrow> ch < 256 \<Longrightarrow> 0 \<le> k \<Longrightarrow> k < 256 \<Longrightarrow> typed ch = word_of_int k \<longleftrightarrow> (if ch = 13 then 10 else ch) = k"
proof -
  assume a: "0 \<le> ch" "ch < 256" "0 \<le> k" "k < 256"
  have h: "word_of_int x = (word_of_int k :: byte) \<longleftrightarrow> x = k" if "0 \<le> x" "x < 256" for x :: int
    using a(3,4) that by (auto simp: word_of_int_eq_iff take_bit_eq_mod)
  have x: "0 \<le> (if ch = 13 then 10 else ch)" "(if ch = 13 then 10 else ch) < 256" using a by simp_all
  show ?thesis unfolding typed_def by (rule h [OF x])
qed

lemma cons_total:
  assumes "length (cons_input d) + length (cons_line d) \<le> INPUT_BUF"
  shows "c_e d - c_r d < of_nat INPUT_BUF \<longleftrightarrow> length (cons_input d) + length (cons_line d) < INPUT_BUF"
    and "c_e d = c_r d + of_nat INPUT_BUF \<longleftrightarrow> length (cons_input d) + length (cons_line d) = INPUT_BUF"
proof -
  have u: "unat (c_e d - c_r d) = length (cons_input d) + length (cons_line d)"
    using cons_ring.unat_span [of "c_w d" "c_r d" "c_e d"] assms by (simp add: cons_input_def cons_line_def)
  then show "c_e d - c_r d < of_nat INPUT_BUF \<longleftrightarrow> length (cons_input d) + length (cons_line d) < INPUT_BUF"
    by (simp add: word_less_nat_alt INPUT_BUF_def)
  have "c_e d = c_r d + of_nat INPUT_BUF \<longleftrightarrow> c_e d - c_r d = 128" by (auto simp: INPUT_BUF_def diff_eq_eq add.commute)
  also have "\<dots> \<longleftrightarrow> unat (c_e d - c_r d) = 128" by (simp add: word_unat_eq_iff)
  finally show "c_e d = c_r d + of_nat INPUT_BUF \<longleftrightarrow> length (cons_input d) + length (cons_line d) = INPUT_BUF"
    using u by (simp add: INPUT_BUF_def)
qed

lemma keystroke_store:
  assumes i: "0 \<le> i" "i < NBCONSOLES" and s: "\<not> panicked s" "cons_ok (consoles s i)" "quiet s" and l: "\<forall>q. l \<noteq> ProcLock q"
    and ch: "0 \<le> ch" "ch < 256" "ch \<noteq> Ctl CHR ''U''" "ch \<noteq> Ctl CHR ''H''" "ch \<noteq> 127"
  shows "\<exists>t. keystroke i ch (lock_st l s) = Inr ((), lock_st l t) \<and> edited i ch s t"
proof -
  define x where "x = (if ch = 13 then 10 else ch)"
  let ?c = "consoles s i"
  let ?n = "length (cons_input ?c) + length (cons_line ?c)"
  have n: "?n \<le> INPUT_BUF" using s(2) by (simp add: cons_ok_def)
  show ?thesis
  proof (cases "ch \<noteq> 0 \<and> ?n < INPUT_BUF")
    case False
    then have "keystroke i ch (lock_st l s) = Inr ((), lock_st l s)"
      using ch cons_total(1) [OF n] by (auto simp: keystroke_def bindM_run cons_run [OF i] whenM_def ret_apply)
    moreover have "edited i ch s (s\<lparr>uart_out := uart_out s, consoles := (consoles s)(i := ?c)\<rparr>)"
      by (rule editedI(1)) (use s(2) ch False in \<open>auto simp: edit_def echo_def\<close>)
    ultimately show ?thesis by auto
  next
    case True
    let ?d = "?c\<lparr>c_buf := (c_buf ?c)(unat (c_e ?c) mod INPUT_BUF := word_of_int x), c_e := c_e ?c + 1\<rparr>"
    let ?u = "s\<lparr>uart_out := uart_out s @ [typed ch], consoles := (consoles s)(i := ?d)\<rparr>"
    have ty: "typed ch = word_of_int x" by (simp add: typed_def x_def)
    have d: "cons_input ?d = cons_input ?c" "cons_line ?d = cons_line ?c @ [typed ch]"
      using cons_put [OF s(2) _ refl, of "word_of_int x"] True ty by auto
    have nd: "length (cons_input ?d) + length (cons_line ?d) \<le> INPUT_BUF" using d True by simp
    let ?done = "x = 10 \<or> x = Ctl CHR ''D'' \<or> c_e ?d = c_r ?d + of_nat INPUT_BUF"
    have done_iff: "?done \<longleftrightarrow> typed ch = 10 \<or> typed ch = 4 \<or> length (cons_input ?c) + length (cons_line ?c @ [typed ch]) = INPUT_BUF"
      using typed_int [OF ch(1,2), of 10] typed_int [OF ch(1,2), of 4] cons_total(2) [OF nd] d by (simp add: Ctl_def x_def)
    have e: "edit ch (cons_input ?c) (cons_line ?c) = (if ?done then (cons_input ?c @ cons_line ?c @ [typed ch], []) else (cons_input ?c, cons_line ?c @ [typed ch]))"
      unfolding done_iff using ch True by (simp add: edit_def Let_def)
    have ec: "echo ch (cons_input ?c) (cons_line ?c) = [typed ch]" using ch True by (simp add: echo_def)
    have bs: "x \<noteq> BACKSPACE" using ch(1,2) by (simp add: BACKSPACE_def x_def)
    have k: "keystroke i ch = bindM (get_cons i) (\<lambda>c. whenM (ch \<noteq> 0 \<and> c_e c - c_r c < of_nat INPUT_BUF) (thenM (consputc x)
        (thenM (upd_cons i (\<lambda>c. c\<lparr>c_buf := (c_buf c)(unat (c_e c) mod INPUT_BUF := word_of_int x), c_e := c_e c + 1\<rparr>))
        (bindM (get_cons i) (\<lambda>c. whenM (x = 10 \<or> x = Ctl CHR ''D'' \<or> c_e c = c_r c + of_nat INPUT_BUF)
          (thenM (upd_cons i (\<lambda>c. c\<lparr>c_w := c_e c\<rparr>)) (wakeup (ConsRead i))))))))"
      using ch(3-5) unfolding keystroke_def x_def Let_def by simp
    have run: "keystroke i ch (lock_st l s) = whenM ?done (thenM (upd_cons i (\<lambda>c. c\<lparr>c_w := c_e c\<rparr>)) (wakeup (ConsRead i))) (lock_st l ?u)"
      unfolding k using True cons_total(1) [OF n] consputc_run(1) [OF s(1) bs]
      by (simp add: bindM_run thenM_run cons_run [OF i] whenM_def [of True] ty)
    show ?thesis
    proof (cases ?done)
      case False
      have "10 \<noteq> typed ch" using False done_iff by auto
      then have "cons_ok ?d" using s(2) d nd by (simp add: cons_ok_def)
      then show ?thesis using run False editedI(1) [of ?d ch s i] e ec d by (auto simp: whenM_def ret_apply)
    next
      case True
      let ?e = "?d\<lparr>c_w := c_e ?d\<rparr>"
      note ce = cons_commit [OF nd refl]
      have "cons_ok ?e" using ce nd by (simp add: cons_ok_def)
      moreover have "thenM (upd_cons i (\<lambda>c. c\<lparr>c_w := c_e c\<rparr>)) (wakeup (ConsRead i)) (lock_st l ?u) =
        Inr ((), lock_st l (s\<lparr>ptable := woken (ConsRead i) (ptable s), uart_out := uart_out s @ [typed ch], consoles := (consoles s)(i := ?e)\<rparr>))"
        by (rule thenM_run, rule cons_run(2) [OF i], subst wakeup_locked) (use s(3) l in \<open>simp_all add: quiet_def hart_ok_def lock_free_def\<close>)
      ultimately show ?thesis using run True editedI(2) [of ?e ch s i] e ec d ce by (auto simp: whenM_def)
    qed
  qed
qed

section \<open>A whole interrupt\<close>

definition plain :: "int \<Rightarrow> bool" where
  "plain ch \<longleftrightarrow> 0 \<le> ch \<and> ch < 256 \<and> ch \<notin> {Ctl CHR ''P'', Ctl CHR ''Q'', Ctl CHR ''L'', Ctl CHR ''S''}"

text \<open>The console \<open>i\<close> is shown and its lock is free.\<close>

definition listening :: "int \<Rightarrow> 'a dev_state_scheme \<Rightarrow> bool" where
  "listening i s \<longleftrightarrow> quiet s \<and> lock_free (ConsLock i) s \<and> cons s = i \<and> 0 \<le> i \<and> i < NBCONSOLES \<and> \<not> panicked s"

lemma keystroke_edits:
  assumes "listening i s" "cons_ok (consoles s i)" "plain ch"
  shows "\<exists>t. keystroke i ch (lock_st (ConsLock i) s) = Inr ((), lock_st (ConsLock i) t) \<and> edited i ch s t"
proof -
  consider "ch = Ctl CHR ''U''" | "ch = Ctl CHR ''H'' \<or> ch = 127" | "ch \<noteq> Ctl CHR ''U''" "ch \<noteq> Ctl CHR ''H''" "ch \<noteq> 127" by blast
  then show ?thesis
  proof cases
    case 1
    show ?thesis by (rule keystroke_kill) (use assms 1 in \<open>simp_all add: listening_def\<close>)
  next
    case 2
    show ?thesis by (rule keystroke_back) (use assms 2 in \<open>simp_all add: listening_def\<close>)
  next
    case 3
    show ?thesis by (rule keystroke_store) (use assms 3 in \<open>simp_all add: listening_def plain_def\<close>)
  qed
qed

lemma listening_upd [simp]:
  "listening i (s\<lparr>ptable := tab, uart_out := bs, consoles := f\<rparr>) = listening i s" "listening i (settle s) = listening i s"
  by (simp_all add: listening_def quiet_def hart_ok_def lock_free_def settle_def)

lemma consoleintr_edits:
  assumes "listening i s" "cons_ok (consoles s i)" "plain ch"
  shows "\<exists>t. consoleintr dl ch s = Inr ((), settle t) \<and> edited i ch s t"
proof -
  obtain t where k: "keystroke i ch (lock_st (ConsLock i) s) = Inr ((), lock_st (ConsLock i) t)" and e: "edited i ch s t"
    using keystroke_edits [OF assms] by blast
  have t: "listening i t" using e assms(1) unfolding edited_def Let_def by auto
  then have ti: "cons t = i" by (simp add: listening_def)
  have s: "lock_free (ConsLock i) s" "cons s = i" using assms(1) by (simp_all add: listening_def)
  have r: "release (ConsLock i) (lock_st (ConsLock i) t) = Inr ((), settle t)"
    using t by (simp add: release_lock_st listening_def quiet_def)
  have "consoleintr dl ch s = Inr ((), settle t)"
    by (subst consoleintr_keystroke) (use assms(3) in \<open>simp_all add: plain_def bindM_run thenM_run gets_apply acquire_eq s k ti r\<close>)
  then show ?thesis using e by blast
qed

text \<open>The editor on a sequence of characters: the input, the line and all that is echoed.\<close>

fun typing :: "byte list \<Rightarrow> byte list \<Rightarrow> byte list \<Rightarrow> byte list \<times> byte list \<times> byte list" where
  "typing [] inp line = (inp, line, [])"
| "typing (b # bs) inp line =
     (let (i, l) = edit (uint b) inp line; (i', l', out) = typing bs i l in (i', l', echo (uint b) inp line @ out))"

lemma uartintr_typing:
  assumes "listening i s" "cons_ok (consoles s i)" "\<forall>b\<in>set bs. plain (uint b)"
  shows "\<exists>t. uartintr dl bs s = Inr ((), t) \<and> cons_ok (consoles t i) \<and>
    (\<exists>out. typing bs (cons_input (consoles s i)) (cons_line (consoles s i)) = (cons_input (consoles t i), cons_line (consoles t i), out) \<and>
      uart_out t = uart_out s @ out) \<and> (\<forall>j. j \<noteq> i \<longrightarrow> consoles t j = consoles s j)"
  using assms
proof (induction bs arbitrary: s)
  case Nil
  then show ?case by (simp add: uartintr_def ret_apply)
next
  case (Cons b bs)
  obtain u where u: "consoleintr dl (uint b) s = Inr ((), settle u)" "edited i (uint b) s u"
    using consoleintr_edits Cons.prems by fastforce
  then obtain c where c: "cons_ok c" "(cons_input c, cons_line c) = edit (uint b) (cons_input (consoles s i)) (cons_line (consoles s i))"
    and t: "consoles u = (consoles s)(i := c)" "uart_out u = uart_out s @ echo (uint b) (cons_input (consoles s i)) (cons_line (consoles s i))"
      "listening i u"
    using Cons.prems(1) unfolding edited_def Let_def by auto
  have "\<exists>t. uartintr dl bs (settle u) = Inr ((), t) \<and> cons_ok (consoles t i) \<and>
    (\<exists>out. typing bs (cons_input c) (cons_line c) = (cons_input (consoles t i), cons_line (consoles t i), out) \<and>
      uart_out t = uart_out u @ out) \<and> (\<forall>j. j \<noteq> i \<longrightarrow> consoles t j = consoles s j)"
    using Cons.IH [of "settle u"] Cons.prems(3) t c(1) by simp
  then show ?case using u(1) t(2) c(2) [symmetric] by (auto simp: uartintr_def thenM_run)
qed

text \<open>
  C35: An interrupt of the UART with any characters but the commands of the console (control-P, -Q, -L and
  -S) runs to its end.  The finished input and the line of the console that is shown are then what the
  line editor makes of them character by character, never more than 128 characters together; the terminal
  has received exactly the editor's echo, and no other console has changed.
\<close>

theorem uart_edits:
  assumes "listening i s" "cons_ok (consoles s i)" "\<forall>b\<in>set bs. plain (uint b)"
  shows "\<exists>t out. uartintr dl bs s = Inr ((), t) \<and>
    typing bs (cons_input (consoles s i)) (cons_line (consoles s i)) = (cons_input (consoles t i), cons_line (consoles t i), out) \<and>
    uart_out t = uart_out s @ out \<and> length (cons_input (consoles t i)) + length (cons_line (consoles t i)) \<le> 128 \<and>
    (\<forall>j. j \<noteq> i \<longrightarrow> consoles t j = consoles s j)"
  using uartintr_typing [OF assms, of dl] by (auto simp: cons_ok_def INPUT_BUF_def)

definition console_boot :: dev_state where
  "console_boot = \<lparr>hart = 0, cpus = (\<lambda>_. \<lparr>c_proc = None, noff = 0, intena = False\<rparr>),
     sie = (\<lambda>_. False), lks = (\<lambda>_. \<lparr>locked = False, lk_cpu = None\<rparr>), lktab = [],
     nxt = (\<lambda>_. 0), prv = (\<lambda>_. 0), nsizes = 0, bd_base = 0, bd_sizes_ptr = 0, bd_sizes = [],
     mem = (\<lambda>_. 0), kernel_pagetable = 0, satp = 0, ptable = (\<lambda>_. no_proc), prio = (\<lambda>_. 0), lp_p = (\<lambda>_. 0),
     lp_next = (\<lambda>_. 0), initproc = None, nextpid = 1, pipes = (\<lambda>_. None),
     slks = (\<lambda>_. \<lparr>sl_locked = False, sl_pid = 0\<rparr>), bufs = (\<lambda>_. \<lparr>valid = False, b_disk = False, dev = 0, blockno = 0, refcnt = 0, b_prev = 0, b_next = 0, data = []\<rparr>),
     disk = (\<lambda>_ _. []), vdisks = (\<lambda>_. \<lparr>vdesc = (\<lambda>_. \<lparr>vd_addr = NoAddr, vd_len = 0, vd_flags = 0, vd_next = 0\<rparr>), avail_idx = 0, avail_ring = (\<lambda>_. 0),
       used_id = 0, used_elems = (\<lambda>_. 0), vfree = (\<lambda>_. True), used_idx = 0, info_b = (\<lambda>_. None), info_status = (\<lambda>_. 0), vd_init = False\<rparr>),
     mmio = [], logs = (\<lambda>_. \<lparr>l_start = 2, l_size = 30, outstanding = 0, committing = False, l_dev = 0, lh_n = 0, lh_block = (\<lambda>_. 0)\<rparr>),
     sblk = \<lparr>magic = 0, sb_size = 0, nblocks = 0, ninodes = 0, nlog = 0, logstart = 0, inodestart = 0, bmapstart = 0\<rparr>,
     icache = (\<lambda>_. \<lparr>i_dev = 0, inum = 0, iref = 0, i_valid = False, i_type = 0, i_major = 0, i_minor = 0, i_nlink = 0, i_size = 0, i_addrs = []\<rparr>),
     uart_out = [], panicked = False, pr_locking = True, devsw_read = (\<lambda>_. None), devsw_write = (\<lambda>_. None),
     consoles = (\<lambda>_. \<lparr>c_buf = (\<lambda>_. 0), c_r = 0, c_w = 0, c_e = 0\<rparr>), console_number = 0, cons = 0,
     ticks = 0, watchdog_value = 0, watchdog_time = 0\<rparr>"

theorem uart_edits_witness:
  "\<exists>t. uartintr (ret ()) [104, 106, 8, 105, 13] console_boot = Inr ((), t) \<and> cons_input (consoles t 0) = [104, 105, 10] \<and>
    cons_line (consoles t 0) = [] \<and> uart_out t = [104, 106, 8, 32, 8, 105, 10]"
proof -
  have "listening 0 console_boot" "cons_input (consoles console_boot 0) = []" "cons_line (consoles console_boot 0) = []"
    by (simp_all add: console_boot_def listening_def quiet_def hart_ok_def lock_free_def NBCONSOLES_def cons_input_def cons_line_def)
  moreover from this have "cons_ok (consoles console_boot 0)" by (simp add: cons_ok_def)
  moreover have "\<forall>b\<in>set [104, 106, 8, 105, 13 :: byte]. plain (uint b)" by (simp add: plain_def Ctl_def)
  moreover have "typing [104, 106, 8, 105, 13] [] [] = ([104, 105, 10], [], [104, 106, 8, 32, 8, 105, 10])"
    by (simp add: edit_def echo_def Ctl_def typed_def INPUT_BUF_def erase_def)
  moreover have "uart_out console_boot = []" by (simp add: console_boot_def)
  ultimately show ?thesis using uart_edits [of 0 console_boot "[104, 106, 8, 105, 13]" "ret ()"] by auto
qed

end
