(* ===== verification/Umalloc.thy ===== *)
theory Umalloc
  imports Xv6_Prelude
begin

text \<open>
  The allocator of the user programs, user/umalloc.c.  Free blocks form a ring in the order of their
  addresses, which goes through the header \<open>base\<close>; sizes count headers of 16 bytes.  The two fields of
  the headers are maps on addresses, and the contents of the blocks are not part of the model.
\<close>

section \<open>The allocator\<close>

record uheap =
  s_ptr :: "int \<Rightarrow> int"
  s_size :: "int \<Rightarrow> 32 word"
  freep :: int
  base :: int
  brk :: int

text \<open>The address \<open>k\<close> headers after \<open>p\<close>.\<close>

definition hdr_plus :: "int \<Rightarrow> 32 word \<Rightarrow> int" where
  "hdr_plus p k = p + 16 * uint k"

text \<open>
  The system call \<open>sbrk\<close> as the process sees it.  Whether the kernel has the memory is the parameter \<open>oom\<close>,
  of the break and the number of bytes.  The memory of the machine keeps the break below \<open>2 ^ 31\<close>; taking
  away more than there is does nothing, because the new size wraps.
\<close>

definition sbrk :: "(int \<Rightarrow> int \<Rightarrow> bool) \<Rightarrow> int \<Rightarrow> uheap \<Rightarrow> int \<times> uheap" where
  "sbrk oom n h =
     (if 0 < n \<and> oom (brk h) n then (- 1, h)
      else (brk h, if brk h + n < 0 then h else h\<lparr>brk := brk h + n\<rparr>))"

text \<open>
  The pages of the process end at the break rounded up.  A store to a header beyond them is a page fault, for which the
  kernel kills the process: the call does not return.  The two stores that may go there are those to headers that are not in the
  ring yet, of the block that \<open>morecore\<close> makes and of the one that \<open>malloc\<close> cuts off.
\<close>

definition mapped :: "uheap \<Rightarrow> int \<Rightarrow> bool" where
  "mapped h a \<longleftrightarrow> a + 16 \<le> (brk h + 4095) div 4096 * 4096"

text \<open>The loop of \<open>free\<close>: the free block before \<open>bp\<close> in the ring.\<close>

partial_function (option) free_find :: "(int \<Rightarrow> int) \<Rightarrow> int \<Rightarrow> int \<Rightarrow> int option" where
  "free_find N bp p =
     (if bp > p \<and> bp < N p then Some p
      else if p \<ge> N p \<and> (bp > p \<or> bp < N p) then Some p
      else free_find N bp (N p))"

definition free_join :: "int \<Rightarrow> int \<Rightarrow> uheap \<Rightarrow> uheap" where
  "free_join bp p h =
     (let q = s_ptr h p;
          h = (if hdr_plus bp (s_size h bp) = q
               then h\<lparr>s_size := (s_size h)(bp := s_size h bp + s_size h q), s_ptr := (s_ptr h)(bp := s_ptr h q)\<rparr>
               else h\<lparr>s_ptr := (s_ptr h)(bp := q)\<rparr>);
          h = (if hdr_plus p (s_size h p) = bp
               then h\<lparr>s_size := (s_size h)(p := s_size h p + s_size h bp), s_ptr := (s_ptr h)(p := s_ptr h bp)\<rparr>
               else h\<lparr>s_ptr := (s_ptr h)(p := bp)\<rparr>)
      in h\<lparr>freep := p\<rparr>)"

definition free :: "int \<Rightarrow> uheap \<Rightarrow> uheap option" where
  "free ap h = (let bp = ap - 16 in map_option (\<lambda>p. free_join bp p h) (free_find (s_ptr h) bp (freep h)))"

text \<open>The product is computed with 64 bits and converted to the \<open>int\<close> that \<open>sbrk\<close> takes.\<close>

definition morecore :: "(int \<Rightarrow> int \<Rightarrow> bool) \<Rightarrow> 32 word \<Rightarrow> uheap \<Rightarrow> (int \<times> uheap) option" where
  "morecore oom nu h =
     (let nu = (if nu < 4096 then 4096 else nu); (p, h) = sbrk oom (c_int (uint nu * 16)) h in
      if p = - 1 then Some (0, h)
      else if \<not> mapped h p then None
      else Option.bind (free (p + 16) (h\<lparr>s_size := (s_size h)(p := nu)\<rparr>)) (\<lambda>h. Some (freep h, h)))"

definition carve :: "32 word \<Rightarrow> int \<Rightarrow> int \<Rightarrow> uheap \<Rightarrow> (int \<times> uheap) option" where
  "carve nunits prevp p h =
     (if s_size h p = nunits then Some (p + 16, h\<lparr>s_ptr := (s_ptr h)(prevp := s_ptr h p), freep := prevp\<rparr>)
      else let h = h\<lparr>s_size := (s_size h)(p := s_size h p - nunits)\<rparr>; p = hdr_plus p (s_size h p)
           in if \<not> mapped h p then None
              else Some (p + 16, h\<lparr>s_size := (s_size h)(p := nunits), freep := prevp\<rparr>))"

partial_function (option) malloc_loop ::
    "(int \<Rightarrow> int \<Rightarrow> bool) \<Rightarrow> 32 word \<Rightarrow> int \<Rightarrow> int \<Rightarrow> uheap \<Rightarrow> (int \<times> uheap) option" where
  "malloc_loop oom nunits prevp p h =
     (if nunits \<le> s_size h p then carve nunits prevp p h
      else if p = freep h
      then Option.bind (morecore oom nunits h) (\<lambda>(p, h). if p = 0 then Some (0, h) else malloc_loop oom nunits p (s_ptr h p) h)
      else malloc_loop oom nunits p (s_ptr h p) h)"

definition units :: "32 word \<Rightarrow> 32 word" where
  "units nbytes = word_of_int ((uint nbytes + 16 - 1) div 16 + 1)"

definition malloc_init :: "uheap \<Rightarrow> uheap" where
  "malloc_init h = (if freep h = 0 then h\<lparr>s_ptr := (s_ptr h)(base h := base h), freep := base h, s_size := (s_size h)(base h := 0)\<rparr> else h)"

definition malloc :: "(int \<Rightarrow> int \<Rightarrow> bool) \<Rightarrow> 32 word \<Rightarrow> uheap \<Rightarrow> (int \<times> uheap) option" where
  "malloc oom nbytes h = (let h = malloc_init h in malloc_loop oom (units nbytes) (freep h) (s_ptr h (freep h)) h)"

end
