(* ===== verification/Umalloc_Correct.thy ===== *)
theory Umalloc_Correct
  imports Umalloc
begin

text \<open>
  The correctness of the allocator of the user programs: the ring of free blocks in the order of their
  addresses, kept by both operations, blocks that never overlap, and what happens to requests so large
  that the number of bytes asked of the kernel wraps.
\<close>

section \<open>Rings\<close>

text \<open>From \<open>a\<close> the links lead through \<open>xs\<close> to \<open>b\<close>.\<close>

primrec path :: "(int \<Rightarrow> int) \<Rightarrow> int \<Rightarrow> int list \<Rightarrow> int \<Rightarrow> bool" where
  "path N a [] b \<longleftrightarrow> N a = b"
| "path N a (x # xs) b \<longleftrightarrow> N a = x \<and> path N x xs b"

lemma path_append [simp]: "path N a (us @ p # vs) b \<longleftrightarrow> path N a us p \<and> path N p vs b"
  by (induction us arbitrary: a) auto

lemma path_upd: "(\<forall>x\<in>set (a # xs). N' x = N x) \<Longrightarrow> path N' a xs b = path N a xs b"
  by (induction xs arbitrary: a) auto

lemma path_hd: "path N a xs b \<Longrightarrow> N a = hd (xs @ [b])"
  by (cases xs) auto

lemma path_last: "path N a xs b \<Longrightarrow> N (last (a # xs)) = b"
  by (induction xs arbitrary: a) auto

lemma path_redirect:
  assumes "path N a us b" "distinct (a # us)"
  shows "path (N(last (a # us) := c)) a us c"
  using assms
proof (induction us arbitrary: a)
  case (Cons u us)
  then have "a \<noteq> last (u # us)" by (metis distinct.simps(2) last_in_set list.distinct(1))
  then show ?case using Cons by simp
qed simp

section \<open>The arena\<close>

definition len :: "uheap \<Rightarrow> int \<Rightarrow> int" where
  "len h a = 16 * uint (s_size h a)"

text \<open>
  The blocks: the free ones \<open>xs\<close> in their order, and those handed out, \<open>A\<close>.  They do not overlap each other
  or the header \<open>base\<close>, they lie below the break, and no two free blocks touch.
\<close>

definition blocks_ok :: "uheap \<Rightarrow> int set \<Rightarrow> bool" where
  "blocks_ok h B \<longleftrightarrow> (\<forall>a\<in>B. base h + 16 \<le> a \<and> 0 < s_size h a \<and> a + len h a \<le> brk h) \<and>
     (\<forall>a\<in>B. \<forall>b\<in>B. a < b \<longrightarrow> a + len h a \<le> b)"

definition arena :: "uheap \<Rightarrow> int list \<Rightarrow> int set \<Rightarrow> bool" where
  "arena h xs A \<longleftrightarrow> path (s_ptr h) (base h) xs (base h) \<and> sorted_wrt (\<lambda>a b. a + len h a < b) xs \<and>
     freep h \<in> set (base h # xs) \<and> s_size h (base h) = 0 \<and> A \<inter> set xs = {} \<and> blocks_ok h (A \<union> set xs) \<and>
     0 < base h \<and> base h + 16 \<le> brk h \<and> brk h < 2 ^ 31"

text \<open>The bytes of the free blocks.\<close>

definition space :: "uheap \<Rightarrow> int list \<Rightarrow> int set" where
  "space h xs = (\<Union>a\<in>set xs. {a ..< a + len h a})"

lemma len_nonneg [simp]: "0 \<le> len h a"
  by (simp add: len_def)

lemma len_pos: "0 < s_size h a \<Longrightarrow> 16 \<le> len h a"
  by (simp add: len_def word_less_def)

lemma arenaD:
  assumes "arena h xs A"
  shows "path (s_ptr h) (base h) xs (base h)" "sorted_wrt (\<lambda>a b. a + len h a < b) xs" "freep h \<in> set (base h # xs)"
    "s_size h (base h) = 0" "A \<inter> set xs = {}" "blocks_ok h (A \<union> set xs)" "0 < base h" "base h + 16 \<le> brk h" "brk h < 2147483648"
  using assms by (simp_all add: arena_def)

lemma sorted_of_gaps: "sorted_wrt (\<lambda>a b. a + len h a < b) xs \<Longrightarrow> sorted_wrt (<) xs"
proof (rule sorted_wrt_mono_rel [of _ "\<lambda>a b. a + len h a < b"])
  show "x < y" if "x + len h x < y" for x y using that len_nonneg [of h x] by linarith
qed

lemma blocks_okD:
  assumes "blocks_ok h B" "a \<in> B"
  shows "base h + 16 \<le> a" "0 < s_size h a" "a + len h a \<le> brk h" "b \<in> B \<Longrightarrow> a < b \<Longrightarrow> a + len h a \<le> b"
  using assms by (simp_all add: blocks_ok_def)

lemma arena_above: "arena h xs A \<Longrightarrow> a \<in> A \<union> set xs \<Longrightarrow> base h < a"
  using blocks_okD(1) [OF arenaD(6), of h xs A a] by simp

lemma arena_sorted: "arena h xs A \<Longrightarrow> sorted_wrt (<) (base h # xs)"
  using sorted_of_gaps [OF arenaD(2)] arena_above [of h xs A] by simp

lemma arena_distinct: "arena h xs A \<Longrightarrow> distinct (base h # xs)"
  using arena_sorted strict_sorted_iff by blast

section \<open>Finding the place of a block\<close>

text \<open>Beyond \<open>bp\<close> the search goes on to the end of the ring; before it, to the last block below \<open>bp\<close>.\<close>

lemma free_find_above: "path N q ws b \<Longrightarrow> sorted_wrt (<) (q # ws) \<Longrightarrow> b < bp \<Longrightarrow> bp < q \<Longrightarrow> free_find N bp q = free_find N bp b"
proof (induction ws arbitrary: q)
  case Nil
  then show ?case by (subst free_find.simps) auto
next
  case (Cons w ws)
  then have "free_find N bp q = free_find N bp w" by (subst free_find.simps) auto
  then show ?case using Cons by auto
qed

lemma free_find_below:
  "path N q us c \<Longrightarrow> sorted_wrt (<) (q # us) \<Longrightarrow> \<forall>x\<in>set (q # us). x < bp \<Longrightarrow> bp < c \<or> c \<le> q \<Longrightarrow> free_find N bp q = Some (last (q # us))"
proof (induction us arbitrary: q)
  case Nil
  then show ?case by (subst free_find.simps) auto
next
  case (Cons u us)
  then have "free_find N bp q = free_find N bp u" by (subst free_find.simps) auto
  then show ?case using Cons by auto
qed

lemma free_find_ring:
  assumes "path N b (us @ vs) b" "sorted_wrt (<) (b # us @ vs)" "\<forall>x\<in>set (b # us). x < bp" "\<forall>x\<in>set vs. bp < x" "q \<in> set (b # us @ vs)"
  shows "free_find N bp q = Some (last (b # us))"
proof -
  have base: "free_find N bp b = Some (last (b # us))"
  proof (cases vs)
    case Nil
    then show ?thesis using free_find_below [of N b us b bp] assms by simp
  next
    case (Cons v vs')
    then show ?thesis using free_find_below [of N b us v bp] assms by (simp add: sorted_wrt_append)
  qed
  consider "q = b" | "q \<in> set us" | "q \<in> set vs" using assms(5) by auto
  then show ?thesis
  proof cases
    case 2
    then obtain u1 u2 where u: "us = u1 @ q # u2" by (auto simp: in_set_conv_decomp)
    show ?thesis
    proof (cases vs)
      case Nil
      then show ?thesis using free_find_below [of N q u2 b bp] assms u by (simp add: sorted_wrt_append)
    next
      case (Cons v vs')
      then show ?thesis using free_find_below [of N q u2 v bp] assms u by (simp add: sorted_wrt_append)
    qed
  next
    case 3
    then obtain v1 v2 where v: "vs = v1 @ q # v2" by (auto simp: in_set_conv_decomp)
    have "path N q v2 b" using assms(1) path_append [of N b "us @ v1" q v2 b] by (simp add: v)
    moreover have "sorted_wrt (<) (q # v2)" using assms(2) by (simp add: v sorted_wrt_append)
    ultimately show ?thesis using free_find_above [of N q v2 b bp] base assms(3,4) v by simp
  qed (use base in simp)
qed

section \<open>Joining blocks\<close>

lemma path_split: "path N a (us @ vs) b \<longleftrightarrow> path N a us (hd (vs @ [b])) \<and> (vs \<noteq> [] \<longrightarrow> path N (hd vs) (tl vs) b)"
  by (cases vs) auto

lemma path_start: "N a = hd (vs @ [b]) \<Longrightarrow> (vs \<noteq> [] \<longrightarrow> path N (hd vs) (tl vs) b) \<Longrightarrow> path N a vs b"
  by (cases vs) auto

lemma path_tail_upd:
  assumes "vs \<noteq> [] \<longrightarrow> path N (hd vs) (tl vs) b" "\<forall>x\<in>set vs. N' x = N x"
  shows "vs \<noteq> [] \<longrightarrow> path N' (hd vs) (tl vs) b"
  using assms path_upd [of "hd vs" "tl vs" N' N b] by (cases vs) auto

lemma blocks_cong:
  assumes "base h' = base h" "brk h' = brk h" "\<forall>a\<in>B. s_size h' a = s_size h a"
  shows "blocks_ok h' B = blocks_ok h B"
  using assms by (simp add: blocks_ok_def len_def)

lemma blocks_subset: "blocks_ok h B \<Longrightarrow> C \<subseteq> B \<Longrightarrow> blocks_ok h C"
  unfolding blocks_ok_def by blast

lemma join_len:
  assumes "blocks_ok h B" "a \<in> B" "b \<in> B" "hdr_plus a (s_size h a) = b" "brk h < 2147483648" "0 < base h"
    and h': "s_size h' a = s_size h a + s_size h b"
  shows "len h' a = len h a + len h b" "s_size h a \<le> s_size h' a" "s_size h b \<le> s_size h' a"
proof -
  have ab: "b = a + len h a" using assms(4) by (simp add: hdr_plus_def len_def)
  have "b + len h b \<le> brk h" "0 < a" using blocks_okD [OF assms(1)] assms(2,3,6) by (force, force)
  then have "uint (s_size h a) + uint (s_size h b) < 2 ^ 32" using ab assms(5) unfolding len_def by simp
  then have u: "uint (s_size h' a) = uint (s_size h a) + uint (s_size h b)" unfolding h' by (simp add: uint_plus_if')
  then show "len h' a = len h a + len h b" by (simp add: len_def)
  show "s_size h a \<le> s_size h' a" "s_size h b \<le> s_size h' a" using u by (simp_all add: word_le_def)
qed

lemma blocks_join:
  assumes "blocks_ok h B" "a \<in> B" "b \<in> B" "hdr_plus a (s_size h a) = b" "brk h < 2147483648" "0 < base h"
    and h': "base h' = base h" "brk h' = brk h" "\<forall>x. x \<noteq> a \<longrightarrow> s_size h' x = s_size h x" "s_size h' a = s_size h a + s_size h b"
  shows "blocks_ok h' (B - {b})"
proof -
  note l = join_len [OF assms(1-6) h'(4)]
  have lx: "len h' x = len h x" if "x \<noteq> a" for x using that h'(3) by (simp add: len_def)
  have ab: "b = a + len h a" using assms(4) by (simp add: hdr_plus_def len_def)
  have pos: "0 < s_size h' a" using blocks_okD(2) [OF assms(1,2)] l(2) by (rule less_le_trans)
  have one: "base h' + 16 \<le> x \<and> 0 < s_size h' x \<and> x + len h' x \<le> brk h'" if "x \<in> B - {b}" for x
    using that blocks_okD(1-3) [OF assms(1), of x] blocks_okD(3) [OF assms(1,3)] pos l(1) lx ab h' by (cases "x = a") auto
  have two: "x + len h' x \<le> y" if "x \<in> B - {b}" "y \<in> B - {b}" "x < y" for x y
  proof (cases "x = a")
    case True
    then have "b < y" using blocks_okD(4) [OF assms(1,2), of y] that ab by force
    then show ?thesis using blocks_okD(4) [OF assms(1,3), of y] that True l(1) ab by simp
  next
    case False
    then show ?thesis using blocks_okD(4) [OF assms(1), of x y] that lx by simp
  qed
  show ?thesis unfolding blocks_ok_def using one two by blast
qed

lemma space_simps [simp]: "space h [] = {}" "space h (x # xs) = {x ..< x + len h x} \<union> space h xs" "space h (xs @ ys) = space h xs \<union> space h ys"
  by (auto simp: space_def)

lemma space_cong: "\<forall>x\<in>set xs. s_size h' x = s_size h x \<Longrightarrow> space h' xs = space h xs"
  by (simp add: space_def len_def)

lemma gaps_cong: "\<forall>x\<in>set xs. s_size h' x = s_size h x \<Longrightarrow> sorted_wrt (\<lambda>a b. a + len h' a < b) xs = sorted_wrt (\<lambda>a b. a + len h a < b) xs"
  by (induction xs) (simp_all add: len_def)

text \<open>
  The two halves of \<open>free\<close> around the place of \<open>bp\<close> between \<open>us\<close> and \<open>vs\<close>: first the block after it is joined
  to it or follows it, \<open>vs'\<close> being what comes then; afterwards it is joined to the block before.
\<close>

definition join_next :: "int \<Rightarrow> int \<Rightarrow> uheap \<Rightarrow> uheap" where
  "join_next bp q h =
     (if hdr_plus bp (s_size h bp) = q
      then h\<lparr>s_size := (s_size h)(bp := s_size h bp + s_size h q), s_ptr := (s_ptr h)(bp := s_ptr h q)\<rparr>
      else h\<lparr>s_ptr := (s_ptr h)(bp := q)\<rparr>)"

definition join_prev :: "int \<Rightarrow> int \<Rightarrow> uheap \<Rightarrow> uheap" where
  "join_prev bp p h =
     (if hdr_plus p (s_size h p) = bp
      then h\<lparr>s_size := (s_size h)(p := s_size h p + s_size h bp), s_ptr := (s_ptr h)(p := s_ptr h bp)\<rparr>
      else h\<lparr>s_ptr := (s_ptr h)(p := bp)\<rparr>)"

lemma free_join_eq: "free_join bp p h = (join_prev bp p (join_next bp (s_ptr h p) h))\<lparr>freep := p\<rparr>"
  by (simp add: free_join_def join_next_def join_prev_def Let_def)

lemma join_other [simp]:
  "base (join_next bp q h) = base h" "brk (join_next bp q h) = brk h" "base (join_prev bp p h) = base h" "brk (join_prev bp p h) = brk h"
  "x \<noteq> bp \<Longrightarrow> s_ptr (join_next bp q h) x = s_ptr h x" "x \<noteq> bp \<Longrightarrow> s_size (join_next bp q h) x = s_size h x"
  "x \<noteq> p \<Longrightarrow> s_ptr (join_prev bp p h) x = s_ptr h x" "x \<noteq> p \<Longrightarrow> s_size (join_prev bp p h) x = s_size h x"
  by (simp_all add: join_next_def join_prev_def)

lemma join_next_ok:
  assumes B: "blocks_ok h (C \<union> set vs)" "bp \<in> C" "C \<inter> set vs = {}" "brk h < 2147483648" "0 < base h"
    and vs: "sorted_wrt (\<lambda>a b. a + len h a < b) vs" "\<forall>x\<in>set vs. bp < x" "vs \<noteq> [] \<longrightarrow> path (s_ptr h) (hd vs) (tl vs) (base h)"
    and h': "h' = join_next bp (hd (vs @ [base h])) h"
  shows "\<exists>vs'. set vs' \<subseteq> set vs \<and> s_ptr h' bp = hd (vs' @ [base h]) \<and> (vs' \<noteq> [] \<longrightarrow> path (s_ptr h) (hd vs') (tl vs') (base h)) \<and>
    blocks_ok h' (C \<union> set vs') \<and> sorted_wrt (\<lambda>a b. a + len h' a < b) (bp # vs') \<and>
    space h' (bp # vs') = space h (bp # vs) \<and> s_size h bp \<le> s_size h' bp"
proof (cases "hdr_plus bp (s_size h bp) = hd (vs @ [base h])")
  case True
  have "base h < bp" using blocks_okD(1) [OF B(1), of bp] B(2) by simp
  then have "hd (vs @ [base h]) \<noteq> base h" using True len_nonneg [of h bp] unfolding hdr_plus_def len_def by linarith
  then obtain q ws where q: "vs = q # ws" by (cases vs) auto
  have e: "s_size h' bp = s_size h bp + s_size h q" "s_ptr h' bp = s_ptr h q" using True q by (simp_all add: h' join_next_def)
  have hq: "hdr_plus bp (s_size h bp) = q" using True q by simp
  have in2: "bp \<in> C \<union> set vs" "q \<in> C \<union> set vs" using B(2) q by simp_all
  have bl: "blocks_ok h' (C \<union> set vs - {q})"
    by (rule blocks_join [OF B(1) in2 hq B(4,5)]) (use e(1) in \<open>simp_all add: h'\<close>)
  note l = join_len [OF B(1) in2 hq B(4,5) e(1)]
  have qq: "q = bp + len h bp" using hq by (simp add: hdr_plus_def len_def)
  have same: "\<forall>x\<in>set ws. s_size h' x = s_size h x" using vs(2) q by (auto simp: h')
  have "q \<notin> set ws" using sorted_of_gaps [OF vs(1)] q by auto
  then have "C \<union> set vs - {q} = C \<union> set ws" using B(3) q by auto
  moreover have "sorted_wrt (\<lambda>a b. a + len h' a < b) (bp # ws)"
  proof -
    have "bp + len h' bp = q + len h q" using l(1) qq by simp
    then show ?thesis using vs(1) gaps_cong [OF same] by (simp add: q)
  qed
  moreover have "space h' (bp # ws) = space h (bp # vs)"
  proof -
    have "{bp..<bp + len h' bp} = {bp..<q} \<union> {q..<q + len h q}"
      using l(1) qq len_nonneg [of h bp] len_nonneg [of h q] by (simp add: ivl_disj_un_two(3) add.assoc)
    then show ?thesis using space_cong [OF same] by (simp add: q qq [symmetric] Un_assoc)
  qed
  moreover have "path (s_ptr h) q ws (base h)" using vs(3) by (simp add: q)
  then have "s_ptr h' bp = hd (ws @ [base h])" "ws \<noteq> [] \<longrightarrow> path (s_ptr h) (hd ws) (tl ws) (base h)"
    using e(2) path_hd [of "s_ptr h" q ws "base h"] by (simp, cases ws) simp_all
  ultimately show ?thesis using bl l(2) by (intro exI [of _ ws]) (simp add: q subset_insertI)
next
  case False
  have e: "s_size h' = s_size h" "s_ptr h' bp = hd (vs @ [base h])" "base h' = base h" "brk h' = brk h" using False by (simp_all add: h' join_next_def)
  have l: "len h' = len h" using e by (simp add: len_def fun_eq_iff)
  have first: "bp + len h bp < v" if v: "v \<in> set vs" for v
  proof -
    obtain q ws where q: "vs = q # ws" using v by (cases vs) auto
    have "bp + len h bp \<le> q" using blocks_okD(4) [OF B(1), of bp q] B(2) vs(2) q by simp
    moreover have "bp + len h bp \<noteq> q" using False q by (simp add: hdr_plus_def len_def)
    moreover have "q \<le> v" using v sorted_of_gaps [OF vs(1)] q by auto
    ultimately show ?thesis by linarith
  qed
  have "blocks_ok h' (C \<union> set vs)" using B(1) blocks_cong [OF e(3,4), of "C \<union> set vs"] e(1) by simp
  then show ?thesis using e l vs(1,3) first by (intro exI [of _ vs]) (simp add: space_def)
qed

lemma join_prev_ok:
  assumes B: "blocks_ok g (A \<union> set us \<union> set ws)" "bp \<in> A" "A \<inter> set us = {}" "A \<inter> set ws = {}" "brk g < 2147483648" "0 < base g" "s_size g (base g) = 0"
    and us: "path (s_ptr g) (base g) us c" "sorted_wrt (<) (base g # us)" "sorted_wrt (\<lambda>a b. a + len g a < b) us" "\<forall>x\<in>set us. x < bp"
    and ws: "sorted_wrt (\<lambda>a b. a + len g a < b) (bp # ws)" "s_ptr g bp = hd (ws @ [base g])" "ws \<noteq> [] \<longrightarrow> path (s_ptr g) (hd ws) (tl ws) (base g)"
    and h': "p = last (base g # us)" "h' = join_prev bp p g"
  shows "\<exists>xs. path (s_ptr h') (base g) xs (base g) \<and> sorted_wrt (\<lambda>a b. a + len h' a < b) xs \<and> p \<in> set (base g # xs) \<and>
    set xs \<subseteq> insert bp (set us \<union> set ws) \<and> blocks_ok h' ((A - {bp}) \<union> set xs) \<and> space h' xs = space g (us @ bp # ws) \<and>
    (\<exists>q\<in>set xs. s_size g bp \<le> s_size h' q)"
proof -
  have p: "p \<in> set (base g # us)" using h'(1) by simp
  have bp: "base g < bp" using blocks_okD(1) [OF B(1), of bp] B(2) by simp
  have wsb: "\<forall>x\<in>set ws. bp < x" using sorted_of_gaps [OF ws(1)] by simp
  have p_less: "p < bp" using p bp us(4) by auto
  then have pb: "p < bp" "p \<notin> set ws" "bp \<notin> set us" using us(4) wsb by force+
  have d: "distinct (base g # us)" using us(2) strict_sorted_iff by blast
  have tail: "ws \<noteq> [] \<longrightarrow> path (s_ptr h') (hd ws) (tl ws) (base g)"
  proof (rule path_tail_upd [OF ws(3)], rule ballI)
    fix x assume "x \<in> set ws"
    then have "x \<noteq> p" using pb(2) by blast
    then show "s_ptr h' x = s_ptr g x" by (simp add: h'(2))
  qed
  have front: "path (s_ptr h') (base g) us (s_ptr h' p)"
  proof -
    have "path ((s_ptr g)(p := s_ptr h' p)) (base g) us (s_ptr h' p)" unfolding h'(1) by (rule path_redirect [OF us(1) d])
    then show ?thesis by (rule iffD1 [OF path_upd, rotated]) (simp add: h'(2))
  qed
  show ?thesis
  proof (cases "hdr_plus p (s_size g p) = bp")
    case False
    have e: "s_size h' = s_size g" "s_ptr h' p = bp" "s_ptr h' bp = s_ptr g bp" using False pb(1) by (simp_all add: h'(2) join_prev_def)
    have l: "len h' = len g" using e(1) by (simp add: len_def fun_eq_iff)
    have usbp: "x + len g x < bp" if x: "x \<in> set us" for x
    proof (cases "x = p")
      case True
      have "x + len g x \<le> bp" using blocks_okD(4) [OF B(1), of x bp] B(2) x us(4) by simp
      then show ?thesis using True False by (simp add: hdr_plus_def len_def)
    next
      case False
      obtain us0 where "us = us0 @ [p]" using x h'(1) by (cases us rule: rev_cases) simp_all
      then have "x + len g x < p" using us(3) x False by (simp add: sorted_wrt_append)
      then show ?thesis using pb(1) by simp
    qed
    have "path (s_ptr h') (base g) (us @ bp # ws) (base g)"
      using front tail e path_start [of "s_ptr h'" bp ws "base g"] ws(2) by simp
    moreover have "\<forall>x\<in>set us. \<forall>y\<in>set ws. x + len g x < y" using usbp wsb by (meson less_trans)
    then have "sorted_wrt (\<lambda>a b. a + len h' a < b) (us @ bp # ws)"
      using us(3) ws(1) usbp unfolding l sorted_wrt_append by simp
    moreover have "blocks_ok h' (A \<union> set us \<union> set ws)" using B(1) blocks_cong [of h' g] e(1) by (simp add: h'(2))
    then have "blocks_ok h' ((A - {bp}) \<union> set (us @ bp # ws))" by (rule blocks_subset) (use B(2) in auto)
    moreover have "space h' (us @ bp # ws) = space g (us @ bp # ws)" by (rule space_cong) (simp add: e(1))
    ultimately show ?thesis using p e(1) by (intro exI [of _ "us @ bp # ws"]) auto
  next
    case True
    have "p \<noteq> base g" using True B(7) bp by (auto simp: hdr_plus_def)
    then obtain us0 where u: "us = us0 @ [p]" using p h'(1) by (cases us rule: rev_cases) auto
    have e: "s_size h' p = s_size g p + s_size g bp" "s_ptr h' p = hd (ws @ [base g])" using True ws(2) by (simp_all add: h'(2) join_prev_def)
    have in2: "p \<in> A \<union> set us \<union> set ws" "bp \<in> A \<union> set us \<union> set ws" using u B(2) by simp_all
    note l = join_len [OF B(1) in2 True B(5,6) e(1)]
    have bl: "blocks_ok h' (A \<union> set us \<union> set ws - {bp})"
      by (rule blocks_join [OF B(1) in2 True B(5,6)]) (use e(1) in \<open>simp_all add: h'(2)\<close>)
    have bpe: "bp = p + len g p" using True by (simp add: hdr_plus_def len_def)
    have d0: "p \<notin> set us0" using d u by simp
    have same: "\<forall>x\<in>set us0. s_size h' x = s_size g x" "\<forall>x\<in>set ws. s_size h' x = s_size g x"
      using d0 pb(2) unfolding h'(2) by (metis join_other(8))+
    have "path (s_ptr h') (base g) (us @ ws) (base g)" using front tail e(2) by (simp add: path_split)
    moreover have "sorted_wrt (\<lambda>a b. a + len h' a < b) (us @ ws)"
    proof -
      have top: "p + len h' p = bp + len g bp" using l(1) bpe by simp
      have "\<forall>x\<in>set us0. x + len h' x < p" using us(3) same(1) by (simp add: u sorted_wrt_append len_def)
      moreover from this have "\<forall>x\<in>set us0. \<forall>y\<in>set ws. x + len h' x < y" using pb(1) wsb by (meson less_trans)
      ultimately show ?thesis using us(3) ws(1) gaps_cong [OF same(1)] gaps_cong [OF same(2)] top by (simp add: u sorted_wrt_append ball_Un)
    qed
    moreover have "(A - {bp}) \<union> set (us @ ws) = A \<union> set us \<union> set ws - {bp}" using pb(3) wsb by auto
    moreover have "space h' (us @ ws) = space g (us @ bp # ws)"
    proof -
      have "{p..<p + len h' p} = {p..<bp} \<union> {bp..<bp + len g bp}"
        using l(1) bpe len_nonneg [of g p] len_nonneg [of g bp] by (simp add: ivl_disj_un_two(3) add.assoc)
      then show ?thesis using space_cong [OF same(1)] space_cong [OF same(2)] by (simp add: u bpe [symmetric] Un_assoc)
    qed
    ultimately show ?thesis using bl l(3) u by (intro exI [of _ "us @ ws"]) auto
  qed
qed

lemma arena_split:
  assumes "arena h (us @ vs) A"
  shows "path (s_ptr h) (base h) us (hd (vs @ [base h]))" "vs \<noteq> [] \<longrightarrow> path (s_ptr h) (hd vs) (tl vs) (base h)"
    "s_ptr h (last (base h # us)) = hd (vs @ [base h])"
  using arenaD(1) [OF assms] path_last by (auto simp: path_split)

lemma arenaI:
  assumes "path (s_ptr h) (base h) xs (base h)" "sorted_wrt (\<lambda>a b. a + len h a < b) xs" "freep h \<in> set (base h # xs)"
    "s_size h (base h) = 0" "A \<inter> set xs = {}" "blocks_ok h (A \<union> set xs)" "0 < base h" "base h + 16 \<le> brk h" "brk h < 2147483648"
  shows "arena h xs A"
  using assms by (simp add: arena_def)

lemma freep_simps [simp]: "len (h\<lparr>freep := p\<rparr>) = len h" "blocks_ok (h\<lparr>freep := p\<rparr>) B = blocks_ok h B" "space (h\<lparr>freep := p\<rparr>) xs = space h xs"
  by (simp_all add: len_def blocks_ok_def space_def fun_eq_iff)

lemma filter_split_sorted: "sorted_wrt (<) xs \<Longrightarrow> xs = filter (\<lambda>x. x < b) xs @ filter (\<lambda>x. \<not> x < (b :: int)) xs"
proof (induction xs)
  case (Cons x xs)
  show ?case
  proof (cases "x < b")
    case False
    then have "filter (\<lambda>x. x < b) xs = []" "filter (\<lambda>x. \<not> x < b) xs = xs" using Cons.prems by (auto simp: filter_empty_conv filter_id_conv)
    then show ?thesis using False by simp
  qed (use Cons in simp)
qed simp

lemma free_join_ok:
  assumes a: "arena h (us @ vs) A" and bp: "bp \<in> A" and us: "\<forall>x\<in>set us. x < bp" and vs: "\<forall>x\<in>set vs. bp < x"
    and h': "h' = free_join bp (last (base h # us)) h"
  shows "\<exists>xs. arena h' xs (A - {bp}) \<and> space h' xs = space h (us @ vs) \<union> {bp ..< bp + len h bp} \<and>
    (\<exists>q\<in>set xs. s_size h bp \<le> s_size h' q) \<and> (\<forall>a\<in>A - {bp}. s_size h' a = s_size h a) \<and> base h' = base h \<and> brk h' = brk h"
proof -
  define p where "p = last (base h # us)"
  define g where "g = join_next bp (hd (vs @ [base h])) h"
  note D = arenaD [OF a] and S = arena_split [OF a]
  have gaps: "sorted_wrt (\<lambda>a b. a + len h a < b) us" "sorted_wrt (\<lambda>a b. a + len h a < b) vs"
    "\<forall>x\<in>set us. \<forall>y\<in>set vs. x + len h x < y" using D(2) by (auto simp: sorted_wrt_append)
  have nbp: "bp \<notin> set us" "bp \<notin> set vs" "base h < bp" "base h \<notin> set (us @ vs)"
    using us vs arena_above [OF a] bp by auto
  have B: "blocks_ok h ((A \<union> set us) \<union> set vs)" using D(6) by (simp add: Un_assoc)
  have dis: "(A \<union> set us) \<inter> set vs = {}" using D(5) arena_distinct [OF a] by auto
  obtain ws where w: "set ws \<subseteq> set vs" "s_ptr g bp = hd (ws @ [base h])" "ws \<noteq> [] \<longrightarrow> path (s_ptr h) (hd ws) (tl ws) (base h)"
    "blocks_ok g (A \<union> set us \<union> set ws)" "sorted_wrt (\<lambda>a b. a + len g a < b) (bp # ws)"
    "space g (bp # ws) = space h (bp # vs)" "s_size h bp \<le> s_size g bp"
    using join_next_ok [OF B _ dis D(9,7) gaps(2) vs S(2) g_def] bp by auto
  have h'_eq: "h' = (join_prev bp p g)\<lparr>freep := p\<rparr>" using h' S(3) by (simp add: free_join_eq p_def g_def)
  have gs: "\<forall>x. x \<noteq> bp \<longrightarrow> s_size g x = s_size h x" "\<forall>x. x \<noteq> bp \<longrightarrow> s_ptr g x = s_ptr h x" "base g = base h" "brk g = brk h"
    by (simp_all add: g_def)
  have neq: "\<forall>x\<in>set us. x \<noteq> bp" "\<forall>x\<in>set ws. x \<noteq> bp" "base h \<noteq> bp" using nbp w(1) by auto
  have 1: "path (s_ptr g) (base g) us (hd (vs @ [base h]))" using S(1) path_upd [of "base h" us "s_ptr g" "s_ptr h"] gs neq by simp
  have 2: "sorted_wrt (\<lambda>a b. a + len g a < b) us" using gaps(1) gaps_cong [of us g h] gs(1) neq by simp
  have 3: "ws \<noteq> [] \<longrightarrow> path (s_ptr g) (hd ws) (tl ws) (base g)" using path_tail_upd [OF w(3), of "s_ptr g"] gs neq by simp
  have 4: "sorted_wrt (<) (base g # us)" "A \<inter> set us = {}" "A \<inter> set ws = {}" "s_size g (base g) = 0"
    using arena_sorted [OF a] D(4,5) w(1) gs neq by (auto simp: sorted_wrt_append)
  obtain xs where x: "path (s_ptr (join_prev bp p g)) (base g) xs (base g)" "sorted_wrt (\<lambda>a b. a + len (join_prev bp p g) a < b) xs"
    "p \<in> set (base g # xs)" "set xs \<subseteq> insert bp (set us \<union> set ws)" "blocks_ok (join_prev bp p g) ((A - {bp}) \<union> set xs)"
    "space (join_prev bp p g) xs = space g (us @ bp # ws)" "\<exists>q\<in>set xs. s_size g bp \<le> s_size (join_prev bp p g) q"
    using join_prev_ok [OF w(4) bp 4(2,3) _ _ 4(4) 1 4(1) 2 us w(5) _ 3 _ refl, of p] D(7,9) w(2) gs(3,4) p_def by auto
  let ?j = "join_prev bp p g"
  have j: "s_size ?j x = s_size h x" if "x \<noteq> bp" "x \<noteq> p" for x using that gs(1) by simp
  have p: "p \<in> set (base h # us)" by (simp add: p_def)
  have keep: "\<forall>a\<in>A - {bp}. s_size h' a = s_size h a"
  proof
    fix x assume x: "x \<in> A - {bp}"
    then have "x \<noteq> p" using p D(5) arena_above [OF a, of x] by auto
    then show "s_size h' x = s_size h x" using x j by (simp add: h'_eq)
  qed
  have base0: "s_size h' (base h) = 0"
  proof (cases "p = base h")
    case True
    have "hdr_plus p (s_size g p) \<noteq> bp" using True neq(3) 4(4) gs(3) by (simp add: hdr_plus_def)
    then show ?thesis using True 4(4) gs(3) by (simp add: h'_eq join_prev_def)
  next
    case False
    then show ?thesis using j neq(3) D(4) by (simp add: h'_eq)
  qed
  have "space g us = space h us" by (rule space_cong) (use gs(1) neq in blast)
  then have sp: "space h' xs = space h (us @ vs) \<union> {bp..<bp + len h bp}" using x(6) w(6) by (auto simp: h'_eq)
  have "arena h' xs (A - {bp})"
    by (rule arenaI) (use x D(5,7-9) base0 gs(3,4) w(1) in \<open>auto simp: h'_eq\<close>)
  moreover have "\<exists>q\<in>set xs. s_size h bp \<le> s_size h' q" using x(7) w(7) by (auto simp: h'_eq intro: order_trans)
  ultimately show ?thesis using sp keep gs(3,4) by (intro exI [of _ xs]) (simp add: h'_eq)
qed

lemma free_ok:
  assumes a: "arena h xs A" and bp: "bp \<in> A"
  shows "\<exists>h' xs'. free (bp + 16) h = Some h' \<and> arena h' xs' (A - {bp}) \<and> space h' xs' = space h xs \<union> {bp ..< bp + len h bp} \<and>
    (\<exists>q\<in>set xs'. s_size h bp \<le> s_size h' q) \<and> (\<forall>a\<in>A - {bp}. s_size h' a = s_size h a) \<and> base h' = base h \<and> brk h' = brk h"
proof -
  obtain us vs where xs: "xs = us @ vs" and us: "\<forall>x\<in>set us. x < bp" and vs0: "\<forall>x\<in>set vs. \<not> x < bp"
  proof
    show "xs = filter (\<lambda>x. x < bp) xs @ filter (\<lambda>x. \<not> x < bp) xs" using arena_sorted [OF a] by (intro filter_split_sorted) simp
  qed simp_all
  have n: "bp \<notin> set xs" using arenaD(5) [OF a] bp by blast
  then have vs: "\<forall>x\<in>set vs. bp < x" using vs0 by (auto simp: xs not_less le_less)
  have b: "base h < bp" using arena_above [OF a] bp by simp
  have "free_find (s_ptr h) bp (freep h) = Some (last (base h # us))"
    by (rule free_find_ring [where vs = vs]) (use arenaD(1,3) [OF a] arena_sorted [OF a] us vs b in \<open>simp_all add: xs\<close>)
  then have "free (bp + 16) h = Some (free_join bp (last (base h # us)) h)" by (simp add: free_def)
  moreover note free_join_ok [OF a [unfolded xs] bp us vs refl]
  ultimately show ?thesis using xs by auto
qed

section \<open>Cutting a block\<close>

lemma path_map: "path N a xs b \<longleftrightarrow> map N (a # xs) = xs @ [b]"
  by (induction xs arbitrary: a) auto

lemma path_inj:
  assumes "path N a xs b" "distinct (xs @ [b])" "x \<in> set (a # xs)" "y \<in> set (a # xs)" "N x = N y"
  shows "x = y"
proof -
  have "distinct (map N (a # xs))" using assms(1,2) by (simp only: path_map)
  then show ?thesis using assms(3-5) by (auto simp only: distinct_map inj_on_def)
qed

lemma blocks_insert:
  assumes "blocks_ok h B" "base h + 16 \<le> a" "0 < s_size h a" "a + len h a \<le> brk h" "\<forall>b\<in>B. (a < b \<longrightarrow> a + len h a \<le> b) \<and> (b < a \<longrightarrow> b + len h b \<le> a)"
  shows "blocks_ok h (insert a B)"
  using assms unfolding blocks_ok_def by auto

lemma cut_len:
  assumes "n \<le> s_size h q" "s_size h' q = s_size h q - n" "s_size h' (hdr_plus q (s_size h q - n)) = n"
  shows "len h' q + 16 * uint n = len h q" "hdr_plus q (s_size h q - n) = q + len h' q" "len h' (hdr_plus q (s_size h q - n)) = 16 * uint n"
proof -
  have "uint (s_size h q - n) = uint (s_size h q) - uint n" using assms(1) by (simp add: uint_sub_lem [THEN iffD1] word_le_def)
  then show "len h' q + 16 * uint n = len h q" "hdr_plus q (s_size h q - n) = q + len h' q" "len h' (hdr_plus q (s_size h q - n)) = 16 * uint n"
    using assms by (simp_all add: len_def hdr_plus_def)
qed

lemma blocks_cut:
  assumes B: "blocks_ok h B" "q \<in> B" "0 < n" "n < s_size h q" and r: "r = hdr_plus q (s_size h q - n)"
    and h': "base h' = base h" "brk h' = brk h" "\<forall>x. x \<noteq> q \<longrightarrow> x \<noteq> r \<longrightarrow> s_size h' x = s_size h x" "s_size h' q = s_size h q - n" "s_size h' r = n"
  shows "r \<notin> B" "blocks_ok h' (insert r B)"
proof -
  have n: "n \<le> s_size h q" "0 < s_size h q - n" "0 < uint n" using B(3,4) by (simp_all add: word_less_def uint_sub_lem [THEN iffD1] word_le_def order_less_imp_le)
  note l = cut_len [OF n(1) h'(4) h'(5) [unfolded r], folded r]
  have pos: "0 < len h' q" using n(2) h'(4) len_pos [of h' q] by simp
  have out: "b \<le> q \<or> q + len h q \<le> b" if "b \<in> B" for b using blocks_okD(4) [OF B(1,2) that] by linarith
  show "r \<notin> B" using out [of r] l(1,2) pos n(3) by auto
  have lx: "len h' x = len h x" if "x \<in> B" "x \<noteq> q" for x using that h'(3) \<open>r \<notin> B\<close> by (auto simp: len_def)
  have le: "len h' x \<le> len h x" if "x \<in> B" for x using lx [OF that] l(1) n(3) by (cases "x = q") auto
  have "blocks_ok h' B"
    unfolding blocks_ok_def
  proof (intro conjI ballI impI)
    fix a assume a: "a \<in> B"
    show "base h' + 16 \<le> a" "a + len h' a \<le> brk h'" using blocks_okD(1,3) [OF B(1) a] le [OF a] h'(1,2) by simp_all
    show "0 < s_size h' a" using blocks_okD(2) [OF B(1) a] h'(3,4) n(2) a \<open>r \<notin> B\<close> by (cases "a = q") auto
    show "a + len h' a \<le> b" if "b \<in> B" "a < b" for b using blocks_okD(4) [OF B(1) a that] le [OF a] by simp
  qed
  moreover have "(r < b \<longrightarrow> r + len h' r \<le> b) \<and> (b < r \<longrightarrow> b + len h' b \<le> r)" if b: "b \<in> B" for b
    using out [OF b] l pos n(3) lx [OF b] blocks_okD(4) [OF B(1) b B(2)] by (cases "b = q") auto
  ultimately show "blocks_ok h' (insert r B)"
    using l n(3) B(3) h'(1,2,5) blocks_okD(1,3) [OF B(1,2)] pos by (intro blocks_insert) simp_all
qed

lemma carve_ok:
  assumes a: "arena h (us @ q # vs) A" and n: "0 < n" "n \<le> s_size h q" and c: "carve n (last (base h # us)) q h = Some (r, h')"
  shows "\<exists>xs. arena h' xs (insert (r - 16) A) \<and> r - 16 \<notin> A \<and> s_size h' (r - 16) = n \<and> (\<forall>a\<in>A. s_size h' a = s_size h a) \<and>
    space h (us @ q # vs) = space h' xs \<union> {r - 16 ..< r - 16 + len h' (r - 16)} \<and> base h' = base h \<and> brk h' = brk h"
proof (cases "s_size h q = n")
  case True
  define p where "p = last (base h # us)"
  note D = arenaD [OF a]
  have d: "distinct (base h # us @ q # vs)" by (rule arena_distinct [OF a])
  have p: "p \<in> set (base h # us)" by (simp add: p_def)
  then have pv: "p \<notin> set vs" using d by auto
  have e: "r = q + 16" "h' = h\<lparr>s_ptr := (s_ptr h)(p := s_ptr h q), freep := p\<rparr>" using c True by (simp_all add: carve_def p_def)
  have P: "path (s_ptr h) (base h) us q" "path (s_ptr h) q vs (base h)" using D(1) by simp_all
  have "path ((s_ptr h)(p := s_ptr h q)) (base h) us (s_ptr h q)" unfolding p_def by (rule path_redirect [OF P(1)]) (use d in simp)
  moreover have "vs \<noteq> [] \<longrightarrow> path ((s_ptr h)(p := s_ptr h q)) (hd vs) (tl vs) (base h)"
    by (rule path_tail_upd [of _ "s_ptr h"]) (use P(2) pv in \<open>cases vs, auto\<close>)
  ultimately have "path (s_ptr h') (base h') (us @ vs) (base h')" using path_hd [OF P(2)] by (simp add: e path_split)
  moreover have l: "len h' = len h" by (simp add: e len_def fun_eq_iff)
  moreover have "blocks_ok h' (insert q A \<union> set (us @ vs))" using D(6) by (simp add: e blocks_ok_def len_def insert_commute)
  ultimately have "arena h' (us @ vs) (insert q A)"
    using D(2,4,5,7-9) d p by (intro arenaI) (auto simp: e sorted_wrt_append len_def)
  moreover have "q \<notin> A" using D(5) by auto
  ultimately show ?thesis using True l by (intro exI [of _ "us @ vs"]) (auto simp: e space_def len_def)
next
  case False
  define p where "p = last (base h # us)"
  define r' where "r' = hdr_plus q (s_size h q - n)"
  let ?xs = "us @ q # vs"
  note D = arenaD [OF a]
  have p: "p \<in> set (base h # us)" by (simp add: p_def)
  have lt: "n < s_size h q" using n(2) False by (simp add: le_less)
  have e: "r - 16 = r'" "h' = h\<lparr>s_size := (s_size h)(q := s_size h q - n, r' := n), freep := p\<rparr>"
    using c False by (auto simp: carve_def p_def r'_def Let_def split: if_splits)
  have s: "base h' = base h" "brk h' = brk h" "s_ptr h' = s_ptr h" "freep h' = p" by (simp_all add: e)
  have q: "q \<in> A \<union> set ?xs" by simp
  have "uint (s_size h q - n) = uint (s_size h q) - uint n" using n(2) by (simp add: uint_sub_lem [THEN iffD1] word_le_def)
  then have rq: "r' \<noteq> q" "r' \<noteq> base h" using lt arena_above [OF a, of q] by (auto simp: r'_def hdr_plus_def word_less_def)
  have h': "\<forall>x. x \<noteq> q \<longrightarrow> x \<noteq> r' \<longrightarrow> s_size h' x = s_size h x" "s_size h' q = s_size h q - n" "s_size h' r' = n" using rq(1) by (auto simp: e)
  note C = blocks_cut [OF D(6) q n(1) lt r'_def s(1,2) h']
  note l = cut_len [OF n(2) h'(2) h'(3) [unfolded r'_def], folded r'_def]
  have lx: "s_size h' x = s_size h x" if "x \<in> A \<union> set ?xs" "x \<noteq> q" for x using that C(1) h'(1) by blast
  have leq: "len h' q \<le> len h q" using l(1) uint_ge_0 [of n] by linarith
  have le: "len h' x \<le> len h x" if "x \<in> set ?xs" for x using lx [of x] that leq by (cases "x = q") (auto simp: len_def)
  have "sorted_wrt (\<lambda>a b. a + len h' a < b) ?xs"
    by (rule sorted_wrt_mono_rel [OF _ D(2)]) (use le in force)
  moreover have "s_size h' (base h) = 0" using D(4) h'(1) rq(2) arena_above [OF a, of q] by auto
  ultimately have "arena h' ?xs (insert r' A)"
    using D(1,5,7-9) p C s by (intro arenaI) (auto simp: insert_commute)
  moreover have "q \<notin> A" using D(5) by auto
  then have "\<forall>a\<in>A. s_size h' a = s_size h a" using lx by auto
  moreover have "space h ?xs = space h' ?xs \<union> {r' ..< r' + len h' r'}"
  proof -
    have d: "distinct ?xs" using arena_distinct [OF a] by simp
    have "q \<le> r'" "r' \<le> q + len h q" "r' + len h' r' = q + len h q" using l leq len_nonneg [of h' q] by linarith+
    then have "{q..<q + len h q} = {q..<q + len h' q} \<union> {r'..<r' + len h' r'}"
      by (simp only: l(2) [symmetric] ivl_disj_un_two(3))
    moreover have "space h' us = space h us" "space h' vs = space h vs"
      by (rule space_cong, use lx d in fastforce)+
    ultimately show ?thesis by auto
  qed
  ultimately show ?thesis using C(1) h'(3) s by (intro exI [of _ ?xs]) (simp add: e(1))
qed

lemma mapped_below: "a + 16 \<le> brk h \<Longrightarrow> mapped h a"
proof -
  assume "a + 16 \<le> brk h"
  moreover have "brk h \<le> (brk h + 4095) div 4096 * 4096" by linarith
  ultimately show ?thesis by (simp add: mapped_def)
qed

lemma carve_returns:
  assumes a: "arena h (us @ q # vs) A" and n: "0 < n" "n \<le> s_size h q"
  shows "\<exists>r h'. carve n p q h = Some (r, h')"
proof -
  have "hdr_plus q (s_size h q - n) + 16 * uint n = q + len h q"
    using n(2) by (simp add: hdr_plus_def len_def uint_sub_lem [THEN iffD1] word_le_def)
  moreover have "q + len h q \<le> brk h" using blocks_okD(3) [OF arenaD(6) [OF a], of q] by simp
  moreover have "1 \<le> uint n" using n(1) by (simp add: word_less_def)
  ultimately have "mapped (h\<lparr>s_size := f\<rparr>) (hdr_plus q (s_size h q - n))" for f by (intro mapped_below) simp
  then show ?thesis by (simp add: carve_def Let_def)
qed

section \<open>Searching the ring\<close>

lemma malloc_found:
  assumes "path (s_ptr h) prev ys (freep h)" "freep h \<notin> set ys" "\<exists>q\<in>set (ys @ [freep h]). n \<le> s_size h q"
  shows "\<exists>q\<in>set (ys @ [freep h]). n \<le> s_size h q \<and> (\<exists>pv\<in>set (prev # ys). s_ptr h pv = q \<and>
    malloc_loop oom n prev (s_ptr h prev) h = carve n pv q h)"
  using assms
proof (induction ys arbitrary: prev)
  case Nil
  then show ?case by (subst malloc_loop.simps) auto
next
  case (Cons y ys)
  show ?case
  proof (cases "n \<le> s_size h y")
    case True
    then show ?thesis using Cons.prems by (subst malloc_loop.simps) auto
  next
    case False
    then have "malloc_loop oom n prev (s_ptr h prev) h = malloc_loop oom n y (s_ptr h y) h"
      using Cons.prems by (subst malloc_loop.simps) auto
    then show ?thesis using Cons.IH [of y] Cons.prems False by auto
  qed
qed

lemma malloc_not_found:
  assumes "path (s_ptr h) prev ys (freep h)" "freep h \<notin> set ys" "\<forall>q\<in>set (ys @ [freep h]). \<not> n \<le> s_size h q"
  shows "malloc_loop oom n prev (s_ptr h prev) h =
    Option.bind (morecore oom n h) (\<lambda>(p, h). if p = 0 then Some (0, h) else malloc_loop oom n p (s_ptr h p) h)"
  using assms
proof (induction ys arbitrary: prev)
  case Nil
  then show ?case by (subst malloc_loop.simps) simp
next
  case (Cons y ys)
  have "malloc_loop oom n prev (s_ptr h prev) h = malloc_loop oom n y (s_ptr h y) h"
    using Cons.prems by (subst malloc_loop.simps) auto
  then show ?case using Cons.IH [of y] Cons.prems by simp
qed

text \<open>The ring as the search sees it, from \<open>freep\<close>.\<close>

lemma arena_rotate:
  assumes "arena h xs A"
  obtains ys where "path (s_ptr h) (freep h) ys (freep h)" "freep h \<notin> set ys" "set (ys @ [freep h]) = set (base h # xs)"
proof (cases "freep h = base h")
  case True
  then show ?thesis using that [of xs] arenaD(1) [OF assms] arena_distinct [OF assms] by auto
next
  case False
  then obtain us vs where x: "xs = us @ freep h # vs" using arenaD(3) [OF assms] by (auto simp: in_set_conv_decomp)
  have "path (s_ptr h) (base h) (us @ freep h # vs) (base h)" using arenaD(1) [OF assms] x by simp
  then have "path (s_ptr h) (freep h) (vs @ base h # us) (freep h)" by simp
  moreover have "distinct (base h # us @ freep h # vs)" using arena_distinct [OF assms] x by simp
  ultimately show ?thesis using that [of "vs @ base h # us"] x False by auto
qed

lemma malloc_carves:
  assumes a: "arena h xs A" and n: "0 < n" "\<exists>q\<in>set xs. n \<le> s_size h q"
  shows "\<exists>us q vs. xs = us @ q # vs \<and> n \<le> s_size h q \<and>
    malloc_loop oom n (freep h) (s_ptr h (freep h)) h = carve n (last (base h # us)) q h"
proof -
  obtain ys where ys: "path (s_ptr h) (freep h) ys (freep h)" "freep h \<notin> set ys" "set (ys @ [freep h]) = set (base h # xs)"
    by (rule arena_rotate [OF a])
  have "\<exists>q\<in>set (ys @ [freep h]). n \<le> s_size h q" using n(2) ys(3) by auto
  from malloc_found [OF ys(1,2) this] obtain q pv where q: "q \<in> set (base h # xs)" "n \<le> s_size h q" "pv \<in> set (freep h # ys)" "s_ptr h pv = q"
    "malloc_loop oom n (freep h) (s_ptr h (freep h)) h = carve n pv q h" unfolding ys(3) by blast
  have pv: "pv \<in> set (base h # xs)" using q(3) ys(3) by auto
  have "q \<noteq> base h" using q(2) n(1) arenaD(4) [OF a] by auto
  then obtain us vs where x: "xs = us @ q # vs" using q(1) by (auto simp: in_set_conv_decomp)
  have "path (s_ptr h) (base h) us q" using arenaD(1) [OF a] x by simp
  then have "s_ptr h (last (base h # us)) = q" by (rule path_last)
  moreover have "last (base h # us) \<in> set (base h # xs)" using last_in_set [of "base h # us"] x by auto
  ultimately have "pv = last (base h # us)"
    using path_inj [OF arenaD(1) [OF a] _ pv] q(4) arena_distinct [OF a] by simp
  then show ?thesis using q x by blast
qed

section \<open>More memory\<close>

lemma arena_grow:
  assumes a: "arena h xs A" and n: "0 < n" "brk h + 16 * uint n < 2 ^ 31"
    and h': "h' = h\<lparr>brk := brk h + 16 * uint n, s_size := (s_size h)(brk h := n)\<rparr>"
  shows "arena h' xs (insert (brk h) A)" "brk h \<notin> A"
proof -
  note D = arenaD [OF a]
  have below: "x < brk h" "x + len h x \<le> brk h" if "x \<in> A \<union> set xs" for x
    using blocks_okD(3) [OF D(6) that] len_pos [OF blocks_okD(2) [OF D(6) that]] by linarith+
  have N: "0 \<le> 16 * uint n" by simp
  have f: "brk h' = brk h + 16 * uint n" "base h' = base h" "s_ptr h' = s_ptr h" "freep h' = freep h" by (simp_all add: h')
  have s: "s_size h' x = s_size h x" "len h' x = len h x" if "x \<noteq> brk h" for x using that by (simp_all add: h' len_def)
  have l: "len h' (brk h) = 16 * uint n" "s_size h' (brk h) = n" by (simp_all add: h' len_def)
  show new: "brk h \<notin> A" using below by blast
  have out: "brk h \<notin> set xs" using below by blast
  have "blocks_ok h' (A \<union> set xs)"
    unfolding blocks_ok_def
  proof (intro conjI ballI impI)
    fix x assume x: "x \<in> A \<union> set xs"
    have "x \<noteq> brk h" using below [OF x] by simp
    note sx = s [OF this]
    show "base h' + 16 \<le> x" "0 < s_size h' x" using blocks_okD(1,2) [OF D(6) x] sx f by simp_all
    show "x + len h' x \<le> brk h'" using below(2) [OF x] N unfolding sx f by linarith
    show "x + len h' x \<le> y" if "y \<in> A \<union> set xs" "x < y" for y using blocks_okD(4) [OF D(6) x that] sx by simp
  qed
  then have "blocks_ok h' (insert (brk h) (A \<union> set xs))"
  proof (rule blocks_insert)
    show "\<forall>b\<in>A \<union> set xs. (brk h < b \<longrightarrow> brk h + len h' (brk h) \<le> b) \<and> (b < brk h \<longrightarrow> b + len h' b \<le> brk h)"
    proof
      fix b assume b: "b \<in> A \<union> set xs"
      show "(brk h < b \<longrightarrow> brk h + len h' (brk h) \<le> b) \<and> (b < brk h \<longrightarrow> b + len h' b \<le> brk h)"
        using below [OF b] s(2) [of b] by auto
    qed
  qed (use D(8) n l f in simp_all)
  moreover have "\<forall>x\<in>set xs. s_size h' x = s_size h x" using s(1) out by metis
  note gaps_cong [OF this]
  moreover have "base h \<noteq> brk h" "base h' + 16 \<le> brk h'" using D(8) N unfolding f by linarith+
  ultimately show "arena h' xs (insert (brk h) A)"
    using D n out f s(1) [of "base h"] by (intro arenaI) simp_all
qed

lemma morecore_ok:
  assumes a: "arena h xs A" and n: "0 < n" "16 * uint n < 2 ^ 31" and oom: "\<forall>b k. 2 ^ 31 \<le> b + k \<longrightarrow> oom b k"
    and nu: "nu = (if n < 4096 then 4096 else n)"
  shows "if oom (brk h) (16 * uint nu) then morecore oom n h = Some (0, h)
    else \<exists>h' xs'. morecore oom n h = Some (freep h', h') \<and> freep h' \<noteq> 0 \<and> arena h' xs' A \<and> (\<exists>q\<in>set xs'. n \<le> s_size h' q) \<and>
      (\<forall>a\<in>A. s_size h' a = s_size h a) \<and> space h' xs' = space h xs \<union> {brk h ..< brk h'} \<and> base h' = base h"
proof -
  have u: "0 < nu" "16 * uint nu < 2 ^ 31" "n \<le> nu" using n by (auto simp: nu)
  have c: "c_int (uint nu * 16) = 16 * uint nu"
  proof -
    have "16 * uint nu < 2147483648" using u(2) by simp
    then show ?thesis using uint_ge_0 [of nu] by (subst c_int_id) linarith+
  qed
  have pos: "0 < 16 * uint nu" using u(1) by (simp add: word_less_def)
  have b: "0 < brk h" using arenaD(7,8) [OF a] by simp
  have m: "morecore oom n h = (case sbrk oom (16 * uint nu) h of (p, h) \<Rightarrow> if p = - 1 then Some (0, h)
      else if \<not> mapped h p then None else Option.bind (free (p + 16) (h\<lparr>s_size := (s_size h)(p := nu)\<rparr>)) (\<lambda>h. Some (freep h, h)))"
    unfolding morecore_def Let_def nu [symmetric] c ..
  show ?thesis
  proof (cases "oom (brk h) (16 * uint nu)")
    case True
    then show ?thesis using pos by (simp add: m sbrk_def)
  next
    case False
    let ?g = "h\<lparr>brk := brk h + 16 * uint nu, s_size := (s_size h)(brk h := nu)\<rparr>"
    have "brk h + 16 * uint nu < 2 ^ 31" using oom False by (meson not_less)
    note g = arena_grow [OF a u(1) this refl]
    from free_ok [OF g(1) insertI1] obtain h' xs' where h': "free (brk h + 16) ?g = Some h'" "arena h' xs' (insert (brk h) A - {brk h})"
      "space h' xs' = space ?g xs \<union> {brk h ..< brk h + len ?g (brk h)}" "\<exists>q\<in>set xs'. s_size ?g (brk h) \<le> s_size h' q"
      "\<forall>a\<in>insert (brk h) A - {brk h}. s_size h' a = s_size ?g a" "base h' = base ?g" "brk h' = brk ?g" by blast
    have A: "insert (brk h) A - {brk h} = A" using g(2) by simp
    have "mapped (h\<lparr>brk := brk h + 16 * uint nu\<rparr>) (brk h)" using u(1) by (intro mapped_below) (simp add: word_less_def)
    then have "morecore oom n h = Some (freep h', h')" using False b pos h'(1) by (simp add: m sbrk_def)
    moreover have "freep h' \<noteq> 0" using arenaD(3,7) [OF h'(2)] arena_above [OF h'(2), of "freep h'"] by auto
    moreover have "\<exists>q\<in>set xs'. n \<le> s_size h' q" using h'(4) u(3) by (auto intro: order_trans)
    moreover have "brk h \<notin> set xs" using arenaD(5) [OF g(1)] by blast
    then have "space ?g xs = space h xs" by (intro space_cong) auto
    ultimately show ?thesis using False h' A g(2) by (auto simp: len_def)
  qed
qed

section \<open>Allocation\<close>

text \<open>What a call of \<open>malloc\<close> for \<open>n\<close> units leaves: no block, or one more.\<close>

definition allocated :: "uheap \<Rightarrow> int list \<Rightarrow> int set \<Rightarrow> 32 word \<Rightarrow> int \<Rightarrow> uheap \<Rightarrow> bool" where
  "allocated h xs A n r h' \<longleftrightarrow> (\<exists>xs'. arena h' xs' (insert (r - 16) A) \<and> r - 16 \<notin> A \<and> s_size h' (r - 16) = n \<and>
     (\<forall>a\<in>A. s_size h' a = s_size h a) \<and> space h' xs' \<union> {r - 16 ..< r - 16 + len h' (r - 16)} = space h xs \<union> {brk h ..< brk h'})"

lemma malloc_present:
  assumes a: "arena h xs A" and n: "0 < n" "\<exists>q\<in>set xs. n \<le> s_size h q"
  shows "\<exists>r h'. malloc_loop oom n (freep h) (s_ptr h (freep h)) h = Some (r, h') \<and> allocated h xs A n r h' \<and> brk h' = brk h"
proof -
  from malloc_carves [OF a n] obtain us q vs where q: "xs = us @ q # vs" "n \<le> s_size h q"
    "malloc_loop oom n (freep h) (s_ptr h (freep h)) h = carve n (last (base h # us)) q h" by blast
  obtain r h' where c: "carve n (last (base h # us)) q h = Some (r, h')" using carve_returns [OF a [unfolded q(1)] n(1) q(2)] by blast
  from carve_ok [OF a [unfolded q(1)] n(1) q(2) c] show ?thesis using q c unfolding allocated_def by auto
qed

lemma malloc_loop_ok:
  assumes a: "arena h xs A" and n: "0 < n" "16 * uint n < 2 ^ 31" and oom: "\<forall>b k. 2 ^ 31 \<le> b + k \<longrightarrow> oom b k"
    and nu: "nu = (if n < 4096 then 4096 else n)"
  shows "if (\<forall>q\<in>set xs. s_size h q < n) \<and> oom (brk h) (16 * uint nu) then malloc_loop oom n (freep h) (s_ptr h (freep h)) h = Some (0, h)
    else \<exists>r h'. malloc_loop oom n (freep h) (s_ptr h (freep h)) h = Some (r, h') \<and> allocated h xs A n r h'"
proof (cases "\<forall>q\<in>set xs. s_size h q < n")
  case False
  then have "\<exists>q\<in>set xs. n \<le> s_size h q" by (auto simp: not_less)
  from malloc_present [OF a n(1) this, of oom] show ?thesis using False by auto
next
  case True
  obtain ys where ys: "path (s_ptr h) (freep h) ys (freep h)" "freep h \<notin> set ys" "set (ys @ [freep h]) = set (base h # xs)"
    by (rule arena_rotate [OF a])
  have "\<forall>q\<in>set (ys @ [freep h]). \<not> n \<le> s_size h q" using True n(1) arenaD(4) [OF a] unfolding ys(3) by (auto simp: not_le)
  note m = malloc_not_found [OF ys(1,2) this, of oom]
  note M = morecore_ok [OF a n oom nu]
  show ?thesis
  proof (cases "oom (brk h) (16 * uint nu)")
    case oom: True
    then show ?thesis using True M m by simp
  next
    case no: False
    then obtain h1 xs1 where h1: "morecore oom n h = Some (freep h1, h1)" "freep h1 \<noteq> 0" "arena h1 xs1 A" "\<exists>q\<in>set xs1. n \<le> s_size h1 q"
      "\<forall>a\<in>A. s_size h1 a = s_size h a" "space h1 xs1 = space h xs \<union> {brk h ..< brk h1}" using M by auto
    from malloc_present [OF h1(3) n(1) h1(4)] obtain r h' where r: "malloc_loop oom n (freep h1) (s_ptr h1 (freep h1)) h1 = Some (r, h')"
      "allocated h1 xs1 A n r h'" "brk h' = brk h1" by blast
    have "allocated h xs A n r h'" using r(2,3) h1(5,6) unfolding allocated_def by auto
    then show ?thesis using r(1) no m h1(1,2) by auto
  qed
qed

text \<open>A heap in use, or one where nothing has been allocated yet.\<close>

definition heap_ok :: "uheap \<Rightarrow> int list \<Rightarrow> int set \<Rightarrow> bool" where
  "heap_ok h xs A \<longleftrightarrow> arena h xs A \<or>
     freep h = 0 \<and> xs = [] \<and> A = {} \<and> 0 < base h \<and> base h + 16 \<le> brk h \<and> brk h < 2 ^ 31"

lemma malloc_init_arena:
  assumes "heap_ok h xs A"
  shows "arena (malloc_init h) xs A" "brk (malloc_init h) = brk h" "space (malloc_init h) xs = space h xs" "\<forall>a\<in>A \<union> set xs. s_size (malloc_init h) a = s_size h a"
proof -
  have "arena h xs A \<Longrightarrow> freep h \<noteq> 0" using arenaD(3,7) [of h xs A] arena_above [of h xs A "freep h"] by auto
  then show "arena (malloc_init h) xs A" "brk (malloc_init h) = brk h" "space (malloc_init h) xs = space h xs" "\<forall>a\<in>A \<union> set xs. s_size (malloc_init h) a = s_size h a"
    using assms by (auto simp: heap_ok_def malloc_init_def arena_def blocks_ok_def)
qed

lemma units_bounds:
  assumes "nbytes \<le> 0x7fffffe0"
  shows "0 < units nbytes" "16 * uint (units nbytes) < 2 ^ 31" "uint nbytes + 16 \<le> 16 * uint (units nbytes)"
proof -
  obtain x where x: "uint nbytes = x" "0 \<le> x" "x \<le> 0x7fffffe0" using assms uint_ge_0 by (simp add: word_le_def)
  then have k: "0 \<le> (x + 15) div 16" "(x + 15) div 16 < 0x7ffffff" "x \<le> 16 * ((x + 15) div 16)" by presburger+
  have u: "uint (units nbytes) = (x + 15) div 16 + 1"
  proof -
    have "x + 16 - 1 = x + 15" by simp
    then have "units nbytes = word_of_int ((x + 15) div 16 + 1)" unfolding units_def x(1) by (simp only:)
    then show ?thesis using k by (simp only: uint_word_of_int) simp
  qed
  show "0 < units nbytes" "16 * uint (units nbytes) < 2 ^ 31" "uint nbytes + 16 \<le> 16 * uint (units nbytes)"
    using k by (simp_all add: word_less_def u x(1))
qed

lemma malloc_ok:
  assumes "heap_ok h xs A" "nbytes \<le> 0x7fffffe0" "\<forall>b k. 2 ^ 31 \<le> b + k \<longrightarrow> oom b k"
  shows "\<exists>r h'. malloc oom nbytes h = Some (r, h') \<and>
    (r = 0 \<longleftrightarrow> (\<forall>q\<in>set xs. s_size h q < units nbytes) \<and> oom (brk h) (16 * max 4096 (uint (units nbytes)))) \<and>
    (if r = 0 then arena h' xs A \<and> (\<forall>a\<in>A \<union> set xs. s_size h' a = s_size h a)
     else \<exists>xs'. arena h' xs' (insert (r - 16) A) \<and> r - 16 \<notin> A \<and> (\<forall>a\<in>A. s_size h' a = s_size h a) \<and>
       (\<forall>a\<in>A. {r - 16 ..< r + uint nbytes} \<inter> {a ..< a + len h a} = {}) \<and>
       space h' xs' \<union> {r - 16 ..< r - 16 + len h' (r - 16)} = space h xs \<union> {brk h ..< brk h'} \<and> r + uint nbytes \<le> r - 16 + len h' (r - 16))"
proof -
  define n where "n = units nbytes"
  define nu where "nu = (if n < 4096 then 4096 else n)"
  have nu_uint: "uint nu = max 4096 (uint n)" by (simp add: nu_def word_less_def max_def)
  note U = units_bounds [OF assms(2), folded n_def] and I = malloc_init_arena [OF assms(1)]
  let ?h = "malloc_init h" and ?no = "(\<forall>q\<in>set xs. s_size h q < n) \<and> oom (brk h) (16 * uint nu)"
  have m: "malloc oom nbytes h = malloc_loop oom n (freep ?h) (s_ptr ?h (freep ?h)) ?h" by (simp add: malloc_def n_def Let_def)
  have L: "if ?no then malloc oom nbytes h = Some (0, ?h) else \<exists>r h'. malloc oom nbytes h = Some (r, h') \<and> allocated ?h xs A n r h'"
    using malloc_loop_ok [OF I(1) U(1,2) assms(3) nu_def] I(2,4) unfolding m by simp
  show ?thesis
  proof (cases ?no)
    case True
    then show ?thesis using L I unfolding n_def [symmetric] nu_uint [symmetric] by simp
  next
    case False
    then obtain r h' where r: "malloc oom nbytes h = Some (r, h')" "allocated ?h xs A n r h'" using L unfolding if_not_P [OF False] by blast
    then obtain xs' where x: "arena h' xs' (insert (r - 16) A)" "r - 16 \<notin> A" "s_size h' (r - 16) = n" "\<forall>a\<in>A. s_size h' a = s_size h a"
      "space h' xs' \<union> {r - 16 ..< r - 16 + len h' (r - 16)} = space h xs \<union> {brk h ..< brk h'}"
      using I unfolding allocated_def by auto
    have len: "r + uint nbytes \<le> r - 16 + len h' (r - 16)" using U(3) x(3) by (simp add: len_def)
    have "base h' < r - 16" "0 < base h'" using arena_above [OF x(1), of "r - 16"] arenaD(7) [OF x(1)] by simp_all
    then have r0: "r \<noteq> 0" by simp
    have dis: "\<forall>a\<in>A. {r - 16 ..< r + uint nbytes} \<inter> {a ..< a + len h a} = {}"
    proof
      fix a assume a: "a \<in> A"
      have "a \<noteq> r - 16" "len h a = len h' a" using a x(2,4) by (auto simp: len_def)
      moreover from this have "a + len h' a \<le> r - 16 \<or> r - 16 + len h' (r - 16) \<le> a"
        using blocks_okD(4) [OF arenaD(6) [OF x(1)], of a "r - 16"] blocks_okD(4) [OF arenaD(6) [OF x(1)], of "r - 16" a] a
        by (cases "a < r - 16") auto
      ultimately show "{r - 16 ..< r + uint nbytes} \<inter> {a ..< a + len h a} = {}" using len by auto
    qed
    show ?thesis using r(1) r0 False x dis len unfolding n_def [symmetric] nu_uint [symmetric] by (intro exI [of _ r] exI [of _ h']) auto
  qed
qed

text \<open>What a client of the allocator needs.\<close>

lemma malloc_heap:
  assumes "heap_ok h xs A" "nbytes \<le> 0x7fffffe0" "\<forall>b k. 2 ^ 31 \<le> b + k \<longrightarrow> oom b k"
  shows "\<exists>r h' xs' B. malloc oom nbytes h = Some (r, h') \<and> heap_ok h' xs' B \<and> A \<subseteq> B \<and> (\<forall>a\<in>A. s_size h' a = s_size h a) \<and>
    (r \<noteq> 0 \<longrightarrow> r - 16 \<in> B - A \<and> r + uint nbytes \<le> r - 16 + len h' (r - 16))"
proof -
  from malloc_ok [OF assms] obtain r h' where m: "malloc oom nbytes h = Some (r, h')" and
    r: "if r = 0 then arena h' xs A \<and> (\<forall>a\<in>A \<union> set xs. s_size h' a = s_size h a)
     else \<exists>xs'. arena h' xs' (insert (r - 16) A) \<and> r - 16 \<notin> A \<and> (\<forall>a\<in>A. s_size h' a = s_size h a) \<and>
       (\<forall>a\<in>A. {r - 16 ..< r + uint nbytes} \<inter> {a ..< a + len h a} = {}) \<and>
       space h' xs' \<union> {r - 16 ..< r - 16 + len h' (r - 16)} = space h xs \<union> {brk h ..< brk h'} \<and> r + uint nbytes \<le> r - 16 + len h' (r - 16)"
    by blast
  show ?thesis
  proof (cases "r = 0")
    case True
    then show ?thesis using r m by (intro exI [of _ r] exI [of _ h'] exI [of _ xs] exI [of _ A]) (simp add: heap_ok_def)
  next
    case False
    then obtain xs' where "arena h' xs' (insert (r - 16) A)" "r - 16 \<notin> A" "\<forall>a\<in>A. s_size h' a = s_size h a"
      "r + uint nbytes \<le> r - 16 + len h' (r - 16)" using r by auto
    then show ?thesis using m by (intro exI [of _ r] exI [of _ h'] exI [of _ xs'] exI [of _ "insert (r - 16) A"]) (auto simp: heap_ok_def)
  qed
qed

text \<open>
  C10: On every state of the heap \<open>malloc\<close> ends for requests up to \<open>2 ^ 31 - 32\<close> bytes.  It returns 0, with nothing
  changed, exactly when no free block is large enough and the kernel refuses more memory.  Otherwise it returns a block
  with room for the bytes that overlaps no block handed out before, keeps the ring of free blocks, and accounts for
  every byte: the block and the free bytes are those that were free and those the kernel gave.
\<close>

theorem malloc_fresh:
  assumes "heap_ok h xs A" "nbytes \<le> 0x7fffffe0" "\<forall>b k. 2 ^ 31 \<le> b + k \<longrightarrow> oom b k"
  shows "\<exists>r h'. malloc oom nbytes h = Some (r, h') \<and>
    (r = 0 \<longleftrightarrow> (\<forall>q\<in>set xs. s_size h q < units nbytes) \<and> oom (brk h) (16 * max 4096 (uint (units nbytes)))) \<and>
    (if r = 0 then arena h' xs A \<and> (\<forall>a\<in>A \<union> set xs. s_size h' a = s_size h a)
     else \<exists>xs'. arena h' xs' (insert (r - 16) A) \<and> (\<forall>a\<in>A. s_size h' a = s_size h a) \<and>
       (\<forall>a\<in>A. {r - 16 ..< r + uint nbytes} \<inter> {a ..< a + len h a} = {}) \<and>
       space h' xs' \<union> {r - 16 ..< r - 16 + len h' (r - 16)} = space h xs \<union> {brk h ..< brk h'} \<and> r + uint nbytes \<le> r - 16 + len h' (r - 16))"
  using malloc_ok [OF assms] by (metis (no_types, lifting))

definition heap_start :: uheap where
  "heap_start = \<lparr>s_ptr = (\<lambda>_. 0), s_size = (\<lambda>_. 0), freep = 0, base = 0x2000, brk = 0x4000\<rparr>"

theorem malloc_fresh_witness:
  "\<exists>r h'. malloc (\<lambda>b k. 2 ^ 27 \<le> b + k) 100 heap_start = Some (r, h') \<and> 0x4010 \<le> r \<and> r + 100 \<le> brk h'"
proof -
  let ?oom = "\<lambda>b k :: int. (2 :: int) ^ 27 \<le> b + k"
  have ok: "heap_ok heap_start [] {}" by (simp add: heap_ok_def heap_start_def)
  have u: "uint (units 100) = 8" by (simp add: units_def)
  from malloc_fresh [OF ok, of 100 ?oom] obtain r h' where r: "malloc ?oom 100 heap_start = Some (r, h')"
    "r \<noteq> 0" "\<exists>xs'. arena h' xs' (insert (r - 16) {}) \<and>
       space h' xs' \<union> {r - 16 ..< r - 16 + len h' (r - 16)} = {brk heap_start ..< brk h'} \<and> r + 100 \<le> r - 16 + len h' (r - 16)"
    by (auto simp: u heap_start_def)
  then obtain xs' where x: "space h' xs' \<union> {r - 16 ..< r - 16 + len h' (r - 16)} = {0x4000 ..< brk h'}" "r + 100 \<le> r - 16 + len h' (r - 16)"
    by (auto simp: heap_start_def)
  then have "{r - 16 ..< r - 16 + len h' (r - 16)} \<subseteq> {0x4000 ..< brk h'}" by blast
  then have "0x4000 \<le> r - 16" "r - 16 + len h' (r - 16) \<le> brk h'" using x(2) by auto
  then show ?thesis using r(1) x(2) by (intro exI [of _ r] exI [of _ h']) simp
qed

text \<open>
  C36: \<open>free\<close> of a block that was handed out ends, keeps the ring in order with no two free blocks touching,
  adds exactly the bytes of the block to the free ones and changes no other block.
\<close>

theorem free_returns:
  assumes "arena h xs A" "ap - 16 \<in> A"
  shows "\<exists>h' xs'. free ap h = Some h' \<and> arena h' xs' (A - {ap - 16}) \<and>
    space h' xs' = space h xs \<union> {ap - 16 ..< ap - 16 + len h (ap - 16)} \<and> (\<forall>a\<in>A - {ap - 16}. s_size h' a = s_size h a)"
proof -
  from free_ok [OF assms] obtain h' xs' where "free (ap - 16 + 16) h = Some h'" "arena h' xs' (A - {ap - 16})"
    "space h' xs' = space h xs \<union> {ap - 16 ..< ap - 16 + len h (ap - 16)}" "\<forall>a\<in>A - {ap - 16}. s_size h' a = s_size h a" by blast
  then show ?thesis by auto
qed

theorem free_returns_witness:
  "\<exists>h' xs'. free 0x4090 \<lparr>s_ptr = (\<lambda>a. if a = 0x2000 then 0x4000 else 0x2000), s_size = (\<lambda>a. if a = 0x4000 \<or> a = 0x4080 then 8 else 0),
      freep = 0x4000, base = 0x2000, brk = 0x4100\<rparr> = Some h' \<and> arena h' xs' {} \<and> space h' xs' = {0x4000 ..< 0x4100}"
proof -
  let ?h = "\<lparr>s_ptr = (\<lambda>a. if a = 0x2000 then 0x4000 else 0x2000), s_size = (\<lambda>a. if a = 0x4000 \<or> a = 0x4080 then 8 else 0),
      freep = 0x4000, base = 0x2000, brk = 0x4100\<rparr>"
  have l: "len ?h 0x4000 = 128" "len ?h 0x4080 = 128" by (simp_all add: len_def)
  have "arena ?h [0x4000] {0x4080}" by (simp add: arena_def blocks_ok_def l)
  from free_returns [OF this, of "0x4090"] obtain h' xs' where "free 0x4090 ?h = Some h'" "arena h' xs' {}"
    "space h' xs' = {0x4000 ..< 0x4080} \<union> {0x4080 ..< 0x4100}" by (auto simp: l)
  moreover have "{0x4000 ..< 0x4080} \<union> {0x4080 ..< 0x4100 :: int} = {0x4000 ..< 0x4100}" by auto
  ultimately show ?thesis by auto
qed




end
