(* ===== verification/Uprintf.thy ===== *)
theory Uprintf
  imports Umalloc_Correct CString
begin

text \<open>
  Formatted printed of the user programs, user/printf.c.  Characters are collected per descriptor in a buffer from
  \<open>malloc\<close>, and written when it is full, at the end of a line or by \<open>fflush\<close>.  The calls of \<open>write\<close> are kept in order.
\<close>

section \<open>Buffers\<close>

record uio =
  uheap_of :: uheap
  umem :: "int \<Rightarrow> byte"
  putc_buf :: "int \<Rightarrow> int"
  putc_index :: "int \<Rightarrow> int"
  written :: "(int \<times> byte list) list"

definition PUTC_BUF_LEN :: int where "PUTC_BUF_LEN = 4096"

text \<open>The number of elements of the arrays \<open>putc_buf\<close> and \<open>putc_index\<close>.\<close>

definition PUTC_FDS :: int where "PUTC_FDS = 100"

definition u_write :: "int \<Rightarrow> int \<Rightarrow> int \<Rightarrow> (uio, unit) kmon" where
  "u_write fd a n = modify (\<lambda>s. s\<lparr>written := written s @ [(fd, map (\<lambda>i. umem s (a + i)) [0..n - 1])]\<rparr>)"

definition get_putc_buf :: "(int \<Rightarrow> int \<Rightarrow> bool) \<Rightarrow> int \<Rightarrow> (uio, int) kmon" where
  "get_putc_buf oom fd =
     (if fd < 0 \<or> PUTC_FDS \<le> fd then failM Out_Of_Bounds
      else bindM (gets (\<lambda>s. putc_buf s fd)) (\<lambda>buf.
       if buf \<noteq> 0 then ret buf
       else bindM (gets (\<lambda>s. malloc oom (word_of_int PUTC_BUF_LEN) (uheap_of s))) (\<lambda>r.
         case r of None \<Rightarrow> failM Diverges
         | Some (buf, h) \<Rightarrow>
             thenM (modify (\<lambda>s. s\<lparr>uheap_of := h, putc_buf := (putc_buf s)(fd := buf), putc_index := (putc_index s)(fd := 0)\<rparr>))
               (ret buf))))"

text \<open>Storing through a null pointer, when \<open>malloc\<close> found no room, is an error of the model.\<close>

definition putc :: "(int \<Rightarrow> int \<Rightarrow> bool) \<Rightarrow> int \<Rightarrow> byte \<Rightarrow> (uio, unit) kmon" where
  "putc oom fd c =
     bindM (get_putc_buf oom fd) (\<lambda>buf.
     if buf = 0 then failM Null_Deref
     else thenM (modify (\<lambda>s. s\<lparr>umem := (umem s)(buf + putc_index s fd := c), putc_index := (putc_index s)(fd := putc_index s fd + 1)\<rparr>))
      (bindM (gets (\<lambda>s. putc_index s fd)) (\<lambda>i.
       whenM (c = 10 \<or> i = PUTC_BUF_LEN)
        (thenM (u_write fd buf i) (modify (\<lambda>s. s\<lparr>putc_index := (putc_index s)(fd := 0)\<rparr>))))))"

definition fflush :: "(int \<Rightarrow> int \<Rightarrow> bool) \<Rightarrow> int \<Rightarrow> (uio, unit) kmon" where
  "fflush oom fd =
     bindM (get_putc_buf oom fd) (\<lambda>buf.
     bindM (gets (\<lambda>s. putc_index s fd)) (\<lambda>i.
     thenM (u_write fd buf i) (modify (\<lambda>s. s\<lparr>putc_index := (putc_index s)(fd := 0)\<rparr>))))"

definition put_all :: "(int \<Rightarrow> int \<Rightarrow> bool) \<Rightarrow> int \<Rightarrow> byte list \<Rightarrow> (uio, unit) kmon" where
  "put_all oom fd bs = forM bs (putc oom fd)"

section \<open>Numbers\<close>

definition u_digit :: "nat \<Rightarrow> byte" where
  "u_digit n = of_char (''0123456789ABCDEF'' ! n)"

text \<open>The loop of \<open>printint\<close> fills \<open>buf\<close> from the front with the least significant digit first.\<close>

function u_digits :: "nat \<Rightarrow> nat \<Rightarrow> byte list" where
  "u_digits b x = u_digit (x mod b) # (if x div b = 0 \<or> b \<le> 1 then [] else u_digits b (x div b))"
  by auto
termination
  by (relation "measure snd") (auto simp: div_greater_zero_iff intro!: div_less_dividend)

declare u_digits.simps [simp del]

definition u_printint_buf :: "32 word \<Rightarrow> nat \<Rightarrow> bool \<Rightarrow> byte list" where
  "u_printint_buf xx b sgned =
     (let neg = (sgned \<and> sint xx < 0); x = (if neg then - xx else xx)
      in u_digits b (unat x) @ (if neg then [45] else []))"

definition u_printint :: "(int \<Rightarrow> int \<Rightarrow> bool) \<Rightarrow> int \<Rightarrow> 32 word \<Rightarrow> nat \<Rightarrow> bool \<Rightarrow> (uio, unit) kmon" where
  "u_printint oom fd xx b sgned = put_all oom fd (rev (u_printint_buf xx b sgned))"

definition u_printptr :: "(int \<Rightarrow> int \<Rightarrow> bool) \<Rightarrow> int \<Rightarrow> 64 word \<Rightarrow> (uio, unit) kmon" where
  "u_printptr oom fd x =
     thenM (putc oom fd 48) (thenM (putc oom fd 120)
       (put_all oom fd (map (\<lambda>i. u_digit (unat (drop_bit 60 (push_bit (4 * i) x)))) [0..<16])))"

section \<open>Formats\<close>

datatype uarg = UInt "32 word" | ULong "64 word" | UStr "byte list option"

text \<open>The loop of \<open>vprintf\<close>; \<open>pct\<close> says that the character before was a percent sign.\<close>

fun vprintf_loop :: "(int \<Rightarrow> int \<Rightarrow> bool) \<Rightarrow> int \<Rightarrow> bool \<Rightarrow> byte list \<Rightarrow> uarg list \<Rightarrow> (uio, unit) kmon" where
  "vprintf_loop oom fd pct [] as = ret ()"
| "vprintf_loop oom fd False (c # fs) as =
     (if c = 37 then vprintf_loop oom fd True fs as else thenM (putc oom fd c) (vprintf_loop oom fd False fs as))"
| "vprintf_loop oom fd True (c # fs) as =
     (if c = 100 then (case as of UInt v # as' \<Rightarrow> thenM (u_printint oom fd v 10 True) (vprintf_loop oom fd False fs as') | _ \<Rightarrow> failM Out_Of_Bounds)
      else if c = 108 then (case as of ULong v # as' \<Rightarrow> thenM (u_printint oom fd (ucast v) 10 False) (vprintf_loop oom fd False fs as') | _ \<Rightarrow> failM Out_Of_Bounds)
      else if c = 120 then (case as of UInt v # as' \<Rightarrow> thenM (u_printint oom fd v 16 False) (vprintf_loop oom fd False fs as') | _ \<Rightarrow> failM Out_Of_Bounds)
      else if c = 112 then (case as of ULong v # as' \<Rightarrow> thenM (u_printptr oom fd v) (vprintf_loop oom fd False fs as') | _ \<Rightarrow> failM Out_Of_Bounds)
      else if c = 115 then (case as of UStr r # as' \<Rightarrow>
          thenM (put_all oom fd (case r of None \<Rightarrow> map of_char ''(null)'' | Some bs \<Rightarrow> bs)) (vprintf_loop oom fd False fs as') | _ \<Rightarrow> failM Out_Of_Bounds)
      else if c = 99 then (case as of UInt v # as' \<Rightarrow> thenM (putc oom fd (ucast v)) (vprintf_loop oom fd False fs as') | _ \<Rightarrow> failM Out_Of_Bounds)
      else if c = 37 then thenM (putc oom fd c) (vprintf_loop oom fd False fs as)
      else thenM (putc oom fd 37) (thenM (putc oom fd c) (vprintf_loop oom fd False fs as)))"

definition vprintf :: "(int \<Rightarrow> int \<Rightarrow> bool) \<Rightarrow> int \<Rightarrow> byte list \<Rightarrow> uarg list \<Rightarrow> (uio, unit) kmon" where
  "vprintf oom fd fmt as = vprintf_loop oom fd False fmt as"

definition fprintf :: "(int \<Rightarrow> int \<Rightarrow> bool) \<Rightarrow> int \<Rightarrow> string \<Rightarrow> uarg list \<Rightarrow> (uio, unit) kmon" where
  "fprintf oom fd fmt as = vprintf oom fd (map of_char fmt) as"

definition u_printf :: "(int \<Rightarrow> int \<Rightarrow> bool) \<Rightarrow> string \<Rightarrow> uarg list \<Rightarrow> (uio, unit) kmon" where
  "u_printf oom fmt as = vprintf oom 1 (map of_char fmt) as"

section \<open>What has been printed\<close>

















lemma put_all_simps [simp]: "put_all oom fd [] = ret ()" "put_all oom fd (c # bs) = thenM (putc oom fd c) (put_all oom fd bs)"
  by (simp_all add: put_all_def)


lemma abs_sint: "unat (if sint x < 0 then - x else x) = nat \<bar>sint (x :: 32 word)\<bar>"
proof -
  have r: "- 2147483648 \<le> sint x" "sint x < 2147483648" using sint_ge [of x] sint_lt [of x] by simp_all
  have "(if sint x < 0 then - x else x) = word_of_int \<bar>sint x\<bar>" by simp
  then have "uint (if sint x < 0 then - x else x) = \<bar>sint x\<bar> mod 2 ^ 32" by (simp only: uint_word_of_int) simp
  then have "int (unat (if sint x < 0 then - x else x)) = \<bar>sint x\<bar>" using r by (simp only: of_nat_unat) simp
  then show ?thesis by (metis nat_int)
qed







section \<open>Decimal numbers\<close>

lemma u_digit_dec: "d < 10 \<Longrightarrow> is_digit (u_digit d) \<and> uint (u_digit d) - 48 = int d"
proof -
  assume "d < 10"
  then have "d = 0 \<or> d = 1 \<or> d = 2 \<or> d = 3 \<or> d = 4 \<or> d = 5 \<or> d = 6 \<or> d = 7 \<or> d = 8 \<or> d = 9" by presburger
  then show ?thesis by (elim disjE) (simp_all add: u_digit_def is_digit_def)
qed

lemma dec_val_app: "dec_val (xs @ ys) n = dec_val ys (dec_val xs n)"
  by (simp add: dec_val_def)

lemma u_digits_dec: "list_all is_digit (u_digits 10 x) \<and> dec_val (rev (u_digits 10 x)) 0 = int x"
proof (induction x rule: less_induct)
  case (less x)
  show ?case
  proof (cases "x div 10 = 0")
    case True
    then show ?thesis using u_digit_dec [of "x mod 10"] by (subst (1 2) u_digits.simps) (simp add: dec_val_def)
  next
    case False
    have "list_all is_digit (u_digits 10 (x div 10)) \<and> dec_val (rev (u_digits 10 (x div 10))) 0 = int (x div 10)"
      by (rule less.IH) (use False in simp)
    moreover have "int x = int (x div 10) * 10 + int (x mod 10)" by (metis mult.commute mult_div_mod_eq of_nat_add of_nat_mult of_nat_numeral)
    ultimately show ?thesis using False u_digit_dec [of "x mod 10"]
      by (subst (1 2) u_digits.simps) (simp add: dec_val_app dec_val_def [of "[_]"])
  qed
qed

lemma u_digits_length: "2 \<le> b \<Longrightarrow> x < b ^ k \<Longrightarrow> 0 < k \<Longrightarrow> length (u_digits b x) \<le> k"
proof (induction k arbitrary: x)
  case (Suc k)
  show ?case
  proof (cases "x div b = 0")
    case True
    then show ?thesis by (subst u_digits.simps) simp
  next
    case False
    have "x div b < b ^ k" using Suc.prems by (simp add: less_mult_imp_div_less mult.commute)
    moreover have "0 < k" using False Suc.prems(2) by (cases k) auto
    ultimately have "length (u_digits b (x div b)) \<le> k" using Suc by simp
    then show ?thesis by (subst u_digits.simps) simp
  qed
qed simp

text \<open>
  C39: The number \<open>printint\<close> puts into its buffer of 16 bytes fits it, in both bases; in base 10 it is written as a minus
  sign for negative numbers and at most 10 decimal digits, whose value is the absolute value of the number, the smallest
  one included.
\<close>

theorem printint_decimal:
  "length (u_printint_buf x 10 sg) \<le> 16 \<and> length (u_printint_buf x 16 sg) \<le> 16 \<and>
   (\<exists>ds. rev (u_printint_buf x 10 True) = (if sint x < 0 then [45] else []) @ ds \<and> list_all is_digit ds \<and> length ds \<le> 10 \<and> dec_val ds 0 = \<bar>sint x\<bar>)"
proof -
  let ?x = "\<lambda>sg. if sg \<and> sint x < 0 then - x else x"
  have len: "length (u_digits 10 (unat y)) \<le> 10" "length (u_digits 16 (unat y)) \<le> 8" for y :: "32 word"
  proof -
    have "unat y < 4294967296" using unsigned_less [of y, where 'a = nat] by simp
    then show "length (u_digits 10 (unat y)) \<le> 10" "length (u_digits 16 (unat y)) \<le> 8"
      using u_digits_length [of 10 "unat y" 10] u_digits_length [of 16 "unat y" 8] by simp_all
  qed
  have buf: "u_printint_buf x b sg = u_digits b (unat (?x sg)) @ (if sg \<and> sint x < 0 then [45] else [])" for b sg
    by (simp add: u_printint_buf_def Let_def)
  have "dec_val (rev (u_digits 10 (unat (?x True)))) 0 = \<bar>sint x\<bar>" using u_digits_dec [of "unat (?x True)"] abs_sint [of x] by simp
  moreover have "list_all is_digit (rev (u_digits 10 (unat (?x True))))" using u_digits_dec [of "unat (?x True)"] by (simp add: list_all_iff)
  moreover have "length (u_printint_buf x 10 sg) \<le> 16" "length (u_printint_buf x 16 sg) \<le> 16"
    unfolding buf using len(1) [of "?x sg"] len(2) [of "?x sg"] by auto
  ultimately show ?thesis using len(1) [of "?x True"] unfolding buf
    by (intro conjI exI [of _ "rev (u_digits 10 (unat (?x True)))"]) simp_all
qed




end
