(* ===== verification/Bio_Client.thy ===== *)
theory Bio_Client
  imports Log_Atomic
begin

text \<open>
  The buffer cache as its clients see it: reading blocks through \<open>bread\<close>, changing them, and writing them back
  with \<open>bwrite\<close> and \<open>brelse\<close> is the same as changing the disk directly.
\<close>

definition edit_block :: "32 word \<times> 32 word \<times> (byte list \<Rightarrow> byte list) \<Rightarrow> ('a bstate_scheme, unit) kmon" where
  "edit_block = (\<lambda>(d, n, f).
     bindM (bread d n) (\<lambda>b.
     thenM (upd_buf b (\<lambda>x. x\<lparr>data := f (data x)\<rparr>))
    (thenM (bwrite b) (brelse b))))"

definition edited_disk :: "(32 word \<times> 32 word \<times> (byte list \<Rightarrow> byte list)) list \<Rightarrow> (block \<Rightarrow> byte list) \<Rightarrow> block \<Rightarrow> byte list" where
  "edited_disk us D = fold (\<lambda>(d, n, f) D. D((d, n) := f (D (d, n)))) us D"

text \<open>
  The blocks a client may ask for: those the driver can address, on one of the disks, without block 0 of disk 0, which
  an unused buffer is taken to hold.
\<close>

definition on_disk :: "32 word \<Rightarrow> 32 word \<Rightarrow> bool" where
  "on_disk d n \<longleftrightarrow> unat d < NDISK \<and> unat n < 2 ^ 31 \<and> (d, n) \<noteq> (0, 0)"

text \<open>No buffer is in use.\<close>

definition idle_cache :: "nat \<Rightarrow> 'a \<Rightarrow> (block \<Rightarrow> byte list) \<Rightarrow> 'a bstate_scheme \<Rightarrow> bool" where
  "idle_cache p E D s \<longleftrightarrow> act p E (\<lambda>_. 0) {} D D s"

lemma edit_block_ok:
  assumes s: "idle_cache p E D s" and k: "(d, n) \<noteq> (0, 0)"
  shows "wpM (edit_block (d, n, f)) (\<lambda>_. idle_cache p E (D((d, n) := f (D (d, n))))) s"
  unfolding edit_block_def prod.case wp_bind wp_then
proof (rule wp_bread [OF s [unfolded idle_cache_def] refl k])
  let ?k = "(d, n)" and ?R = "(\<lambda>_. 0)((d, n) := 0 + 1) :: block \<Rightarrow> 32 word" and ?V = "D((d, n) := f (D (d, n)))"
  fix b t
  assume t: "act p E ?R (insert ?k {}) D D t" "buf_at b ?k t"
  show "wpM (upd_buf b (\<lambda>x. x\<lparr>data := f (data x)\<rparr>)) (\<lambda>_. wpM (bwrite b) (\<lambda>_. wpM (brelse b) (\<lambda>_. idle_cache p E ?V))) t"
  proof (rule wp_data [OF t])
    fix u
    assume u: "act p E ?R (insert ?k {}) D ?V u" "\<forall>c k'. buf_at c k' t \<longrightarrow> buf_at c k' u"
    show "wpM (bwrite b) (\<lambda>_. wpM (brelse b) (\<lambda>_. idle_cache p E ?V)) u"
    proof (rule wp_bwrite [OF u(1)])
      show "buf_at b ?k u" using t(2) u(2) by blast
      fix v
      assume v: "act p E ?R (insert ?k {}) (D(?k := ?V ?k)) ?V v" "\<forall>c k'. buf_at c k' u \<longrightarrow> buf_at c k' v"
      show "wpM (brelse b) (\<lambda>_. idle_cache p E ?V) v"
      proof (rule wp_brelse [OF v(1)])
        show "buf_at b ?k v" using t(2) u(2) v(2) by blast
        fix w
        assume "act p E (?R(?k := ?R ?k - 1)) (insert ?k {} - {?k}) (D(?k := ?V ?k)) ?V w"
        moreover have "?R(?k := ?R ?k - 1) = (\<lambda>_. 0)" by (simp add: fun_eq_iff)
        ultimately show "idle_cache p E ?V w" by (simp add: idle_cache_def)
      qed simp_all
    qed simp
  qed simp_all
qed (simp_all add: NBUF_def MAXOPBLOCKS_def)

text \<open>
  C37: The buffer cache is transparent.  From a cache no buffer of which is in use, any sequence of changes of blocks below
  \<open>2 ^ 31\<close> on the two disks, block 0 of disk 0 excepted,
  through \<open>bread\<close>, \<open>bwrite\<close> and \<open>brelse\<close> runs to its end whatever is cached, keeps the cache well formed (the list of all
  buffers, one buffer per block, reference counts, locks, contents) and leaves the disk with exactly these changes.
\<close>

theorem cache_transparent:
  assumes "idle_cache p E D s" "\<forall>(d, n, f) \<in> set us. on_disk d n"
  shows "\<exists>t. forM us edit_block s = Inr ((), t) \<and> idle_cache p E (edited_disk us D) t \<and> (\<forall>d n. disk t d n = edited_disk us D (d, n))"
proof -
  have "\<exists>t. forM us edit_block s = Inr ((), t) \<and> idle_cache p E (edited_disk us D) t"
    using assms
  proof (induction us arbitrary: s D)
    case Nil
    then show ?case by (simp add: ret_apply edited_disk_def)
  next
    case (Cons u us)
    obtain d n f where u: "u = (d, n, f)" by (cases u)
    let ?D = "D((d, n) := f (D (d, n)))"
    have k: "(d, n) \<noteq> (0, 0)" "\<forall>(d, n, f) \<in> set us. on_disk d n" using Cons.prems(2) by (auto simp: u on_disk_def)
    from edit_block_ok [OF Cons.prems(1) k(1), of f] obtain t where t: "edit_block u s = Inr ((), t)" "idle_cache p E ?D t"
      by (auto simp: u wpM_def split: sum.splits)
    from Cons.IH [OF t(2) k(2)] obtain t' where t': "forM us edit_block t = Inr ((), t')" "idle_cache p E (edited_disk us ?D) t'" by blast
    have "edited_disk (u # us) D = edited_disk us ?D" by (simp add: edited_disk_def u)
    then show ?case using t t' by (simp add: thenM_run)
  qed
  then show ?thesis using act_disk unfolding idle_cache_def by fastforce
qed

theorem cache_transparent_witness:
  "\<exists>t. forM [(0, 40, \<lambda>bs. bs[0 := 7]), (1, 9, \<lambda>bs. bs[1 := 8]), (0, 40, \<lambda>bs. bs[1 := 9])] edit_block (disk_boot boot_bufs zeros) = Inr ((), t) \<and>
    disk t 0 40 = (replicate BSIZE 0)[0 := 7, 1 := 9] \<and> disk t 1 9 = (replicate BSIZE 0)[1 := 8]"
proof -
  let ?us = "[(0, 40, \<lambda>bs. bs[0 := 7]), (1, 9, \<lambda>bs. bs[1 := 8]), (0, 40, \<lambda>bs. bs[1 := 9])] :: (32 word \<times> 32 word \<times> (byte list \<Rightarrow> byte list)) list"
  have d: "dsk (disk_boot boot_bufs zeros) = (\<lambda>_. replicate BSIZE 0)" by (rule ext) (simp add: dsk_def disk_boot_def)
  have "idle_cache 1 (bstate.more (disk_boot boot_bufs zeros)) (\<lambda>_. replicate BSIZE 0) (disk_boot boot_bufs zeros)"
    using lact_act [OF reboot_lact [of zeros]] unfolding idle_cache_def d by (metis act_more)
  from cache_transparent [OF this, of ?us] show ?thesis by (auto simp: edited_disk_def on_disk_def NDISK_def)
qed

end
