(* ===== verification/Mkfs.thy ===== *)
theory Mkfs
  imports Fs_Dir Bytes
begin

text \<open>
  The builder of disk images, mkfs/mkfs.c, with the layout of kernel/fs.h that the kernel reads.  The image is its
  sectors; reading beyond its end ends the program, as the failed assertions do.  The host's calls of \<open>lseek\<close>,
  \<open>read\<close> and \<open>write\<close> on the image succeed otherwise.
\<close>

section \<open>Layout\<close>

definition FSSIZE :: nat where "FSSIZE = 2000"

definition NINODES :: nat where "NINODES = 200"

definition nbitmap :: nat where "nbitmap = FSSIZE div (BSIZE * 8) + 1"

definition ninodeblocks :: nat where "ninodeblocks = NINODES div IPB + 1"

definition nmeta :: nat where "nmeta = 2 + LOGSIZE + ninodeblocks + nbitmap"

text \<open>Conversion to the byte order of the disk; the host has it, too.\<close>

definition xshort :: "16 word \<Rightarrow> 16 word" where
  "xshort x = of_le [ucast x, ucast (drop_bit 8 x)]"

definition xint :: "32 word \<Rightarrow> 32 word" where
  "xint x = of_le [ucast x, ucast (drop_bit 8 x), ucast (drop_bit 16 x), ucast (drop_bit 24 x)]"

definition mk_sb :: superblock where
  "mk_sb = \<lparr>magic = FSMAGIC, sb_size = xint (of_nat FSSIZE), nblocks = xint (of_nat (FSSIZE - nmeta)), ninodes = xint (of_nat NINODES),
     nlog = xint (of_nat LOGSIZE), logstart = xint 2, inodestart = xint (2 + of_nat LOGSIZE),
     bmapstart = xint (2 + of_nat LOGSIZE + of_nat ninodeblocks)\<rparr>"

definition encode_sb :: "superblock \<Rightarrow> byte list" where
  "encode_sb sb = concat (map (le_bytes 4) [magic sb, sb_size sb, nblocks sb, ninodes sb, nlog sb, logstart sb, inodestart sb, bmapstart sb])"

section \<open>Sectors and inodes\<close>

record img =
  sects :: "nat \<Rightarrow> byte list"
  nsects :: nat
  freeinode :: "32 word"
  freeblock :: "32 word"

text \<open>The state at the start: the image is truncated.\<close>

definition new_img :: img where
  "new_img = \<lparr>sects = \<lambda>_. [], nsects = 0, freeinode = 1, freeblock = 0\<rparr>"

definition wsect :: "32 word \<Rightarrow> byte list \<Rightarrow> (img, unit) kmon" where
  "wsect sec buf = modify (\<lambda>s. s\<lparr>sects := (sects s)(unat sec := buf), nsects := max (nsects s) (unat sec + 1)\<rparr>)"

definition rsect :: "32 word \<Rightarrow> (img, byte list) kmon" where
  "rsect sec = bindM (gets nsects) (\<lambda>n. if unat sec < n then gets (\<lambda>s. sects s (unat sec)) else panic ''read'')"

definition winode :: "32 word \<Rightarrow> dinode \<Rightarrow> (img, unit) kmon" where
  "winode i ip =
     (let bn = IBLOCK i mk_sb in
      bindM (rsect bn) (\<lambda>buf. wsect bn (put_dinode buf (unat i mod IPB) ip)))"

definition rinode :: "32 word \<Rightarrow> (img, dinode) kmon" where
  "rinode i = (let bn = IBLOCK i mk_sb in bindM (rsect bn) (\<lambda>buf. ret (get_dinode buf (unat i mod IPB))))"

definition new_block :: "(img, 32 word) kmon" where
  "new_block = bindM (gets freeblock) (\<lambda>b. thenM (modify (\<lambda>s. s\<lparr>freeblock := b + 1\<rparr>)) (ret b))"

definition mk_ialloc :: "16 word \<Rightarrow> (img, 32 word) kmon" where
  "mk_ialloc ty =
     bindM (gets freeinode) (\<lambda>i.
     thenM (modify (\<lambda>s. s\<lparr>freeinode := i + 1\<rparr>))
    (thenM (winode i \<lparr>d_type = xshort ty, d_major = 0, d_minor = 0, d_nlink = xshort 1, d_size = xint 0, d_addrs = replicate (NDIRECT + 1) 0\<rparr>)
       (ret i)))"

text \<open>The bitmap: the first \<open>n\<close> blocks are in use.\<close>

definition used_bits :: "nat \<Rightarrow> byte list" where
  "used_bits n = fold (\<lambda>i buf. buf[i div 8 := buf ! (i div 8) OR push_bit (i mod 8) 1]) [0..<n] (replicate BSIZE 0)"

definition mk_balloc :: "nat \<Rightarrow> (img, unit) kmon" where
  "mk_balloc n = (if n < BSIZE * 8 then wsect (bmapstart mk_sb) (used_bits n) else panic ''assert'')"

section \<open>Contents of files\<close>

text \<open>The block for the file's block \<open>fbn\<close>, made if there is none, and the inode with it.\<close>

definition map_block :: "dinode \<Rightarrow> nat \<Rightarrow> (img, 32 word \<times> dinode) kmon" where
  "map_block din fbn =
     (if fbn < NDIRECT
      then bindM (if xint (d_addrs din ! fbn) = 0
                  then bindM new_block (\<lambda>b. ret (din\<lparr>d_addrs := (d_addrs din)[fbn := xint b]\<rparr>)) else ret din) (\<lambda>din.
           ret (xint (d_addrs din ! fbn), din))
      else bindM (if xint (d_addrs din ! NDIRECT) = 0
                  then bindM new_block (\<lambda>b. ret (din\<lparr>d_addrs := (d_addrs din)[NDIRECT := xint b]\<rparr>)) else ret din) (\<lambda>din.
           bindM (rsect (xint (d_addrs din ! NDIRECT))) (\<lambda>indirect.
           if get32 indirect (fbn - NDIRECT) = 0
           then bindM new_block (\<lambda>b. let indirect = put32 indirect (fbn - NDIRECT) (xint b) in
             thenM (wsect (xint (d_addrs din ! NDIRECT)) indirect) (ret (xint (get32 indirect (fbn - NDIRECT)), din)))
           else ret (xint (get32 indirect (fbn - NDIRECT)), din))))"

lemma block_left: "off < BSIZE + off div BSIZE * BSIZE"
  using div_mod_decomp [of off BSIZE] mod_less_divisor [of BSIZE off] by (simp add: BSIZE_def)

lemma piece_shorter: "p \<noteq> [] \<Longrightarrow> length p - min (length p) (BSIZE + off div BSIZE * BSIZE - off) < length p"
  using block_left [of off] by simp

function iappend_loop :: "dinode \<Rightarrow> nat \<Rightarrow> byte list \<Rightarrow> (img, dinode \<times> nat) kmon" where
  "iappend_loop din off p =
     (if p = [] then ret (din, off)
      else let fbn = off div BSIZE; n1 = min (length p) ((fbn + 1) * BSIZE - off) in
       if MAXFILE \<le> fbn then panic ''assert''
       else bindM (map_block din fbn) (\<lambda>(x, din).
         bindM (rsect x) (\<lambda>buf.
         thenM (wsect x (put_at buf (off - fbn * BSIZE) (take n1 p))) (iappend_loop din (off + n1) (drop n1 p)))))"
  by pat_completeness auto
termination
  by (relation "measure (\<lambda>(din, off, p). length p)") (auto intro: piece_shorter)

declare iappend_loop.simps [simp del]

definition iappend :: "32 word \<Rightarrow> byte list \<Rightarrow> (img, unit) kmon" where
  "iappend i p =
     bindM (rinode i) (\<lambda>din.
     bindM (iappend_loop din (unat (xint (d_size din))) p) (\<lambda>(din, off).
     winode i (din\<lparr>d_size := xint (of_nat off)\<rparr>)))"

section \<open>The program\<close>

definition dir_entry :: "32 word \<Rightarrow> byte list \<Rightarrow> byte list" where
  "dir_entry i name = encode_dirent \<lparr>de_inum = xshort (ucast i), de_name = pad_name name\<rparr>"

text \<open>The name in the file system of a file of the host.\<close>

definition shortname :: "byte list \<Rightarrow> byte list" where
  "shortname arg = (if take 5 arg = map of_char ''user/'' then drop 5 arg else arg)"

definition skip_underscore :: "byte list \<Rightarrow> byte list" where
  "skip_underscore name = (if name \<noteq> [] \<and> hd name = of_char (CHR ''_'') then tl name else name)"

text \<open>
  A file given to the program: its name, and the pieces that calls of \<open>read\<close> return one after the other, or none if it cannot
  be opened.  The loop ends at the first call that returns no byte.
\<close>

definition add_file :: "32 word \<Rightarrow> byte list \<times> byte list list option \<Rightarrow> (img, unit) kmon" where
  "add_file rootino = (\<lambda>(arg, chunks).
     let name = shortname arg in
     if of_char (CHR ''/'') \<in> set name then panic ''assert''
     else case chunks of None \<Rightarrow> panic ''open''
     | Some pieces \<Rightarrow>
         bindM (mk_ialloc T_FILE) (\<lambda>i.
         thenM (iappend rootino (dir_entry i (skip_underscore name)))
           (forM (takeWhile (\<lambda>piece. piece \<noteq> []) pieces) (iappend i))))"

definition mkfs_main :: "(byte list \<times> byte list list option) list \<Rightarrow> (img, unit) kmon" where
  "mkfs_main files =
     thenM (modify (\<lambda>s. s\<lparr>freeblock := of_nat nmeta\<rparr>))
    (thenM (forM [0..<FSSIZE] (\<lambda>i. wsect (of_nat i) (replicate BSIZE 0)))
    (thenM (wsect 1 (put_at (replicate BSIZE 0) 0 (encode_sb mk_sb)))
    (bindM (mk_ialloc T_DIR) (\<lambda>rootino.
     if rootino \<noteq> ROOTINO then panic ''assert''
     else thenM (iappend rootino (dir_entry rootino [46]))
    (thenM (iappend rootino (dir_entry rootino [46, 46]))
    (thenM (forM files (add_file rootino))
    (bindM (rinode rootino) (\<lambda>din.
     let off = (unat (xint (d_size din)) div BSIZE + 1) * BSIZE in
     thenM (winode rootino (din\<lparr>d_size := xint (of_nat off)\<rparr>))
    (bindM (gets freeblock) (\<lambda>b. mk_balloc (unat b)))))))))))"

end
