(* ===== verification/Mkfs_Correct.thy ===== *)
theory Mkfs_Correct
  imports Mkfs
begin

text \<open>
  Files in a disk image: appending to one adds the bytes at its end and leaves all others as they are, whether the
  blocks are direct or behind the indirect block.
\<close>

section \<open>Numbers on the disk\<close>

lemma sizes:
  "BSIZE = 1024" "NDIRECT = 12" "NINDIRECT = 256" "MAXFILE = 268" "IPB = 16" "FSSIZE = 2000" "ninodeblocks = 13" "nmeta = 46"
  by (simp_all add: BSIZE_def NDIRECT_def NINDIRECT_def MAXFILE_def IPB_def FSSIZE_def ninodeblocks_def nmeta_def NINODES_def nbitmap_def
      LOGSIZE_def MAXOPBLOCKS_def)

lemma xshort_id [simp]: "xshort x = x"
proof -
  have "xshort x = of_le (le_bytes 2 x)" by (simp add: xshort_def le_bytes_def numeral_2_eq_2)
  then show ?thesis by (simp add: of_le_le_bytes)
qed

lemma xint_id [simp]: "xint x = x"
proof -
  have "xint x = of_le (le_bytes 4 x)" by (simp add: xint_def le_bytes_def upt_rec)
  then show ?thesis by (simp add: of_le_le_bytes)
qed

lemma get32_words: "i < length ws \<Longrightarrow> get32 (concat (map (le_bytes 4) ws)) i = ws ! i"
proof (induction ws arbitrary: i)
  case (Cons w ws)
  show ?case
  proof (cases i)
    case 0
    then show ?thesis by (simp add: get32_def of_le_le_bytes)
  next
    case (Suc j)
    then have "get32 (concat (map (le_bytes 4) (w # ws))) i = get32 (concat (map (le_bytes 4) ws)) j" by (simp add: get32_def)
    then show ?thesis using Cons Suc by simp
  qed
qed simp

lemma length_words [simp]: "length (concat (map (le_bytes 4) ws)) = 4 * length ws"
  by (induction ws) simp_all

lemma length_encode: "length (d_addrs d) = NDIRECT + 1 \<Longrightarrow> length (encode_dinode d) = 64"
  by (simp add: encode_dinode_def sizes)

lemma decode_encode: "length (d_addrs d) = NDIRECT + 1 \<Longrightarrow> decode_dinode (encode_dinode d) = d"
proof -
  assume l: "length (d_addrs d) = NDIRECT + 1"
  define pre where "pre = le_bytes 2 (d_type d) @ le_bytes 2 (d_major d) @ le_bytes 2 (d_minor d) @ le_bytes 2 (d_nlink d) @ le_bytes 4 (d_size d)"
  have e: "encode_dinode d = pre @ concat (map (le_bytes 4) (d_addrs d))" and n: "length pre = 12" by (simp_all add: encode_dinode_def pre_def)
  have "get32 (encode_dinode d) (i + 3) = d_addrs d ! i" if "i < NDIRECT + 1" for i
  proof -
    have "get32 (encode_dinode d) (i + 3) = get32 (concat (map (le_bytes 4) (d_addrs d))) i" using n by (simp add: e get32_def)
    then show ?thesis using get32_words [of i "d_addrs d"] that l by simp
  qed
  then have "map (\<lambda>i. get32 (encode_dinode d) (i + 3)) [0..<NDIRECT + 1] = d_addrs d"
    using l by (intro nth_equalityI) (simp_all del: upt_Suc)
  then show ?thesis unfolding decode_dinode_def by (simp add: encode_dinode_def of_le_le_bytes del: upt_Suc)
qed

lemma length_put_at [simp]: "i + length cs \<le> length bs \<Longrightarrow> length (put_at bs i cs) = length bs"
  by (simp add: put_at_def)

lemma put_at_nth:
  assumes "i + length cs \<le> length bs" "j < length bs"
  shows "put_at bs i cs ! j = (if i \<le> j \<and> j < i + length cs then cs ! (j - i) else bs ! j)"
proof -
  consider "j < i" | "i \<le> j" "j < i + length cs" | "i + length cs \<le> j" by linarith
  then show ?thesis using assms by cases (auto simp: put_at_def nth_append)
qed

lemma get_put_dinode:
  assumes "length bs = BSIZE" "k < IPB" "length (d_addrs d) = NDIRECT + 1"
  shows "get_dinode (put_dinode bs k d) k = d" "j < IPB \<Longrightarrow> j \<noteq> k \<Longrightarrow> get_dinode (put_dinode bs k d) j = get_dinode bs j"
    "length (put_dinode bs k d) = BSIZE"
proof -
  have l: "length (encode_dinode d) = 64" by (rule length_encode [OF assms(3)])
  have k: "64 * k + 64 \<le> 1024" using assms(2) by (simp add: sizes)
  have "take 64 (drop (64 * k) (put_dinode bs k d)) = encode_dinode d" using l k assms(1) by (simp add: put_dinode_def put_at_def sizes)
  then show "get_dinode (put_dinode bs k d) k = d" by (simp add: get_dinode_def decode_encode [OF assms(3)])
  show "length (put_dinode bs k d) = BSIZE" using l k assms(1) by (simp add: put_dinode_def sizes)
  assume j: "j < IPB" "j \<noteq> k"
  have "take 64 (drop (64 * j) (put_dinode bs k d)) = take 64 (drop (64 * j) bs)"
  proof (rule nth_equalityI)
    fix i assume "i < length (take 64 (drop (64 * j) (put_dinode bs k d)))"
    then have i: "i < 64" "64 * j + i < 1024" using l k assms(1) j by (auto simp: put_dinode_def sizes)
    have "\<not> (64 * k \<le> 64 * j + i \<and> 64 * j + i < 64 * k + 64)" using i(1) j(2) by presburger
    then show "take 64 (drop (64 * j) (put_dinode bs k d)) ! i = take 64 (drop (64 * j) bs) ! i"
      using i l k assms(1) by (auto simp: put_dinode_def put_at_nth sizes)
  qed (use l k assms(1) in \<open>simp add: put_dinode_def sizes\<close>)
  then show "get_dinode (put_dinode bs k d) j = get_dinode bs j" by (simp add: get_dinode_def)
qed

section \<open>Files\<close>

definition img_wf :: "img \<Rightarrow> bool" where
  "img_wf s \<longleftrightarrow> nsects s = FSSIZE \<and> (\<forall>k<FSSIZE. length (sects s k) = BSIZE) \<and> nmeta \<le> unat (freeblock s) \<and> unat (freeblock s) \<le> FSSIZE \<and>
     (\<forall>k. unat (freeblock s) \<le> k \<longrightarrow> k < FSSIZE \<longrightarrow> sects s k = replicate BSIZE 0)"

text \<open>The sector of the block \<open>i\<close> of a file.\<close>

definition indir :: "dinode \<Rightarrow> nat" where
  "indir d = unat (d_addrs d ! NDIRECT)"

definition fblk :: "img \<Rightarrow> dinode \<Rightarrow> nat \<Rightarrow> nat" where
  "fblk s d i = unat (if i < NDIRECT then d_addrs d ! i else get32 (sects s (indir d)) (i - NDIRECT))"

definition own :: "img \<Rightarrow> dinode \<Rightarrow> nat \<Rightarrow> nat set" where
  "own s d n = fblk s d ` {..<n} \<union> (if NDIRECT < n then {indir d} else {})"

text \<open>An inode with \<open>n\<close> blocks: their sectors differ, are in use, and there is nothing in the places of further blocks.\<close>

definition file_ok :: "img \<Rightarrow> dinode \<Rightarrow> nat \<Rightarrow> bool" where
  "file_ok s d n \<longleftrightarrow> length (d_addrs d) = NDIRECT + 1 \<and> n \<le> MAXFILE \<and> (\<forall>i<NDIRECT. n \<le> i \<longrightarrow> d_addrs d ! i = 0) \<and>
     (n \<le> NDIRECT \<longrightarrow> d_addrs d ! NDIRECT = 0) \<and>
     (NDIRECT < n \<longrightarrow> (\<forall>i<NINDIRECT. n \<le> NDIRECT + i \<longrightarrow> get32 (sects s (indir d)) i = 0) \<and> indir d \<notin> fblk s d ` {..<n}) \<and>
     inj_on (fblk s d) {..<n} \<and> own s d n \<subseteq> {nmeta..<unat (freeblock s)}"

definition nb :: "nat \<Rightarrow> nat" where
  "nb off = (off + BSIZE - 1) div BSIZE"

definition file_bytes :: "img \<Rightarrow> dinode \<Rightarrow> nat \<Rightarrow> byte list" where
  "file_bytes s d off = map (\<lambda>j. sects s (fblk s d (j div BSIZE)) ! (j mod BSIZE)) [0..<off]"

lemma img_wfD:
  assumes "img_wf s"
  shows "nsects s = FSSIZE" "k < FSSIZE \<Longrightarrow> length (sects s k) = BSIZE" "nmeta \<le> unat (freeblock s)" "unat (freeblock s) \<le> FSSIZE"
    "unat (freeblock s) \<le> k \<Longrightarrow> k < FSSIZE \<Longrightarrow> sects s k = replicate BSIZE 0"
  using assms by (simp_all add: img_wf_def)

lemma file_okD:
  assumes "file_ok s d n"
  shows "length (d_addrs d) = NDIRECT + 1" "n \<le> MAXFILE" "i < NDIRECT \<Longrightarrow> n \<le> i \<Longrightarrow> d_addrs d ! i = 0"
    "n \<le> NDIRECT \<Longrightarrow> d_addrs d ! NDIRECT = 0" "NDIRECT < n \<Longrightarrow> i < NINDIRECT \<Longrightarrow> n \<le> NDIRECT + i \<Longrightarrow> get32 (sects s (indir d)) i = 0"
    "NDIRECT < n \<Longrightarrow> indir d \<notin> fblk s d ` {..<n}" "inj_on (fblk s d) {..<n}" "own s d n \<subseteq> {nmeta..<unat (freeblock s)}"
  using assms by (simp_all add: file_ok_def)

lemma rsect_run: "img_wf s \<Longrightarrow> unat x < FSSIZE \<Longrightarrow> rsect x s = Inr (sects s (unat x), s)"
  by (simp add: rsect_def monad_simps img_wf_def)

lemma wsect_run: "img_wf s \<Longrightarrow> unat x < FSSIZE \<Longrightarrow> wsect x b s = Inr ((), s\<lparr>sects := (sects s)(unat x := b)\<rparr>)"
  by (cases s) (simp add: wsect_def modify_apply img_wf_def max_def)

lemma new_block_run: "new_block s = Inr (freeblock s, s\<lparr>freeblock := freeblock s + 1\<rparr>)"
  by (simp add: new_block_def monad_simps)

lemma unat_free_Suc: "unat (freeblock s) < FSSIZE \<Longrightarrow> unat (freeblock s + 1) = Suc (unat (freeblock s))"
  by (simp add: unat_word_ariths(1) sizes)

lemma img_wf_alloc:
  assumes "img_wf s" "unat (freeblock s) < FSSIZE"
  shows "img_wf (s\<lparr>freeblock := freeblock s + 1\<rparr>)"
  using assms unat_free_Suc [OF assms(2)] by (simp add: img_wf_def)

lemma img_wf_write:
  assumes "img_wf s" "k < unat (freeblock s)" "length b = BSIZE"
  shows "img_wf (s\<lparr>sects := (sects s)(k := b)\<rparr>)"
  using assms by (auto simp: img_wf_def)

section \<open>One more block\<close>

lemma fblk_in: "i < n \<Longrightarrow> fblk s d i \<in> own s d n"
  by (simp add: own_def)

lemma indir_in: "NDIRECT < n \<Longrightarrow> indir d \<in> own s d n"
  by (simp add: own_def)

lemma fblk_cong: "d_addrs d' = d_addrs d \<Longrightarrow> sects t (indir d) = sects s (indir d) \<Longrightarrow> fblk t d' i = fblk s d i"
  by (simp add: fblk_def indir_def)

lemma map_block_old:
  assumes s: "img_wf s" "file_ok s d n" and i: "i < n"
  shows "map_block d i s = Inr ((of_nat (fblk s d i), d), s)"
proof -
  have o: "fblk s d i \<in> {nmeta..<unat (freeblock s)}" using file_okD(8) [OF s(2)] fblk_in [OF i] by blast
  show ?thesis
  proof (cases "i < NDIRECT")
    case True
    then have "d_addrs d ! i \<noteq> 0" using o by (auto simp: fblk_def sizes)
    then show ?thesis using True by (simp add: map_block_def monad_simps fblk_def)
  next
    case False
    have d: "indir d \<in> {nmeta..<unat (freeblock s)}" using file_okD(8) [OF s(2)] indir_in [of n d s] i False by auto
    then have "d_addrs d ! NDIRECT \<noteq> 0" by (auto simp: indir_def sizes)
    moreover have "unat (d_addrs d ! NDIRECT) < FSSIZE" using d img_wfD(4) [OF s(1)] by (simp add: indir_def)
    moreover have "get32 (sects s (indir d)) (i - NDIRECT) \<noteq> 0" using o False by (auto simp: fblk_def sizes)
    ultimately show ?thesis using False rsect_run [OF s(1)] by (simp add: map_block_def bindM_run ret_apply fblk_def indir_def)
  qed
qed

text \<open>
  What a new block \<open>n\<close> leaves: the file has it, its other blocks are the same sectors, and only sectors that were free or
  are the file's own have changed, those of its data not.
\<close>

definition grown :: "img \<Rightarrow> dinode \<Rightarrow> nat \<Rightarrow> img \<Rightarrow> dinode \<Rightarrow> bool" where
  "grown s d n t d' \<longleftrightarrow> img_wf t \<and> file_ok t d' (Suc n) \<and> (\<forall>i<n. fblk t d' i = fblk s d i) \<and>
     (\<forall>k. k < unat (freeblock s) \<longrightarrow> \<not> (NDIRECT < n \<and> k = indir d) \<longrightarrow> sects t k = sects s k) \<and>
     own t d' (Suc n) \<subseteq> own s d n \<union> {unat (freeblock s)..<unat (freeblock t)} \<and>
     unat (freeblock t) = unat (freeblock s) + (if n = NDIRECT then 2 else 1) \<and> freeinode t = freeinode s \<and> d' = d\<lparr>d_addrs := d_addrs d'\<rparr>"

lemma map_block_direct:
  assumes s: "img_wf s" "file_ok s d n" and n: "n < NDIRECT" and r: "unat (freeblock s) < FSSIZE"
  shows "\<exists>t d'. map_block d n s = Inr ((of_nat (fblk t d' n), d'), t) \<and> grown s d n t d'"
proof -
  let ?b = "freeblock s" and ?t = "s\<lparr>freeblock := freeblock s + 1\<rparr>" and ?d = "d\<lparr>d_addrs := (d_addrs d)[n := freeblock s]\<rparr>"
  note F = file_okD [OF s(2)]
  have u: "unat (freeblock ?t) = Suc (unat ?b)" using unat_free_Suc [OF r] by simp
  have run: "map_block d n s = Inr ((?b, ?d), ?t)"
    using n F(1,3) by (simp add: map_block_def bindM_run ret_apply new_block_run)
  have new: "fblk ?t ?d n = unat ?b" using n F(1) by (simp add: fblk_def)
  have old: "fblk ?t ?d i = fblk s d i" if "i < n" for i using that n by (simp add: fblk_def)
  have img: "fblk ?t ?d ` {..<Suc n} = insert (unat ?b) (fblk s d ` {..<n})" using old new by (simp add: lessThan_Suc)
  have sub: "fblk s d ` {..<n} \<subseteq> {nmeta..<unat ?b}" using F(8) by (simp add: own_def)
  have "inj_on (fblk ?t ?d) {..<Suc n}"
  proof -
    have "inj_on (fblk ?t ?d) {..<n}" using F(7) old by (simp add: inj_on_def)
    moreover have "fblk ?t ?d n \<notin> fblk ?t ?d ` {..<n}" using sub old new by (auto simp: image_iff)
    ultimately show ?thesis by (simp add: lessThan_Suc)
  qed
  moreover have "own ?t ?d (Suc n) = insert (unat ?b) (own s d n)" using n img by (simp add: own_def)
  ultimately have "file_ok ?t ?d (Suc n)"
    unfolding file_ok_def using F n u sub img_wfD(3) [OF s(1)] by (auto simp: own_def sizes)
  moreover have "img_wf ?t" by (rule img_wf_alloc [OF s(1) r])
  ultimately have "grown s d n ?t ?d"
    unfolding grown_def using old u n \<open>own ?t ?d (Suc n) = _\<close> by auto
  then show ?thesis using run new by (intro exI [of _ ?t] exI [of _ ?d]) simp
qed

text \<open>An inode with \<open>n\<close> blocks that has its indirect block, which may still be empty.\<close>

definition indirect_ok :: "img \<Rightarrow> dinode \<Rightarrow> nat \<Rightarrow> bool" where
  "indirect_ok s d n \<longleftrightarrow> length (d_addrs d) = NDIRECT + 1 \<and> NDIRECT \<le> n \<and> inj_on (fblk s d) {..<n} \<and> indir d \<notin> fblk s d ` {..<n} \<and>
     insert (indir d) (fblk s d ` {..<n}) \<subseteq> {nmeta..<unat (freeblock s)} \<and> (\<forall>i<NINDIRECT. n \<le> NDIRECT + i \<longrightarrow> get32 (sects s (indir d)) i = 0)"

lemma get32_zero: "4 * i + 4 \<le> n \<Longrightarrow> get32 (replicate n 0) i = 0"
  by (simp add: get32_def of_le_def numeral_eq_Suc)

lemma ensure_indirect:
  assumes s: "img_wf s" "file_ok s d n" and n: "NDIRECT \<le> n" and r: "n = NDIRECT \<Longrightarrow> unat (freeblock s) < FSSIZE"
  shows "\<exists>s1 d1. (if xint (d_addrs d ! NDIRECT) = 0
      then bindM new_block (\<lambda>b. ret (d\<lparr>d_addrs := (d_addrs d)[NDIRECT := xint b]\<rparr>)) else ret d) s = Inr (d1, s1) \<and>
    img_wf s1 \<and> indirect_ok s1 d1 n \<and> (\<forall>i<n. fblk s1 d1 i = fblk s d i) \<and> sects s1 = sects s \<and> freeinode s1 = freeinode s \<and>
    unat (freeblock s1) = unat (freeblock s) + (if n = NDIRECT then 1 else 0) \<and> d1 = d\<lparr>d_addrs := d_addrs d1\<rparr> \<and>
    (if n = NDIRECT then indir d1 = unat (freeblock s) else indir d1 = indir d)"
proof (cases "n = NDIRECT")
  case True
  let ?t = "s\<lparr>freeblock := freeblock s + 1\<rparr>" and ?d = "d\<lparr>d_addrs := (d_addrs d)[NDIRECT := freeblock s]\<rparr>"
  note F = file_okD [OF s(2)] and r = r [OF True]
  have z: "d_addrs d ! NDIRECT = 0" using F(4) True by simp
  have u: "unat (freeblock ?t) = Suc (unat (freeblock s))" using unat_free_Suc [OF r] by simp
  have i: "indir ?d = unat (freeblock s)" using F(1) by (simp add: indir_def)
  have old: "fblk ?t ?d i = fblk s d i" if "i < n" for i using that True by (simp add: fblk_def)
  have img: "fblk ?t ?d ` {..<n} = fblk s d ` {..<n}" using old by (simp add: image_def)
  have sub: "fblk s d ` {..<n} \<subseteq> {nmeta..<unat (freeblock s)}" using F(8) by (simp add: own_def)
  have "get32 (sects ?t (indir ?d)) j = 0" if "j < NINDIRECT" for j
    unfolding i using img_wfD(5) [OF s(1) order_refl r] that by (simp add: get32_zero sizes)
  moreover have "inj_on (fblk ?t ?d) {..<n}" using F(7) old by (simp add: inj_on_def)
  ultimately have "indirect_ok ?t ?d n"
    unfolding indirect_ok_def img i using F(1) True sub u img_wfD(3) [OF s(1)] by auto
  then show ?thesis using True z u old i img_wf_alloc [OF s(1) r]
    by (intro exI [of _ ?t] exI [of _ ?d]) (simp add: bindM_run new_block_run ret_apply)
next
  case False
  note F = file_okD [OF s(2)]
  have d: "indir d \<in> {nmeta..<unat (freeblock s)}" using F(8) indir_in [of n d s] n False by auto
  then have "d_addrs d ! NDIRECT \<noteq> 0" by (auto simp: indir_def sizes)
  moreover have "indirect_ok s d n" unfolding indirect_ok_def using F(1,5-8) n False d by (auto simp: own_def)
  ultimately show ?thesis using False s(1) by (intro exI [of _ s] exI [of _ d]) (simp add: ret_apply)
qed

lemma indirect_grows:
  assumes s: "img_wf s" "indirect_ok s d n" and n: "n < MAXFILE" and r: "unat (freeblock s) < FSSIZE"
    and t: "t = s\<lparr>freeblock := freeblock s + 1, sects := (sects s)(indir d := put32 (sects s (indir d)) (n - NDIRECT) (freeblock s))\<rparr>"
  shows "img_wf t" "file_ok t d (Suc n)" "fblk t d n = unat (freeblock s)" "i < n \<Longrightarrow> fblk t d i = fblk s d i"
    "own t d (Suc n) = insert (unat (freeblock s)) (insert (indir d) (fblk s d ` {..<n}))"
proof -
  note I = s(2) [unfolded indirect_ok_def]
  have i: "indir d < unat (freeblock s)" "nmeta \<le> indir d" using I by auto
  then have il: "length (sects s (indir d)) = BSIZE" using img_wfD(2,4) [OF s(1)] by simp
  have w: "4 * (n - NDIRECT) + 4 \<le> length (sects s (indir d))" using il n by (simp add: sizes)
  have u: "unat (freeblock t) = Suc (unat (freeblock s))" using unat_free_Suc [OF r] by (simp add: t)
  show wf: "img_wf t"
  proof -
    have "img_wf ((s\<lparr>freeblock := freeblock s + 1\<rparr>)\<lparr>sects := (sects (s\<lparr>freeblock := freeblock s + 1\<rparr>))(indir d := put32 (sects s (indir d)) (n - NDIRECT) (freeblock s))\<rparr>)"
      by (rule img_wf_write [OF img_wf_alloc [OF s(1) r]]) (use i u w il in \<open>simp_all add: t length_put32\<close>)
    then show ?thesis by (simp add: t)
  qed
  show new: "fblk t d n = unat (freeblock s)" using I w by (simp add: fblk_def t get32_put32)
  show old: "fblk t d i = fblk s d i" if "i < n" for i
  proof (cases "i < NDIRECT")
    case False
    then have "n - NDIRECT \<noteq> i - NDIRECT" using that by simp
    then show ?thesis using False get32_put32_other [OF w] by (simp add: fblk_def t)
  qed (simp add: fblk_def)
  have img: "fblk t d ` {..<Suc n} = insert (unat (freeblock s)) (fblk s d ` {..<n})" using old new by (simp add: lessThan_Suc)
  show own: "own t d (Suc n) = insert (unat (freeblock s)) (insert (indir d) (fblk s d ` {..<n}))" using I img by (auto simp: own_def)
  have "inj_on (fblk t d) {..<Suc n}"
  proof -
    have "inj_on (fblk t d) {..<n}" using I old by (simp add: inj_on_def)
    moreover have "fblk t d n \<notin> fblk t d ` {..<n}" using I old new by (auto simp: image_iff)
    ultimately show ?thesis by (simp add: lessThan_Suc)
  qed
  moreover have "get32 (sects t (indir d)) j = 0" if "j < NINDIRECT" "Suc n \<le> NDIRECT + j" for j
  proof -
    have "n - NDIRECT \<noteq> j" using that I by auto
    then show ?thesis using that I get32_put32_other [OF w] by (simp add: t)
  qed
  moreover have "indir d \<notin> fblk t d ` {..<Suc n}" unfolding img using I i by auto
  moreover have "own t d (Suc n) \<subseteq> {nmeta..<unat (freeblock t)}" unfolding own u using I img_wfD(3) [OF s(1)] by auto
  ultimately show "file_ok t d (Suc n)" unfolding file_ok_def using I n by auto
qed

lemma map_block_indirect:
  assumes s: "img_wf s" "file_ok s d n" and n: "NDIRECT \<le> n" "n < MAXFILE" and r: "unat (freeblock s) + (if n = NDIRECT then 1 else 0) < FSSIZE"
  shows "\<exists>t d'. map_block d n s = Inr ((of_nat (fblk t d' n), d'), t) \<and> grown s d n t d'"
proof -
  have "n = NDIRECT \<Longrightarrow> unat (freeblock s) < FSSIZE" using r by simp
  from ensure_indirect [OF s n(1) this] obtain s1 d1 where e: "(if xint (d_addrs d ! NDIRECT) = 0
      then bindM new_block (\<lambda>b. ret (d\<lparr>d_addrs := (d_addrs d)[NDIRECT := xint b]\<rparr>)) else ret d) s = Inr (d1, s1)"
    and s1: "img_wf s1" "indirect_ok s1 d1 n" "\<forall>i<n. fblk s1 d1 i = fblk s d i" "sects s1 = sects s" "freeinode s1 = freeinode s"
      "unat (freeblock s1) = unat (freeblock s) + (if n = NDIRECT then 1 else 0)" "d1 = d\<lparr>d_addrs := d_addrs d1\<rparr>"
      "if n = NDIRECT then indir d1 = unat (freeblock s) else indir d1 = indir d" by blast
  define t where "t = s1\<lparr>freeblock := freeblock s1 + 1, sects := (sects s1)(indir d1 := put32 (sects s1 (indir d1)) (n - NDIRECT) (freeblock s1))\<rparr>"
  have r1: "unat (freeblock s1) < FSSIZE" using r s1(6) by simp
  note G = indirect_grows [OF s1(1,2) n(2) r1 t_def]
  note I = s1(2) [unfolded indirect_ok_def]
  have i: "unat (d_addrs d1 ! NDIRECT) = indir d1" "indir d1 < FSSIZE" using I r1 by (auto simp: indir_def)
  have z: "get32 (sects s1 (indir d1)) (n - NDIRECT) = 0" using I n by (simp add: sizes)
  have w: "4 * (n - NDIRECT) + 4 \<le> length (sects s1 (indir d1))" using img_wfD(2) [OF s1(1) i(2)] n by (simp add: sizes)
  have run: "map_block d n s = Inr ((freeblock s1, d1), t)"
  proof -
    have wr: "wsect (d_addrs d1 ! NDIRECT) (put32 (sects s1 (indir d1)) (n - NDIRECT) (freeblock s1)) (s1\<lparr>freeblock := freeblock s1 + 1\<rparr>) = Inr ((), t)"
      by (subst wsect_run [OF img_wf_alloc [OF s1(1) r1]]) (use i in \<open>simp_all add: t_def\<close>)
    have rd: "rsect (d_addrs d1 ! NDIRECT) s1 = Inr (sects s1 (indir d1), s1)" using rsect_run [OF s1(1)] i by simp
    have "\<not> n < NDIRECT" using n(1) by simp
    then show ?thesis unfolding map_block_def
      by (subst if_not_P) (simp, rule bindM_run, rule e, use rd z wr get32_put32 [OF w] in \<open>simp add: bindM_run thenM_run new_block_run ret_apply\<close>)
  qed
  have fresh: "indir d1 < unat (freeblock s) \<Longrightarrow> n \<noteq> NDIRECT" using s1(8) by auto
  have "sects t k = sects s k" if "k < unat (freeblock s)" "\<not> (NDIRECT < n \<and> k = indir d)" for k
    using that s1(4,8) n(1) by (auto simp: t_def split: if_splits)
  moreover have "own t d1 (Suc n) \<subseteq> own s d n \<union> {unat (freeblock s)..<unat (freeblock t)}"
  proof -
    have u: "unat (freeblock t) = Suc (unat (freeblock s1))" using unat_free_Suc [OF r1] by (simp add: t_def)
    have "indir d1 \<in> own s d n \<union> {unat (freeblock s)..<unat (freeblock t)}" using s1(6,8) n(1) u by (auto simp: own_def split: if_splits)
    moreover have "fblk s1 d1 ` {..<n} \<subseteq> own s d n" using s1(3) by (auto simp: own_def)
    ultimately show ?thesis unfolding G(5) using u s1(6) by auto
  qed
  moreover have "unat (freeblock t) = unat (freeblock s) + (if n = NDIRECT then 2 else 1)" using unat_free_Suc [OF r1] s1(6) by (simp add: t_def)
  ultimately have "grown s d n t d1" unfolding grown_def using G(1,2,4) s1(3,5,7) by (simp add: t_def)
  then show ?thesis using run G(3) by (intro exI [of _ t] exI [of _ d1]) simp
qed

text \<open>The sectors needed for the block \<open>n\<close>.\<close>

definition cost :: "nat \<Rightarrow> nat" where
  "cost n = (if n = NDIRECT then 2 else 1)"

lemma map_block_new:
  assumes "img_wf s" "file_ok s d n" "n < MAXFILE" "unat (freeblock s) + cost n \<le> FSSIZE"
  shows "\<exists>t d'. map_block d n s = Inr ((of_nat (fblk t d' n), d'), t) \<and> grown s d n t d'"
  using map_block_direct [OF assms(1,2)] map_block_indirect [OF assms(1,2)] assms(3,4)
  by (cases "n < NDIRECT") (simp_all add: cost_def split: if_splits)

section \<open>Writing into a block\<close>

lemma file_ok_write:
  assumes s: "file_ok s d n" and i: "i < n" and t: "t = s\<lparr>sects := (sects s)(fblk s d i := b)\<rparr>"
  shows "file_ok t d n" "fblk t d = fblk s d" "own t d n = own s d n"
proof -
  note F = file_okD [OF s]
  have "fblk s d i \<in> {nmeta..<unat (freeblock s)}" using F(8) fblk_in [OF i] by blast
  then have ne: "indir d \<noteq> fblk s d i" using F(4,6) i by (cases "NDIRECT < n") (auto simp: indir_def sizes image_iff)
  then have "sects t (indir d) = sects s (indir d)" by (simp add: t)
  then show f: "fblk t d = fblk s d" by (simp add: fblk_def fun_eq_iff)
  then show "own t d n = own s d n" by (simp add: own_def)
  moreover have "freeblock t = freeblock s" by (simp add: t)
  ultimately show "file_ok t d n" using s f \<open>sects t (indir d) = _\<close> by (simp add: file_ok_def)
qed

text \<open>Offsets as a block and a place in it.\<close>

lemma offset: "BSIZE * (j div BSIZE) + j mod BSIZE = j" "j mod BSIZE < BSIZE"
  by (simp_all add: sizes)

lemma nb_eq: "nb off = off div BSIZE + (if off mod BSIZE = 0 then 0 else 1)"
proof -
  obtain q r where o: "off = BSIZE * q + r" "r < BSIZE" "q = off div BSIZE" "r = off mod BSIZE" using offset [of off] by metis
  have "nb off = q + (r + BSIZE - 1) div BSIZE" unfolding nb_def o(1) by (simp add: sizes)
  moreover have "(r + BSIZE - 1) div BSIZE = (if r = 0 then 0 else 1)"
    using o(2) by (cases "r = 0") (simp_all add: sizes div_nat_eqI)
  ultimately show ?thesis using o(3,4) by simp
qed

lemma nb_step:
  assumes "0 < n1" "off mod BSIZE + n1 \<le> BSIZE"
  shows "nb (off + n1) = Suc (off div BSIZE)"
proof (cases "off mod BSIZE + n1 = BSIZE")
  case True
  then have "off + n1 = BSIZE * (off div BSIZE) + BSIZE" using offset(1) [of off] by linarith
  then show ?thesis unfolding nb_eq by (simp add: sizes)
next
  case False
  then have "off + n1 = BSIZE * (off div BSIZE) + (off mod BSIZE + n1)" "off mod BSIZE + n1 < BSIZE" using offset(1) [of off] assms(2) by simp_all
  then have "(off + n1) div BSIZE = off div BSIZE" "(off + n1) mod BSIZE = off mod BSIZE + n1" by (metis div_mult_self4 div_less add_0 add.commute less_nat_zero_code mod_mult_self4 mod_less)+
  then show ?thesis unfolding nb_eq using assms(1) by simp
qed

lemma file_bytes_write:
  assumes s: "file_ok s d n" "img_wf s" and o: "off div BSIZE < n" "off mod BSIZE + length p \<le> BSIZE"
    and t: "t = s\<lparr>sects := (sects s)(fblk s d (off div BSIZE) := put_at (sects s (fblk s d (off div BSIZE))) (off mod BSIZE) p)\<rparr>"
  shows "file_bytes t d (off + length p) = file_bytes s d off @ p"
proof (rule nth_equalityI)
  let ?x = "fblk s d (off div BSIZE)"
  note F = file_okD [OF s(1)]
  have x: "?x < FSSIZE" using F(8) fblk_in [OF o(1)] img_wfD(4) [OF s(2)] by fastforce
  have f: "fblk t d = fblk s d" by (rule file_ok_write(2) [OF s(1) o(1) t])
  show "length (file_bytes t d (off + length p)) = length (file_bytes s d off @ p)" by (simp add: file_bytes_def)
  fix j assume "j < length (file_bytes t d (off + length p))"
  then have j: "j < off + length p" by (simp add: file_bytes_def)
  let ?v = "sects t (fblk s d (j div BSIZE)) ! (j mod BSIZE)"
  have v: "file_bytes t d (off + length p) ! j = ?v" using j by (simp add: file_bytes_def f)
  note O = offset [of j] offset [of off]
  have le: "j div BSIZE \<le> off div BSIZE"
  proof (rule ccontr)
    assume "\<not> ?thesis"
    then have "BSIZE * Suc (off div BSIZE) \<le> BSIZE * (j div BSIZE)" by (intro mult_le_mono2) simp
    then show False using O j o(2) by simp
  qed
  show "file_bytes t d (off + length p) ! j = (file_bytes s d off @ p) ! j"
  proof (cases "j div BSIZE = off div BSIZE")
    case True
    have "?v = put_at (sects s ?x) (off mod BSIZE) p ! (j mod BSIZE)" using True by (simp add: t)
    also have "\<dots> = (if off mod BSIZE \<le> j mod BSIZE \<and> j mod BSIZE < off mod BSIZE + length p then p ! (j mod BSIZE - off mod BSIZE) else sects s ?x ! (j mod BSIZE))"
      by (rule put_at_nth) (use o(2) img_wfD(2) [OF s(2) x] in \<open>simp_all add: sizes\<close>)
    also have "\<dots> = (file_bytes s d off @ p) ! j"
    proof (cases "j < off")
      case less: True
      then have "j mod BSIZE < off mod BSIZE" using True O by (metis add_less_cancel_left)
      then show ?thesis using less True by (simp add: nth_append file_bytes_def)
    next
      case False
      then have "off mod BSIZE \<le> j mod BSIZE" "j mod BSIZE < off mod BSIZE + length p" "j mod BSIZE - off mod BSIZE = j - off"
        using True j O by (simp_all only: True)
      then show ?thesis using False by (simp add: nth_append file_bytes_def)
    qed
    finally show ?thesis using v by simp
  next
    case False
    then have "j div BSIZE < off div BSIZE" using le by simp
    moreover from this have "BSIZE * (j div BSIZE) + BSIZE \<le> BSIZE * (off div BSIZE)" using mult_le_mono2 [of "Suc (j div BSIZE)" "off div BSIZE" BSIZE] by simp
    then have "j < off" using O by linarith
    ultimately have lt: "j < off" "fblk s d (j div BSIZE) \<noteq> ?x"
      using inj_onD [OF F(7), of "j div BSIZE" "off div BSIZE"] o(1) by auto
    then have "?v = sects s (fblk s d (j div BSIZE)) ! (j mod BSIZE)" by (simp add: t)
    then show ?thesis using v lt(1) by (simp add: nth_append file_bytes_def)
  qed
qed

section \<open>Appending\<close>

definition need :: "nat \<Rightarrow> nat \<Rightarrow> nat" where
  "need a b = (\<Sum>n = a..<b. cost n)"

text \<open>The file and the image after bytes have been added at the end.\<close>

definition extended :: "img \<Rightarrow> dinode \<Rightarrow> nat \<Rightarrow> img \<Rightarrow> dinode \<Rightarrow> nat \<Rightarrow> bool" where
  "extended s d n t d' m \<longleftrightarrow> img_wf t \<and> file_ok t d' m \<and>
     (\<forall>k. k < unat (freeblock s) \<longrightarrow> k \<notin> own s d n \<longrightarrow> sects t k = sects s k) \<and>
     own t d' m \<subseteq> own s d n \<union> {unat (freeblock s)..<unat (freeblock t)} \<and>
     unat (freeblock t) = unat (freeblock s) + need n m \<and> freeinode t = freeinode s \<and> d' = d\<lparr>d_addrs := d_addrs d'\<rparr>"

lemma extendedD:
  assumes "extended s d n t d' m"
  shows "img_wf t" "file_ok t d' m" "k < unat (freeblock s) \<Longrightarrow> k \<notin> own s d n \<Longrightarrow> sects t k = sects s k"
    "own t d' m \<subseteq> own s d n \<union> {unat (freeblock s)..<unat (freeblock t)}" "unat (freeblock t) = unat (freeblock s) + need n m"
    "freeinode t = freeinode s" "d_type d' = d_type d"
proof -
  have "d' = d\<lparr>d_addrs := d_addrs d'\<rparr>" using assms by (simp add: extended_def)
  then have "d_type d' = d_type (d\<lparr>d_addrs := d_addrs d'\<rparr>)" by (rule arg_cong)
  then show "d_type d' = d_type d" by simp
qed (use assms in \<open>unfold extended_def, blast+\<close>)

lemma extended_trans:
  assumes "extended s d n t d' m" "extended t d' m u d'' l" "n \<le> m" "m \<le> l"
  shows "extended s d n u d'' l"
proof -
  have "need n l = need n m + need m l" using assms(3,4) by (simp add: need_def sum.atLeastLessThan_concat)
  moreover have "sects u k = sects s k" if "k < unat (freeblock s)" "k \<notin> own s d n" for k
  proof -
    have "k \<notin> own t d' m" using assms(1) that unfolding extended_def by auto
    then show ?thesis using assms(1,2) that unfolding extended_def by auto
  qed
  moreover have "own u d'' l \<subseteq> own s d n \<union> {unat (freeblock s)..<unat (freeblock u)}"
    using assms(1,2) unfolding extended_def by fastforce
  moreover have "d'' = d\<lparr>d_addrs := d_addrs d''\<rparr>" using assms(1,2) unfolding extended_def by (metis dinode.surjective dinode.update_convs(6))
  ultimately show ?thesis using assms(1,2) unfolding extended_def by auto
qed

lemma place_block:
  assumes s: "img_wf s" "file_ok s d (nb off)" and o: "off div BSIZE < MAXFILE"
    and r: "unat (freeblock s) + need (nb off) (Suc (off div BSIZE)) \<le> FSSIZE"
  shows "\<exists>t d'. map_block d (off div BSIZE) s = Inr ((of_nat (fblk t d' (off div BSIZE)), d'), t) \<and>
    extended s d (nb off) t d' (Suc (off div BSIZE)) \<and> file_bytes t d' off = file_bytes s d off"
proof (cases "off mod BSIZE = 0")
  case False
  then have n: "nb off = Suc (off div BSIZE)" by (simp add: nb_eq)
  have "map_block d (off div BSIZE) s = Inr ((of_nat (fblk s d (off div BSIZE)), d), s)"
    by (rule map_block_old [OF s]) (simp add: n)
  then show ?thesis using s n by (intro exI [of _ s] exI [of _ d]) (simp add: extended_def need_def)
next
  case True
  let ?n = "off div BSIZE"
  have n: "nb off = ?n" using True by (simp add: nb_eq)
  have c: "need ?n (Suc ?n) = cost ?n" by (simp add: need_def)
  have r': "unat (freeblock s) + cost ?n \<le> FSSIZE" using r n c by simp
  from map_block_new [OF s(1) s(2) [unfolded n] o r'] obtain t d' where
    m: "map_block d ?n s = Inr ((of_nat (fblk t d' ?n), d'), t)" and g: "grown s d ?n t d'" by blast
  have "extended s d ?n t d' (Suc ?n)"
    using g unfolding extended_def grown_def c cost_def by (auto dest: indir_in [of ?n d s])
  moreover have "file_bytes t d' off = file_bytes s d off"
  proof -
    have "sects t (fblk t d' (j div BSIZE)) = sects s (fblk s d (j div BSIZE))" if "j < off" for j
    proof -
      have "j < BSIZE * ?n" using that offset(1) [of off] True by simp
      then have j: "j div BSIZE < ?n" by (simp add: less_mult_imp_div_less mult.commute)
      note F = file_okD [OF s(2) [unfolded n]]
      have "fblk s d (j div BSIZE) < unat (freeblock s)" using F(8) fblk_in [OF j, of s d] by auto
      moreover have "NDIRECT < ?n \<Longrightarrow> fblk s d (j div BSIZE) \<noteq> indir d" using F(6) j by (metis imageI lessThan_iff)
      ultimately show ?thesis using g j unfolding grown_def by auto
    qed
    then show ?thesis by (simp add: file_bytes_def)
  qed
  ultimately show ?thesis using m n by auto
qed

lemma write_piece:
  assumes s: "img_wf s" "file_ok s d (nb off)" and o: "off div BSIZE < MAXFILE" and q: "q \<noteq> []" "off mod BSIZE + length q \<le> BSIZE"
    and r: "unat (freeblock s) + need (nb off) (nb (off + length q)) \<le> FSSIZE"
  shows "\<exists>t d'. (\<forall>f :: dinode \<Rightarrow> (img, 'b) kmon. bindM (map_block d (off div BSIZE)) (\<lambda>(x, din). bindM (rsect x) (\<lambda>buf.
      thenM (wsect x (put_at buf (off - off div BSIZE * BSIZE) q)) (f din))) s = f d' t) \<and>
    extended s d (nb off) t d' (nb (off + length q)) \<and> file_bytes t d' (off + length q) = file_bytes s d off @ q"
proof -
  let ?n = "off div BSIZE"
  have n: "nb (off + length q) = Suc ?n" using q by (intro nb_step) simp_all
  from place_block [OF s o r [unfolded n]] obtain u d' where m: "map_block d ?n s = Inr ((of_nat (fblk u d' ?n), d'), u)"
    and e: "extended s d (nb off) u d' (Suc ?n)" and b: "file_bytes u d' off = file_bytes s d off" by blast
  let ?x = "fblk u d' ?n"
  have u: "img_wf u" "file_ok u d' (Suc ?n)" using e by (simp_all add: extended_def)
  have xin: "?x \<in> own u d' (Suc ?n)" by (rule fblk_in) simp
  then have x: "?x < unat (freeblock u)" using file_okD(8) [OF u(2)] by auto
  then have x': "?x < FSSIZE" using img_wfD(4) [OF u(1)] by simp
  have un: "unat (of_nat ?x :: 32 word) = ?x" using x' by (simp add: sizes unat_of_nat)
  define t where "t = u\<lparr>sects := (sects u)(?x := put_at (sects u ?x) (off mod BSIZE) q)\<rparr>"
  have lx: "length (sects u ?x) = BSIZE" by (rule img_wfD(2) [OF u(1) x'])
  have wf: "img_wf t" unfolding t_def by (rule img_wf_write [OF u(1) x]) (use lx q in simp)
  note W = file_ok_write [OF u(2) lessI t_def]
  have off: "off - ?n * BSIZE = off mod BSIZE" by (simp add: minus_div_mult_eq_mod)
  have run: "\<forall>f. bindM (map_block d ?n) (\<lambda>(x, din). bindM (rsect x) (\<lambda>buf. thenM (wsect x (put_at buf (off - ?n * BSIZE) q)) (f din))) s = (f d' t :: kerr + 'b \<times> img)"
    unfolding off using rsect_run [OF u(1), of "of_nat ?x"] wsect_run [OF u(1), of "of_nat ?x"] x' un
    by (simp add: bindM_apply thenM_apply m t_def)
  have "\<forall>k. k < unat (freeblock s) \<longrightarrow> k \<notin> own s d (nb off) \<longrightarrow> sects t k = sects s k"
  proof (intro allI impI)
    fix k assume k: "k < unat (freeblock s)" "k \<notin> own s d (nb off)"
    have "k \<noteq> ?x" using xin e k unfolding extended_def by auto
    then show "sects t k = sects s k" using e k unfolding extended_def by (simp add: t_def)
  qed
  moreover have "freeblock t = freeblock u" "freeinode t = freeinode u" by (simp_all add: t_def)
  ultimately have "extended s d (nb off) t d' (Suc ?n)" using e wf W(1,3) unfolding extended_def by metis
  moreover have "file_bytes t d' (off + length q) = file_bytes s d off @ q"
    using file_bytes_write [OF u(2,1) lessI q(2) t_def] b by simp
  ultimately show ?thesis unfolding n by (intro exI [of _ t] exI [of _ d'] conjI run)
qed

lemma nb_mono: "a \<le> b \<Longrightarrow> nb a \<le> nb b"
  by (simp add: nb_def div_le_mono)

lemma need_split: "a \<le> b \<Longrightarrow> b \<le> c \<Longrightarrow> need a c = need a b + need b c"
  by (simp add: need_def sum.atLeastLessThan_concat)

lemma iappend_loop_ok:
  assumes "img_wf s" "file_ok s d (nb off)" "off + length p \<le> MAXFILE * BSIZE"
    "unat (freeblock s) + need (nb off) (nb (off + length p)) \<le> FSSIZE"
  shows "\<exists>t d'. iappend_loop d off p s = Inr ((d', off + length p), t) \<and>
    extended s d (nb off) t d' (nb (off + length p)) \<and> file_bytes t d' (off + length p) = file_bytes s d off @ p"
  using assms
proof (induction p arbitrary: s d off rule: length_induct)
  case (1 p)
  show ?case
  proof (cases "p = []")
    case True
    then show ?thesis using 1 by (simp add: iappend_loop.simps ret_def extended_def need_def)
  next
    case False
    define n1 where "n1 = min (length p) ((off div BSIZE + 1) * BSIZE - off)"
    have n1: "0 < n1" "n1 \<le> length p" using False block_left [of off] by (simp_all add: n1_def)
    have "n1 \<le> BSIZE + off div BSIZE * BSIZE - off" by (simp add: n1_def)
    then have n1': "off mod BSIZE + n1 \<le> BSIZE" using block_left [of off] div_mult_mod_eq [of off BSIZE] by linarith
    define q where "q = take n1 p"
    have q: "q \<noteq> []" "length q = n1" "p = q @ drop n1 p" using n1 False by (simp_all add: q_def)
    have le: "nb off \<le> nb (off + n1)" "nb (off + n1) \<le> nb (off + length p)" using n1 by (simp_all add: nb_mono)
    note S = need_split [OF le]
    have f: "off div BSIZE < MAXFILE" using False 1(4) by (cases p) (simp_all add: div_less_iff_less_mult sizes)
    have "unat (freeblock s) + need (nb off) (nb (off + n1)) \<le> FSSIZE" using S 1(5) by simp
    from write_piece [OF 1(2,3) f q(1), unfolded q(2), OF n1' this] obtain t d' where
      run: "\<forall>f :: dinode \<Rightarrow> (img, dinode \<times> nat) kmon. bindM (map_block d (off div BSIZE)) (\<lambda>(x, din). bindM (rsect x) (\<lambda>buf.
        thenM (wsect x (put_at buf (off - off div BSIZE * BSIZE) q)) (f din))) s = f d' t"
      and e: "extended s d (nb off) t d' (nb (off + n1))" and b: "file_bytes t d' (off + n1) = file_bytes s d off @ q" by blast
    have t: "img_wf t" "file_ok t d' (nb (off + n1))" "unat (freeblock t) = unat (freeblock s) + need (nb off) (nb (off + n1))"
      using e by (simp_all add: extended_def)
    have l: "off + n1 + length (drop n1 p) = off + length p" using n1 by simp
    have "\<exists>u d''. iappend_loop d' (off + n1) (drop n1 p) t = Inr ((d'', off + length p), u) \<and>
      extended t d' (nb (off + n1)) u d'' (nb (off + length p)) \<and> file_bytes u d'' (off + length p) = file_bytes t d' (off + n1) @ drop n1 p"
      using 1(1) [rule_format, of "drop n1 p" t d' "off + n1", unfolded l] t n1 1(4,5) S by simp
    then obtain u d'' where u: "iappend_loop d' (off + n1) (drop n1 p) t = Inr ((d'', off + length p), u)"
      "extended t d' (nb (off + n1)) u d'' (nb (off + length p))" "file_bytes u d'' (off + length p) = file_bytes t d' (off + n1) @ drop n1 p"
      by blast
    have "iappend_loop d off p s = iappend_loop d' (off + n1) (drop n1 p) t"
      unfolding iappend_loop.simps [of d off p] Let_def n1_def [symmetric] q_def [symmetric]
      using False f run [rule_format, of "\<lambda>din. iappend_loop din (off + n1) (drop n1 p)"] by simp
    moreover have "file_bytes u d'' (off + length p) = file_bytes s d off @ p" using u(3) b q(3) by simp
    ultimately show ?thesis using u(1) extended_trans [OF e u(2) le] by auto
  qed
qed

section \<open>The image\<close>

text \<open>A file does not depend on sectors that are not its own.\<close>

lemma file_frame:
  assumes s: "file_ok s d n" and k: "\<And>k. k \<in> own s d n \<Longrightarrow> sects t k = sects s k" and f: "unat (freeblock s) \<le> unat (freeblock t)"
  shows "i < n \<Longrightarrow> fblk t d i = fblk s d i" "own t d n = own s d n" "file_ok t d n"
    "nb off \<le> n \<Longrightarrow> file_bytes t d off = file_bytes s d off"
proof -
  have ind: "NDIRECT < n \<Longrightarrow> sects t (indir d) = sects s (indir d)" by (rule k) (simp add: own_def)
  have b: "fblk t d i = fblk s d i" if "i < n" for i using ind that by (cases "i < NDIRECT") (simp_all add: fblk_def)
  then show "i < n \<Longrightarrow> fblk t d i = fblk s d i" by blast
  have im: "fblk t d ` {..<n} = fblk s d ` {..<n}" by (rule image_cong) (simp_all add: b)
  then show o: "own t d n = own s d n" by (simp add: own_def)
  have inj: "inj_on (fblk t d) {..<n} = inj_on (fblk s d) {..<n}" by (rule inj_on_cong) (simp add: b)
  have "own s d n \<subseteq> {nmeta..<unat (freeblock t)}" using file_okD(8) [OF s] f by fastforce
  then show "file_ok t d n" using s ind unfolding file_ok_def o im inj by simp
  assume n: "nb off \<le> n"
  have "sects t (fblk t d (j div BSIZE)) = sects s (fblk s d (j div BSIZE))" if "j < off" for j
  proof -
    have "Suc (j div BSIZE) = nb (Suc j)" using nb_step [of 1 j] by (simp add: sizes)
    then have "j div BSIZE < n" using nb_mono [of "Suc j" off] that n by simp
    then show ?thesis using b k fblk_in by simp
  qed
  then show "file_bytes t d off = file_bytes s d off" by (simp add: file_bytes_def)
qed

definition isect :: "nat \<Rightarrow> nat" where
  "isect i = 32 + i div IPB"

definition dino :: "img \<Rightarrow> nat \<Rightarrow> dinode" where
  "dino s i = get_dinode (sects s (isect i)) (i mod IPB)"

definition fsize :: "img \<Rightarrow> nat \<Rightarrow> nat" where
  "fsize s i = unat (d_size (dino s i))"

text \<open>The contents of the file with inode \<open>i\<close>, and the sectors it has.\<close>

definition contents :: "img \<Rightarrow> nat \<Rightarrow> byte list" where
  "contents s i = file_bytes s (dino s i) (fsize s i)"

definition sectors_of :: "img \<Rightarrow> nat \<Rightarrow> nat set" where
  "sectors_of s i = own s (dino s i) (nb (fsize s i))"

definition img_ok :: "img \<Rightarrow> bool" where
  "img_ok s \<longleftrightarrow> img_wf s \<and> (\<forall>i<NINODES. file_ok s (dino s i) (nb (fsize s i))) \<and>
     (\<forall>i<NINODES. \<forall>j<NINODES. i \<noteq> j \<longrightarrow> sectors_of s i \<inter> sectors_of s j = {})"

lemma isect: "i < NINODES \<Longrightarrow> isect i < nmeta" "i < NINODES \<Longrightarrow> unat (IBLOCK (of_nat i) mk_sb) = isect i"
    "i < NINODES \<Longrightarrow> unat (of_nat i :: 32 word) = i" "i < NINODES \<Longrightarrow> isect i < FSSIZE"
  by (simp_all add: isect_def sizes NINODES_def IBLOCK_def mk_sb_def unat_of_nat LOGSIZE_def MAXOPBLOCKS_def unat_word_ariths unat_div)

lemma rinode_run: "img_wf s \<Longrightarrow> i < NINODES \<Longrightarrow> rinode (of_nat i) s = Inr (dino s i, s)"
  using rsect_run [of s "IBLOCK (of_nat i) mk_sb"] by (simp add: rinode_def bindM_apply isect dino_def ret_def)

lemma winode_run:
  "img_wf s \<Longrightarrow> i < NINODES \<Longrightarrow>
    winode (of_nat i) d s = Inr ((), s\<lparr>sects := (sects s)(isect i := put_dinode (sects s (isect i)) (i mod IPB) d)\<rparr>)"
  using rsect_run [of s "IBLOCK (of_nat i) mk_sb"] wsect_run [of s "IBLOCK (of_nat i) mk_sb"]
  by (simp add: winode_def bindM_apply isect Let_def)

text \<open>Writing an inode changes no other inode and no file.\<close>

lemma winode_frame:
  assumes s: "img_wf s" and i: "i < NINODES" and d: "length (d_addrs d) = NDIRECT + 1"
    and t: "t = s\<lparr>sects := (sects s)(isect i := put_dinode (sects s (isect i)) (i mod IPB) d)\<rparr>"
  shows "img_wf t" "dino t i = d" "j < NINODES \<Longrightarrow> j \<noteq> i \<Longrightarrow> dino t j = dino s j" "nmeta \<le> k \<Longrightarrow> sects t k = sects s k"
    "freeblock t = freeblock s" "freeinode t = freeinode s"
proof -
  have l: "length (sects s (isect i)) = BSIZE" by (rule img_wfD(2) [OF s isect(4) [OF i]])
  have m: "i mod IPB < IPB" "j mod IPB < IPB" by (simp_all add: sizes)
  note G = get_put_dinode [OF l m(1) d]
  have "isect i < unat (freeblock s)" using isect(1) [OF i] img_wfD(3) [OF s] by simp
  then show "img_wf t" unfolding t by (rule img_wf_write [OF s]) (rule G(3))
  show "dino t i = d" by (simp add: dino_def t G(1))
  show "nmeta \<le> k \<Longrightarrow> sects t k = sects s k" using isect(1) [OF i] by (simp add: t)
  show "freeblock t = freeblock s" "freeinode t = freeinode s" by (simp_all add: t)
  assume j: "j < NINODES" "j \<noteq> i"
  show "dino t j = dino s j"
  proof (cases "isect j = isect i")
    case True
    then have "j mod IPB \<noteq> i mod IPB" using j(2) div_mult_mod_eq [of i IPB] div_mult_mod_eq [of j IPB] by (auto simp: isect_def)
    then show ?thesis using True G(2) [OF m(2)] by (simp add: dino_def t)
  qed (simp add: dino_def t)
qed

lemma size_frame [simp]:
  "fblk s (d\<lparr>d_size := x\<rparr>) = fblk s d" "own s (d\<lparr>d_size := x\<rparr>) n = own s d n" "file_ok s (d\<lparr>d_size := x\<rparr>) n = file_ok s d n"
  "file_bytes s (d\<lparr>d_size := x\<rparr>) l = file_bytes s d l"
proof -
  show f: "fblk s (d\<lparr>d_size := x\<rparr>) = fblk s d" by (simp add: fblk_def indir_def fun_eq_iff)
  then show o: "own s (d\<lparr>d_size := x\<rparr>) n = own s d n" by (simp add: own_def indir_def)
  show "file_ok s (d\<lparr>d_size := x\<rparr>) n = file_ok s d n" unfolding file_ok_def f o by (simp add: indir_def)
  show "file_bytes s (d\<lparr>d_size := x\<rparr>) l = file_bytes s d l" by (simp add: file_bytes_def f)
qed

lemma img_okD:
  assumes "img_ok s"
  shows "img_wf s" "i < NINODES \<Longrightarrow> file_ok s (dino s i) (nb (fsize s i))"
    "i < NINODES \<Longrightarrow> j < NINODES \<Longrightarrow> i \<noteq> j \<Longrightarrow> sectors_of s i \<inter> sectors_of s j = {}"
    "i < NINODES \<Longrightarrow> sectors_of s i \<subseteq> {nmeta..<unat (freeblock s)}"
  using assms by (simp_all add: img_ok_def file_ok_def sectors_of_def)

text \<open>Storing an inode whose blocks were its own or free.\<close>

lemma install:
  assumes s: "img_ok s" and i: "i < NINODES" and t: "img_wf t" and sz: "unat (d_size d) = l" and d: "file_ok t d (nb l)"
    and fr: "\<And>k. k < unat (freeblock s) \<Longrightarrow> k \<notin> sectors_of s i \<Longrightarrow> sects t k = sects s k"
    and o: "own t d (nb l) \<subseteq> sectors_of s i \<union> {unat (freeblock s)..<unat (freeblock t)}"
    and f: "unat (freeblock s) \<le> unat (freeblock t)"
  shows "\<exists>u. winode (of_nat i) d t = Inr ((), u) \<and> img_ok u \<and> dino u i = d \<and> contents u i = file_bytes t d l \<and>
    (\<forall>j<NINODES. j \<noteq> i \<longrightarrow> dino u j = dino s j \<and> contents u j = contents s j) \<and> freeblock u = freeblock t \<and>
    freeinode u = freeinode t \<and> sects u 1 = sects s 1"
proof -
  define u where "u = t\<lparr>sects := (sects t)(isect i := put_dinode (sects t (isect i)) (i mod IPB) d)\<rparr>"
  have r: "winode (of_nat i) d t = Inr ((), u)" unfolding u_def by (rule winode_run [OF t i])
  note W = winode_frame [OF t i file_okD(1) [OF d] u_def]
  have lo: "nmeta \<le> unat (freeblock s)" by (rule img_wfD(3) [OF img_okD(1) [OF s]])
  have dj: "dino u j = dino s j" if j: "j < NINODES" "j \<noteq> i" for j
  proof -
    have "sects t (isect j) = sects s (isect j)"
      by (rule fr) (use isect(1) [OF j(1)] lo img_okD(4) [OF s i] in auto)
    then show ?thesis using W(3) [OF j] by (simp add: dino_def)
  qed
  have keep: "sects u k = sects s k" if j: "j < NINODES" "j \<noteq> i" "k \<in> sectors_of s j" for j k
  proof -
    have k: "nmeta \<le> k" "k < unat (freeblock s)" using img_okD(4) [OF s j(1)] j(3) by auto
    moreover have "k \<notin> sectors_of s i" using img_okD(3) [OF s i j(1)] j(2,3) by auto
    ultimately show ?thesis using fr W(4) by simp
  qed
  have uf: "unat (freeblock s) \<le> unat (freeblock u)" using f W(5) by simp
  have F: "own u (dino s j) (nb (fsize s j)) = sectors_of s j" "file_ok u (dino s j) (nb (fsize s j))"
      "file_bytes u (dino s j) (fsize s j) = contents s j" if j: "j < NINODES" "j \<noteq> i" for j
    using file_frame [OF img_okD(2) [OF s j(1)] keep [OF j, unfolded sectors_of_def] uf]
    by (simp_all add: sectors_of_def contents_def)
  have ti: "sects u k = sects t k" if "k \<in> own t d (nb l)" for k
    using W(4) file_okD(8) [OF d] that by (metis atLeastLessThan_iff subsetD)
  have I: "own u d (nb l) = own t d (nb l)" "file_ok u d (nb l)"
      "file_bytes u d l = file_bytes t d l"
    using file_frame [OF d ti] W(5) by simp_all
  have fz: "fsize u i = l" "\<And>j. j < NINODES \<Longrightarrow> j \<noteq> i \<Longrightarrow> fsize u j = fsize s j" using W(2) dj sz by (simp_all add: fsize_def)
  have S: "sectors_of u i = own t d (nb l)" "\<And>j. j < NINODES \<Longrightarrow> j \<noteq> i \<Longrightarrow> sectors_of u j = sectors_of s j"
    using W(2) dj fz I F by (simp_all add: sectors_of_def)
  have dis: "sectors_of u i \<inter> sectors_of u j = {}" if j: "j < NINODES" "j \<noteq> i" for j
    using o img_okD(3) [OF s i j(1)] img_okD(4) [OF s j(1)] j S by fastforce
  have "sectors_of u a \<inter> sectors_of u b = {}" if "a < NINODES" "b < NINODES" "a \<noteq> b" for a b
  proof (cases "a = i \<or> b = i")
    case True
    then show ?thesis using dis that by (metis Int_commute)
  qed (use that S img_okD(3) [OF s] in simp)
  moreover have "file_ok u (dino u a) (nb (fsize u a))" if "a < NINODES" for a
    using that W(2) dj fz I(2) F(2) by (cases "a = i") simp_all
  ultimately have "img_ok u" using W(1) by (simp add: img_ok_def)
  moreover have "sects u 1 = sects s 1"
  proof -
    have "sects t 1 = sects s 1" by (rule fr) (use lo img_okD(4) [OF s i] in \<open>auto simp: sizes\<close>)
    then show ?thesis by (simp add: u_def isect_def)
  qed
  ultimately show ?thesis using r W(2,5,6) dj fz F(3) I(3) by (simp add: contents_def)
qed

section \<open>Building the image\<close>

text \<open>The number of sectors of a file with \<open>l\<close> bytes.\<close>

definition blocks :: "nat \<Rightarrow> nat" where
  "blocks l = nb l + (if NDIRECT < nb l then 1 else 0)"

lemma need_0: "need 0 n = n + (if NDIRECT < n then 1 else 0)"
  by (induction n) (auto simp: need_def cost_def)

lemma need_blocks: "a \<le> b \<Longrightarrow> need (nb a) (nb b) + blocks a = blocks b"
  using need_split [of 0 "nb a" "nb b"] nb_mono [of a b] by (simp add: need_0 blocks_def)

lemma length_contents [simp]: "length (contents s i) = fsize s i"
  by (simp add: contents_def file_bytes_def)

text \<open>What appending to the file \<open>i\<close> leaves as it is.\<close>

definition others_kept :: "nat \<Rightarrow> img \<Rightarrow> img \<Rightarrow> bool" where
  "others_kept i s t \<longleftrightarrow> d_type (dino t i) = d_type (dino s i) \<and> freeinode t = freeinode s \<and> sects t 1 = sects s 1 \<and>
     (\<forall>j<NINODES. j \<noteq> i \<longrightarrow> dino t j = dino s j \<and> contents t j = contents s j)"

lemma iappend_ok:
  assumes s: "img_ok s" and i: "i < NINODES" and l: "length (contents s i) + length p \<le> MAXFILE * BSIZE"
    and r: "unat (freeblock s) + blocks (length (contents s i) + length p) \<le> FSSIZE + blocks (length (contents s i))"
  shows "\<exists>t. iappend (of_nat i) p s = Inr ((), t) \<and> img_ok t \<and> contents t i = contents s i @ p \<and> others_kept i s t \<and>
    unat (freeblock t) + blocks (length (contents s i)) = unat (freeblock s) + blocks (length (contents s i) + length p)"
proof -
  let ?d = "dino s i" and ?l = "fsize s i"
  note wf = img_okD(1) [OF s] and ok = img_okD(2) [OF s i]
  note N = need_blocks [of ?l "?l + length p"]
  have "unat (freeblock s) + need (nb ?l) (nb (?l + length p)) \<le> FSSIZE" using N r by simp
  from iappend_loop_ok [OF wf ok _ this] l obtain t d' where
    run: "iappend_loop ?d ?l p s = Inr ((d', ?l + length p), t)" and e: "extended s ?d (nb ?l) t d' (nb (?l + length p))"
    and b: "file_bytes t d' (?l + length p) = file_bytes s ?d ?l @ p" by auto
  have sz: "unat (of_nat (?l + length p) :: 32 word) = ?l + length p" using l by (simp add: unat_of_nat sizes del: of_nat_add)
  note E = extendedD [OF e]
  let ?d' = "d'\<lparr>d_size := of_nat (?l + length p)\<rparr>"
  have "file_ok t ?d' (nb (?l + length p))" using E(2) by simp
  from install [OF s i E(1) _ this, unfolded size_frame sectors_of_def, OF _ E(3,4)] sz E(5) obtain u where
    u: "winode (of_nat i) ?d' t = Inr ((), u)" "img_ok u" "dino u i = ?d'" "contents u i = file_bytes t d' (?l + length p)"
    "\<forall>j<NINODES. j \<noteq> i \<longrightarrow> dino u j = dino s j \<and> contents u j = contents s j" "freeblock u = freeblock t" "freeinode u = freeinode t"
    "sects u 1 = sects s 1" by auto
  have "iappend (of_nat i) p s = Inr ((), u)"
    using run u(1) by (simp add: iappend_def bindM_apply rinode_run [OF wf i] fsize_def)
  moreover have "contents u i = contents s i @ p" using u(4) b by (simp add: contents_def)
  ultimately show ?thesis using u N E(5,6,7) by (simp add: others_kept_def)
qed

lemma others_kept_trans: "others_kept i s t \<Longrightarrow> others_kept i t u \<Longrightarrow> others_kept i s u"
  by (simp add: others_kept_def)

lemma iappend_all:
  assumes "img_ok s" "i < NINODES" "length (contents s i) + length (concat ps) \<le> MAXFILE * BSIZE"
    "unat (freeblock s) + blocks (length (contents s i) + length (concat ps)) \<le> FSSIZE + blocks (length (contents s i))"
  shows "\<exists>t. forM ps (iappend (of_nat i)) s = Inr ((), t) \<and> img_ok t \<and> contents t i = contents s i @ concat ps \<and> others_kept i s t \<and>
    unat (freeblock t) + blocks (length (contents s i)) = unat (freeblock s) + blocks (length (contents s i) + length (concat ps))"
  using assms
proof (induction ps arbitrary: s)
  case Nil
  then show ?case by (simp add: ret_def others_kept_def)
next
  case (Cons p ps)
  let ?l = "length (contents s i)"
  note B = need_blocks [of "?l" "?l + length p"] need_blocks [of "?l + length p" "?l + (length p + length (concat ps))"]
  have "?l + length p \<le> MAXFILE * BSIZE" "unat (freeblock s) + blocks (?l + length p) \<le> FSSIZE + blocks ?l"
    using Cons.prems(3,4) B by simp_all
  from iappend_ok [OF Cons.prems(1,2) this] obtain t where
    t: "iappend (of_nat i) p s = Inr ((), t)" "img_ok t" "contents t i = contents s i @ p" "others_kept i s t"
      "unat (freeblock t) + blocks ?l = unat (freeblock s) + blocks (?l + length p)" by blast
  have l: "length (contents t i) = ?l + length p" unfolding t(3) by (rule length_append)
  have "?l + length p + length (concat ps) \<le> MAXFILE * BSIZE"
      "unat (freeblock t) + blocks (?l + length p + length (concat ps)) \<le> FSSIZE + blocks (?l + length p)"
    using Cons.prems(3,4) t(5) by (simp_all add: add.assoc)
  from Cons.IH [OF t(2) Cons.prems(2), unfolded l, OF this] obtain u where
    u: "forM ps (iappend (of_nat i)) t = Inr ((), u)" "img_ok u" "contents u i = contents t i @ concat ps" "others_kept i t u"
      "unat (freeblock u) + blocks (?l + length p) = unat (freeblock t) + blocks (?l + length p + length (concat ps))" by blast
  have "forM (p # ps) (iappend (of_nat i)) s = Inr ((), u)" using t(1) u(1) by (simp add: thenM_apply)
  moreover have "contents u i = contents s i @ concat (p # ps)" using t(3) u(3) by simp
  moreover have "unat (freeblock u) + blocks ?l = unat (freeblock s) + blocks (?l + length (concat (p # ps)))"
    using t(5) u(5) by (simp add: add.assoc)
  ultimately show ?case using u(2) others_kept_trans [OF t(4) u(4)] by blast
qed

end
