(* ===== verification/Mkfs_Image.thy ===== *)
theory Mkfs_Image
  imports Mkfs_Correct
begin

text \<open>
  The image that mkfs/mkfs.c makes: the superblock, the root directory with an entry for each file, the files with the
  bytes read from the host, and the bitmap of the blocks in use.
\<close>

section \<open>New inodes\<close>

lemma ialloc_ok:
  assumes s: "img_ok s" and i: "unat (freeinode s) < NINODES"
  shows "\<exists>t. mk_ialloc ty s = Inr (freeinode s, t) \<and> img_ok t \<and> d_type (dino t (unat (freeinode s))) = ty \<and>
    contents t (unat (freeinode s)) = [] \<and> freeinode t = freeinode s + 1 \<and> freeblock t = freeblock s \<and> sects t 1 = sects s 1 \<and>
    (\<forall>j<NINODES. j \<noteq> unat (freeinode s) \<longrightarrow> dino t j = dino s j \<and> contents t j = contents s j)"
proof -
  let ?i = "unat (freeinode s)"
  define s' where "s' = s\<lparr>freeinode := freeinode s + 1\<rparr>"
  define d where "d = \<lparr>d_type = ty, d_major = 0, d_minor = 0, d_nlink = 1, d_size = 0, d_addrs = replicate (NDIRECT + 1) 0\<rparr>"
  have wf: "img_wf s'" using img_okD(1) [OF s] by (simp add: img_wf_def s'_def)
  have f: "freeblock s' = freeblock s" "sects s' = sects s" by (simp_all add: s'_def)
  have z: "nb 0 = 0" by (simp add: nb_def sizes)
  have d: "file_ok s' d 0" "own s' d 0 = {}" "file_bytes s' d 0 = []" "unat (d_size d) = 0"
    by (simp_all add: file_ok_def own_def file_bytes_def d_def del: replicate_Suc)
  have "\<exists>u. winode (of_nat ?i) d s' = Inr ((), u) \<and> img_ok u \<and> dino u ?i = d \<and> contents u ?i = file_bytes s' d 0 \<and>
    (\<forall>j<NINODES. j \<noteq> ?i \<longrightarrow> dino u j = dino s j \<and> contents u j = contents s j) \<and> freeblock u = freeblock s' \<and>
    freeinode u = freeinode s' \<and> sects u 1 = sects s 1"
    by (rule install [OF s i wf d(4)]) (simp_all add: z d f)
  then obtain u where u: "winode (freeinode s) d s' = Inr ((), u)" "img_ok u" "dino u ?i = d" "contents u ?i = file_bytes s' d 0"
    "\<forall>j<NINODES. j \<noteq> ?i \<longrightarrow> dino u j = dino s j \<and> contents u j = contents s j" "freeblock u = freeblock s'" "freeinode u = freeinode s'"
    "sects u 1 = sects s 1" by auto
  have "mk_ialloc ty s = Inr (freeinode s, u)"
    using u(1) by (simp add: mk_ialloc_def bindM_apply thenM_apply gets_apply modify_apply ret_def s'_def d_def)
  then show ?thesis using u d by (auto simp: s'_def d_def)
qed

section \<open>The files\<close>

definition entry :: "nat \<Rightarrow> byte list \<times> byte list list option \<Rightarrow> byte list" where
  "entry i f = dir_entry (of_nat i) (skip_underscore (shortname (fst f)))"

definition host_bytes :: "byte list \<times> byte list list option \<Rightarrow> byte list" where
  "host_bytes f = (case snd f of Some ps \<Rightarrow> concat (takeWhile (\<lambda>piece. piece \<noteq> []) ps) | None \<Rightarrow> [])"

definition file_fits :: "byte list \<times> byte list list option \<Rightarrow> bool" where
  "file_fits f \<longleftrightarrow> of_char (CHR ''/'') \<notin> set (shortname (fst f)) \<and> snd f \<noteq> None \<and> length (host_bytes f) \<le> MAXFILE * BSIZE"

text \<open>An image with a root directory and files.\<close>

definition built :: "img \<Rightarrow> byte list \<Rightarrow> byte list list \<Rightarrow> bool" where
  "built s root cs \<longleftrightarrow> img_ok s \<and> decode_sb (sects s 1) = mk_sb \<and> unat (freeinode s) = 2 + length cs \<and> contents s 1 = root \<and> d_type (dino s 1) = T_DIR \<and>
     (\<forall>k<length cs. contents s (2 + k) = cs ! k \<and> d_type (dino s (2 + k)) = T_FILE) \<and>
     unat (freeblock s) = nmeta + blocks (length root) + (\<Sum>c\<leftarrow>cs. blocks (length c))"

lemma length_entry: "length (dir_entry i name) = 16"
  by (simp add: dir_entry_def encode_dirent_def pad_name_def DIRSIZ_def)

lemma blocks_0 [simp]: "blocks 0 = 0"
  by (simp add: blocks_def nb_def sizes)

lemma append_root:
  assumes b: "built s root cs" and n: "1 + length cs < NINODES" and l: "length root + length p \<le> MAXFILE * BSIZE"
    and r: "nmeta + blocks (length root + length p) + (\<Sum>c\<leftarrow>cs. blocks (length c)) \<le> FSSIZE"
  shows "\<exists>t. iappend 1 p s = Inr ((), t) \<and> built t (root @ p) cs"
proof -
  have s: "img_ok s" "contents s 1 = root" using b by (simp_all add: built_def)
  have "unat (freeblock s) + blocks (length root + length p) \<le> FSSIZE + blocks (length root)" using b r by (simp add: built_def)
  from iappend_ok [OF s(1), of 1 p, unfolded s(2), OF _ l this] obtain t where
    t: "iappend 1 p s = Inr ((), t)" "img_ok t" "contents t 1 = root @ p" "others_kept 1 s t"
      "unat (freeblock t) + blocks (length root) = unat (freeblock s) + blocks (length root + length p)" by (auto simp: NINODES_def)
  have "built t (root @ p) cs" using b t n by (simp add: built_def others_kept_def)
  then show ?thesis using t(1) by blast
qed

lemma add_file_ok:
  assumes b: "built s root cs" and f: "file_fits f" and n: "2 + length cs < NINODES"
    and l: "length root + 16 \<le> MAXFILE * BSIZE"
    and r: "nmeta + blocks (length root + 16) + (\<Sum>c\<leftarrow>cs @ [host_bytes f]. blocks (length c)) \<le> FSSIZE"
  shows "\<exists>t. add_file 1 f s = Inr ((), t) \<and> built t (root @ entry (2 + length cs) f) (cs @ [host_bytes f])"
proof -
  let ?i = "2 + length cs"
  obtain arg pieces where [simp]: "f = (arg, Some pieces)" using f by (cases f) (auto simp: file_fits_def)
  define ps where "ps = takeWhile (\<lambda>piece. piece \<noteq> []) pieces"
  have s: "img_ok s" and i: "unat (freeinode s) = ?i" using b by (simp_all add: built_def)
  have iw: "freeinode s = of_nat ?i" using n unfolding i [symmetric] by (simp add: unat_of_nat)
  have "unat (freeinode s) < NINODES" using i n by simp
  from ialloc_ok [OF s this, of T_FILE, unfolded i] obtain t where
    t: "mk_ialloc T_FILE s = Inr (freeinode s, t)" "img_ok t" "d_type (dino t ?i) = T_FILE" "contents t ?i = []"
      "freeinode t = freeinode s + 1" "freeblock t = freeblock s" "sects t 1 = sects s 1" "\<forall>j<NINODES. j \<noteq> ?i \<longrightarrow> dino t j = dino s j \<and> contents t j = contents s j"
    by blast
  have fi: "unat (freeinode t) = Suc ?i" using n unfolding t(5) iw by (simp add: unat_word_ariths(1) unat_of_nat NINODES_def del: of_nat_add)
  have "contents t (2 + k) = (cs @ [[]]) ! k \<and> d_type (dino t (2 + k)) = T_FILE" if "k < Suc (length cs)" for k
    using that t(3,4,8) b n by (cases "k = length cs") (auto simp: built_def nth_append)
  then have bt: "built t root (cs @ [[]])" using b t(2,6,7,8) fi n by (simp add: built_def NINODES_def)
  let ?e = "entry ?i f"
  have e: "length ?e = 16" by (simp add: entry_def length_entry)
  have "\<exists>u. iappend 1 ?e t = Inr ((), u) \<and> built u (root @ ?e) (cs @ [[]])"
    by (rule append_root [OF bt]) (use n l r e in simp_all)
  then obtain u where u: "iappend 1 ?e t = Inr ((), u)" "built u (root @ ?e) (cs @ [[]])" by blast
  have uo: "img_ok u" "contents u ?i = []" using u(2) by (simp_all add: built_def nth_append)
  have hb: "concat ps = host_bytes f" by (simp add: host_bytes_def ps_def)
  have "\<exists>v. forM ps (iappend (of_nat ?i)) u = Inr ((), v) \<and> img_ok v \<and> contents v ?i = contents u ?i @ concat ps \<and> others_kept ?i u v \<and>
    unat (freeblock v) + blocks (length (contents u ?i)) = unat (freeblock u) + blocks (length (contents u ?i) + length (concat ps))"
    by (rule iappend_all [OF uo(1) n]) (use f u(2) r e in \<open>simp_all add: file_fits_def built_def hb uo(2) del: length_contents\<close>)
  then obtain v where v: "forM ps (iappend (of_nat ?i)) u = Inr ((), v)" "img_ok v" "contents v ?i = host_bytes f" "others_kept ?i u v"
    "unat (freeblock v) = unat (freeblock u) + blocks (length (host_bytes f))" unfolding uo(2) hb by auto
  have "contents v (2 + k) = (cs @ [host_bytes f]) ! k \<and> d_type (dino v (2 + k)) = T_FILE" if "k < Suc (length cs)" for k
    using that v(3,4) u(2) n by (cases "k = length cs") (auto simp: built_def others_kept_def nth_append)
  then have "built v (root @ ?e) (cs @ [host_bytes f])" using u(2) v(2,4,5) n by (simp add: built_def others_kept_def)
  moreover have "add_file 1 f s = Inr ((), v)"
    using f t(1) u(1) v(1) iw by (simp add: add_file_def ps_def Let_def file_fits_def bindM_apply thenM_apply entry_def)
  ultimately show ?thesis by blast
qed


fun entries :: "nat \<Rightarrow> (byte list \<times> byte list list option) list \<Rightarrow> byte list" where
  "entries i [] = []"
| "entries i (f # fs) = entry i f @ entries (Suc i) fs"

lemma length_entries [simp]: "length (entries i fs) = 16 * length fs"
  by (induction fs arbitrary: i) (simp_all add: entry_def length_entry)

lemma blocks_mono: "a \<le> b \<Longrightarrow> blocks a \<le> blocks b"
  using need_blocks [of a b] by simp

lemma add_files_ok:
  assumes "built s root cs" "list_all file_fits fs" "1 + length cs + length fs < NINODES" "length root + 16 * length fs \<le> MAXFILE * BSIZE"
    "nmeta + blocks (length root + 16 * length fs) + (\<Sum>c\<leftarrow>cs. blocks (length c)) + (\<Sum>f\<leftarrow>fs. blocks (length (host_bytes f))) \<le> FSSIZE"
  shows "\<exists>t. forM fs (add_file 1) s = Inr ((), t) \<and> built t (root @ entries (2 + length cs) fs) (cs @ map host_bytes fs)"
  using assms
proof (induction fs arbitrary: s root cs)
  case Nil
  then show ?case by (simp add: ret_def)
next
  case (Cons f fs)
  have "blocks (length root + 16) \<le> blocks (length root + 16 * length (f # fs))" by (rule blocks_mono) simp
  then have "\<exists>t. add_file 1 f s = Inr ((), t) \<and> built t (root @ entry (2 + length cs) f) (cs @ [host_bytes f])"
    using Cons.prems by (intro add_file_ok) simp_all
  then obtain t where t: "add_file 1 f s = Inr ((), t)" "built t (root @ entry (2 + length cs) f) (cs @ [host_bytes f])" by blast
  have e: "length (entry (2 + length cs) f) = 16" by (simp add: entry_def length_entry)
  have "\<exists>u. forM fs (add_file 1) t = Inr ((), u) \<and>
    built u ((root @ entry (2 + length cs) f) @ entries (2 + length (cs @ [host_bytes f])) fs) ((cs @ [host_bytes f]) @ map host_bytes fs)"
    by (rule Cons.IH [OF t(2)]) (use Cons.prems e in \<open>simp_all add: add.assoc add.commute\<close>)
  then obtain u where u: "forM fs (add_file 1) t = Inr ((), u)"
    "built u (root @ entries (2 + length cs) (f # fs)) (cs @ map host_bytes (f # fs))" by auto
  have "forM (f # fs) (add_file 1) s = Inr ((), u)" using t(1) u(1) by (simp add: thenM_apply)
  then show ?case using u(2) by blast
qed

section \<open>The empty image\<close>

definition blank :: img where
  "blank = new_img\<lparr>sects := (\<lambda>k. if k < FSSIZE then replicate BSIZE 0 else [])(1 := put_at (replicate BSIZE 0) 0 (encode_sb mk_sb)),
     nsects := FSSIZE, freeblock := of_nat nmeta\<rparr>"

lemma zero_sectors:
  assumes "n \<le> FSSIZE"
  shows "forM [0..<n] (\<lambda>i. wsect (of_nat i) (replicate BSIZE 0)) s =
    Inr ((), s\<lparr>sects := \<lambda>k. if k < n then replicate BSIZE 0 else sects s k, nsects := max (nsects s) n\<rparr>)"
  using assms
proof (induction n)
  case 0
  then show ?case by (simp add: ret_def)
next
  case (Suc n)
  have "unat (of_nat n :: 32 word) = n" using Suc.prems by (simp add: unat_of_nat sizes)
  then show ?case using Suc by (simp add: forM_append thenM_apply wsect_def modify_apply ret_def fun_eq_iff less_Suc_eq max_def)
qed

lemma of_le_zeros [simp]: "of_le (replicate n 0) = (0 :: 'a::len word)"
  by (rule bit_word_eqI) (simp add: bit_of_le)

lemma zero_dinode:
  assumes "k < IPB"
  shows "get_dinode (replicate BSIZE 0) k =
    \<lparr>d_type = 0, d_major = 0, d_minor = 0, d_nlink = 0, d_size = 0, d_addrs = replicate (NDIRECT + 1) 0\<rparr>"
proof -
  have z: "take 64 (drop (64 * k) (replicate BSIZE 0)) = replicate 64 (0 :: byte)" using assms by (simp add: sizes min_def)
  have "map (\<lambda>i. get32 (replicate 64 0) (i + 3)) [0..<NDIRECT + 1] = replicate (NDIRECT + 1) 0"
    by (rule nth_equalityI) (simp_all add: get32_def del: upt_Suc replicate_Suc)
  then show ?thesis unfolding get_dinode_def z decode_dinode_def by simp
qed

lemma length_encode_sb: "length (encode_sb sb) = 32"
  by (simp add: encode_sb_def)

lemma blank_ok: "img_ok blank"
proof -
  have d: "dino blank i = \<lparr>d_type = 0, d_major = 0, d_minor = 0, d_nlink = 0, d_size = 0, d_addrs = replicate (NDIRECT + 1) 0\<rparr>"
    if "i < NINODES" for i
    using zero_dinode [of "i mod IPB"] isect(4) [OF that] by (simp add: dino_def blank_def isect_def sizes)
  have z: "nb 0 = 0" by (simp add: nb_def sizes)
  have "img_wf blank" by (simp add: img_wf_def blank_def length_encode_sb sizes unat_of_nat)
  moreover have "file_ok blank (dino blank i) (nb (fsize blank i))" "sectors_of blank i = {}" if "i < NINODES" for i
    using d [OF that] by (simp_all add: fsize_def sectors_of_def z file_ok_def own_def del: replicate_Suc)
  ultimately show ?thesis by (simp add: img_ok_def)
qed

lemma get32_append: "4 * i + 4 \<le> length xs \<Longrightarrow> get32 (xs @ ys) i = get32 xs i"
  by (simp add: get32_def)

lemma decode_encode_sb: "decode_sb (encode_sb sb @ ys) = sb"
proof -
  define ws where "ws = [magic sb, sb_size sb, nblocks sb, ninodes sb, nlog sb, logstart sb, inodestart sb, bmapstart sb]"
  have "get32 (encode_sb sb @ ys) i = ws ! i" if "i < 8" for i
    using that get32_append [of i "encode_sb sb" ys] get32_words [of i ws] by (simp add: length_encode_sb encode_sb_def ws_def)
  then show ?thesis by (simp add: decode_sb_def ws_def)
qed

lemma root_ok: "\<exists>t. mk_ialloc T_DIR blank = Inr (1, t) \<and> built t [] []"
proof -
  have f: "freeinode blank = 1" "unat (freeblock blank) = nmeta" "decode_sb (sects blank 1) = mk_sb"
    by (simp_all add: blank_def new_img_def sizes unat_of_nat put_at_def decode_encode_sb)
  from ialloc_ok [OF blank_ok, of T_DIR] f show ?thesis by (auto simp: built_def NINODES_def)
qed

section \<open>The bitmap\<close>

definition bit_marked :: "byte list \<Rightarrow> nat \<Rightarrow> bool" where
  "bit_marked buf b \<longleftrightarrow> bit (buf ! (b div 8)) (b mod 8)"

lemma used_bits: "n \<le> BSIZE * 8 \<Longrightarrow> length (used_bits n) = BSIZE \<and> (\<forall>b<BSIZE * 8. bit_marked (used_bits n) b = (b < n))"
proof (induction n)
  case 0
  then show ?case by (simp add: used_bits_def bit_marked_def less_mult_imp_div_less)
next
  case (Suc n)
  then have l: "length (used_bits n) = BSIZE" and m: "\<And>b. b < BSIZE * 8 \<Longrightarrow> bit_marked (used_bits n) b = (b < n)" by simp_all
  have e: "used_bits (Suc n) = (used_bits n)[n div 8 := used_bits n ! (n div 8) OR push_bit (n mod 8) 1]" by (simp add: used_bits_def)
  have "bit_marked (used_bits (Suc n)) b = (b < Suc n)" if b: "b < BSIZE * 8" for b
  proof (cases "b div 8 = n div 8")
    case True
    then have "b mod 8 = n mod 8 \<longleftrightarrow> b = n" using div_mult_mod_eq [of b 8] div_mult_mod_eq [of n 8] by metis
    moreover have "n div 8 < BSIZE" using Suc.prems by (simp add: less_mult_imp_div_less)
    ultimately show ?thesis using m [OF b] True l
      by (auto simp: e bit_marked_def bit_or_iff bit_exp_iff less_Suc_eq)
  next
    case False
    then show ?thesis using m [OF b] by (auto simp: e bit_marked_def less_Suc_eq)
  qed
  then show ?case using l e by simp
qed

section \<open>The whole program\<close>

definition root_entries :: "(byte list \<times> byte list list option) list \<Rightarrow> byte list" where
  "root_entries files = dir_entry 1 [46] @ dir_entry 1 [46, 46] @ entries 2 files"

definition image_blocks :: "(byte list \<times> byte list list option) list \<Rightarrow> nat" where
  "image_blocks files = nmeta + blocks (16 * (length files + 2)) + (\<Sum>f\<leftarrow>files. blocks (length (host_bytes f)))"

definition image_fits :: "(byte list \<times> byte list list option) list \<Rightarrow> bool" where
  "image_fits files \<longleftrightarrow> list_all file_fits files \<and> 1 + length files < NINODES \<and> image_blocks files \<le> FSSIZE"

text \<open>All of the program but the last two writes.\<close>

lemma files_ok:
  assumes "image_fits files"
  shows "\<exists>s t u v. mk_ialloc T_DIR blank = Inr (1, s) \<and> iappend 1 (dir_entry 1 [46]) s = Inr ((), t) \<and>
    iappend 1 (dir_entry 1 [46, 46]) t = Inr ((), u) \<and> forM files (add_file 1) u = Inr ((), v) \<and>
    built v (root_entries files) (map host_bytes files)"
proof -
  note F = assms [unfolded image_fits_def image_blocks_def]
  have n: "16 * length files + 32 \<le> MAXFILE * BSIZE" using F by (simp add: NINODES_def sizes)
  have b: "blocks 16 \<le> blocks (16 * (length files + 2))" "blocks 32 \<le> blocks (16 * (length files + 2))" by (simp_all add: blocks_mono)
  obtain s where s: "mk_ialloc T_DIR blank = Inr (1, s)" "built s [] []" using root_ok by blast
  have "\<exists>t. iappend 1 (dir_entry 1 [46]) s = Inr ((), t) \<and> built t ([] @ dir_entry 1 [46]) []"
    by (rule append_root [OF s(2)]) (use F n b in \<open>simp_all add: length_entry NINODES_def\<close>)
  then obtain t where t: "iappend 1 (dir_entry 1 [46]) s = Inr ((), t)" "built t (dir_entry 1 [46]) []" by auto
  have "\<exists>u. iappend 1 (dir_entry 1 [46, 46]) t = Inr ((), u) \<and> built u (dir_entry 1 [46] @ dir_entry 1 [46, 46]) []"
    by (rule append_root [OF t(2)]) (use F n b in \<open>simp_all add: length_entry NINODES_def\<close>)
  then obtain u where u: "iappend 1 (dir_entry 1 [46, 46]) t = Inr ((), u)" "built u (dir_entry 1 [46] @ dir_entry 1 [46, 46]) []" by blast
  have "\<exists>v. forM files (add_file 1) u = Inr ((), v) \<and>
    built v ((dir_entry 1 [46] @ dir_entry 1 [46, 46]) @ entries (2 + length ([] :: byte list list)) files) ([] @ map host_bytes files)"
    by (rule add_files_ok [OF u(2)]) (use F n in \<open>simp_all add: length_entry add.commute\<close>)
  then show ?thesis using s(1) t(1) u(1) by (auto simp: root_entries_def)
qed

text \<open>The last two writes: the size of the root directory and the bitmap.\<close>

lemma image_finished:
  assumes v: "built v root cs" and n: "1 + length cs < NINODES" and l: "length root \<le> MAXFILE * BSIZE"
    and w: "w = v\<lparr>sects := (sects v)(isect 1 := put_dinode (sects v (isect 1)) (1 mod IPB) ((dino v 1)\<lparr>d_size := x\<rparr>))\<rparr>"
    and t: "t = w\<lparr>sects := (sects w)(45 := used_bits (unat (freeblock v)))\<rparr>"
  shows "decode_sb (sects t 1) = mk_sb" "d_type (dino t 1) = T_DIR" "fsize t 1 = unat x" "file_bytes t (dino t 1) (length root) = root"
    "k < length cs \<Longrightarrow> d_type (dino t (2 + k)) = T_FILE" "k < length cs \<Longrightarrow> contents t (2 + k) = cs ! k"
    "b < FSSIZE \<Longrightarrow> bit_marked (sects t 45) b = (b < unat (freeblock t))" "freeblock t = freeblock v"
    "file_ok t (dino t 1) (nb (length root))" "k < length cs \<Longrightarrow> file_ok t (dino t (2 + k)) (nb (fsize t (2 + k)))"
    "b < FSSIZE \<Longrightarrow> length (sects t b) = BSIZE" "unat (freeblock t) \<le> FSSIZE"
proof -
  have ok: "img_ok v" and wf: "img_wf v" using v img_okD(1) by (auto simp: built_def)
  have one: "1 < NINODES" by (simp add: NINODES_def)
  note R = img_okD(2) [OF ok one]
  have da: "length (d_addrs ((dino v 1)\<lparr>d_size := x\<rparr>)) = NDIRECT + 1" using file_okD(1) [OF R] by simp
  note W = winode_frame [OF wf one da w]
  have dt: "dino t i = dino w i" if "i < NINODES" for i
  proof -
    have "isect i \<noteq> 45" using that by (simp add: isect_def NINODES_def sizes)
    then show ?thesis by (simp add: dino_def t)
  qed
  have st: "sects t k = sects v k" if "nmeta \<le> k" for k using that W(4) by (simp add: t sizes)
  have fb: "unat (freeblock v) \<le> unat (freeblock t)" by (simp add: t w)
  have keep: "file_bytes t (dino v i) (fsize v i) = contents v i" if i: "i < NINODES" for i
  proof -
    have "sects t k = sects v k" if "k \<in> own v (dino v i) (nb (fsize v i))" for k
      by (rule st) (use img_okD(4) [OF ok i] that in \<open>auto simp: sectors_of_def\<close>)
    then show ?thesis unfolding contents_def by (rule file_frame(4) [OF img_okD(2) [OF ok i] _ fb]) simp_all
  qed
  have fok: "file_ok t (dino v i) (nb (fsize v i))" if i: "i < NINODES" for i
  proof -
    have "sects t k = sects v k" if "k \<in> own v (dino v i) (nb (fsize v i))" for k
      by (rule st) (use img_okD(4) [OF ok i] that in \<open>auto simp: sectors_of_def\<close>)
    then show ?thesis by (rule file_frame(3) [OF img_okD(2) [OF ok i] _ fb])
  qed
  show "decode_sb (sects t 1) = mk_sb" using v by (simp add: built_def t w isect_def)
  show "d_type (dino t 1) = T_DIR" "fsize t 1 = unat x" using dt [OF one] W(2) v by (simp_all add: built_def fsize_def)
  have rt: "length root = fsize v 1" "contents v 1 = root" using v by (auto simp: built_def)
  show "file_ok t (dino t 1) (nb (length root))" using fok [OF one] rt dt [OF one] W(2) by simp
  show "length (sects t b) = BSIZE" if "b < FSSIZE"
    using img_wfD(2) [OF W(1) that] used_bits [of "unat (freeblock v)"] img_wfD(4) [OF wf] by (simp add: t sizes)
  show "unat (freeblock t) \<le> FSSIZE" using img_wfD(4) [OF wf] by (simp add: t w)
  show "file_bytes t (dino t 1) (length root) = root" using rt keep [OF one] dt [OF one] W(2) by simp
  show "freeblock t = freeblock v" by (simp add: t w)
  show "bit_marked (sects t 45) b = (b < unat (freeblock t))" if "b < FSSIZE"
    using used_bits [of "unat (freeblock v)"] img_wfD(4) [OF wf] that by (simp add: t w sizes)
  assume k: "k < length cs"
  then have i: "2 + k < NINODES" "2 + k \<noteq> 1" using n by simp_all
  show "d_type (dino t (2 + k)) = T_FILE" "contents t (2 + k) = cs ! k" "file_ok t (dino t (2 + k)) (nb (fsize t (2 + k)))"
    using dt [OF i(1)] W(3) [OF i] keep [OF i(1)] fok [OF i(1)] v k by (simp_all add: contents_def fsize_def built_def)
qed

lemma blank_run:
  "thenM (modify (\<lambda>s. s\<lparr>freeblock := of_nat nmeta\<rparr>)) (thenM (forM [0..<FSSIZE] (\<lambda>i. wsect (of_nat i) (replicate BSIZE 0)))
    (thenM (wsect 1 (put_at (replicate BSIZE 0) 0 (encode_sb mk_sb))) m)) new_img = m blank"
proof -
  let ?s = "new_img\<lparr>freeblock := of_nat nmeta\<rparr>"
  let ?t = "?s\<lparr>sects := \<lambda>k. if k < FSSIZE then replicate BSIZE 0 else sects ?s k, nsects := max (nsects ?s) FSSIZE\<rparr>"
  have b: "wsect 1 (put_at (replicate BSIZE 0) 0 (encode_sb mk_sb)) ?t = Inr ((), blank)"
    by (simp add: wsect_def modify_apply blank_def new_img_def sizes fun_eq_iff)
  show ?thesis
    by (rule thenM_run, rule modify_run, rule refl, rule thenM_run, rule zero_sectors, rule order.refl, rule thenM_run, rule b, rule refl)
qed

lemma mkfs_image:
  assumes "image_fits files"
  shows "\<exists>t. mkfs_main files new_img = Inr ((), t) \<and> decode_sb (sects t 1) = mk_sb \<and>
    d_type (dino t 1) = T_DIR \<and> fsize t 1 = (16 * (length files + 2) div BSIZE + 1) * BSIZE \<and>
    file_bytes t (dino t 1) (16 * (length files + 2)) = root_entries files \<and>
    (\<forall>k<length files. d_type (dino t (2 + k)) = T_FILE \<and> contents t (2 + k) = host_bytes (files ! k)) \<and>
    (\<forall>b<FSSIZE. bit_marked (sects t (unat (bmapstart mk_sb))) b \<longleftrightarrow> b < image_blocks files) \<and>
    file_ok t (dino t 1) (nb (16 * (length files + 2))) \<and> (\<forall>k<length files. file_ok t (dino t (2 + k)) (nb (fsize t (2 + k)))) \<and>
    (\<forall>b<FSSIZE. length (sects t b) = BSIZE) \<and> unat (freeblock t) \<le> FSSIZE"
proof -
  obtain s t u v where run: "mk_ialloc T_DIR blank = Inr (1, s)" "iappend 1 (dir_entry 1 [46]) s = Inr ((), t)"
    "iappend 1 (dir_entry 1 [46, 46]) t = Inr ((), u)" "forM files (add_file 1) u = Inr ((), v)"
    and v: "built v (root_entries files) (map host_bytes files)" using files_ok [OF assms] by blast
  have n: "1 + length files < NINODES" using assms by (simp add: image_fits_def)
  have l: "length (root_entries files) = 16 * (length files + 2)" by (simp add: root_entries_def length_entry)
  have wf: "img_wf v" and fb: "unat (freeblock v) = image_blocks files" and c: "contents v 1 = root_entries files"
    using v l img_okD(1) by (auto simp: built_def image_blocks_def comp_def)
  have z: "unat (d_size (dino v 1)) = 16 * (length files + 2)" using l c length_contents [of v 1] by (simp add: fsize_def)
  define x :: "32 word" where "x = of_nat ((unat (d_size (dino v 1)) div BSIZE + 1) * BSIZE)"
  define w where "w = v\<lparr>sects := (sects v)(isect 1 := put_dinode (sects v (isect 1)) (1 mod IPB) ((dino v 1)\<lparr>d_size := x\<rparr>))\<rparr>"
  define y where "y = w\<lparr>sects := (sects w)(45 := used_bits (unat (freeblock v)))\<rparr>"
  have fs: "unat (freeblock v) < BSIZE * 8" using img_wfD(4) [OF wf] by (simp add: sizes)
  have bm: "unat (bmapstart mk_sb) = 45" by (simp add: mk_sb_def sizes LOGSIZE_def MAXOPBLOCKS_def)
  have win: "winode 1 ((dino v 1)\<lparr>d_size := x\<rparr>) v = Inr ((), w)" using winode_run [OF wf, of 1] by (simp add: w_def NINODES_def)
  have wfw: "nsects w = FSSIZE" using img_wfD(1) [OF wf] by (simp add: w_def)
  have bal: "mk_balloc (unat (freeblock w)) w = Inr ((), y)"
    using fs wfw by (simp add: mk_balloc_def wsect_def modify_apply bm y_def w_def sizes)
  have rin: "rinode 1 v = Inr (dino v 1, v)" using rinode_run [OF wf, of 1] by (simp add: NINODES_def)
  have ux: "unat x = (16 * (length files + 2) div BSIZE + 1) * BSIZE" using n unfolding x_def z by (simp add: unat_of_nat sizes NINODES_def del: of_nat_add of_nat_mult)
  have "mkfs_main files new_img = Inr ((), y)"
    unfolding mkfs_main_def blank_run
    using run rin win bal by (simp add: bindM_apply thenM_apply gets_apply ROOTINO_def Let_def x_def)
  moreover note image_finished [OF v _ _ w_def y_def, unfolded length_map l] 
  ultimately show ?thesis using n fb ux bm by (intro exI [of _ y]) (simp add: NINODES_def sizes)
qed

text \<open>C11: Given files that fit, the program ends without a failed assertion and the image holds them.  The superblock
  read by the kernel's decoding is the one described, the root directory has type directory and starts with the entries
  for itself, its parent and every file in order, the inode of every file has type file and, through its direct and
  indirect blocks, exactly the bytes read from the host, and the bitmap marks exactly the blocks given out.  The size of
  the root directory is rounded up by the rule of the program.\<close>

theorem mkfs_builds:
  assumes "image_fits files"
  shows "\<exists>t. mkfs_main files new_img = Inr ((), t) \<and> decode_sb (sects t 1) = mk_sb \<and>
    d_type (dino t 1) = T_DIR \<and> fsize t 1 = (16 * (length files + 2) div BSIZE + 1) * BSIZE \<and>
    file_bytes t (dino t 1) (16 * (length files + 2)) = root_entries files \<and>
    (\<forall>k<length files. d_type (dino t (2 + k)) = T_FILE \<and> contents t (2 + k) = host_bytes (files ! k)) \<and>
    (\<forall>b<FSSIZE. bit_marked (sects t (unat (bmapstart mk_sb))) b \<longleftrightarrow> b < image_blocks files)"
  using mkfs_image [OF assms] by blast

theorem mkfs_builds_witness:
  "image_fits [(map of_char ''user/_cat'', Some [[7, 8], [9]]), (map of_char ''README'', Some [])] \<and>
   (\<exists>t. mkfs_main [(map of_char ''user/_cat'', Some [[7, 8], [9]]), (map of_char ''README'', Some [])] new_img = Inr ((), t) \<and>
     contents t 2 = [7, 8, 9] \<and> contents t 3 = [] \<and> drop 48 (file_bytes t (dino t 1) 64) = entry 3 (map of_char ''README'', Some []))"
proof -
  let ?fs = "[(map of_char ''user/_cat'', Some [[7, 8], [9]]), (map of_char ''README'', Some [])] :: (byte list \<times> byte list list option) list"
  have f: "image_fits ?fs"
    by (simp add: image_fits_def image_blocks_def file_fits_def shortname_def host_bytes_def blocks_def nb_def sizes NINODES_def)
  from mkfs_builds [OF f] obtain t where "mkfs_main ?fs new_img = Inr ((), t)" "file_bytes t (dino t 1) 64 = root_entries ?fs"
    and c: "\<forall>k<length ?fs. d_type (dino t (2 + k)) = T_FILE \<and> contents t (2 + k) = host_bytes (?fs ! k)" by auto
  moreover have "contents t 2 = [7, 8, 9]" "contents t 3 = []" using c [rule_format, of 0] c [rule_format, of 1] by (simp_all add: host_bytes_def)
  moreover have "drop 48 (root_entries ?fs) = entry 3 (map of_char ''README'', Some [])"
    by (simp add: root_entries_def length_entry entry_def)
  ultimately show ?thesis using f by metis
qed

end
