(* ===== verification/Fs_Read.thy ===== *)
theory Fs_Read
  imports Fs_Dir Bio_Client
begin

text \<open>
  Reading inodes through the buffer cache: \<open>bmap\<close> and \<open>readi\<close> of kernel/fs.c return the bytes of the blocks that the
  inode lists, direct or behind the indirect block, whatever is cached and pinned, and \<open>dirlookup\<close> finds the entry of a
  name in a directory.
\<close>

section \<open>Blocks\<close>

text \<open>A block is read, used and given back; the cache is as before.\<close>

definition cache_ready :: "nat \<Rightarrow> 'a \<Rightarrow> (block \<Rightarrow> 32 word) \<Rightarrow> (block \<Rightarrow> byte list) \<Rightarrow> (block \<Rightarrow> byte list) \<Rightarrow> 'a bstate_scheme \<Rightarrow> bool" where
  "cache_ready p E R D V s \<longleftrightarrow> act p E R {} D V s \<and> (\<forall>k. R k \<noteq> - 1) \<and> card {k. R k \<noteq> 0} < NBUF"

lemma wp_read_block:
  assumes s: "cache_ready p E R D V s" and k: "(d, n) \<noteq> (0, 0)" and g: "\<And>bp. g bp (V (d, n)) = thenM (brelse bp) f"
    and Q: "\<And>t. cache_ready p E R D V t \<Longrightarrow> wpM f Q t"
  shows "wpM (bindM (bread d n) (\<lambda>bp. bindM (get_buf bp) (\<lambda>x. g bp (data x)))) Q s"
  unfolding wp_bind
proof (rule wp_bread [OF _ refl k])
  let ?k = "(d, n)"
  have a: "act p E R {} D V s" and R: "\<forall>k. R k \<noteq> - 1" "card {k. R k \<noteq> 0} < NBUF" using s by (simp_all add: cache_ready_def)
  show "act p E R {} D V s" by (rule a)
  show "R ?k \<noteq> - 1" "card {k. R k \<noteq> 0} < NBUF" using R by simp_all
  fix b t
  assume t: "act p E (R(?k := R ?k + 1)) (insert ?k {}) D V t" "buf_at b ?k t"
  have v: "data (bufs t b) = V ?k" by (rule act_data [OF t])
  have "wpM (brelse b) (\<lambda>_. wpM f Q) t"
  proof (rule wp_brelse [OF t])
    show "V ?k = D ?k" if "(R(?k := R ?k + 1)) ?k = 1" using act_clean_view [OF a, of ?k] that by simp
    fix u
    assume "act p E ((R(?k := R ?k + 1))(?k := (R(?k := R ?k + 1)) ?k - 1)) (insert ?k {} - {?k}) D V u"
    then have "cache_ready p E R D V u" using R by (simp add: cache_ready_def)
    then show "wpM f Q u" by (rule Q)
  qed simp
  then show "wpM (get_buf b) (\<lambda>x. wpM (g b (data x)) Q) t"
    by (simp add: get_buf_def wp v g)
qed simp_all

section \<open>Inodes\<close>

text \<open>The number of the block \<open>bn\<close> of an inode, and the bytes of its file, when the blocks have the contents \<open>V\<close>.\<close>

definition iblk :: "(block \<Rightarrow> byte list) \<Rightarrow> inode \<Rightarrow> nat \<Rightarrow> 32 word" where
  "iblk V i bn = (if bn < NDIRECT then i_addrs i ! bn else get32 (V (i_dev i, i_addrs i ! NDIRECT)) (bn - NDIRECT))"

definition ibytes :: "(block \<Rightarrow> byte list) \<Rightarrow> inode \<Rightarrow> byte list" where
  "ibytes V i = map (\<lambda>j. V (i_dev i, iblk V i (j div BSIZE)) ! (j mod BSIZE)) [0..<unat (i_size i)]"

text \<open>All blocks of the file are there.\<close>

definition inode_ok :: "(block \<Rightarrow> byte list) \<Rightarrow> inode \<Rightarrow> bool" where
  "inode_ok V i \<longleftrightarrow> unat (i_size i) \<le> MAXFILE * BSIZE \<and> (NDIRECT * BSIZE < unat (i_size i) \<longrightarrow> i_addrs i ! NDIRECT \<noteq> 0) \<and>
     (\<forall>bn. bn * BSIZE < unat (i_size i) \<longrightarrow> iblk V i bn \<noteq> 0 \<and> length (V (i_dev i, iblk V i bn)) = BSIZE)"

lemma length_ibytes [simp]: "length (ibytes V i) = unat (i_size i)"
  by (simp add: ibytes_def)

lemma icache_more: "bstate.more s = bstate.more (t :: 'a fs_state_scheme) \<Longrightarrow> icache s = icache t"
  by (cases s, cases t) simp

lemma cache_ready_more: "cache_ready p E R D V s \<Longrightarrow> bstate.more s = E"
  by (auto simp: cache_ready_def dest: act_more)

lemma cache_ready_icache: "cache_ready p E R D V s \<Longrightarrow> cache_ready p E R D V t \<Longrightarrow> icache t = icache s"
  for s :: "'a fs_state_scheme"
  by (rule icache_more) (simp add: cache_ready_more)

lemma wp_bmap:
  assumes s: "cache_ready p E R D V s" and i: "icache s ip = i" "inode_ok V i" and bn: "unat w * BSIZE < unat (i_size i)"
    and Q: "\<And>t. cache_ready p E R D V t \<Longrightarrow> Q (iblk V i (unat w)) t"
  shows "wpM (bmap ip w) Q s"
proof -
  have nz: "iblk V i (unat w) \<noteq> 0" using i(2) bn by (simp add: inode_ok_def)
  show ?thesis
  proof (cases "unat w < NDIRECT")
    case True
    then show ?thesis using nz Q [OF s] i(1) by (simp add: bmap_def get_inode_def wp iblk_def)
  next
    case False
    have "NDIRECT * BSIZE < unat (i_size i)" using False bn by (simp add: BSIZE_def)
    then have ind: "i_addrs i ! NDIRECT \<noteq> 0" using i(2) by (simp add: inode_ok_def)
    have "unat (i_size i) \<le> MAXFILE * BSIZE" using i(2) by (simp add: inode_ok_def)
    then have k: "unat w - NDIRECT < NINDIRECT" using False bn by (simp add: MAXFILE_def BSIZE_def)
    let ?k = "unat w - NDIRECT" and ?f = "ret (iblk V i (unat w)) :: ('a fs_state_scheme, 32 word) kmon"
    let ?g = "\<lambda>bp v. bindM (if get32 v ?k = 0 then bindM (balloc (i_dev i)) (\<lambda>a. thenM (set_buf_word bp ?k a) (thenM (log_write bp) (ret a)))
        else ret (get32 v ?k)) (\<lambda>a. thenM (brelse bp) (ret a)) :: ('a fs_state_scheme, 32 word) kmon"
    have "wpM (bindM (bread (i_dev i) (i_addrs i ! NDIRECT)) (\<lambda>bp. bindM (get_buf bp) (\<lambda>x. ?g bp (data x)))) Q s"
      by (rule wp_read_block [OF s, where f = ?f]) (use ind nz False Q in \<open>simp_all add: iblk_def wp\<close>)
    moreover have "4 * ?k + 4 \<le> BSIZE" using k by (simp add: NINDIRECT_def BSIZE_def)
    ultimately show ?thesis using False k ind unfolding i(1) [symmetric] by (simp add: bmap_def get_inode_def wp_bind wp_gets Let_def buf_word_def bindM_assoc)
  qed
qed

lemma piece_bytes:
  assumes "o1 = off mod BSIZE" "o1 + m \<le> BSIZE" "off + m \<le> unat (i_size i)" "length (V (i_dev i, iblk V i (off div BSIZE))) = BSIZE"
  shows "take m (drop o1 (V (i_dev i, iblk V i (off div BSIZE)))) = take m (drop off (ibytes V i))"
proof (rule nth_equalityI)
  show "length (take m (drop o1 (V (i_dev i, iblk V i (off div BSIZE))))) = length (take m (drop off (ibytes V i)))" using assms by simp
  fix j assume "j < length (take m (drop o1 (V (i_dev i, iblk V i (off div BSIZE)))))"
  then have j: "j < m" by simp
  have "off = BSIZE * (off div BSIZE) + o1" using assms(1) by simp
  then have e: "off + j = (o1 + j) + BSIZE * (off div BSIZE)" by linarith
  have l: "o1 + j < BSIZE" using j assms(2) by simp
  have "(off + j) div BSIZE = off div BSIZE" "(off + j) mod BSIZE = o1 + j" using l unfolding e by simp_all
  then show "take m (drop o1 (V (i_dev i, iblk V i (off div BSIZE)))) ! j = take m (drop off (ibytes V i)) ! j"
    using j assms by (simp add: ibytes_def)
qed

lemma wp_readi_loop:
  assumes "cache_ready p E R D V s" "icache s ip = i" "inode_ok V i" "unat off + rem \<le> unat (i_size i)"
  shows "wpM (readi_loop ip Kernel off rem) (\<lambda>bs t. bs = take rem (drop (unat off) (ibytes V i)) \<and> cache_ready p E R D V t) s"
  using assms
proof (induction rem arbitrary: s off rule: less_induct)
  case (less rem)
  show ?case
  proof (cases "rem = 0")
    case True
    then show ?thesis using less.prems(1) by (simp add: readi_loop.simps wp)
  next
    case False
    define o1 m where "o1 = unat off mod BSIZE" and "m = min rem (BSIZE - o1)"
    have o1: "o1 < BSIZE" by (simp add: o1_def BSIZE_def)
    have m: "0 < m" "m \<le> rem" "o1 + m \<le> BSIZE" using False o1 by (auto simp: m_def)
    have bn: "unat (off div of_nat BSIZE) = unat off div BSIZE" by (simp add: unat_div BSIZE_def unat_of_nat)
    have lt: "unat off div BSIZE * BSIZE < unat (i_size i)" using False less.prems(4) div_times_less_eq_dividend [of "unat off" BSIZE] by linarith
    let ?v = "V (i_dev i, iblk V i (unat off div BSIZE))"
    have blk: "iblk V i (unat off div BSIZE) \<noteq> 0" "length ?v = BSIZE" using less.prems(3) lt by (simp_all add: inode_ok_def)
    have P: "take m (drop o1 ?v) = take m (drop (unat off) (ibytes V i))"
      using piece_bytes [of o1 "unat off" m i V] o1_def m blk(2) less.prems(4) by simp
    have off': "unat (off + of_nat m) = unat off + m"
    proof -
      have "unat off + m < 2 ^ 32" using less.prems(4) m unsigned_less [of "i_size i", where ?'a = nat] by simp
      then show ?thesis by (simp add: unat_word_ariths(1) unat_of_nat)
    qed
    let ?f = "bindM (readi_loop ip Kernel (off + of_nat m) (rem - m)) (\<lambda>cs. ret (take m (drop o1 ?v) @ cs)) :: ('a fs_state_scheme, byte list) kmon"
    let ?g = "\<lambda>bp v. thenM (brelse bp) (bindM (readi_loop ip Kernel (off + of_nat m) (rem - m)) (\<lambda>cs. ret (take m (drop o1 v) @ cs)))"
    let ?Q = "\<lambda>bs t. bs = take rem (drop (unat off) (ibytes V i)) \<and> cache_ready p E R D V t"
    have next_ok: "wpM ?f ?Q t" if t: "cache_ready p E R D V t" for t
    proof -
      have ic: "icache t ip = i" using cache_ready_icache [OF less.prems(1) t] less.prems(2) by simp
      have "wpM (readi_loop ip Kernel (off + of_nat m) (rem - m)) (\<lambda>bs t. bs = take (rem - m) (drop (unat (off + of_nat m)) (ibytes V i)) \<and> cache_ready p E R D V t) t"
        by (rule less.IH [OF _ t ic less.prems(3)]) (use m off' less.prems(4) in simp_all)
      note ih = this
      have S: "take m (drop (unat off) (ibytes V i)) @ take (rem - m) (drop (m + unat off) (ibytes V i)) = take rem (drop (unat off) (ibytes V i))"
        using take_add [of m "rem - m" "drop (unat off) (ibytes V i)"] m(2) by simp
      show ?thesis unfolding wp_bind
        by (rule wpM_mono [OF ih]) (use S in \<open>simp add: wp P off' add.commute\<close>)
    qed
    have "wpM (bmap ip (off div of_nat BSIZE)) (\<lambda>a. wpM (bindM (bread (i_dev i) a) (\<lambda>bp. bindM (get_buf bp) (\<lambda>x. ?g bp (data x)))) ?Q) s"
    proof (rule wp_bmap [OF less.prems(1-3)])
      show "unat (off div of_nat BSIZE) * BSIZE < unat (i_size i)" using lt by (simp add: bn)
      fix t assume t: "cache_ready p E R D V t"
      show "wpM (bindM (bread (i_dev i) (iblk V i (unat (off div of_nat BSIZE)))) (\<lambda>bp. bindM (get_buf bp) (\<lambda>x. ?g bp (data x)))) ?Q t"
        by (rule wp_read_block [OF t, where f = ?f]) (use blk(1) bn next_ok in simp_all)
    qed
    then show ?thesis using False less.prems(2)
      by (simp add: readi_loop.simps [of ip Kernel off rem] get_inode_def wp copy_to_def Let_def o1_def [symmetric] m_def [symmetric])
  qed
qed

lemma sint_small: "unat w < 2 ^ 31 \<Longrightarrow> sint w = int (unat w)" for w :: "32 word"
proof -
  assume "unat w < 2 ^ 31"
  then have "int (unat w) < int (2 ^ 31)" by (simp only: of_nat_less_iff)
  then have "uint w < 2 ^ 31" by simp
  moreover have "- (2 ^ 31) \<le> uint w" by (rule order.trans [of _ 0]) simp_all
  ultimately have "sint w = uint w" unfolding sint_uint by (intro signed_take_bit_int_eq_self) simp_all
  then show ?thesis by simp
qed

lemma wp_ret_fun: "wpM (ret a) Q = Q a"
  by (rule ext) (rule wp_ret)

lemma wp_readi:
  assumes s: "cache_ready p E R D V s" and i: "icache s ip = i" "inode_ok V i" and o: "off \<le> i_size i" "unat off + unat n < 2 ^ 32"
    and bs: "bs = take (unat n) (drop (unat off) (ibytes V i))" and Q: "\<And>t. cache_ready p E R D V t \<Longrightarrow> Q (int (length bs), bs) t"
  shows "wpM (readi ip Kernel off n) Q s"
proof -
  have sum: "unat (off + n) = unat off + unat n" using o(2) by (simp add: unat_word_ariths(1))
  have le: "unat off \<le> unat (i_size i)" "\<not> off > i_size i" using o(1) by (simp_all add: word_le_nat_alt not_less)
  have nw: "\<not> off + n < off" by (simp add: word_less_nat_alt sum)
  define n' where "n' = (if off + n > i_size i then i_size i - off else n)"
  have n': "unat n' = min (unat n) (unat (i_size i) - unat off)"
    using le(1) by (auto simp: n'_def word_less_nat_alt sum unat_sub word_le_nat_alt)
  have "unat (i_size i) \<le> 274432" using i(2) by (simp add: inode_ok_def MAXFILE_def NDIRECT_def NINDIRECT_def BSIZE_def)
  then have sn: "sint n' = int (unat n')" by (intro sint_small) (use n' in simp)
  have run: "wpM (readi_loop ip Kernel off (unat n')) (\<lambda>bs t. bs = take (unat n') (drop (unat off) (ibytes V i)) \<and> cache_ready p E R D V t) s"
    by (rule wp_readi_loop [OF s i]) (use n' le(1) in simp)
  have tk: "take (unat n') (drop (unat off) (ibytes V i)) = bs"
    unfolding bs using take_all [of "drop (unat off) (ibytes V i)" "unat n"] by (cases "unat n \<le> unat (i_size i) - unat off") (simp_all add: n' min_def)
  have len: "length bs = unat n'" by (simp add: n' flip: tk)
  have "wpM (bindM (readi_loop ip Kernel off (unat n')) (\<lambda>bs. ret (sint n', bs))) Q s"
    unfolding wp_bind by (rule wpM_mono [OF run]) (use sn tk len Q in \<open>simp add: wp\<close>)
  then show ?thesis using le(2) nw i(1) by (cases "i_size i < off + n") (simp_all add: readi_def get_inode_def wp_bind wp_gets Let_def n'_def)
qed

lemma readi_run:
  assumes "cache_ready p E R D V s" "icache s ip = i" "inode_ok V i" "off \<le> i_size i" "unat off + unat n < 2 ^ 32"
  shows "\<exists>bs t. readi ip Kernel off n s = Inr ((int (length bs), bs), t) \<and> bs = take (unat n) (drop (unat off) (ibytes V i)) \<and>
    cache_ready p E R D V t"
proof -
  define bs where "bs = take (unat n) (drop (unat off) (ibytes V i))"
  have "wpM (readi ip Kernel off n) (\<lambda>x t. x = (int (length bs), bs) \<and> cache_ready p E R D V t) s"
    by (rule wp_readi [OF assms bs_def]) simp
  then show ?thesis unfolding wpM_iff bs_def [symmetric] by blast
qed

text \<open>
  C6: Reading a file into the kernel returns its bytes.  With any number of buffers pinned or in use by others as long
  as one is free, \<open>readi\<close> of up to \<open>n\<close> bytes at \<open>off\<close> ends, returns the number of bytes there are, and the bytes
  are those of the blocks the inode lists, direct or behind the indirect block, from the cache or from the disk; all
  buffers are given back and no block changes.
\<close>

theorem readi_reads:
  assumes "cache_ready p E R D V s" "inode_ok V (icache s ip)" "off \<le> i_size (icache s ip)" "unat off + unat n < 2 ^ 32"
  shows "\<exists>bs t. readi ip Kernel off n s = Inr ((int (length bs), bs), t) \<and> bs = take (unat n) (drop (unat off) (ibytes V (icache s ip))) \<and>
    cache_ready p E R D V t"
  using readi_run [OF assms(1) refl assms(2-4)] by blast

definition fs_boot :: "(32 word \<Rightarrow> 32 word \<Rightarrow> byte list) \<Rightarrow> (nat \<Rightarrow> inode) \<Rightarrow> fs_state" where
  "fs_boot D I = lstate.extend (disk_boot boot_bufs D) (fs_state.fields (decode_sb (D ROOTDEV 1)) I)"

lemma fs_boot_sel [simp]:
  "hart (fs_boot D I) = 0" "cpus (fs_boot D I) = cpus (disk_boot boot_bufs D)" "lks (fs_boot D I) = lks (disk_boot boot_bufs D)"
  "sie (fs_boot D I) = sie (disk_boot boot_bufs D)" "slks (fs_boot D I) = slks (disk_boot boot_bufs D)"
  "bufs (fs_boot D I) = boot_bufs" "disk (fs_boot D I) = D" "icache (fs_boot D I) = I" "sblk (fs_boot D I) = decode_sb (D ROOTDEV 1)"
  by (simp_all add: fs_boot_def lstate.defs fs_state.defs disk_boot_def)

lemma fs_boot_ready: "cache_ready 1 (bstate.more (fs_boot D I)) (\<lambda>_. 0) (\<lambda>(d, n). D d n) (\<lambda>(d, n). D d n) (fs_boot D I)"
proof -
  let ?s = "disk_boot boot_bufs D"
  have d: "dsk ?s = (\<lambda>(d, n). D d n)" by (rule ext) (auto simp: dsk_def disk_boot_def)
  have b: "bufs ?s = boot_bufs" "disk ?s = D" "hart ?s = 0" by (simp_all add: disk_boot_def)
  have "act 1 (bstate.more ?s) (\<lambda>_. 0) {} (\<lambda>(d, n). D d n) (\<lambda>(d, n). D d n) ?s"
    using lact_act [OF reboot_lact [of D]] unfolding d by (metis act_more)
  then have "act 1 (bstate.more (fs_boot D I)) (\<lambda>_. 0) {} (\<lambda>(d, n). D d n) (\<lambda>(d, n). D d n) (fs_boot D I)"
    unfolding act_def cache_def calm_def lock_free_def hart_ok_def fs_boot_sel b held_def by simp metis
  then show ?thesis by (simp add: cache_ready_def NBUF_def MAXOPBLOCKS_def)
qed

definition disk_inode :: "16 word \<Rightarrow> 32 word \<Rightarrow> inode" where
  "disk_inode ty sz = \<lparr>i_dev = ROOTDEV, inum = 1, iref = 1, i_valid = True, i_type = ty, i_major = 0, i_minor = 0, i_nlink = 1, i_size = sz,
     i_addrs = 60 # replicate NDIRECT 0\<rparr>"

lemma disk_inode_ok:
  assumes "unat sz \<le> BSIZE" "length (V (ROOTDEV, 60)) = BSIZE"
  shows "inode_ok V (disk_inode ty sz)" "ibytes V (disk_inode ty sz) = take (unat sz) (V (ROOTDEV, 60))"
proof -
  have b: "iblk V (disk_inode ty sz) 0 = 60" by (simp add: iblk_def disk_inode_def NDIRECT_def)
  have f: "i_dev (disk_inode ty sz) = ROOTDEV" "i_size (disk_inode ty sz) = sz" by (simp_all add: disk_inode_def)
  have n: "bn = 0" if "bn * BSIZE < unat sz" for bn using that assms(1) by (cases bn) simp_all
  have z: "\<forall>bn. bn * BSIZE < unat sz \<longrightarrow> iblk V (disk_inode ty sz) bn \<noteq> 0 \<and> length (V (ROOTDEV, iblk V (disk_inode ty sz) bn)) = BSIZE"
    
  proof (intro allI impI)
    fix bn assume "bn * BSIZE < unat sz"
    then have "bn = 0" by (rule n)
    then show "iblk V (disk_inode ty sz) bn \<noteq> 0 \<and> length (V (ROOTDEV, iblk V (disk_inode ty sz) bn)) = BSIZE" using b assms(2) by simp
  qed
  then show "inode_ok V (disk_inode ty sz)" unfolding inode_ok_def f
    using assms(1) by (simp add: MAXFILE_def NDIRECT_def NINDIRECT_def BSIZE_def)
  show "ibytes V (disk_inode ty sz) = take (unat sz) (V (ROOTDEV, 60))"
    using assms b by (intro nth_equalityI) (simp_all add: ibytes_def f)
qed

theorem readi_reads_witness:
  "\<exists>t. readi 0 Kernel 1 10 (fs_boot (\<lambda>d n. [5, 6, 7] @ replicate (BSIZE - 3) 0) (\<lambda>_. disk_inode T_FILE 3)) = Inr ((2, [6, 7]), t)"
proof -
  let ?D = "\<lambda>d n :: 32 word. [5, 6, 7] @ replicate (BSIZE - 3) 0" and ?i = "disk_inode T_FILE 3"
  note K = disk_inode_ok [of 3 "\<lambda>(d, n). ?D d n" T_FILE]
  have "i_size ?i = 3" by (simp add: disk_inode_def)
  with readi_reads [OF fs_boot_ready [of ?D "\<lambda>_. ?i"], of 0 1 10] K show ?thesis by (auto simp: BSIZE_def)
qed

section \<open>Directories\<close>

definition dirent_at :: "byte list \<Rightarrow> nat \<Rightarrow> dirent" where
  "dirent_at bs k = decode_dirent (take sizeof_dirent (drop (k * sizeof_dirent) bs))"

definition is_entry :: "byte list \<Rightarrow> byte list \<Rightarrow> nat \<Rightarrow> bool" where
  "is_entry bs name k \<longleftrightarrow> de_inum (dirent_at bs k) \<noteq> 0 \<and> namecmp name (de_name (dirent_at bs k)) = 0"

definition find_entry :: "byte list \<Rightarrow> byte list \<Rightarrow> nat option" where
  "find_entry bs name = find (is_entry bs name) [0..<length bs div sizeof_dirent]"

definition found_entry :: "32 word \<Rightarrow> byte list \<Rightarrow> nat option \<Rightarrow> ('a fs_state_scheme, (nat \<times> 32 word) option) kmon" where
  "found_entry d bs r = (case r of None \<Rightarrow> ret None
     | Some k \<Rightarrow> bindM (iget d (ucast (de_inum (dirent_at bs k)))) (\<lambda>ip. ret (Some (ip, of_nat (k * sizeof_dirent)))))"

lemma dirlookup_loop_run:
  assumes "cache_ready p E R D V s" "icache s dp = i" "inode_ok V i" "\<forall>k\<in>set ks. k * sizeof_dirent + sizeof_dirent \<le> unat (i_size i)"
  shows "\<exists>t. dirlookup_loop dp name (map (\<lambda>k. of_nat (k * sizeof_dirent)) ks) s =
      found_entry (i_dev i) (ibytes V i) (find (is_entry (ibytes V i) name) ks) t \<and> cache_ready p E R D V t"
  using assms
proof (induction ks arbitrary: s)
  case Nil
  then show ?case by (auto simp: found_entry_def)
next
  case (Cons k ks)
  let ?o = "of_nat (k * sizeof_dirent) :: 32 word" and ?n = "of_nat sizeof_dirent :: 32 word" and ?d = "dirent_at (ibytes V i) k"
  have k: "k * sizeof_dirent + sizeof_dirent \<le> unat (i_size i)" using Cons.prems(4) by simp
  have "unat (i_size i) \<le> MAXFILE * BSIZE" using Cons.prems(3) by (simp add: inode_ok_def)
  then have o: "unat ?o = k * sizeof_dirent" "unat ?n = sizeof_dirent" "k * sizeof_dirent + sizeof_dirent < 2 ^ 32"
    using k by (simp_all add: unat_of_nat sizeof_dirent_def MAXFILE_def NDIRECT_def NINDIRECT_def BSIZE_def del: of_nat_mult)
  have "?o \<le> i_size i" "unat ?o + unat ?n < 2 ^ 32" using k o by (simp_all add: word_le_nat_alt del: of_nat_mult)
  from readi_run [OF Cons.prems(1-3) this] obtain bs t where t: "readi dp Kernel ?o ?n s = Inr ((int (length bs), bs), t)"
    "bs = take sizeof_dirent (drop (k * sizeof_dirent) (ibytes V i))" "cache_ready p E R D V t" unfolding o by blast
  have len: "length bs = sizeof_dirent" using k by (simp add: t(2))
  have d: "decode_dirent bs = ?d" by (simp add: t(2) dirent_at_def)
  have ic: "icache t dp = i" using cache_ready_icache [OF Cons.prems(1) t(3)] Cons.prems(2) by simp
  show ?case
  proof (cases "is_entry (ibytes V i) name k")
    case True
    then have "dirlookup_loop dp name (map (\<lambda>k. of_nat (k * sizeof_dirent)) (k # ks)) s = found_entry (i_dev i) (ibytes V i) (Some k) t"
      using len d ic unfolding list.map dirlookup_loop.simps bindM_apply t(1)
      by (simp add: Let_def is_entry_def found_entry_def get_inode_def gets_apply bindM_apply del: of_nat_mult)
    then show ?thesis using True t(3) by auto
  next
    case False
    then have "dirlookup_loop dp name (map (\<lambda>k. of_nat (k * sizeof_dirent)) (k # ks)) s =
        dirlookup_loop dp name (map (\<lambda>k. of_nat (k * sizeof_dirent)) ks) t"
      using len d unfolding list.map dirlookup_loop.simps bindM_apply t(1) by (auto simp: Let_def is_entry_def)
    then show ?thesis using Cons.IH [OF t(3) ic Cons.prems(3)] Cons.prems(4) False by simp
  qed
qed

lemma dirlookup_finds_run:
  assumes s: "cache_ready p E R D V s" and i: "icache s dp = i" "inode_ok V i" "i_type i = T_DIR" and z: "unat (i_size i) mod sizeof_dirent = 0"
  shows "\<exists>t. dirlookup dp name s = found_entry (i_dev i) (ibytes V i) (find_entry (ibytes V i) name) t \<and> cache_ready p E R D V t"
proof -
  obtain q where q: "unat (i_size i) = q * sizeof_dirent"
    using div_mult_mod_eq [of "unat (i_size i)" sizeof_dirent] z by (metis add.right_neutral)
  have "(unat (i_size i) + sizeof_dirent - 1) div sizeof_dirent = q" "unat (i_size i) div sizeof_dirent = q"
    unfolding q by (simp_all add: sizeof_dirent_def)
  moreover have "\<forall>k\<in>set [0..<q]. k * sizeof_dirent + sizeof_dirent \<le> unat (i_size i)"
    unfolding q by (simp add: sizeof_dirent_def)
  ultimately show ?thesis using dirlookup_loop_run [OF s i(1,2), of "[0..<q]" name] i(1,3)
    by (simp add: dirlookup_def bindM_apply get_inode_def gets_apply dir_offsets_def find_entry_def)
qed


text \<open>
  C13: Looking up a name.  In a directory of whole entries whose blocks are all there \<open>dirlookup\<close> passes free entries and
  entries of other names, whatever the number of blocks, and takes the inode of the first entry with the name, reporting
  its offset; if there is none it returns null.  It gives back every buffer and changes no block.
\<close>

theorem dirlookup_finds:
  assumes s: "cache_ready p E R D V s" and i: "icache s dp = i" "inode_ok V i" "i_type i = T_DIR" and z: "unat (i_size i) mod sizeof_dirent = 0"
  shows "\<exists>t. dirlookup dp name s = found_entry (i_dev i) (ibytes V i) (find_entry (ibytes V i) name) t \<and> cache_ready p E R D V t"
  by (rule dirlookup_finds_run [OF assms])

definition sample_dir :: "byte list" where
  "sample_dir = encode_dirent \<lparr>de_inum = 5, de_name = pad_name [97]\<rparr> @ encode_dirent \<lparr>de_inum = 0, de_name = pad_name [98]\<rparr> @
     encode_dirent \<lparr>de_inum = 9, de_name = pad_name [98]\<rparr>"

theorem dirlookup_finds_witness:
  "\<exists>t. dirlookup 0 [98] (fs_boot (\<lambda>d n. sample_dir @ replicate (BSIZE - 48) 0) (\<lambda>_. disk_inode T_DIR 48)) =
     bindM (iget ROOTDEV 9) (\<lambda>ip. ret (Some (ip, 32))) t"
proof -
  let ?D = "\<lambda>d n :: 32 word. sample_dir @ replicate (BSIZE - 48) 0" and ?i = "disk_inode T_DIR 48"
  have l: "length sample_dir = 48" by (simp add: sample_dir_def encode_dirent_def pad_name_def DIRSIZ_def)
  have K: "inode_ok (\<lambda>(d, n). ?D d n) ?i" "ibytes (\<lambda>(d, n). ?D d n) ?i = sample_dir"
    using disk_inode_ok [of 48 "\<lambda>(d, n). ?D d n" T_DIR] l by (simp_all add: BSIZE_def)
  have f: "find_entry sample_dir [98] = Some 2" "de_inum (dirent_at sample_dir 2) = 9" by code_simp+
  have i: "i_type ?i = T_DIR" "unat (i_size ?i) mod sizeof_dirent = 0" "i_dev ?i = ROOTDEV" by (simp_all add: disk_inode_def sizeof_dirent_def)
  from dirlookup_finds [OF fs_boot_ready [of ?D "\<lambda>_. ?i"], of 0 ?i "[98]"] K i(1,2) show ?thesis
    by (auto simp: found_entry_def f i sizeof_dirent_def)
qed

end
