(* ===== verification/Mkfs_Read.thy ===== *)
theory Mkfs_Read
  imports Mkfs_Image Fs_Read
begin

text \<open>
  The image of mkfs/mkfs.c read by kernel/fs.c: the kernel finds in the root directory the inode of every file given to
  mkfs, and reading that inode returns the bytes the file had on the host.
\<close>

section \<open>Inodes of the image\<close>

text \<open>An inode as \<open>ilock\<close> reads it from the disk, and blocks with the contents of the image.\<close>

definition loaded :: "dinode \<Rightarrow> inode \<Rightarrow> bool" where
  "loaded d i \<longleftrightarrow> i_dev i = ROOTDEV \<and> i_type i = d_type d \<and> i_size i = d_size d \<and> i_addrs i = d_addrs d"

definition shows_image :: "(block \<Rightarrow> byte list) \<Rightarrow> img \<Rightarrow> bool" where
  "shows_image V t \<longleftrightarrow> (\<forall>n. 0 < unat n \<and> unat n < FSSIZE \<longrightarrow> V (ROOTDEV, n) = sects t (unat n)) \<and> (\<forall>b<FSSIZE. length (sects t b) = BSIZE) \<and> unat (freeblock t) \<le> FSSIZE"

lemma loaded_ok:
  assumes l: "loaded d i" and V: "shows_image V t" and f: "file_ok t d n" and z: "nb (unat (d_size d)) \<le> n"
  shows "inode_ok V i" "ibytes V i = file_bytes t d (unat (d_size d))"
proof -
  note F = file_okD [OF f]
  have in_img: "k \<noteq> 0 \<and> k < FSSIZE" if "k \<in> own t d n" for k
    using F(8) V that by (fastforce simp: shows_image_def sizes)
  have blk: "unat (iblk V i bn) = fblk t d bn" if bn: "bn < n" for bn
  proof (cases "bn < NDIRECT")
    case True
    then show ?thesis using l by (simp add: iblk_def fblk_def loaded_def)
  next
    case False
    then have "indir d \<in> own t d n" using bn by (simp add: indir_in)
    then have "V (ROOTDEV, d_addrs d ! NDIRECT) = sects t (indir d)" using in_img V by (simp add: shows_image_def indir_def)
    then show ?thesis using False l by (simp add: iblk_def fblk_def loaded_def)
  qed
  have v: "V (ROOTDEV, iblk V i bn) = sects t (fblk t d bn)" "iblk V i bn \<noteq> 0" "length (sects t (fblk t d bn)) = BSIZE" if bn: "bn < n" for bn
    using in_img [OF fblk_in [OF bn]] blk [OF bn] V by (auto simp: shows_image_def)
  have lt: "bn < n" if "bn * BSIZE < unat (d_size d)" for bn
  proof -
    have "nb (bn * BSIZE + 1) = Suc bn" using nb_step [of 1 "bn * BSIZE"] by (simp add: sizes)
    moreover have "nb (bn * BSIZE + 1) \<le> nb (unat (d_size d))" using that by (intro nb_mono) simp
    ultimately show ?thesis using z by simp
  qed
  have "unat (d_size d) \<le> MAXFILE * BSIZE"
  proof (rule ccontr)
    assume "\<not> ?thesis"
    then show False using lt [of MAXFILE] F(2) by simp
  qed
  moreover have "d_addrs d ! NDIRECT \<noteq> 0" if "NDIRECT * BSIZE < unat (d_size d)"
    using in_img [OF indir_in [OF lt [OF that]]] by (auto simp: indir_def)
  ultimately show "inode_ok V i" using l lt v by (simp add: inode_ok_def loaded_def)
  have "V (ROOTDEV, iblk V i (j div BSIZE)) = sects t (fblk t d (j div BSIZE))" if "j < unat (d_size d)" for j
    by (rule v(1), rule lt) (use that div_times_less_eq_dividend [of j BSIZE] in linarith)
  then show "ibytes V i = file_bytes t d (unat (d_size d))" using l by (simp add: ibytes_def file_bytes_def loaded_def)
qed

section \<open>Entries of the root directory\<close>

lemma uint_pos: "x \<noteq> 0 \<Longrightarrow> uint x \<noteq> 0" for x :: byte
  by (simp add: unsigned_eq_0_iff)

lemma strncmp_pad:
  assumes "0 \<notin> set a" "0 \<notin> set b" "n \<le> m"
  shows "strncmp_bytes a (take n (b @ replicate m 0)) n = 0 \<longleftrightarrow> take n a = take n b"
  using assms
proof (induction n arbitrary: a b)
  case (Suc n)
  obtain l where m: "m = Suc l" using Suc.prems(3) by (cases m) auto
  show ?case
  proof (cases b)
    case Nil
    then show ?thesis using Suc.prems(1) m uint_pos [of "hd a"] by (cases a) auto
  next
    case (Cons y ys)
    show ?thesis
    proof (cases a)
      case Nil
      then show ?thesis using Cons Suc.prems(2) uint_pos [of y] by auto
    next
      case (Cons x xs)
      have "strncmp_bytes xs (take n (ys @ replicate m 0)) n = 0 \<longleftrightarrow> take n xs = take n ys"
        by (rule Suc.IH) (use Suc.prems \<open>b = y # ys\<close> Cons in auto)
      then show ?thesis using Suc.prems(1) \<open>b = y # ys\<close> Cons by (simp del: take_append add: word_uint_eq_iff [symmetric])
    qed
  qed
qed simp

lemma namecmp_pad: "0 \<notin> set a \<Longrightarrow> 0 \<notin> set b \<Longrightarrow> namecmp a (pad_name b) = 0 \<longleftrightarrow> take DIRSIZ a = take DIRSIZ b"
  unfolding namecmp_def pad_name_def by (rule strncmp_pad) simp_all

lemma decode_entry: "decode_dirent (dir_entry i name) = \<lparr>de_inum = ucast i, de_name = pad_name name\<rparr>"
  by (simp add: decode_dirent_def dir_entry_def encode_dirent_def of_le_le_bytes pad_name_def DIRSIZ_def)

text \<open>The entries with their inode numbers and names.\<close>

definition file_names :: "(byte list \<times> byte list list option) list \<Rightarrow> byte list list" where
  "file_names files = map (\<lambda>f. skip_underscore (shortname (fst f))) files"

definition root_list :: "(byte list \<times> byte list list option) list \<Rightarrow> (nat \<times> byte list) list" where
  "root_list files = (1, [46]) # (1, [46, 46]) # zip [2..<2 + length files] (file_names files)"

definition names_ok :: "(byte list \<times> byte list list option) list \<Rightarrow> bool" where
  "names_ok files \<longleftrightarrow> list_all (\<lambda>nm. 0 \<notin> set nm) (file_names files) \<and> distinct (map (take DIRSIZ) ([46] # [46, 46] # file_names files))"

lemma entries_list: "entries i fs = concat (map (\<lambda>(i, nm). dir_entry (of_nat i) nm) (zip [i..<i + length fs] (file_names fs)))"
proof (induction fs arbitrary: i)
  case (Cons f fs)
  then show ?case by (simp add: entry_def file_names_def upt_conv_Cons del: upt_Suc)
qed simp

lemma root_list_bytes: "root_entries files = concat (map (\<lambda>(i, nm). dir_entry (of_nat i) nm) (root_list files))"
  by (simp add: root_entries_def root_list_def entries_list)

lemma nth_piece: "j < length xs \<Longrightarrow> \<forall>x\<in>set xs. length x = 16 \<Longrightarrow> take 16 (drop (j * 16) (concat xs @ ys)) = xs ! j"
proof (induction xs arbitrary: j)
  case (Cons x xs)
  then show ?case by (cases j) simp_all
qed simp

lemma root_dirent:
  assumes "j < length files + 2"
  shows "dirent_at (root_entries files @ ys) j = \<lparr>de_inum = ucast (of_nat (fst (root_list files ! j)) :: 32 word), de_name = pad_name (snd (root_list files ! j))\<rparr>"
proof -
  have l: "length (root_list files) = length files + 2" by (simp add: root_list_def file_names_def del: upt_Suc)
  have "take 16 (drop (j * 16) (root_entries files @ ys)) = map (\<lambda>(i, nm). dir_entry (of_nat i) nm) (root_list files) ! j"
    unfolding root_list_bytes by (rule nth_piece) (use assms l in \<open>auto simp: length_entry\<close>)
  then show ?thesis using assms l by (simp add: dirent_at_def sizeof_dirent_def decode_entry split: prod.split)
qed

lemma root_list_nth:
  "map snd (root_list files) = [46] # [46, 46] # file_names files"
  "j < length files + 2 \<Longrightarrow> fst (root_list files ! j) = max 1 j"
proof -
  have l: "length (file_names files) = length files" by (simp add: file_names_def)
  then show "map snd (root_list files) = [46] # [46, 46] # file_names files" by (simp add: root_list_def del: upt_Suc)
  assume j: "j < length files + 2"
  show "fst (root_list files ! j) = max 1 j"
  proof (cases "j < 2")
    case True
    then show ?thesis by (auto simp: root_list_def less_2_cases_iff)
  next
    case False
    then have "root_list files ! j = zip [2..<2 + length files] (file_names files) ! (j - 2)" by (simp add: root_list_def nth_Cons' numeral_2_eq_2 del: upt_Suc)
    then show ?thesis using False j l by (simp del: upt_Suc)
  qed
qed

lemma root_is_entry:
  assumes n: "names_ok files" "1 + length files < NINODES" and j: "j < length files + 2" and k: "k < length files"
  shows "is_entry (root_entries files @ ys) (file_names files ! k) j \<longleftrightarrow> j = 2 + k"
proof -
  let ?ns = "[46] # [46, 46] # file_names files"
  have l: "length (file_names files) = length files" by (simp add: file_names_def)
  have z: "0 \<notin> set nm" if "nm \<in> set ?ns" for nm using n(1) that by (auto simp: names_ok_def list_all_iff)
  have nm: "snd (root_list files ! j) = ?ns ! j" 
  proof -
    have "length (root_list files) = length files + 2" using l by (simp add: root_list_def del: upt_Suc)
    then have "snd (root_list files ! j) = map snd (root_list files) ! j" using j by simp
    then show ?thesis unfolding root_list_nth(1) .
  qed
  have fk: "file_names files ! k = ?ns ! (2 + k)" by simp
  have lj: "j < length ?ns" "2 + k < length ?ns" using j k l by simp_all
  have i: "(ucast (of_nat (max 1 j) :: 32 word) :: 16 word) \<noteq> 0"
  proof -
    have "unat (ucast (of_nat (max 1 j) :: 32 word) :: 16 word) = max 1 j" using j n(2) by (simp add: unsigned_ucast_eq take_bit_eq_mod unat_of_nat NINODES_def max_def)
    then show ?thesis by (metis max.cobounded1 not_one_le_zero unsigned_0)
  qed
  have "is_entry (root_entries files @ ys) (file_names files ! k) j \<longleftrightarrow> namecmp (?ns ! (2 + k)) (pad_name (?ns ! j)) = 0"
    unfolding is_entry_def root_dirent [OF j] fk [symmetric] using i root_list_nth(2) [OF j] nm by simp
  also have "\<dots> \<longleftrightarrow> take DIRSIZ (?ns ! (2 + k)) = take DIRSIZ (?ns ! j)"
    by (rule namecmp_pad) (use z nth_mem [OF lj(1)] nth_mem [OF lj(2)] in blast)+
  also have "\<dots> \<longleftrightarrow> j = 2 + k"
  proof -
    have "distinct (map (take DIRSIZ) ?ns)" using n(1) by (simp add: names_ok_def)
    from nth_eq_iff_index_eq [OF this, of "2 + k" j] show ?thesis using lj unfolding length_map nth_map [OF lj(1)] nth_map [OF lj(2)] by blast
  qed
  finally show ?thesis .
qed

lemma find_upt: "k < n \<Longrightarrow> (\<And>j. j \<le> k \<Longrightarrow> P j \<longleftrightarrow> j = k) \<Longrightarrow> find P [0..<n] = Some k"
  by (auto simp: find_Some_iff intro!: exI [of _ k])

lemma file_bytes_split: "l \<le> m \<Longrightarrow> \<exists>ys. file_bytes t d m = file_bytes t d l @ ys \<and> length ys = m - l"
  using upt_add_eq_append [of 0 l "m - l"] by (simp add: file_bytes_def)

lemma root_found:
  assumes "names_ok files" "1 + length files < NINODES" "k < length files" "16 dvd length ys"
  shows "find_entry (root_entries files @ ys) (file_names files ! k) = Some (2 + k)"
  unfolding find_entry_def
proof (rule find_upt)
  have "length (root_entries files) = 16 * (length files + 2)" by (simp add: root_entries_def length_entry)
  then show "2 + k < length (root_entries files @ ys) div sizeof_dirent" using assms(3,4) by (auto simp: sizeof_dirent_def)
  show "is_entry (root_entries files @ ys) (file_names files ! k) j \<longleftrightarrow> j = 2 + k" if "j \<le> 2 + k" for j
    by (rule root_is_entry [OF assms(1,2) _ assms(3)]) (use assms(3) that in simp)
qed

section \<open>The kernel on the image\<close>

text \<open>
  C3: The kernel serves what mkfs stored.  Let the blocks of the root device, as the buffer cache shows them, be those of an image
  made from files that fit, with names without NUL that differ in their first 14 bytes, and let \<open>dp\<close> and \<open>ip\<close> be cached inodes of
  that device with the fields on the disk of the root
  directory and of the file number \<open>k\<close>.  If the entries do not end at the end of a block (their number plus 2, times 16, is not a
  multiple of \<open>BSIZE\<close>), \<open>dirlookup\<close> of the name of the
  file in the root directory asks \<open>iget\<close> for the inode of that file and reports the offset of its entry, and \<open>readi\<close> of
  the file returns exactly the bytes that the host's file had.
\<close>

theorem image_served:
  assumes fits: "image_fits files" and names: "names_ok files" and k: "k < length files" and t: "mkfs_main files new_img = Inr ((), t)"
    and part: "16 * (length files + 2) mod BSIZE \<noteq> 0"
    and s: "cache_ready p E R D V s" and V: "\<forall>n. 0 < unat n \<and> unat n < FSSIZE \<longrightarrow> V (ROOTDEV, n) = sects t (unat n)"
    and dp: "loaded (dino t 1) (icache s dp)" and ip: "loaded (dino t (2 + k)) (icache s ip)"
  shows "(\<exists>u. dirlookup dp (file_names files ! k) s = bindM (iget ROOTDEV (of_nat (2 + k))) (\<lambda>ip. ret (Some (ip, of_nat (16 * (2 + k))))) u \<and>
      cache_ready p E R D V u) \<and>
    (\<exists>u. readi ip Kernel 0 (i_size (icache s ip)) s = Inr ((int (length (host_bytes (files ! k))), host_bytes (files ! k)), u) \<and>
      cache_ready p E R D V u)"
proof -
  let ?L = "16 * (length files + 2)"
  note I = mkfs_image [OF fits, unfolded t]
  have im: "shows_image V t" using I V by (auto simp: shows_image_def)
  have n: "1 + length files < NINODES" using fits by (simp add: image_fits_def)
  have rd: "d_type (dino t 1) = T_DIR" "fsize t 1 = (?L div BSIZE + 1) * BSIZE" "file_bytes t (dino t 1) ?L = root_entries files"
    "file_ok t (dino t 1) (nb ?L)" using I by auto
  have fl: "contents t (2 + k) = host_bytes (files ! k)" "file_ok t (dino t (2 + k)) (nb (fsize t (2 + k)))" using I k by auto
  have "nb (fsize t 1) \<le> nb ?L"
  proof -
    have "nb ((?L div BSIZE + 1) * BSIZE) = ?L div BSIZE + 1" by (simp add: nb_eq sizes)
    moreover have "nb ?L = ?L div BSIZE + 1" using part by (simp add: nb_eq)
    ultimately show ?thesis using rd(2) by simp
  qed
  note R = loaded_ok [OF dp im rd(4) this [unfolded fsize_def]]
  have "?L \<le> fsize t 1" unfolding rd(2) using block_left [of ?L] by simp
  then obtain ys where ys: "file_bytes t (dino t 1) (fsize t 1) = root_entries files @ ys" "length ys = fsize t 1 - ?L"
    using file_bytes_split [of ?L "fsize t 1" t "dino t 1"] rd(3) by auto
  have d16: "16 dvd fsize t 1" "16 dvd length ys" unfolding ys(2) rd(2) by (simp_all add: sizes dvd_diff_nat)
  have bytes: "ibytes V (icache s dp) = root_entries files @ ys" using R(2) ys(1) by (simp add: fsize_def)
  have fd: "find_entry (root_entries files @ ys) (file_names files ! k) = Some (2 + k)" by (rule root_found [OF names n k d16(2)])
  have "de_inum (dirent_at (root_entries files @ ys) (2 + k)) = ucast (of_nat (2 + k) :: 32 word)"
    using root_dirent [of "2 + k" files ys] root_list_nth(2) [of "2 + k" files] k by simp
  then have num: "ucast (de_inum (dirent_at (root_entries files @ ys) (2 + k))) = (of_nat (2 + k) :: 32 word)"
    using n k by (simp add: word_unat_eq_iff unsigned_ucast_eq take_bit_eq_mod unat_of_nat NINODES_def del: of_nat_add of_nat_Suc)
  have "i_type (icache s dp) = T_DIR" "unat (i_size (icache s dp)) mod sizeof_dirent = 0" "i_dev (icache s dp) = ROOTDEV"
    using dp rd(1) d16(1) by (auto simp: loaded_def fsize_def sizeof_dirent_def)
  with dirlookup_finds_run [OF s refl R(1)] have lk: "\<exists>u. dirlookup dp (file_names files ! k) s = found_entry ROOTDEV (root_entries files @ ys) (Some (2 + k)) u \<and> cache_ready p E R D V u"
    using bytes fd by metis
  note F = loaded_ok [OF ip im fl(2)]
  have "i_size (icache s ip) = d_size (dino t (2 + k))" using ip by (simp add: loaded_def)
  then have "ibytes V (icache s ip) = host_bytes (files ! k)" "unat (i_size (icache s ip)) = length (host_bytes (files ! k))" "inode_ok V (icache s ip)"
    using F fl(1) length_contents [of t "2 + k"] by (auto simp: fsize_def contents_def)
  moreover have "unat (i_size (icache s ip)) < 2 ^ 32" using unsigned_less [of "i_size (icache s ip)", where ?'a = nat] by simp
  ultimately have
    "\<exists>u. readi ip Kernel 0 (i_size (icache s ip)) s = Inr ((int (length (host_bytes (files ! k))), host_bytes (files ! k)), u) \<and> cache_ready p E R D V u"
    using readi_run [OF s refl, of ip 0 "i_size (icache s ip)"] by auto
  with lk show ?thesis using num by (simp add: found_entry_def sizeof_dirent_def mult.commute)
qed

definition load :: "nat \<Rightarrow> dinode \<Rightarrow> inode" where
  "load n d = \<lparr>i_dev = ROOTDEV, inum = of_nat n, iref = 1, i_valid = True, i_type = d_type d, i_major = d_major d, i_minor = d_minor d,
     i_nlink = d_nlink d, i_size = d_size d, i_addrs = d_addrs d\<rparr>"

definition two_files :: "(byte list \<times> byte list list option) list" where
  "two_files = [(map of_char ''user/_cat'', Some [[7, 8], [9]]), (map of_char ''README'', Some [])]"

theorem image_served_witness:
  "\<exists>t u v. mkfs_main two_files new_img = Inr ((), t) \<and>
     dirlookup 1 (map of_char ''cat'') (fs_boot (\<lambda>d n. sects t (unat n)) (\<lambda>i. load i (dino t i))) =
       bindM (iget ROOTDEV 2) (\<lambda>ip. ret (Some (ip, 32))) u \<and>
     readi 2 Kernel 0 (d_size (dino t 2)) (fs_boot (\<lambda>d n. sects t (unat n)) (\<lambda>i. load i (dino t i))) = Inr ((3, [7, 8, 9]), v)"
proof -
  have f: "image_fits two_files"
    by (simp add: image_fits_def image_blocks_def file_fits_def shortname_def host_bytes_def blocks_def nb_def sizes NINODES_def two_files_def)
  have n: "names_ok two_files" and nm: "file_names two_files ! 0 = map of_char ''cat''" by code_simp+
  have l: "length two_files = 2" "host_bytes (two_files ! 0) = [7, 8, 9]" by (simp_all add: two_files_def host_bytes_def)
  obtain t where t: "mkfs_main two_files new_img = Inr ((), t)" using mkfs_image [OF f] by blast
  let ?s = "fs_boot (\<lambda>d n. sects t (unat n)) (\<lambda>i. load i (dino t i))"
  have ld: "loaded (dino t i) (icache ?s i)" for i by (simp add: loaded_def load_def)
  have "\<exists>u. dirlookup 1 (file_names two_files ! 0) ?s = bindM (iget ROOTDEV (of_nat (2 + 0))) (\<lambda>ip. ret (Some (ip, of_nat (16 * (2 + 0))))) u"
    "\<exists>u. readi 2 Kernel 0 (i_size (icache ?s 2)) ?s = Inr ((int (length (host_bytes (two_files ! 0))), host_bytes (two_files ! 0)), u)"
    using image_served [OF f n _ t _ fs_boot_ready _ ld, of 0 2] ld [of 2] l by (auto simp: sizes)
  then show ?thesis using t l nm by (auto simp: load_def)
qed

end
