(* ===== verification/Spec2Isabelle.thy ===== *)
theory Spec2Isabelle
  imports Spinlock_Steps Buddy_Theorems CString Vm_Theorems Sleep_Steps Boot Pipe_Fifo Log_Atomic Grep Sh_Run Console_Edit Uprintf Bio_Client Mkfs_Read
begin

text \<open>
  Verification of an xv6 system for RISC-V: the kernel under src/kernel with its buddy allocator, priority scheduler,
  several consoles, watchdog and two disks; the library, the shell and grep under src/user; and the builder of the disk
  image, src/mkfs/mkfs.c.

  \<^bold>\<open>The program.\<close>  The kernel boots on several harts, which share one memory and exclude each other with spin locks.  The
  buddy allocator gives out physical memory; page tables, process structures, pipes and queue nodes live in it.  A
  process enters the kernel through a trap; system calls fetch their arguments from its memory and work on files.
  A file is a pipe, a device or an inode; inodes and directories are bytes in disk blocks, which go through the buffer
  cache and, when they change, through the redo log.  The image that mkfs writes is the disk the kernel mounts.  The
  shell turns lines into trees of processes, which print through the library and get memory from it.

  \<^bold>\<open>Style of the model.\<close>  An operation is a function on the state that returns a value and a new state, or an error:
  \<open>('s, 'a) kmon\<close> in theory Xv6_Prelude, with \<open>panic\<close>, null dereference, access outside an array, a call that sleeps and
  a loop that does not end as the errors.  The state is a chain of extensible records, each theory adding the variables of its
  file: \<open>mach\<close> (harts and locks), the list heap, the allocator, memory and page tables, \<open>pstate\<close> (process
  table and queues), pipes, sleep locks, \<open>bstate\<close> (cache and disk), the disk driver, \<open>lstate\<close> (log), \<open>fs_state\<close> (superblock
  and inode cache), \<open>dev_state\<close> (consoles), \<open>file_state\<close>, \<open>trap_state\<close> and the state of the start; an operation of an
  early theory runs on every later state.  Pointers to objects in memory are integers, pointers into fixed tables are
  indices, and counters whose wrap-around matters are words.  A function that calls \<open>sleep\<close> is split there into a part
  that begins, parts that go on after a wakeup, and the function itself, which is the first part with sleeping as an
  outcome; so each definition runs from one point where other processes can run to the next.

  \<^bold>\<open>Theories and sources.\<close>
  \<^item> Xv6_Prelude: the monad with its simplification and weakest-precondition rules, and the locale \<open>invariant_of\<close> of
    transition systems.  Ring: the locale of circular buffers with 32-bit counters.  Bytes: little-endian encodings.
  \<^item> Spinlock, Spinlock_Steps: kernel/spinlock.c, as whole operations and as atomic steps of several harts.
  \<^item> DList, Buddy, Buddy_Init: kernel/list.c, kernel/buddy.c, kernel/kalloc.c.  Buddy_Spec is the tree of blocks without
    memory; Buddy_Correct and Buddy_Boot relate the two; Allocator is the contract of an allocator as a locale, interpreted
    for \<open>bd_malloc\<close> and \<open>bd_free\<close> and for \<open>kalloc\<close> and \<open>kfree\<close>; Buddy_Theorems has the results.
  \<^item> CString: kernel/string.c and the functions on strings and numbers of user/ulib.c.
  \<^item> Vm, Vm_Copy, Vm_Theorems: kernel/vm.c and the macros of kernel/riscv.h and kernel/memlayout.h it uses.
  \<^item> Proc, Proc_Queue, Proc_Sched, Proc_Calm, Proc_Theorems: kernel/proc.c; Proc_Life: \<open>userinit\<close>, \<open>fork\<close>, \<open>exit\<close>.
    Sleep_Steps: \<open>sleep\<close> and \<open>wakeup\<close> as interleaved actions of several harts.
  \<^item> Pipe, Pipe_Fifo: kernel/pipe.c.  Sleeplock: kernel/sleeplock.c.
  \<^item> Bio, Bio_Cache, Bio_Spec, Bio_Client: kernel/bio.c.  Virtio: kernel/virtio_disk.c.  Log, Log_Spec, Log_Atomic:
    kernel/log.c.
  \<^item> Fs, Fs_Dir, Fs_Read: kernel/fs.c.  File: kernel/file.c.  Exec: kernel/exec.c.
  \<^item> Printf, Console, Console_Edit: kernel/printf.c, kernel/uart.c, kernel/console.c, kernel/watchdog.c.
  \<^item> Fcntl, Sysfile, Trap, Boot: kernel/fcntl.h, kernel/syscall.c, kernel/sysfile.c, kernel/sysproc.c, kernel/trap.c,
    kernel/plic.c and kernel/main.c.
  \<^item> Umalloc, Umalloc_Correct, Uprintf: user/umalloc.c, user/printf.c.  Grep: user/grep.c.  Sh, Sh_Roundtrip, Sh_Run:
    user/sh.c.
  \<^item> Mkfs, Mkfs_Correct, Mkfs_Image, Mkfs_Read: mkfs/mkfs.c, and the kernel on its image.

  \<^bold>\<open>What is shown.\<close>
  \<^item> Locks: mutual exclusion and the nesting of interrupts in every interleaving of the steps of all harts; calls that
    return are sequences of these steps.
  \<^item> Allocator: initialisation establishes the invariant and marks exactly the memory in use; blocks handed out never
    overlap; freeing returns exactly the block; after any calls no two buddies are both free; 0 is returned only when nothing fits; the
    search for the size ends below 2^63 bytes and not above.
  \<^item> Memory: what is copied to user memory is copied back, the page-wise copies equal byte-wise ones, \<open>memmove\<close> is right
    for overlapping ranges, and \<open>uvmcopy\<close> panics when the first page cannot be allocated.
  \<^item> Processes: the priority queues refine lists; the scheduler runs the first runnable process of the most urgent queue;
    no wakeup is lost and no deadlock arises in any interleaving of a sleeper with its wakers; \<open>kill\<close> and \<open>nice\<close> on every branch.
  \<^item> Pipes and console: both are instances of Ring.  Writing appends to and reading takes from a queue, also when
    the counters wrap; an interrupt of the UART edits the line of the console that is shown.
  \<^item> Disk: the cache is transparent to its clients, for the blocks the driver can address; \<open>commit\<close> is atomic whatever disk write the machine stops at; recovery
    leaves reference counts below zero.
  \<^item> Files: \<open>readi\<close> into the kernel returns the bytes of the file and \<open>dirlookup\<close> the first entry with the name, for any
    contents of the cache.  mkfs builds an image with every file, and on that image the kernel finds and reads each.
  \<^item> User side: \<open>malloc\<close> and \<open>free\<close> keep the ring of free blocks and hand out fresh memory; for sizes at which an
    \<open>int\<close> wraps \<open>malloc\<close> faults or returns memory the process does not have; \<open>vprintf\<close> prints the text of its format; the matcher of grep decides the language of its pattern, and
    grep writes the lines that match; the parser of the shell inverts printing, and the programs that \<open>main\<close> of the shell
    starts are those its input means, whatever calls of the kernel fail.

  \<^bold>\<open>Bounds and fuel.\<close>  Loops over tables and lists of known length are structural recursions.  The loops of \<open>readi\<close>,
  \<open>writei\<close>, \<open>iappend\<close>, \<open>printint\<close> and the matcher decrease a measure.  Loops that can run for ever, \<open>firstk\<close>
  of the buddy allocator, walks along strings and linked lists, and those of the user's \<open>malloc\<close> and \<open>free\<close>, are partial
  functions in which not returning is \<open>None\<close>, and the results about them include that they return.
  The parser of the shell has fuel: one more than the length of the line, which \<open>parsecmd_returns\<close> shows to be enough.
  \<open>free_chain\<close> of the disk driver has \<open>NUM + 1\<close> rounds, more than there are descriptors to free.

  \<^bold>\<open>Assumptions.\<close>  A transfer between the cache and the disk is one step on the blocks of the disk (\<open>disk_rw\<close> in Bio), which
  is right for disks below \<open>NDISK\<close> and blocks below \<open>2 ^ 31\<close>, whose sectors the driver can name; the driver's own
  steps are modelled in Virtio.  What the hardware or the host decides is an argument of the definitions: the claim of
  the interrupt controller, characters of the UART, registers read from a device, addresses from the linker, what
  \<open>read\<close> returns to a user program, whether \<open>sbrk\<close> has memory, and which calls of the shell the kernel refuses.  In
  Sleep_Steps an action between two points where other harts can interfere is one step, and \<open>acquire\<close> is the step at which it gets the
  lock; Spinlock_Steps shows what is behind it.  Results on pipes, the cache and the log start from a
  hart that runs a process and holds no lock, with the locks that are needed free; the results on \<open>readi\<close> and \<open>dirlookup\<close>
  are for inodes that are in the inode cache already.

  \<^bold>\<open>Not modelled.\<close>  kernel/start.c and the assembly files: machine-mode registers and context switches have no
  counterpart in the state.  The accessors of control registers in kernel/riscv.h other than those used above.
  The statistics of spinning in kernel/spinlock.c, which only \<open>sys_ntas\<close> reads; that call is an argument of the table of calls.
  kernel/ramdisk.c is not part of the build and names fields that \<open>struct buf\<close> does not have.  The test programs,
  user/usertests.c above all: they exercise the kernel, which is modelled itself.  The remaining user programs are
  short sequences of system calls.  Functions of the kernel that only print, \<open>bd_print\<close> and \<open>lst_print\<close>, have no effect
  on the state.
\<close>

end
